(* ===== verification/Git_Prelude.thy ===== *)
theory Git_Prelude
  imports Main "HOL-Library.Word" "HOL-Library.List_Lexorder"
begin

text \<open>
  Shared vocabulary of the development: bytes, Rust's \<open>Result\<close> with panics made explicit,
  slices and the byte-string operations of the standard library the sources use, big-endian
  integers, binary search, and the interface of a self-delimiting wire format
  (\<^theory_text>\<open>prefix_codec\<close>) with the facts every client of such a format shares.
\<close>

section \<open>Bytes, results, panics\<close>

unbundle bit_operations_syntax

type_synonym byte = "8 word"
type_synonym bytes = "8 word list"
type_synonym u32 = "32 word"
type_synonym u64 = "64 word"

named_theorems res_simps "evaluation of fallible computations"
named_theorems byte_simps "lengths and values of encoded byte fields"

text \<open>An ASCII literal such as \<open>b"PACK"\<close> of the source.\<close>

definition ascii :: "string \<Rightarrow> bytes" where
  "ascii s = map of_char s"

lemma ascii_Nil [simp]: "ascii [] = []"
  by (simp add: ascii_def)

lemma ascii_Cons [simp]: "ascii (c # s) = of_char c # ascii s"
  by (simp add: ascii_def)

text \<open>
  A Rust function returning \<open>Result<T, E>\<close> either returns a value, returns an error, or
  panics (an out-of-range index, a slice off a character boundary). The panic is a value of the
  model, so that its absence can be proved.
\<close>

datatype 'e fail = Err 'e | Panic

type_synonym ('e, 'a) res = "'e fail + 'a"

text \<open>The \<open>?\<close> operator: stop at the first failure.\<close>

definition ebind :: "('e, 'a) res \<Rightarrow> ('a \<Rightarrow> ('e, 'b) res) \<Rightarrow> ('e, 'b) res" where
  "ebind r f = (case r of Inl e \<Rightarrow> Inl e | Inr x \<Rightarrow> f x)"

lemma ebind_simps [simp, res_simps]:
  "ebind (Inr x) f = f x"
  "ebind (Inl e) f = Inl e"
  by (simp_all add: ebind_def)

lemma ebind_cong [fundef_cong]:
  "r = r' \<Longrightarrow> (\<And>x. r' = Inr x \<Longrightarrow> f x = g x) \<Longrightarrow> ebind r f = ebind r' g"
  by (auto simp: ebind_def split: sum.splits)

lemma ebind_eq_Inr: "ebind r f = Inr y \<longleftrightarrow> (\<exists>x. r = Inr x \<and> f x = Inr y)"
  by (cases r) auto

lemma ebind_eq_Inl: "ebind r f = Inl e \<longleftrightarrow> r = Inl e \<or> (\<exists>x. r = Inr x \<and> f x = Inl e)"
  by (cases r) auto

lemma if_fail_eq_Inr: "(if b then Inl e else r) = Inr x \<longleftrightarrow> \<not> b \<and> r = Inr x"
  by simp

lemma ebind_assoc: "ebind (ebind r f) g = ebind r (\<lambda>x. ebind (f x) g)"
  by (cases r) auto

text \<open>A computation that never panics.\<close>

definition no_panic :: "('e, 'a) res \<Rightarrow> bool" where
  "no_panic r \<longleftrightarrow> r \<noteq> Inl Panic"

lemma no_panic_simps [simp]:
  "no_panic (Inr x)"
  "no_panic (Inl (Err e))"
  "\<not> no_panic (Inl Panic)"
  by (simp_all add: no_panic_def)

lemma no_panic_ebind [intro]:
  "no_panic r \<Longrightarrow> (\<And>x. r = Inr x \<Longrightarrow> no_panic (f x)) \<Longrightarrow> no_panic (ebind r f)"
  by (cases r) (auto simp: no_panic_def)

lemma no_panic_if [intro]:
  "(b \<Longrightarrow> no_panic r) \<Longrightarrow> (\<not> b \<Longrightarrow> no_panic s) \<Longrightarrow> no_panic (if b then r else s)"
  by simp

lemma no_panic_case_prod:
  "(\<And>a b. x = (a, b) \<Longrightarrow> no_panic (f a b)) \<Longrightarrow> no_panic (case x of (a, b) \<Rightarrow> f a b)"
  by (cases x) simp

lemma no_panic_Let: "no_panic (f x) \<Longrightarrow> no_panic (let y = x in f y)"
  by simp

lemmas no_panic_intros = no_panic_ebind no_panic_if no_panic_case_prod no_panic_Let

lemma no_panic_cases: "no_panic r \<Longrightarrow> (\<exists>e. r = Inl (Err e)) \<or> (\<exists>x. r = Inr x)"
  by (cases r rule: sum.exhaust; cases "projl r") (auto simp: no_panic_def)

text \<open>\<open>Option::ok_or\<close>.\<close>

definition ok_or :: "'a option \<Rightarrow> 'e \<Rightarrow> ('e, 'a) res" where
  "ok_or v e = (case v of None \<Rightarrow> Inl (Err e) | Some x \<Rightarrow> Inr x)"

lemma ok_or_simps [simp, res_simps]:
  "ok_or (Some x) e = Inr x"
  "ok_or None e = Inl (Err e)"
  by (simp_all add: ok_or_def)

lemma ok_or_eq_Inr [simp]: "ok_or v e = Inr x \<longleftrightarrow> v = Some x"
  by (cases v) simp_all

lemma no_panic_ok_or [intro, simp]: "no_panic (ok_or v e)"
  by (cases v) simp_all

text \<open>\<open>map_err(|_| e)\<close>: an error becomes \<open>e\<close>, a panic stays a panic.\<close>

fun map_err :: "'e2 \<Rightarrow> ('e1, 'a) res \<Rightarrow> ('e2, 'a) res" where
  "map_err e (Inr x) = Inr x"
| "map_err e (Inl (Err _)) = Inl (Err e)"
| "map_err e (Inl Panic) = Inl Panic"

lemma map_err_eq_Inr [simp]: "map_err e r = Inr x \<longleftrightarrow> r = Inr x"
  by (cases "(e, r)" rule: map_err.cases) auto

lemma no_panic_map_err [simp]: "no_panic (map_err e r) \<longleftrightarrow> no_panic r"
  by (cases "(e, r)" rule: map_err.cases) auto

section \<open>Slices\<close>

text \<open>\<open>xs.get(a..b)\<close> and the panicking \<open>xs[a..b]\<close>, \<open>xs[i]\<close>.\<close>

definition get_range :: "'a list \<Rightarrow> nat \<Rightarrow> nat \<Rightarrow> 'a list option" where
  "get_range xs a b = (if a \<le> b \<and> b \<le> length xs then Some (take (b - a) (drop a xs)) else None)"

definition slice :: "'a list \<Rightarrow> nat \<Rightarrow> nat \<Rightarrow> ('e, 'a list) res" where
  "slice xs a b = (case get_range xs a b of None \<Rightarrow> Inl Panic | Some ys \<Rightarrow> Inr ys)"

definition index :: "'a list \<Rightarrow> nat \<Rightarrow> ('e, 'a) res" where
  "index xs i = (if i < length xs then Inr (xs ! i) else Inl Panic)"

lemma slice_ok: "a \<le> b \<Longrightarrow> b \<le> length xs \<Longrightarrow> slice xs a b = Inr (take (b - a) (drop a xs))"
  by (simp add: slice_def get_range_def)

lemma index_ok [simp]: "i < length xs \<Longrightarrow> index xs i = Inr (xs ! i)"
  by (simp add: index_def)

lemma slice_eq_Inr:
  "slice xs a b = Inr ys \<longleftrightarrow> a \<le> b \<and> b \<le> length xs \<and> ys = take (b - a) (drop a xs)"
  by (auto simp: slice_def get_range_def)

lemma get_range_eq_Some:
  "get_range xs a b = Some ys \<longleftrightarrow> a \<le> b \<and> b \<le> length xs \<and> ys = take (b - a) (drop a xs)"
  by (auto simp: get_range_def)

lemma get_range_append:
  "length p = a \<Longrightarrow> length m = n \<Longrightarrow> get_range (p @ m @ s) a (a + n) = Some m"
  by (simp add: get_range_def)

lemma slice_append:
  "length p = a \<Longrightarrow> length m + a = b \<Longrightarrow> slice (p @ m @ s) a b = Inr m"
  by (auto simp: slice_def get_range_def)

text \<open>\<open>iter().position(p)\<close>.\<close>

fun position :: "('a \<Rightarrow> bool) \<Rightarrow> 'a list \<Rightarrow> nat option" where
  "position p [] = None"
| "position p (x # xs) = (if p x then Some 0 else map_option Suc (position p xs))"

lemma position_Some:
  "position p xs = Some i \<longleftrightarrow> i < length xs \<and> p (xs ! i) \<and> (\<forall>j < i. \<not> p (xs ! j))"
proof (induction xs arbitrary: i)
  case (Cons x xs)
  show ?case
    by (cases i) (auto simp: Cons.IH less_Suc_eq_0_disj)
qed simp

lemma position_None: "position p xs = None \<longleftrightarrow> (\<forall>x \<in> set xs. \<not> p x)"
  by (induction xs) auto

lemma position_append_first:
  "\<forall>x \<in> set xs. \<not> p x \<Longrightarrow> p y \<Longrightarrow> position p (xs @ y # ys) = Some (length xs)"
  by (induction xs) auto

lemma position_less: "position p xs = Some i \<Longrightarrow> i < length xs"
  by (simp add: position_Some)

text \<open>\<open>rfind\<close>, \<open>rposition\<close> of one byte.\<close>

definition rfind :: "byte \<Rightarrow> bytes \<Rightarrow> nat option" where
  "rfind c s = map_option (\<lambda>i. length s - 1 - i) (position (\<lambda>b. b = c) (rev s))"

lemma rfind_append: "c \<notin> set q \<Longrightarrow> rfind c (p @ c # q) = Some (length p)"
  using position_append_first [of "rev q" "\<lambda>b. b = c" c "rev p"] by (force simp: rfind_def)

lemma rfind_SomeD:
  assumes "rfind c s = Some i"
  obtains p q where "s = p @ c # q" "c \<notin> set q" "i = length p"
proof (cases "c \<in> set s")
  case True
  then obtain p q where "s = p @ c # q" "c \<notin> set q"
    by (metis split_list_last)
  then show ?thesis
    using that assms rfind_append by force
next
  case False
  then have "position (\<lambda>b. b = c) (rev s) = None"
    by (auto simp: position_None)
  then show ?thesis
    using assms by (simp add: rfind_def)
qed

text \<open>\<open>strip_prefix\<close>, \<open>starts_with\<close>.\<close>

fun strip_prefix :: "'a list \<Rightarrow> 'a list \<Rightarrow> 'a list option" where
  "strip_prefix [] xs = Some xs"
| "strip_prefix (p # ps) [] = None"
| "strip_prefix (p # ps) (x # xs) = (if p = x then strip_prefix ps xs else None)"

definition starts_with :: "'a list \<Rightarrow> 'a list \<Rightarrow> bool" where
  "starts_with p xs \<longleftrightarrow> strip_prefix p xs \<noteq> None"

lemma strip_prefix_Some: "strip_prefix p xs = Some r \<longleftrightarrow> xs = p @ r"
  by (induction p xs rule: strip_prefix.induct) auto

lemma strip_prefix_append [simp]: "strip_prefix p (p @ r) = Some r"
  by (simp add: strip_prefix_Some)

lemma starts_with_iff: "starts_with p xs \<longleftrightarrow> (\<exists>r. xs = p @ r)"
  by (auto simp: starts_with_def strip_prefix_Some)


section \<open>Big-endian integers\<close>

text \<open>
  \<open>be_bytes n x\<close> is the \<open>n\<close>-byte big-endian form of \<open>x mod 256 ^ n\<close>
  (\<open>to_be_bytes\<close>), \<open>be_val\<close> its inverse (\<open>from_be_bytes\<close>).
\<close>

fun be_bytes :: "nat \<Rightarrow> nat \<Rightarrow> bytes" where
  "be_bytes 0 x = []"
| "be_bytes (Suc n) x = be_bytes n (x div 256) @ [word_of_nat x]"

definition be_val :: "bytes \<Rightarrow> nat" where
  "be_val bs = foldl (\<lambda>acc b. acc * 256 + unat b) 0 bs"

lemma unat_bound: "unat (w :: 'a::len word) < 2 ^ LENGTH('a)"
  by (rule unsigned_less)

lemma length_be_bytes [simp, byte_simps]: "length (be_bytes n x) = n"
  by (induction n arbitrary: x) auto

lemma be_val_Nil [simp]: "be_val [] = 0"
  by (simp add: be_val_def)

lemma be_val_snoc [simp]: "be_val (xs @ [b]) = be_val xs * 256 + unat b"
  by (simp add: be_val_def)

lemma unat_byte_of_nat: "unat (word_of_nat x :: byte) = x mod 256"
  by (simp add: unat_of_nat)

lemma be_val_be_bytes [byte_simps]: "be_val (be_bytes n x) = x mod 256 ^ n"
proof (induction n arbitrary: x)
  case (Suc n)
  have "x mod 256 ^ Suc n = 256 * (x div 256 mod 256 ^ n) + x mod 256"
    by (simp add: mod_mult2_eq)
  then show ?case
    by (simp add: Suc.IH unat_byte_of_nat)
qed simp

lemma be_val_bound: "be_val bs < 256 ^ length bs"
proof (induction bs rule: rev_induct)
  case (snoc b bs)
  have "unat b < 256"
    using unat_bound [of b] by simp
  with snoc show ?case
    by simp
qed simp

lemma be_bytes_be_val [byte_simps]: "be_bytes (length bs) (be_val bs) = bs"
proof (induction bs rule: rev_induct)
  case (snoc b bs)
  have b: "unat b < 256"
    using unat_bound [of b] by simp
  have "(be_val bs * 256 + unat b) div 256 = be_val bs"
    using b by simp
  moreover have "(word_of_nat (be_val bs * 256 + unat b) :: byte) = b"
  proof -
    have "(256 :: byte) = 0"
      by simp
    then show ?thesis
      by (simp only: of_nat_add of_nat_mult of_nat_numeral) simp
  qed
  ultimately show ?case
    using snoc by simp
qed simp

definition to_be32 :: "u32 \<Rightarrow> bytes" where
  "to_be32 w = be_bytes 4 (unat w)"

definition to_be64 :: "u64 \<Rightarrow> bytes" where
  "to_be64 w = be_bytes 8 (unat w)"

definition from_be32 :: "bytes \<Rightarrow> u32" where
  "from_be32 bs = word_of_nat (be_val bs)"

definition from_be64 :: "bytes \<Rightarrow> u64" where
  "from_be64 bs = word_of_nat (be_val bs)"

lemma length_to_be [simp, byte_simps]:
  "length (to_be32 w) = 4" "length (to_be64 v) = 8"
  by (simp_all add: to_be32_def to_be64_def)

lemma from_to_be32 [simp, byte_simps]: "from_be32 (to_be32 w) = w"
  using unat_bound [of w] by (simp add: from_be32_def to_be32_def be_val_be_bytes)

lemma from_to_be64 [simp, byte_simps]: "from_be64 (to_be64 w) = w"
  using unat_bound [of w] by (simp add: from_be64_def to_be64_def be_val_be_bytes)

lemma to_from_be32: "length bs = 4 \<Longrightarrow> to_be32 (from_be32 bs) = bs"
  using be_val_bound [of bs] be_bytes_be_val [of bs]
  by (simp add: from_be32_def to_be32_def unat_of_nat)

lemma to_from_be64: "length bs = 8 \<Longrightarrow> to_be64 (from_be64 bs) = bs"
  using be_val_bound [of bs] be_bytes_be_val [of bs]
  by (simp add: from_be64_def to_be64_def unat_of_nat)

section \<open>Splitting\<close>

text \<open>\<open>slice::split\<close> (always at least one piece) and \<open>split_inclusive\<close>.\<close>

fun split_on :: "'a \<Rightarrow> 'a list \<Rightarrow> 'a list list" where
  "split_on d [] = [[]]"
| "split_on d (x # xs) =
     (if x = d then [] # split_on d xs
      else (case split_on d xs of [] \<Rightarrow> [[x]] | y # ys \<Rightarrow> (x # y) # ys))"

fun split_inclusive :: "'a \<Rightarrow> 'a list \<Rightarrow> 'a list list" where
  "split_inclusive d [] = []"
| "split_inclusive d (x # xs) =
     (if x = d then [x] # split_inclusive d xs
      else (case split_inclusive d xs of [] \<Rightarrow> [[x]] | y # ys \<Rightarrow> (x # y) # ys))"

lemma split_on_nonempty [simp]: "split_on d xs \<noteq> []"
  by (cases xs) (auto split: list.splits)

lemma split_on_free: "d \<notin> set xs \<Longrightarrow> split_on d xs = [xs]"
  by (induction xs) auto

lemma split_on_append: "d \<notin> set x \<Longrightarrow> split_on d (x @ d # r) = x # split_on d r"
  by (induction x) auto

lemma split_on_pieces_free: "y \<in> set (split_on d xs) \<Longrightarrow> d \<notin> set y"
proof (induction xs arbitrary: y)
  case (Cons x xs)
  then show ?case
    by (cases "split_on d xs") (auto split: if_splits)
qed simp

lemma concat_split_inclusive [simp]: "concat (split_inclusive d xs) = xs"
proof (induction xs)
  case (Cons x xs)
  then show ?case
    by (cases "split_inclusive d xs") auto
qed simp

lemma split_inclusive_free: "d \<notin> set xs \<Longrightarrow> split_inclusive d xs = (if xs = [] then [] else [xs])"
  by (induction xs) auto

lemma split_inclusive_line:
  "d \<notin> set l \<Longrightarrow> split_inclusive d (l @ d # r) = (l @ [d]) # split_inclusive d r"
  by (induction l) auto

lemma length_split_inclusive: "length (split_inclusive d xs) \<le> length xs"
proof (induction xs)
  case (Cons x xs)
  then show ?case
    by (cases "split_inclusive d xs") auto
qed simp

text \<open>\<open>windows(2)\<close>.\<close>

definition windows2 :: "'a list \<Rightarrow> ('a \<times> 'a) list" where
  "windows2 xs = zip xs (tl xs)"

lemma windows2_simps [simp]:
  "windows2 [] = []" "windows2 [x] = []"
  "windows2 (x # y # zs) = (x, y) # windows2 (y # zs)"
  by (simp_all add: windows2_def)

lemma no_window_strict_sorted:
  "\<not> (\<exists>(a, b) \<in> set (windows2 xs). b \<le> (a::'a::linorder)) \<longleftrightarrow> sorted_wrt (<) xs"
proof (induction xs rule: induct_list012)
  case (3 x y zs)
  then show ?case
    by (auto simp: not_le) (metis less_trans)
qed auto

text \<open>\<open>as_chunks\<close>: the whole pieces of length \<open>n\<close>; the remainder is dropped.\<close>

function as_chunks :: "nat \<Rightarrow> 'a list \<Rightarrow> 'a list list" where
  "as_chunks n xs = (if n = 0 \<or> length xs < n then [] else take n xs # as_chunks n (drop n xs))"
  by pat_completeness auto
termination
  by (relation "measure (\<lambda>(_, xs). length xs)") auto

declare as_chunks.simps [simp del]

lemma as_chunks_concat:
  "0 < n \<Longrightarrow> \<forall>c \<in> set cs. length c = n \<Longrightarrow> as_chunks n (concat cs) = cs"
proof (induction cs)
  case (Cons c cs)
  then show ?case
    by (subst as_chunks.simps) auto
qed (simp add: as_chunks.simps)

lemma length_concat_same: "\<forall>c \<in> set cs. length c = n \<Longrightarrow> length (concat cs) = length cs * n"
  by (induction cs) auto

lemma concat_map_to_be64: "as_chunks 8 (concat (map to_be64 ws)) = map to_be64 ws"
  by (rule as_chunks_concat) auto

lemma length_concat_be64 [simp, byte_simps]: "length (concat (map to_be64 ws)) = 8 * length ws"
  by (induction ws) auto

lemma length_concat_be32 [simp, byte_simps]: "length (concat (map to_be32 vs)) = 4 * length vs"
  by (induction vs) auto

section \<open>Binary search\<close>

text \<open>
  \<open>slice::binary_search\<close> of the standard library: halve the window, keep the half whose
  first element is not above the target, and compare once at the end.
\<close>

function bsearch_loop :: "'a::linorder list \<Rightarrow> 'a \<Rightarrow> nat \<Rightarrow> nat \<Rightarrow> nat" where
  "bsearch_loop xs x base n =
     (if n \<le> 1 then base
      else let half = n div 2; mid = base + half
           in bsearch_loop xs x (if x < xs ! mid then base else mid) (n - half))"
  by pat_completeness auto
termination
  by (relation "measure (\<lambda>(_, _, _, n). n)") auto

declare bsearch_loop.simps [simp del]

definition binary_search :: "'a::linorder list \<Rightarrow> 'a \<Rightarrow> nat option" where
  "binary_search xs x =
     (if xs = [] then None
      else let i = bsearch_loop xs x 0 (length xs) in if xs ! i = x then Some i else None)"

lemma bsearch_loop_less: "0 < n \<Longrightarrow> bsearch_loop xs x base n < base + n"
proof (induction xs x base n rule: bsearch_loop.induct)
  case (1 xs x base n)
  show ?case
  proof (cases "n \<le> 1")
    case True
    with "1.prems" show ?thesis
      by (simp add: bsearch_loop.simps [of xs x base n])
  next
    case False
    with "1.IH" [OF False refl refl] show ?thesis
      by (subst bsearch_loop.simps) (auto simp: Let_def split: if_splits)
  qed
qed

lemma bsearch_loop_finds:
  assumes "sorted_wrt (<) xs" "base + n \<le> length xs"
    and "base \<le> i" "i < base + n" "xs ! i = x"
  shows "bsearch_loop xs x base n = i"
  using assms
proof (induction xs x base n rule: bsearch_loop.induct)
  case (1 xs x base n)
  show ?case
  proof (cases "n \<le> 1")
    case True
    with "1.prems" show ?thesis
      by (simp add: bsearch_loop.simps [of xs x base n])
  next
    case False
    define mid where "mid = base + n div 2"
    have mid: "mid < length xs" and i: "i < length xs"
      using False "1.prems" by (auto simp: mid_def)
    have "x < xs ! mid \<longleftrightarrow> i < mid"
      using sorted_wrt_nth_less [OF "1.prems"(1), of i mid]
        sorted_wrt_nth_less [OF "1.prems"(1), of mid i] mid i "1.prems"(5)
      by (cases i mid rule: linorder_cases) auto
    then have "bsearch_loop xs x (if x < xs ! mid then base else mid) (n - n div 2) = i"
      using "1.prems" False by (intro "1.IH" [OF False refl mid_def]) (auto simp: mid_def)
    with False show ?thesis
      by (subst bsearch_loop.simps) (auto simp: mid_def Let_def split: if_splits)
  qed
qed

lemma binary_search_Some:
  assumes "sorted_wrt (<) xs"
  shows "binary_search xs x = Some i \<longleftrightarrow> i < length xs \<and> xs ! i = x"
proof
  assume "binary_search xs x = Some i"
  then show "i < length xs \<and> xs ! i = x"
    using bsearch_loop_less [of "length xs" xs x 0]
    by (auto simp: binary_search_def Let_def split: if_splits)
next
  assume "i < length xs \<and> xs ! i = x"
  then show "binary_search xs x = Some i"
    using bsearch_loop_finds [OF assms, of 0 "length xs" i x]
    by (auto simp: binary_search_def Let_def)
qed

lemma binary_search_None:
  assumes "sorted_wrt (<) xs"
  shows "binary_search xs x = None \<longleftrightarrow> x \<notin> set xs"
proof (cases "binary_search xs x")
  case None
  then show ?thesis
    using binary_search_Some [OF assms, of x] by (metis in_set_conv_nth option.distinct(1))
next
  case (Some i)
  then show ?thesis
    using binary_search_Some [OF assms, of x i] by auto
qed

section \<open>UTF-8\<close>

text \<open>
  \<open>str::from_utf8\<close>: the well-formed byte sequences of the Unicode standard (no overlong
  forms, no surrogates, nothing above U+10FFFF). A \<open>&str\<close> is a byte list that satisfies it.
\<close>

definition cont_byte :: "byte \<Rightarrow> bool" where
  "cont_byte b \<longleftrightarrow> 0x80 \<le> b \<and> b \<le> 0xBF"

definition utf8_2 :: "byte \<Rightarrow> byte \<Rightarrow> bool" where
  "utf8_2 a b \<longleftrightarrow> 0xC2 \<le> a \<and> a \<le> 0xDF \<and> cont_byte b"

definition utf8_3 :: "byte \<Rightarrow> byte \<Rightarrow> byte \<Rightarrow> bool" where
  "utf8_3 a b c \<longleftrightarrow> 0xE0 \<le> a \<and> a \<le> 0xEF \<and> cont_byte b \<and> cont_byte c
     \<and> (a = 0xE0 \<longrightarrow> 0xA0 \<le> b) \<and> (a = 0xED \<longrightarrow> b \<le> 0x9F)"

definition utf8_4 :: "byte \<Rightarrow> byte \<Rightarrow> byte \<Rightarrow> byte \<Rightarrow> bool" where
  "utf8_4 a b c d \<longleftrightarrow> 0xF0 \<le> a \<and> a \<le> 0xF4 \<and> cont_byte b \<and> cont_byte c \<and> cont_byte d
     \<and> (a = 0xF0 \<longrightarrow> 0x90 \<le> b) \<and> (a = 0xF4 \<longrightarrow> b \<le> 0x8F)"

fun utf8_valid :: "bytes \<Rightarrow> bool" where
  "utf8_valid [] = True"
| "utf8_valid (a # r) =
     (if a < 0x80 then utf8_valid r
      else case r of [] \<Rightarrow> False | b # r1 \<Rightarrow>
        if utf8_2 a b then utf8_valid r1
        else (case r1 of [] \<Rightarrow> False | c # r2 \<Rightarrow>
          if utf8_3 a b c then utf8_valid r2
          else (case r2 of [] \<Rightarrow> False | d # r3 \<Rightarrow> utf8_4 a b c d \<and> utf8_valid r3)))"

text \<open>Where a \<open>&str\<close> may be cut: \<open>str::is_char_boundary\<close>; indexing elsewhere panics.\<close>

definition char_boundary :: "bytes \<Rightarrow> nat \<Rightarrow> bool" where
  "char_boundary s i \<longleftrightarrow> i = 0 \<or> i = length s \<or> (i < length s \<and> \<not> cont_byte (s ! i))"

definition str_slice :: "bytes \<Rightarrow> nat \<Rightarrow> nat \<Rightarrow> ('e, bytes) res" where
  "str_slice s a b =
     (if a \<le> b \<and> b \<le> length s \<and> char_boundary s a \<and> char_boundary s b
      then Inr (take (b - a) (drop a s)) else Inl Panic)"

definition ascii_only :: "bytes \<Rightarrow> bool" where
  "ascii_only s \<longleftrightarrow> (\<forall>b \<in> set s. b < 0x80)"

lemma ascii_only_simps [simp]:
  "ascii_only []"
  "ascii_only (b # s) \<longleftrightarrow> b < 0x80 \<and> ascii_only s"
  "ascii_only (s @ t) \<longleftrightarrow> ascii_only s \<and> ascii_only t"
  by (auto simp: ascii_only_def)

lemma utf8_valid_ascii: "ascii_only s \<Longrightarrow> utf8_valid s"
  by (induction s) auto

lemma utf8_valid_append: "utf8_valid s \<Longrightarrow> utf8_valid t \<Longrightarrow> utf8_valid (s @ t)"
proof (induction s rule: utf8_valid.induct)
  case (2 a r)
  show ?case
  proof (cases "a < 0x80")
    case True
    with 2 show ?thesis by simp
  next
    case a: False
    then obtain b r1 where r: "r = b # r1"
      using "2.prems" by (cases r) auto
    show ?thesis
    proof (cases "utf8_2 a b")
      case True
      with 2 a r show ?thesis by simp
    next
      case b: False
      then obtain c r2 where r1: "r1 = c # r2"
        using "2.prems" a r by (cases r1) auto
      show ?thesis
      proof (cases "utf8_3 a b c")
        case True
        with 2 a b r r1 show ?thesis by simp
      next
        case c: False
        then obtain d r3 where "r2 = d # r3"
          using "2.prems" a b r r1 by (cases r2) auto
        with 2 a b c r r1 show ?thesis by simp
      qed
    qed
  qed
qed simp

lemma char_boundary_ascii: "ascii_only s \<Longrightarrow> i \<le> length s \<Longrightarrow> char_boundary s i"
  by (cases "i < length s")
     (auto simp: char_boundary_def ascii_only_def cont_byte_def not_le dest: nth_mem)

lemma str_slice_ascii:
  "ascii_only s \<Longrightarrow> a \<le> b \<Longrightarrow> b \<le> length s \<Longrightarrow> str_slice s a b = Inr (take (b - a) (drop a s))"
  by (simp add: str_slice_def char_boundary_ascii)

section \<open>Machine-size integers\<close>

text \<open>
  \<open>usize\<close> and \<open>u64\<close> are natural numbers below \<open>2 ^ 64\<close> (a 64-bit target) with the
  checked operations written out. \<open>checked_shl\<close> checks the shift amount only: bits shifted
  past the top are lost.
\<close>

definition usize_lim :: nat where "usize_lim = 2 ^ 64"

definition checked_add :: "nat \<Rightarrow> nat \<Rightarrow> nat option" where
  "checked_add a b = (if a + b < usize_lim then Some (a + b) else None)"

definition checked_mul :: "nat \<Rightarrow> nat \<Rightarrow> nat option" where
  "checked_mul a b = (if a * b < usize_lim then Some (a * b) else None)"

definition checked_sub :: "nat \<Rightarrow> nat \<Rightarrow> nat option" where
  "checked_sub a b = (if b \<le> a then Some (a - b) else None)"

definition checked_shl :: "nat \<Rightarrow> nat \<Rightarrow> nat option" where
  "checked_shl a s = (if s < 64 then Some (push_bit s a mod usize_lim) else None)"

lemma checked_add_Some [simp]: "checked_add a b = Some c \<longleftrightarrow> a + b < usize_lim \<and> c = a + b"
  by (auto simp: checked_add_def)

lemma checked_mul_Some [simp]: "checked_mul a b = Some c \<longleftrightarrow> a * b < usize_lim \<and> c = a * b"
  by (auto simp: checked_mul_def)

lemma checked_sub_Some [simp]: "checked_sub a b = Some c \<longleftrightarrow> b \<le> a \<and> c = a - b"
  by (auto simp: checked_sub_def)

text \<open>The seven-bit groups of the variable-length integers.\<close>

lemma and_7f: "(n :: nat) AND 0x7f = n mod 128"
proof -
  have "n AND 0x7f = take_bit 7 n"
    by (simp add: take_bit_eq_mask mask_numeral)
  then show ?thesis
    by (simp add: take_bit_eq_mod)
qed

lemma and_ff: "(n :: nat) AND 0xff = take_bit 8 n"
  by (simp add: take_bit_eq_mask mask_numeral)

lemma byte_and_7f: "(b :: byte) AND 0x7f = take_bit 7 b"
  by (simp add: take_bit_eq_mask mask_numeral)

lemma byte_and_80: "(b :: byte) AND 0x80 = 0 \<longleftrightarrow> \<not> bit b 7"
  using bit_iff_and_push_bit_not_eq_0 [of b 7] by simp

lemma byte_group:
  assumes "n < 128"
  shows "unat ((word_of_nat n OR 0x80 :: byte) AND 0x7f) = n"
    "(word_of_nat n OR 0x80 :: byte) AND 0x80 \<noteq> 0"
    "unat ((word_of_nat n :: byte) AND 0x7f) = n"
    "(word_of_nat n :: byte) AND 0x80 = 0"
proof -
  have t: "take_bit 7 (word_of_nat n :: byte) = word_of_nat n"
    using assms by (simp add: word_unat_eq_iff unsigned_take_bit_eq unat_of_nat take_bit_nat_eq_self)
  have n: "unat (word_of_nat n :: byte) = n"
    using assms by (simp add: unat_of_nat)
  have "take_bit 7 (0x80 :: byte) = 0"
    by (simp add: bit_eq_iff bit_simps)
  then have "take_bit 7 (word_of_nat n OR 0x80 :: byte) = word_of_nat n"
    by (simp add: take_bit_or t)
  with t n show "unat ((word_of_nat n OR 0x80 :: byte) AND 0x7f) = n"
    "unat ((word_of_nat n :: byte) AND 0x7f) = n"
    by (simp_all add: byte_and_7f)
  have "bit (0x80 :: byte) 7"
    by simp
  then show "(word_of_nat n OR 0x80 :: byte) AND 0x80 \<noteq> 0"
    by (simp add: byte_and_80 bit_or_iff)
  have "\<not> bit (take_bit 7 (word_of_nat n :: byte)) 7"
    by (simp add: bit_take_bit_iff)
  then show "(word_of_nat n :: byte) AND 0x80 = 0"
    by (simp add: t byte_and_80)
qed

text \<open>A byte field of a little-endian integer.\<close>

lemma take_bit_add_field:
  "take_bit (m + k) (v :: nat) = take_bit m v OR push_bit m (take_bit k (drop_bit m v))"
  by (rule bit_eqI) (auto simp: bit_simps)

section \<open>Decimal and hexadecimal integers\<close>

text \<open>
  \<open>to_string\<close> of an unsigned integer, and \<open>from_str_radix\<close> / \<open>parse\<close>: an
  optional leading \<open>+\<close>, then at least one digit of the radix (either letter case), with an
  overflow check at every digit. \<open>lim\<close> is the first value the integer type cannot hold.
\<close>

fun dec_nat :: "nat \<Rightarrow> bytes" where
  "dec_nat n = (if n < 10 then [word_of_nat (48 + n)]
                else dec_nat (n div 10) @ [word_of_nat (48 + n mod 10)])"

declare dec_nat.simps [simp del]

definition digit_val :: "nat \<Rightarrow> byte \<Rightarrow> nat option" where
  "digit_val radix c =
     (let v = (if 0x30 \<le> c \<and> c \<le> 0x39 then Some (unat c - 48)
               else if 0x61 \<le> c \<and> c \<le> 0x7A then Some (unat c - 87)
               else if 0x41 \<le> c \<and> c \<le> 0x5A then Some (unat c - 55)
               else None)
      in case v of None \<Rightarrow> None | Some d \<Rightarrow> if d < radix then Some d else None)"

fun parse_digits :: "nat \<Rightarrow> nat \<Rightarrow> nat \<Rightarrow> bytes \<Rightarrow> nat option" where
  "parse_digits radix lim acc [] = Some acc"
| "parse_digits radix lim acc (c # cs) =
     (case digit_val radix c of None \<Rightarrow> None
      | Some d \<Rightarrow> if acc * radix + d < lim then parse_digits radix lim (acc * radix + d) cs else None)"

definition parse_unsigned :: "nat \<Rightarrow> nat \<Rightarrow> bytes \<Rightarrow> nat option" where
  "parse_unsigned radix lim s =
     (case s of [] \<Rightarrow> None
      | c # r \<Rightarrow> if c = 0x2B then (if r = [] then None else parse_digits radix lim 0 r)
                else parse_digits radix lim 0 s)"

lemma dec_nat_nonempty [simp]: "dec_nat n \<noteq> []"
  by (subst dec_nat.simps) simp

lemma digit_byte: "n < 10 \<Longrightarrow> unat (word_of_nat (48 + n) :: byte) = 48 + n"
  by (simp only: unat_byte_of_nat) simp

lemma digit_val_dec: "n < 10 \<Longrightarrow> digit_val 10 (word_of_nat (48 + n)) = Some n"
  using digit_byte [of n]
  by (simp only: digit_val_def word_le_nat_alt) simp

lemma parse_digits_append:
  "parse_digits r lim acc (xs @ ys) =
     (case parse_digits r lim acc xs of None \<Rightarrow> None | Some a \<Rightarrow> parse_digits r lim a ys)"
  by (induction xs arbitrary: acc) (auto split: option.splits)

lemma parse_digits_dec_nat: "n < lim \<Longrightarrow> parse_digits 10 lim 0 (dec_nat n) = Some n"
proof (induction n rule: dec_nat.induct)
  case (1 n)
  show ?case
  proof (cases "n < 10")
    case True
    with 1 show ?thesis
      by (subst dec_nat.simps) (simp add: digit_val_dec del: of_nat_add)
  next
    case False
    with 1 have "parse_digits 10 lim 0 (dec_nat (n div 10)) = Some (n div 10)"
      by simp
    with False 1 show ?thesis
      by (subst dec_nat.simps) (simp add: digit_val_dec parse_digits_append del: of_nat_add)
  qed
qed

lemma dec_nat_digits: "\<forall>c \<in> set (dec_nat n). 48 \<le> unat c \<and> unat c \<le> 57"
proof (induction n rule: dec_nat.induct)
  case (1 n)
  then show ?case
    by (subst dec_nat.simps) (auto simp: digit_byte simp del: of_nat_add)
qed

lemma dec_nat_ascii: "ascii_only (dec_nat n)"
  using dec_nat_digits [of n] by (force simp: ascii_only_def word_less_nat_alt)

lemma dec_nat_mem: "c \<in> set (dec_nat n) \<Longrightarrow> 48 \<le> unat c \<and> unat c \<le> 57"
  using dec_nat_digits by blast

lemma parse_dec_nat [simp]: "n < lim \<Longrightarrow> parse_unsigned 10 lim (dec_nat n) = Some n"
proof -
  assume n: "n < lim"
  obtain c r where cr: "dec_nat n = c # r"
    by (cases "dec_nat n") auto
  have "c \<noteq> 0x2B"
    using dec_nat_mem [of c n] cr by auto
  with cr parse_digits_dec_nat [OF n] show ?thesis
    by (simp add: parse_unsigned_def)
qed

section \<open>Self-delimiting wire formats\<close>

text \<open>
  The interface every frame format of the sources offers to the code that reads a stream of
  frames: the reader, given the bytes of a frame followed by anything, returns the value and
  the number of bytes it used.
\<close>

locale prefix_codec =
  fixes enc :: "'a \<Rightarrow> bytes"
    and dec :: "bytes \<Rightarrow> ('e, 'b \<times> nat) res"
    and view :: "'a \<Rightarrow> 'b"
    and valid :: "'a \<Rightarrow> bool"
  assumes dec_enc: "valid x \<Longrightarrow> dec (enc x @ rest) = Inr (view x, length (enc x))"
begin

lemma dec_enc_whole: "valid x \<Longrightarrow> dec (enc x) = Inr (view x, length (enc x))"
  using dec_enc [of x "[]"] by simp

lemma dec_at: "valid x \<Longrightarrow> length p = k \<Longrightarrow> dec (drop k (p @ enc x @ rest)) = Inr (view x, length (enc x))"
  using dec_enc [of x rest] by simp

lemma view_unique:
  assumes "valid x" "valid y" "enc x @ r = enc y @ s"
  shows "view x = view y \<and> enc x = enc y \<and> r = s"
proof -
  have "(view x, length (enc x)) = (view y, length (enc y))"
    using dec_enc [OF assms(1), of r] dec_enc [OF assms(2), of s] assms(3) by simp
  with assms(3) show ?thesis
    by simp
qed

lemma prefix_free:
  "valid x \<Longrightarrow> valid y \<Longrightarrow> enc x @ r = enc y \<Longrightarrow> r = []"
  using view_unique [of x y r "[]"] by simp

end

text \<open>Reading a fixed number of frames in a row, as the stream readers do.\<close>

fun read_frames :: "(bytes \<Rightarrow> ('e, 'b \<times> nat) res) \<Rightarrow> nat \<Rightarrow> bytes \<Rightarrow> ('e, 'b list \<times> bytes) res" where
  "read_frames d 0 bs = Inr ([], bs)"
| "read_frames d (Suc n) bs =
     ebind (d bs) (\<lambda>(x, k). ebind (read_frames d n (drop k bs)) (\<lambda>(xs, r). Inr (x # xs, r)))"

context prefix_codec
begin

lemma read_frames_concat:
  "list_all valid xs \<Longrightarrow>
   read_frames dec (length xs) (concat (map enc xs) @ rest) = Inr (map view xs, rest)"
  by (induction xs) (simp_all add: dec_enc)

end

end
