(* ===== verification/Git_Object.thy ===== *)
theory Git_Object
  imports Git_Prelude
begin

text \<open>
  The object model of \<open>crates/core/gitana-object\<close>: its errors (\<open>lib.rs\<close>), object
  kinds (\<open>kind.rs\<close>), the hash algorithms (\<open>hash_algorithm.rs\<close>, \<open>sha1.rs\<close>,
  \<open>sha256.rs\<close>), object ids (\<open>id.rs\<close>) and the payload helpers of \<open>text.rs\<close>.
  The digest functions themselves are library code outside the repository: a field of the hash
  algorithm, of which the model relies only on the output width.
\<close>

section \<open>Errors and kinds\<close>

datatype object_error =
    MalformedHeader
  | LengthMismatch nat nat
  | TooLarge
  | Zlib string
  | InvalidObjectId
  | InvalidTreeName
  | InvalidTreeMode
  | NullTreeEntry
  | DuplicateTreeEntry
  | TreeNotSorted
  | InvalidCommitStructure
  | InvalidCommitIdentity
  | MalformedPack
  | MalformedPackIndex
  | MalformedMultiPackIndex
  | MalformedEwah
  | MalformedBitmap
  | MalformedDelta
  | UnresolvedDeltaBase
  | MalformedPktLine
  | MissingObject

type_synonym 'a ores = "(object_error, 'a) res"

abbreviation fail_with :: "object_error \<Rightarrow> 'a ores" where
  "fail_with e \<equiv> Inl (Err e)"

datatype object_kind = Blob | Tree | Commit | Tag

fun as_str :: "object_kind \<Rightarrow> bytes" where
  "as_str Blob = ascii ''blob''"
| "as_str Tree = ascii ''tree''"
| "as_str Commit = ascii ''commit''"
| "as_str Tag = ascii ''tag''"

definition from_wire :: "bytes \<Rightarrow> object_kind ores" where
  "from_wire name =
     (if name = ascii ''blob'' then Inr Blob
      else if name = ascii ''tree'' then Inr Tree
      else if name = ascii ''commit'' then Inr Commit
      else if name = ascii ''tag'' then Inr Tag
      else fail_with MalformedHeader)"

lemma from_wire_as_str [simp]: "from_wire (as_str k) = Inr k"
  by (cases k) (simp_all add: from_wire_def)

lemma from_wire_Inr: "from_wire s = Inr k \<longleftrightarrow> s = as_str k"
  by (cases k) (auto simp: from_wire_def)

lemma no_panic_from_wire [simp]: "no_panic (from_wire s)"
  by (simp add: from_wire_def)

section \<open>Hash algorithms\<close>

record hash_alg =
  alg_name :: bytes
  raw_len :: nat
  gpgsig_header :: bytes
  digest :: "bytes \<Rightarrow> bytes"

definition sha1 :: "(bytes \<Rightarrow> bytes) \<Rightarrow> hash_alg" where
  "sha1 d = \<lparr>alg_name = ascii ''sha1'', raw_len = 20, gpgsig_header = ascii ''gpgsig'', digest = d\<rparr>"

definition sha256 :: "(bytes \<Rightarrow> bytes) \<Rightarrow> hash_alg" where
  "sha256 d = \<lparr>alg_name = ascii ''sha256'', raw_len = 32, gpgsig_header = ascii ''gpgsig-sha256'',
     digest = d\<rparr>"

datatype hash_kind = Sha1 | Sha256

fun hash_kind_name :: "hash_kind \<Rightarrow> bytes" where
  "hash_kind_name Sha1 = ascii ''sha1''"
| "hash_kind_name Sha256 = ascii ''sha256''"

text \<open>
  What the sources rely on of the digest library, by the type \<open>[u8; N]\<close> of its output: the
  digest is \<open>raw_len\<close> bytes long.
\<close>

definition hash_ok :: "hash_alg \<Rightarrow> bool" where
  "hash_ok H \<longleftrightarrow> 0 < raw_len H \<and> (\<forall>x. length (digest H x) = raw_len H)"

lemma hash_ok_length [simp]: "hash_ok H \<Longrightarrow> length (digest H x) = raw_len H"
  by (simp add: hash_ok_def)

lemma hash_ok_pos: "hash_ok H \<Longrightarrow> 0 < raw_len H"
  by (simp add: hash_ok_def)

text \<open>A digest of the right width, for the concrete instances of the theorems.\<close>

definition sum_digest :: "nat \<Rightarrow> bytes \<Rightarrow> bytes" where
  "sum_digest n x = be_bytes n (length x + 31 * be_val (take 8 (rev x)) + 7)"

lemma hash_ok_sha1 [simp]: "hash_ok (sha1 (sum_digest 20))"
  by (simp add: hash_ok_def sha1_def sum_digest_def)

lemma hash_ok_sha256 [simp]: "hash_ok (sha256 (sum_digest 32))"
  by (simp add: hash_ok_def sha256_def sum_digest_def)

section \<open>Object ids\<close>

datatype object_id = ObjectId (id_bytes: bytes)

instantiation object_id :: linorder
begin

definition less_eq_object_id :: "object_id \<Rightarrow> object_id \<Rightarrow> bool" where
  "a \<le> b \<longleftrightarrow> id_bytes a \<le> id_bytes b"

definition less_object_id :: "object_id \<Rightarrow> object_id \<Rightarrow> bool" where
  "a < b \<longleftrightarrow> id_bytes a < id_bytes b"

instance
proof
  fix x y z :: object_id
  show "x < y \<longleftrightarrow> x \<le> y \<and> \<not> y \<le> x"
    by (auto simp: less_eq_object_id_def less_object_id_def)
  show "x \<le> x"
    by (simp add: less_eq_object_id_def)
  show "x \<le> y \<Longrightarrow> y \<le> z \<Longrightarrow> x \<le> z"
    by (auto simp: less_eq_object_id_def intro: order_trans)
  show "x \<le> y \<Longrightarrow> y \<le> x \<Longrightarrow> x = y"
    by (auto simp: less_eq_object_id_def intro: object_id.expand order_antisym)
  show "x \<le> y \<or> y \<le> x"
    by (auto simp: less_eq_object_id_def)
qed

end

text \<open>The ids of the algorithm \<open>H\<close>: exactly \<open>raw_len\<close> bytes.\<close>

definition id_ok :: "hash_alg \<Rightarrow> object_id \<Rightarrow> bool" where
  "id_ok H i \<longleftrightarrow> length (id_bytes i) = raw_len H"

definition compute :: "hash_alg \<Rightarrow> object_kind \<Rightarrow> bytes \<Rightarrow> object_id" where
  "compute H kind payload =
     ObjectId (digest H (as_str kind @ [0x20] @ dec_nat (length payload) @ [0] @ payload))"

definition from_bytes :: "hash_alg \<Rightarrow> bytes \<Rightarrow> object_id ores" where
  "from_bytes H bs = (if length bs \<noteq> raw_len H then fail_with InvalidObjectId else Inr (ObjectId bs))"

definition hex_digit :: "nat \<Rightarrow> byte" where
  "hex_digit n = (if n < 10 then word_of_nat (48 + n) else word_of_nat (87 + n))"

definition hex2 :: "byte \<Rightarrow> bytes" where
  "hex2 b = [hex_digit (unat b div 16), hex_digit (unat b mod 16)]"

definition to_hex :: "object_id \<Rightarrow> bytes" where
  "to_hex i = concat (map hex2 (id_bytes i))"

text \<open>
  \<open>from_hex\<close> cuts the string every two bytes with \<open>&hex[i * 2..i * 2 + 2]\<close>, which
  panics off a character boundary, and parses each pair with \<open>u8::from_str_radix(pair, 16)\<close>.
\<close>

definition hex_pair :: "bytes \<Rightarrow> nat \<Rightarrow> byte ores" where
  "hex_pair hex i =
     ebind (str_slice hex (i * 2) (i * 2 + 2)) (\<lambda>pair.
     ebind (ok_or (parse_unsigned 16 256 pair) InvalidObjectId) (\<lambda>v. Inr (word_of_nat v)))"

fun hex_loop :: "bytes \<Rightarrow> nat \<Rightarrow> nat \<Rightarrow> bytes ores" where
  "hex_loop hex i 0 = Inr []"
| "hex_loop hex i (Suc n) =
     ebind (hex_pair hex i) (\<lambda>b. ebind (hex_loop hex (Suc i) n) (\<lambda>bs. Inr (b # bs)))"

definition from_hex :: "hash_alg \<Rightarrow> bytes \<Rightarrow> object_id ores" where
  "from_hex H hex =
     (if length hex \<noteq> raw_len H * 2 then fail_with InvalidObjectId
      else ebind (hex_loop hex 0 (raw_len H)) (\<lambda>bs. Inr (ObjectId bs)))"

section \<open>Payload text\<close>

definition as_utf8 :: "bytes \<Rightarrow> bytes ores" where
  "as_utf8 bs = (if utf8_valid bs then Inr bs else fail_with MalformedHeader)"

definition blank_line :: "bytes \<Rightarrow> nat option" where
  "blank_line payload = position (\<lambda>w. w = (0x0A, 0x0A)) (windows2 payload)"

definition split_message :: "bytes \<Rightarrow> (bytes \<times> bytes) ores" where
  "split_message payload =
     (case blank_line payload of
        Some i \<Rightarrow> ebind (as_utf8 (drop (i + 2) payload)) (\<lambda>m. Inr (take i payload, m))
      | None \<Rightarrow> Inr (payload, []))"

section \<open>Facts about ids\<close>

lemma hex_digit_facts:
  assumes "n < 16"
  shows "digit_val 16 (hex_digit n) = Some n" "hex_digit n < 0x80" "hex_digit n \<noteq> 0x2B"
    "hex_digit n \<noteq> 0x0A"
proof -
  have all: "\<forall>n \<in> set [0..<16]. digit_val 16 (hex_digit n) = Some n \<and> hex_digit n < 0x80
      \<and> hex_digit n \<noteq> 0x2B \<and> hex_digit n \<noteq> 0x0A"
    by (simp add: upt_rec hex_digit_def digit_val_def)
  from assms have "n \<in> set [0..<16]"
    by simp
  with all show "digit_val 16 (hex_digit n) = Some n" "hex_digit n < 0x80" "hex_digit n \<noteq> 0x2B"
      "hex_digit n \<noteq> 0x0A"
    by blast+
qed

lemma byte_nibbles: "unat b div 16 < 16" "unat b mod 16 < 16" for b :: byte
  using unat_bound [of b] by auto

lemma parse_hex2 [simp]: "parse_unsigned 16 256 (hex2 b) = Some (unat b)"
  using hex_digit_facts(1) [OF byte_nibbles(1) [of b]] hex_digit_facts(1) [OF byte_nibbles(2) [of b]]
    hex_digit_facts(3) [OF byte_nibbles(1) [of b]] unat_bound [of b]
  by (simp add: parse_unsigned_def hex2_def)

lemma length_hex2 [simp]: "length (hex2 b) = 2"
  by (simp add: hex2_def)

lemma length_concat_hex2: "length (concat (map hex2 bs)) = 2 * length bs"
  by (induction bs) auto

lemma length_to_hex [simp]: "length (to_hex i) = 2 * length (id_bytes i)"
  by (simp add: to_hex_def length_concat_hex2)

lemma ascii_hex2: "ascii_only (hex2 b)"
  using byte_nibbles [of b] by (simp add: hex2_def hex_digit_facts)

lemma ascii_concat_hex2: "ascii_only (concat (map hex2 bs))"
  by (induction bs) (auto simp: ascii_hex2)

lemma ascii_to_hex [simp]: "ascii_only (to_hex i)"
  by (simp add: to_hex_def ascii_concat_hex2)

lemma newline_hex2: "0x0A \<notin> set (hex2 b)"
  using hex_digit_facts(4) [OF byte_nibbles(1) [of b]] hex_digit_facts(4) [OF byte_nibbles(2) [of b]]
  by (auto simp: hex2_def)

lemma newline_to_hex [simp]: "0x0A \<notin> set (to_hex i)"
  using newline_hex2 by (auto simp: to_hex_def)

lemma hex_loop_concat:
  "i = length p \<Longrightarrow> hex_loop (concat (map hex2 (p @ bs))) i (length bs) = Inr bs"
proof (induction bs arbitrary: p i)
  case (Cons b bs)
  let ?h = "concat (map hex2 (p @ b # bs))"
  have "(str_slice ?h (i * 2) (i * 2 + 2) :: bytes ores)
      = Inr (take (i * 2 + 2 - i * 2) (drop (i * 2) ?h))"
    using Cons.prems by (intro str_slice_ascii ascii_concat_hex2)
      (simp_all only: length_concat_hex2, simp_all)
  moreover have "take 2 (drop (i * 2) ?h) = hex2 b"
    using Cons.prems by (simp add: length_concat_hex2 mult.commute)
  ultimately have "hex_pair ?h i = Inr b"
    by (simp add: hex_pair_def)
  moreover have "hex_loop ?h (Suc i) (length bs) = Inr bs"
    using Cons.IH [of "Suc i" "p @ [b]"] Cons.prems by simp
  ultimately show ?case
    by simp
qed simp

lemma hex_loop_to_hex: "hex_loop (to_hex (ObjectId bs)) 0 (length bs) = Inr bs"
  using hex_loop_concat [of 0 "[]" bs] by (simp add: to_hex_def)

lemma from_hex_to_hex [simp]: "id_ok H i \<Longrightarrow> from_hex H (to_hex i) = Inr i"
  using hex_loop_to_hex [of "id_bytes i"] by (simp add: from_hex_def id_ok_def)

lemma hex_loop_length: "hex_loop hex i n = Inr bs \<Longrightarrow> length bs = n"
  by (induction n arbitrary: i bs) (auto simp: ebind_eq_Inr)

lemma from_hex_ok: "from_hex H hex = Inr i \<Longrightarrow> id_ok H i"
  by (auto simp: from_hex_def ebind_eq_Inr id_ok_def dest: hex_loop_length split: if_splits)

lemma hex_pair_no_panic: "ascii_only hex \<Longrightarrow> i * 2 + 2 \<le> length hex \<Longrightarrow> no_panic (hex_pair hex i)"
  by (auto simp: hex_pair_def str_slice_ascii)

lemma hex_loop_no_panic:
  "ascii_only hex \<Longrightarrow> (i + n) * 2 \<le> length hex \<Longrightarrow> no_panic (hex_loop hex i n)"
  by (induction n arbitrary: i) (auto intro!: no_panic_ebind hex_pair_no_panic)

lemma from_hex_no_panic_ascii: "ascii_only hex \<Longrightarrow> no_panic (from_hex H hex)"
  by (auto simp: from_hex_def intro!: no_panic_ebind hex_loop_no_panic)

lemma id_ok_compute [simp]: "hash_ok H \<Longrightarrow> id_ok H (compute H k p)"
  by (simp add: id_ok_def compute_def)

lemma from_bytes_Inr: "from_bytes H bs = Inr i \<longleftrightarrow> length bs = raw_len H \<and> i = ObjectId bs"
  by (auto simp: from_bytes_def)

lemma from_bytes_id [simp]: "id_ok H i \<Longrightarrow> from_bytes H (id_bytes i) = Inr i"
  by (simp add: from_bytes_def id_ok_def)

lemma no_panic_from_bytes [simp]: "no_panic (from_bytes H bs)"
  by (simp add: from_bytes_def)

lemma no_panic_as_utf8 [simp]: "no_panic (as_utf8 bs)"
  by (simp add: as_utf8_def)

lemma as_utf8_Inr [simp]: "as_utf8 bs = Inr x \<longleftrightarrow> utf8_valid bs \<and> x = bs"
  by (auto simp: as_utf8_def)

lemma as_utf8_ok [simp]: "utf8_valid bs \<Longrightarrow> as_utf8 bs = Inr bs"
  by simp

lemma no_panic_split_message: "no_panic (split_message p)"
  by (auto simp: split_message_def split: option.splits)

text \<open>
  A header that contains no blank line, followed by one, splits there.
\<close>

lemma blank_line_append:
  assumes "(0x0A, 0x0A) \<notin> set (windows2 (h @ [0x0A]))"
  shows "blank_line (h @ [0x0A, 0x0A] @ m) = Some (length h)"
  using assms
proof (induction h)
  case Nil
  then show ?case
    by (simp add: blank_line_def)
next
  case (Cons x h)
  then show ?case
    by (cases h) (auto simp: blank_line_def)
qed

lemma split_message_append:
  assumes "(0x0A, 0x0A) \<notin> set (windows2 (h @ [0x0A]))" "utf8_valid m"
  shows "split_message (h @ [0x0A, 0x0A] @ m) = Inr (h, m)"
  using blank_line_append [OF assms(1), of m] assms(2) by (simp add: split_message_def)

end
