(* ===== verification/Git_Pktline.thy ===== *)
theory Git_Pktline
  imports Git_Object
begin

text \<open>
  pkt-line framing of the wire protocol, \<open>gitana-object/src/pktline.rs\<close>: four hex digits
  of length (counting themselves), then the payload; the lengths 0, 1, 2 are control packets and 3
  is reserved. The writers append to the output buffer they are given.
\<close>

section \<open>Model\<close>

type_synonym u16 = "16 word"

definition FLUSH_PKT :: bytes where "FLUSH_PKT = ascii ''0000''"
definition DELIM_PKT :: bytes where "DELIM_PKT = ascii ''0001''"
definition RESPONSE_END_PKT :: bytes where "RESPONSE_END_PKT = ascii ''0002''"

definition MAX_PKT_DATA :: nat where "MAX_PKT_DATA = 65516"

datatype pkt_line = Flush | Delim | ResponseEnd | Data bytes

definition pkt_hex_table :: bytes where
  "pkt_hex_table = ascii ''0123456789abcdef''"

definition hex4 :: "u16 \<Rightarrow> bytes" where
  "hex4 value =
     [pkt_hex_table ! unat (drop_bit 12 value AND 0xf),
      pkt_hex_table ! unat (drop_bit 8 value AND 0xf),
      pkt_hex_table ! unat (drop_bit 4 value AND 0xf),
      pkt_hex_table ! unat (value AND 0xf)]"

definition write_pkt :: "bytes \<Rightarrow> bytes \<Rightarrow> bytes ores" where
  "write_pkt out data =
     (if MAX_PKT_DATA < length data then fail_with MalformedPktLine
      else Inr (out @ hex4 (word_of_nat (length data + 4)) @ data))"

definition write_flush :: "bytes \<Rightarrow> bytes" where
  "write_flush out = out @ FLUSH_PKT"

definition write_delim :: "bytes \<Rightarrow> bytes" where
  "write_delim out = out @ DELIM_PKT"

fun parse_hex4_loop :: "u16 \<Rightarrow> bytes \<Rightarrow> u16 ores" where
  "parse_hex4_loop value [] = Inr value"
| "parse_hex4_loop value (b # bs) =
     ebind (if 0x30 \<le> b \<and> b \<le> 0x39 then Inr (b - 0x30)
            else if 0x61 \<le> b \<and> b \<le> 0x66 then Inr (b - 0x61 + 10)
            else if 0x41 \<le> b \<and> b \<le> 0x46 then Inr (b - 0x41 + 10)
            else fail_with MalformedPktLine)
       (\<lambda>digit. parse_hex4_loop (push_bit 4 value OR ucast digit) bs)"

definition parse_hex4 :: "bytes \<Rightarrow> u16 ores" where
  "parse_hex4 bs = parse_hex4_loop 0 bs"

definition parse_pkt :: "bytes \<Rightarrow> (pkt_line \<times> nat) ores" where
  "parse_pkt input =
     ebind (ok_or (get_range input 0 4) MalformedPktLine) (\<lambda>prefix.
     ebind (parse_hex4 prefix) (\<lambda>l.
       let len = unat l in
       if len = 0 then Inr (Flush, 4)
       else if len = 1 then Inr (Delim, 4)
       else if len = 2 then Inr (ResponseEnd, 4)
       else if len = 3 then fail_with MalformedPktLine
       else ebind (ok_or (get_range input 4 len) MalformedPktLine) (\<lambda>data. Inr (Data data, len))))"

section \<open>Lemmas\<close>

text \<open>The frame of a line, as the writers emit it on an empty buffer.\<close>

fun pkt_frame :: "pkt_line \<Rightarrow> bytes" where
  "pkt_frame Flush = write_flush []"
| "pkt_frame Delim = write_delim []"
| "pkt_frame ResponseEnd = RESPONSE_END_PKT"
| "pkt_frame (Data d) = (case write_pkt [] d of Inr out \<Rightarrow> out | Inl _ \<Rightarrow> [])"

fun pkt_fits :: "pkt_line \<Rightarrow> bool" where
  "pkt_fits (Data d) \<longleftrightarrow> length d \<le> MAX_PKT_DATA"
| "pkt_fits _ \<longleftrightarrow> True"

definition parse_nibble :: "byte \<Rightarrow> byte ores" where
  "parse_nibble b = (if 0x30 \<le> b \<and> b \<le> 0x39 then Inr (b - 0x30)
            else if 0x61 \<le> b \<and> b \<le> 0x66 then Inr (b - 0x61 + 10)
            else if 0x41 \<le> b \<and> b \<le> 0x46 then Inr (b - 0x41 + 10)
            else fail_with MalformedPktLine)"

lemma parse_hex4_loop_nibble:
  "parse_hex4_loop value (b # bs) =
     ebind (parse_nibble b) (\<lambda>digit. parse_hex4_loop (push_bit 4 value OR ucast digit) bs)"
  by (simp add: parse_nibble_def)

lemma parse_nibble_table: "n < 16 \<Longrightarrow> parse_nibble (pkt_hex_table ! n) = Inr (word_of_nat n)"
proof -
  have "\<forall>n \<in> set [0..<16]. parse_nibble (pkt_hex_table ! n) = Inr (word_of_nat n)"
    by (simp add: upt_rec pkt_hex_table_def parse_nibble_def)
  moreover assume "n < 16"
  ultimately show ?thesis
    by simp
qed

lemma and_nibble: "w AND 0xf = take_bit 4 (w :: u16)"
  by (simp add: take_bit_eq_mask mask_numeral)

lemma nibble_bound: "unat (w AND 0xf :: u16) < 16"
  using take_bit_nat_less_exp [of 4 "unat w"] by (simp add: and_nibble unsigned_take_bit_eq)

lemma ucast_nibble: "ucast (ucast (w AND 0xf :: u16) :: byte) = (w AND 0xf :: u16)"
  by (rule bit_word_eqI) (auto simp: and_nibble bit_simps)

lemma nibbles_join:
  "push_bit 4 (push_bit 4 (push_bit 4 (drop_bit 12 v AND 0xf) OR (drop_bit 8 v AND 0xf))
      OR (drop_bit 4 v AND 0xf)) OR (v AND 0xf) = (v :: u16)" (is "?l = v")
proof (rule bit_word_eqI)
  fix n
  assume n: "n < LENGTH(16)"
  consider "n < 4" | "4 \<le> n" "n < 8" | "8 \<le> n" "n < 12" | "12 \<le> n" "n < 16"
    using n by force
  then show "bit ?l n = bit v n"
    by cases (auto simp: and_nibble bit_take_bit_iff bit_push_bit_iff bit_drop_bit_eq bit_or_iff)
qed

lemma parse_hex4_hex4 [simp]: "parse_hex4 (hex4 v) = Inr v"
  using nibbles_join [of v]
  by (simp add: parse_hex4_def hex4_def parse_hex4_loop_nibble parse_nibble_table nibble_bound
      ucast_nibble del: parse_hex4_loop.simps(2) push_bit_or)

lemma length_hex4 [simp]: "length (hex4 v) = 4"
  by (simp add: hex4_def)

lemma parse_hex4_loop_no_panic [simp]: "no_panic (parse_hex4_loop v bs)"
  by (induction bs arbitrary: v)
     (auto simp: parse_hex4_loop_nibble parse_nibble_def simp del: parse_hex4_loop.simps(2))

lemma unat_pkt_len: "length d \<le> MAX_PKT_DATA \<Longrightarrow> unat (word_of_nat (length d + 4) :: u16) = length d + 4"
  by (simp only: unat_of_nat MAX_PKT_DATA_def) simp

lemma parse_pkt_data:
  assumes "length d \<le> MAX_PKT_DATA"
  shows "parse_pkt (hex4 (word_of_nat (length d + 4)) @ d @ rest) = Inr (Data d, length d + 4)"
proof -
  have "get_range (hex4 (word_of_nat (length d + 4)) @ d @ rest) 0 4
      = Some (hex4 (word_of_nat (length d + 4)))"
    by (simp add: get_range_def)
  moreover have "get_range (hex4 (word_of_nat (length d + 4)) @ d @ rest) 4 (length d + 4) = Some d"
    by (simp add: get_range_def)
  ultimately show ?thesis
    using unat_pkt_len [OF assms] by (simp add: parse_pkt_def Let_def del: of_nat_add)
qed

lemma parse_control:
  "parse_pkt (FLUSH_PKT @ rest) = Inr (Flush, 4)"
  "parse_pkt (DELIM_PKT @ rest) = Inr (Delim, 4)"
  "parse_pkt (RESPONSE_END_PKT @ rest) = Inr (ResponseEnd, 4)"
  by (simp_all add: parse_pkt_def FLUSH_PKT_def DELIM_PKT_def RESPONSE_END_PKT_def get_range_def
      parse_hex4_def)

lemma write_pkt_fits:
  "length d \<le> MAX_PKT_DATA \<Longrightarrow> write_pkt out d = Inr (out @ hex4 (word_of_nat (length d + 4)) @ d)"
  by (simp add: write_pkt_def)

interpretation pkt: prefix_codec pkt_frame parse_pkt "\<lambda>l. l" pkt_fits
proof
  fix x rest
  assume "pkt_fits x"
  then show "parse_pkt (pkt_frame x @ rest) = Inr (x, length (pkt_frame x))"
  proof (cases x)
    case (Data d)
    with \<open>pkt_fits x\<close> show ?thesis
      using parse_pkt_data [of d rest] by (simp add: write_pkt_fits)
  qed (use parse_control [of rest] in \<open>simp_all add: write_flush_def write_delim_def,
        simp_all add: FLUSH_PKT_def DELIM_PKT_def RESPONSE_END_PKT_def\<close>)
qed

lemma parse_hex4_bound: "parse_hex4 p = Inr v \<Longrightarrow> unat v \<le> 65535"
  using unat_bound [of v] by simp

section \<open>Properties\<close>

text \<open>C23: A sequence of pkt-lines written one after the other into an output buffer (data lines with
  \<open>write_pkt\<close>, at most 65516 bytes each, and the control packets) is read back by repeated
  \<open>parse_pkt\<close> as the same sequence, and the bytes after it are left untouched.\<close>

theorem pkt_stream_round_trip:
  assumes "list_all pkt_fits ls"
  shows "read_frames parse_pkt (length ls) (concat (map pkt_frame ls) @ rest) = Inr (ls, rest)"
  using pkt.read_frames_concat [OF assms, of rest] by simp

theorem pkt_stream_round_trip_witness:
  "read_frames parse_pkt 3 (concat (map pkt_frame [Data (ascii ''want''), Delim, Flush]) @ [1, 2])
     = Inr ([Data (ascii ''want''), Delim, Flush], [1, 2])"
  using pkt_stream_round_trip [of "[Data (ascii ''want''), Delim, Flush]" "[1, 2]"]
  by (simp add: MAX_PKT_DATA_def numeral_3_eq_3)

text \<open>\<open>parse_pkt\<close> never panics, on any input; and whenever it accepts, it has used between
  4 bytes and the whole input, at most 65535 bytes, and a data line carries exactly the bytes after
  its prefix.\<close>

lemma parse_pkt_sound:
  "no_panic (parse_pkt input) \<and>
   (parse_pkt input = Inr (l, n) \<longrightarrow>
      4 \<le> n \<and> n \<le> length input \<and> n \<le> 65535 \<and>
      (\<forall>d. l = Data d \<longrightarrow> d = take (n - 4) (drop 4 input)))"
proof
  show "no_panic (parse_pkt input)"
    unfolding parse_pkt_def parse_hex4_def Let_def by (intro no_panic_ebind no_panic_if) simp_all
  show "parse_pkt input = Inr (l, n) \<longrightarrow>
      4 \<le> n \<and> n \<le> length input \<and> n \<le> 65535 \<and>
      (\<forall>d. l = Data d \<longrightarrow> d = take (n - 4) (drop 4 input))"
    by (auto simp: parse_pkt_def Let_def ebind_eq_Inr get_range_eq_Some split: if_splits
        dest: parse_hex4_bound)
qed

lemma parse_pkt_sound_instance:
  "no_panic (parse_pkt (pkt_frame (Data [7]))) \<and> (4 :: nat) \<le> 5 \<and> [7] = take (5 - 4) (drop 4 (pkt_frame (Data [7])))"
proof -
  have "parse_pkt (pkt_frame (Data [7])) = Inr (Data [7], length (pkt_frame (Data [7])))"
    using pkt.dec_enc [of "Data [7]" "[]"] by (simp add: MAX_PKT_DATA_def)
  moreover have "length (pkt_frame (Data [7])) = 5"
    by (simp add: write_pkt_def MAX_PKT_DATA_def hex4_def)
  ultimately show ?thesis
    using parse_pkt_sound [of "pkt_frame (Data [7])" "Data [7]" 5] by simp
qed

end
