(* ===== verification/Git_Delta.thy ===== *)
theory Git_Delta
  imports Git_Object
begin

text \<open>
  The delta format: applying a delta (\<open>gitana-object/src/delta.rs\<close>) and computing one
  (\<open>encode_delta\<close> and its helpers in \<open>pack_encode.rs\<close>). The cursor the reader
  threads through is an explicit argument and result; the encoder's output and pending buffers are
  passed and returned.
\<close>

section \<open>Applying a delta\<close>

definition MAX_OBJECT_SIZE :: nat where "MAX_OBJECT_SIZE = 2 ^ 30"

definition delta_next_byte :: "bytes \<Rightarrow> nat \<Rightarrow> (byte \<times> nat) ores" where
  "delta_next_byte data cursor =
     (if cursor < length data then Inr (data ! cursor, cursor + 1) else fail_with MalformedDelta)"

lemma delta_next_byte_Inr [simp]:
  "delta_next_byte data cursor = Inr (b, c) \<longleftrightarrow> cursor < length data \<and> b = data ! cursor \<and> c = cursor + 1"
  by (auto simp: delta_next_byte_def)

lemma no_panic_delta_next_byte [simp]: "no_panic (delta_next_byte data cursor)"
  by (simp add: delta_next_byte_def)

function read_size_loop :: "bytes \<Rightarrow> nat \<Rightarrow> nat \<Rightarrow> nat \<Rightarrow> (nat \<times> nat) ores" where
  "read_size_loop delta cursor acc shift =
     ebind (delta_next_byte delta cursor) (\<lambda>(byte, cursor).
       let value = unat (byte AND 0x7f) in
       ebind (ok_or (checked_shl value shift) MalformedDelta) (\<lambda>part.
       ebind (ok_or (checked_add acc part) MalformedDelta) (\<lambda>size.
         if byte AND 0x80 = 0 then Inr (size, cursor)
         else read_size_loop delta cursor size (shift + 7))))"
  by pat_completeness auto
termination
  by (relation "measure (\<lambda>(delta, cursor, _, _). length delta - cursor)") auto

declare read_size_loop.simps [simp del]

definition read_size :: "bytes \<Rightarrow> nat \<Rightarrow> (nat \<times> nat) ores" where
  "read_size delta cursor = read_size_loop delta cursor 0 0"

text \<open>
  The operand bytes of a copy instruction: for each \<open>(i, flag)\<close> with the flag's bit set in
  the command, the next byte is byte \<open>i\<close> of the operand.
\<close>

fun read_operand :: "bytes \<Rightarrow> nat \<Rightarrow> byte \<Rightarrow> (nat \<times> byte) list \<Rightarrow> nat \<Rightarrow> (nat \<times> nat) ores" where
  "read_operand delta cursor cmd [] acc = Inr (acc, cursor)"
| "read_operand delta cursor cmd ((i, flag) # ms) acc =
     (if cmd AND flag \<noteq> 0
      then ebind (delta_next_byte delta cursor) (\<lambda>(b, cursor).
             read_operand delta cursor cmd ms (acc OR push_bit (8 * i) (unat b)))
      else read_operand delta cursor cmd ms acc)"

definition offset_masks :: "(nat \<times> byte) list" where
  "offset_masks = [(0, 0x01), (1, 0x02), (2, 0x04), (3, 0x08)]"

definition size_masks :: "(nat \<times> byte) list" where
  "size_masks = [(0, 0x10), (1, 0x20), (2, 0x40)]"

lemma read_operand_cursor: "read_operand delta cursor cmd ms acc = Inr (v, c) \<Longrightarrow> cursor \<le> c"
  by (induction ms arbitrary: cursor acc) (fastforce simp: ebind_eq_Inr split: if_splits)+

lemma no_panic_read_operand [simp]: "no_panic (read_operand delta cursor cmd ms acc)"
  by (induction ms arbitrary: cursor acc) (auto intro!: no_panic_ebind)

function delta_loop :: "bytes \<Rightarrow> bytes \<Rightarrow> nat \<Rightarrow> nat \<Rightarrow> bytes \<Rightarrow> bytes ores" where
  "delta_loop base delta tgt_size cursor out =
     (if cursor < length delta then
        let cmd = delta ! cursor; cursor = cursor + 1 in
        if cmd AND 0x80 \<noteq> 0 then
          ebind (read_operand delta cursor cmd offset_masks 0) (\<lambda>(offset, cursor).
          ebind (read_operand delta cursor cmd size_masks 0) (\<lambda>(size, cursor).
            let size = (if size = 0 then 0x10000 else size) in
            ebind (ok_or (checked_sub tgt_size (length out)) MalformedDelta) (\<lambda>remaining.
            if remaining < size then fail_with MalformedDelta
            else
              ebind (ok_or (checked_add offset size) MalformedDelta) (\<lambda>endp.
              ebind (ok_or (get_range base offset endp) MalformedDelta) (\<lambda>run.
                delta_loop base delta tgt_size cursor (out @ run))))))
        else if cmd \<noteq> 0 then
          (let len = unat cmd in
           ebind (ok_or (checked_sub tgt_size (length out)) MalformedDelta) (\<lambda>remaining.
           if remaining < len then fail_with MalformedDelta
           else
             ebind (ok_or (checked_add cursor len) MalformedDelta) (\<lambda>endp.
             ebind (ok_or (get_range delta cursor endp) MalformedDelta) (\<lambda>run.
               delta_loop base delta tgt_size endp (out @ run)))))
        else fail_with MalformedDelta
      else Inr out)"
  by pat_completeness auto
termination
  by (relation "measure (\<lambda>(_, delta, _, cursor, _). length delta - cursor)")
     (auto dest!: read_operand_cursor)

declare delta_loop.simps [simp del]

definition apply_delta_with_limit :: "bytes \<Rightarrow> bytes \<Rightarrow> nat \<Rightarrow> bytes ores" where
  "apply_delta_with_limit base delta max_target_size =
     ebind (read_size delta 0) (\<lambda>(src_size, cursor).
     if src_size \<noteq> length base then fail_with MalformedDelta
     else
       ebind (read_size delta cursor) (\<lambda>(tgt_size, cursor).
       if min max_target_size MAX_OBJECT_SIZE < tgt_size then fail_with TooLarge
       else
         ebind (delta_loop base delta tgt_size cursor []) (\<lambda>out.
         if length out \<noteq> tgt_size then fail_with MalformedDelta else Inr out)))"

definition apply_delta :: "bytes \<Rightarrow> bytes \<Rightarrow> bytes ores" where
  "apply_delta base delta = apply_delta_with_limit base delta MAX_OBJECT_SIZE"

section \<open>Computing a delta\<close>

definition MIN_MATCH :: nat where "MIN_MATCH = 4"
definition MAX_COPY :: nat where "MAX_COPY = 0xffffff"
definition MAX_INSERT :: nat where "MAX_INSERT = 0x7f"
definition MAX_CANDIDATES :: nat where "MAX_CANDIDATES = 64"

text \<open>\<open>byte as u8\<close> of a value masked to seven or eight bits.\<close>

function write_varint :: "bytes \<Rightarrow> nat \<Rightarrow> bytes" where
  "write_varint out value =
     (let byte = word_of_nat (value AND 0x7f); value' = drop_bit 7 value
      in if value' \<noteq> 0 then write_varint (out @ [byte OR 0x80]) value' else out @ [byte])"
  by pat_completeness auto
termination
  by (relation "measure snd") (auto simp: drop_bit_eq_div)

declare write_varint.simps [simp del]

text \<open>
  \<open>write_copy\<close> scans the operand bytes \<open>i\<close> of the offset and of the size, setting
  command bit \<open>k\<close> and appending the byte when it is not zero.
\<close>

fun copy_operand :: "nat \<Rightarrow> (nat \<times> nat) list \<Rightarrow> byte \<times> bytes \<Rightarrow> byte \<times> bytes" where
  "copy_operand v [] st = st"
| "copy_operand v ((i, k) # fs) (cmd, tail) =
     (let byte = word_of_nat (drop_bit (8 * i) v AND 0xff)
      in copy_operand v fs (if byte \<noteq> 0 then (cmd OR push_bit k 1, tail @ [byte]) else (cmd, tail)))"

definition write_copy :: "bytes \<Rightarrow> nat \<Rightarrow> nat \<Rightarrow> bytes" where
  "write_copy out off sz =
     (let (cmd, tail) = copy_operand sz (map (\<lambda>i. (i, 4 + i)) [0..<3])
                          (copy_operand off (map (\<lambda>i. (i, i)) [0..<4]) (0x80, []))
      in out @ [cmd] @ tail)"

function emit_copy :: "bytes \<Rightarrow> nat \<Rightarrow> nat \<Rightarrow> bytes" where
  "emit_copy out off len =
     (if 0 < len then
        let chunk = min len MAX_COPY in emit_copy (write_copy out off chunk) (off + chunk) (len - chunk)
      else out)"
  by pat_completeness auto
termination
  by (relation "measure (\<lambda>(_, _, len). len)") (auto simp: MAX_COPY_def)

declare emit_copy.simps [simp del]

definition flush_insert :: "bytes \<Rightarrow> bytes \<Rightarrow> bytes \<times> bytes" where
  "flush_insert out pending =
     (if pending = [] then (out, []) else (out @ [word_of_nat (length pending)] @ pending, []))"

definition index_base :: "bytes \<Rightarrow> (bytes \<rightharpoonup> nat list)" where
  "index_base base =
     (if MIN_MATCH \<le> length base
      then foldl (\<lambda>m offset.
             let window = take MIN_MATCH (drop offset base)
             in m(window \<mapsto> (case m window of None \<Rightarrow> [] | Some os \<Rightarrow> os) @ [offset]))
           Map.empty [0..<length base - MIN_MATCH + 1]
      else Map.empty)"

function match_run :: "bytes \<Rightarrow> bytes \<Rightarrow> nat \<Rightarrow> nat \<Rightarrow> nat \<Rightarrow> nat" where
  "match_run base target offset pos len =
     (if offset + len < length base \<and> pos + len < length target
         \<and> base ! (offset + len) = target ! (pos + len)
      then match_run base target offset pos (len + 1) else len)"
  by pat_completeness auto
termination
  by (relation "measure (\<lambda>(base, _, offset, _, len). length base - (offset + len))") auto

declare match_run.simps [simp del]

fun best_candidate :: "bytes \<Rightarrow> bytes \<Rightarrow> nat \<Rightarrow> nat list \<Rightarrow> nat \<times> nat \<Rightarrow> nat \<times> nat" where
  "best_candidate base target pos [] best = best"
| "best_candidate base target pos (offset # os) (best_off, best_len) =
     (let len = match_run base target offset pos 0
      in best_candidate base target pos os
           (if best_len < len then (offset, len) else (best_off, best_len)))"

definition longest_match :: "bytes \<Rightarrow> bytes \<Rightarrow> nat \<Rightarrow> (bytes \<rightharpoonup> nat list) \<Rightarrow> nat \<times> nat" where
  "longest_match base target pos idx =
     (if length target < pos + MIN_MATCH then (0, 0)
      else case idx (take MIN_MATCH (drop pos target)) of
        None \<Rightarrow> (0, 0)
      | Some candidates \<Rightarrow>
          best_candidate base target pos (take MAX_CANDIDATES (rev candidates)) (0, 0))"

function encode_loop ::
  "bytes \<Rightarrow> bytes \<Rightarrow> (bytes \<rightharpoonup> nat list) \<Rightarrow> bytes \<Rightarrow> bytes \<Rightarrow> nat \<Rightarrow> bytes \<times> bytes" where
  "encode_loop base target idx out pending i =
     (if i < length target then
        let (match_off, match_len) = longest_match base target i idx in
        if MIN_MATCH \<le> match_len then
          let (out, pending) = flush_insert out pending
          in encode_loop base target idx (emit_copy out match_off match_len) pending (i + match_len)
        else
          let pending = pending @ [target ! i];
              (out, pending) = (if length pending = MAX_INSERT then flush_insert out pending
                                else (out, pending))
          in encode_loop base target idx out pending (i + 1)
      else (out, pending))"
  by pat_completeness auto
termination
  by (relation "measure (\<lambda>(_, target, _, _, _, i). length target - i)") (auto simp: MIN_MATCH_def)

declare encode_loop.simps [simp del]

definition encode_delta :: "bytes \<Rightarrow> bytes \<Rightarrow> bytes" where
  "encode_delta base target =
     (let out = write_varint (write_varint [] (length base)) (length target);
          (out, pending) = encode_loop base target (index_base base) out [] 0
      in fst (flush_insert out pending))"

section \<open>Variable-length sizes\<close>

lemma write_varint_unfold:
  "write_varint out v =
     (if v < 128 then out @ [word_of_nat v]
      else write_varint (out @ [word_of_nat (v mod 128) OR 0x80]) (v div 128))"
  by (subst write_varint.simps) (auto simp: Let_def and_7f drop_bit_eq_div)

lemma write_varint_append: "write_varint out v = out @ write_varint [] v"
proof (induction v arbitrary: out rule: less_induct)
  case (less v)
  show ?case
  proof (cases "v < 128")
    case True
    then show ?thesis
      by (simp add: write_varint_unfold [of _ v])
  next
    case False
    then have "v div 128 < v"
      by simp
    from less.IH [OF this, of "out @ [word_of_nat (v mod 128) OR 0x80]"]
      less.IH [OF this, of "[word_of_nat (v mod 128) OR 0x80]"] False
    show ?thesis
      by (simp add: write_varint_unfold [of _ v])
  qed
qed

lemma varint_unfold:
  "write_varint [] v =
     (if v < 128 then [word_of_nat v]
      else (word_of_nat (v mod 128) OR 0x80) # write_varint [] (v div 128))"
  using write_varint_append [of "[word_of_nat (v mod 128) OR 0x80]" "v div 128"]
  by (simp add: write_varint_unfold [of "[]" v])

lemma read_size_step:
  "cursor < length d \<Longrightarrow> s < 64 \<Longrightarrow> v * 2 ^ s < usize_lim \<Longrightarrow> acc + v * 2 ^ s < usize_lim \<Longrightarrow>
   unat (d ! cursor AND 0x7f) = v \<Longrightarrow>
   read_size_loop d cursor acc s =
     (if d ! cursor AND 0x80 = 0 then Inr (acc + v * 2 ^ s, cursor + 1)
      else read_size_loop d (cursor + 1) (acc + v * 2 ^ s) (s + 7))"
  by (subst read_size_loop.simps)
     (simp add: delta_next_byte_def checked_shl_def checked_add_def push_bit_eq_mult)

lemma read_size_loop_varint:
  "s < 64 \<Longrightarrow> acc + v * 2 ^ s < usize_lim \<Longrightarrow>
   read_size_loop (p @ write_varint [] v @ r) (length p) acc s
     = Inr (acc + v * 2 ^ s, length p + length (write_varint [] v))"
proof (induction v arbitrary: p acc s rule: less_induct)
  case (less v)
  show ?case
  proof (cases "v < 128")
    case True
    with less.prems byte_group(3,4) [OF True] show ?thesis
      by (simp add: varint_unfold [of v] read_size_step [of _ _ s v] nth_append)
  next
    case False
    let ?b = "word_of_nat (v mod 128) OR 0x80 :: byte"
    let ?w = "write_varint [] (v div 128)"
    have v: "v * 2 ^ s = v mod 128 * 2 ^ s + v div 128 * 2 ^ (s + 7)"
      by (simp add: power_add flip: add_mult_distrib) (simp add: algebra_simps flip: distrib_left)
    have "2 ^ (s + 7) \<le> v div 128 * 2 ^ (s + 7)"
      using False by simp
    also have "\<dots> < 2 ^ 64"
      using less.prems v by (simp add: usize_lim_def)
    finally have s: "s + 7 < 64"
      by (rule power_less_imp_less_exp [rotated]) simp
    have "read_size_loop (p @ (?b # ?w) @ r) (length p) acc s
        = read_size_loop ((p @ [?b]) @ ?w @ r) (length (p @ [?b])) (acc + v mod 128 * 2 ^ s) (s + 7)"
      using less.prems v byte_group(1,2) [of "v mod 128"]
      by (subst read_size_step [of _ _ s "v mod 128"]) (simp_all add: nth_append)
    also have "\<dots> = Inr (acc + v * 2 ^ s, length (p @ [?b]) + length ?w)"
      using less.IH [of "v div 128" "s + 7" "acc + v mod 128 * 2 ^ s" "p @ [?b]"] less.prems False v s
      by (simp add: add.assoc)
    finally show ?thesis
      using False by (simp add: varint_unfold [of v])
  qed
qed

lemma read_size_varint:
  "v < usize_lim \<Longrightarrow>
   read_size (p @ write_varint [] v @ r) (length p) = Inr (v, length p + length (write_varint [] v))"
  using read_size_loop_varint [of 0 0 v p r] by (simp add: read_size_def)

section \<open>Copy operands\<close>

definition obyte :: "nat \<Rightarrow> nat \<Rightarrow> nat" where
  "obyte v i = take_bit 8 (drop_bit (8 * i) v)"

fun obytes :: "nat \<Rightarrow> (nat \<times> nat) list \<Rightarrow> bytes" where
  "obytes v [] = []"
| "obytes v ((i, k) # fs) = (if obyte v i = 0 then [] else [word_of_nat (obyte v i)]) @ obytes v fs"

definition omasks :: "(nat \<times> nat) list \<Rightarrow> (nat \<times> byte) list" where
  "omasks fs = map (\<lambda>(i, k). (i, push_bit k 1)) fs"

lemma obyte_bound: "obyte v i < 256"
  unfolding obyte_def using take_bit_nat_less_exp [of 8] by simp

lemma unat_obyte [simp]: "unat (word_of_nat (obyte v i) :: byte) = obyte v i"
  using obyte_bound [of v i] by (simp add: unat_of_nat)

lemma obyte_zero: "(word_of_nat (obyte v i) :: byte) = 0 \<longleftrightarrow> obyte v i = 0"
  by (simp add: word_unat_eq_iff del: of_nat_eq_0_iff)

lemma copy_operand_tail: "snd (copy_operand v fs (cmd, t)) = t @ obytes v fs"
  by (induction fs arbitrary: cmd t) (auto simp: Let_def and_ff obyte_zero simp flip: obyte_def)

lemma and_flag: "(cmd :: byte) AND 2 ^ k = 0 \<longleftrightarrow> \<not> bit cmd k"
  using bit_iff_and_push_bit_not_eq_0 [of cmd k] by simp

lemma bit_flag: "k < 8 \<Longrightarrow> bit (2 ^ j :: byte) k \<longleftrightarrow> j = k"
  by (auto simp: bit_exp_iff)

lemma copy_operand_bit:
  "k < 8 \<Longrightarrow> bit (fst (copy_operand v fs (cmd, t))) k
     \<longleftrightarrow> bit cmd k \<or> (\<exists>i. (i, k) \<in> set fs \<and> obyte v i \<noteq> 0)"
proof (induction fs arbitrary: cmd t)
  case (Cons f fs)
  obtain i j where f: "f = (i, j)"
    by (cases f)
  have step: "copy_operand v (f # fs) (cmd, t) =
      copy_operand v fs (if obyte v i \<noteq> 0 then (cmd OR 2 ^ j, t @ [word_of_nat (obyte v i)]) else (cmd, t))"
    by (simp add: f Let_def and_ff obyte_zero flip: obyte_def)
  show ?case
  proof (cases "obyte v i = 0")
    case True
    with Cons step show ?thesis
      by (auto simp: f)
  next
    case False
    with Cons step show ?thesis
      by (auto simp: f bit_or_iff bit_flag)
  qed
qed simp

lemma read_operand_obytes:
  "\<forall>(i, k) \<in> set fs. bit cmd k \<longleftrightarrow> obyte v i \<noteq> 0 \<Longrightarrow>
   read_operand (p @ obytes v fs @ r) (length p) cmd (omasks fs) acc
     = Inr (foldl (\<lambda>a (i, k). a OR push_bit (8 * i) (obyte v i)) acc fs, length p + length (obytes v fs))"
proof (induction fs arbitrary: p acc)
  case (Cons f fs)
  obtain i k where f: "f = (i, k)"
    by (cases f)
  show ?case
  proof (cases "obyte v i = 0")
    case True
    with Cons.prems f have "\<not> bit cmd k"
      by simp
    with True Cons f show ?thesis
      by (simp add: omasks_def and_flag)
  next
    case False
    with Cons.prems f have "bit cmd k"
      by simp
    with False Cons.IH [of "p @ [word_of_nat (obyte v i)]" "acc OR push_bit (8 * i) (obyte v i)"]
      Cons.prems f
    show ?thesis
      by (simp add: omasks_def and_flag delta_next_byte_def nth_append)
  qed
qed (simp add: omasks_def)

lemma foldl_obytes:
  "foldl (\<lambda>a (i, k). a OR push_bit (8 * i) (obyte v i)) 0 (map (\<lambda>i. (i, g i)) [0..<n]) = take_bit (8 * n) v"
proof (induction n)
  case (Suc n)
  have "take_bit (8 * Suc n) v = take_bit (8 * n) v OR push_bit (8 * n) (obyte v n)"
    using take_bit_add_field [of "8 * n" 8 v] by (simp add: obyte_def add.commute)
  with Suc show ?case
    by simp
qed simp

lemma offset_masks_omasks: "offset_masks = omasks (map (\<lambda>i. (i, i)) [0..<4])"
  by (simp add: offset_masks_def omasks_def upt_rec)

lemma size_masks_omasks: "size_masks = omasks (map (\<lambda>i. (i, 4 + i)) [0..<3])"
  by (simp add: size_masks_def omasks_def upt_rec)

section \<open>Instructions and what they append\<close>

text \<open>
  \<open>emits base code run\<close>: wherever the instructions \<open>code\<close> stand in a delta, applying
  them appends \<open>run\<close> to the output (as long as the declared target size has room), and they
  are not longer than eight bytes for each byte of output.
\<close>

definition emits :: "bytes \<Rightarrow> bytes \<Rightarrow> bytes \<Rightarrow> bool" where
  "emits base code run \<longleftrightarrow>
     length code \<le> 8 * length run \<and>
     (\<forall>p r t out. length (p @ code @ r) < usize_lim \<longrightarrow> length out + length run \<le> t \<longrightarrow>
        delta_loop base (p @ code @ r) t (length p) out
          = delta_loop base (p @ code @ r) t (length p + length code) (out @ run))"

lemma emitsD:
  "emits base code run \<Longrightarrow> length (p @ code @ r) < usize_lim \<Longrightarrow> length out + length run \<le> t \<Longrightarrow>
   delta_loop base (p @ code @ r) t (length p) out
     = delta_loop base (p @ code @ r) t (length p + length code) (out @ run)"
  by (simp add: emits_def)

lemma emits_length: "emits base code run \<Longrightarrow> length code \<le> 8 * length run"
  by (simp add: emits_def)

lemma emits_Nil [simp]: "emits base [] []"
  by (simp add: emits_def)

lemma emits_append:
  assumes 1: "emits base c1 r1" and 2: "emits base c2 r2"
  shows "emits base (c1 @ c2) (r1 @ r2)"
  unfolding emits_def
proof (intro conjI allI impI)
  show "length (c1 @ c2) \<le> 8 * length (r1 @ r2)"
    using emits_length [OF 1] emits_length [OF 2] by simp
  fix p r out :: bytes and t :: nat
  assume len: "length (p @ (c1 @ c2) @ r) < usize_lim" and t: "length out + length (r1 @ r2) \<le> t"
  show "delta_loop base (p @ (c1 @ c2) @ r) t (length p) out
      = delta_loop base (p @ (c1 @ c2) @ r) t (length p + length (c1 @ c2)) (out @ r1 @ r2)"
    using emitsD [OF 1, of p "c2 @ r" out t] emitsD [OF 2, of "p @ c1" r "out @ r1" t] len t
    by (simp add: add.assoc)
qed

lemma emits_insert:
  assumes "lit \<noteq> []" "length lit \<le> MAX_INSERT"
  shows "emits base (word_of_nat (length lit) # lit) lit"
  unfolding emits_def
proof (intro conjI allI impI)
  let ?c = "word_of_nat (length lit) :: byte"
  from assms show "length (?c # lit) \<le> 8 * length lit"
    by (cases lit) auto
  have l: "length lit < 128"
    using assms by (simp add: MAX_INSERT_def)
  then have c: "?c AND 0x80 = 0" "unat ?c = length lit"
    using byte_group(4) [OF l] by (simp_all add: unat_of_nat)
  from c(2) assms have "?c \<noteq> 0"
    by (metis length_0_conv unat_0)
  fix p r out :: bytes and t :: nat
  assume len: "length (p @ (?c # lit) @ r) < usize_lim" and t: "length out + length lit \<le> t"
  have "get_range (p @ ?c # lit @ r) (length p + 1) (length p + 1 + length lit) = Some lit"
    using get_range_append [of "p @ [?c]" "length p + 1" lit "length lit" r] by simp
  moreover have "\<not> t - length out < length lit"
    using t by simp
  ultimately
  show "delta_loop base (p @ (?c # lit) @ r) t (length p) out
      = delta_loop base (p @ (?c # lit) @ r) t (length p + length (?c # lit)) (out @ lit)"
    using c \<open>?c \<noteq> 0\<close> len t
    by (subst delta_loop.simps)
       (simp add: Let_def nth_append checked_sub_def checked_add_def)
qed

lemma write_copy_code:
  obtains cmd where
    "write_copy out off sz = out @ cmd # obytes off (map (\<lambda>i. (i, i)) [0..<4])
        @ obytes sz (map (\<lambda>i. (i, 4 + i)) [0..<3])"
    "bit cmd 7"
    "\<forall>(i, k) \<in> set (map (\<lambda>i. (i, i)) [0..<4]). bit cmd k \<longleftrightarrow> obyte off i \<noteq> 0"
    "\<forall>(i, k) \<in> set (map (\<lambda>i. (i, 4 + i)) [0..<3]). bit cmd k \<longleftrightarrow> obyte sz i \<noteq> 0"
proof -
  let ?F = "map (\<lambda>i. (i, i)) [0..<4] :: (nat \<times> nat) list"
  let ?G = "map (\<lambda>i. (i, 4 + i)) [0..<3] :: (nat \<times> nat) list"
  define a where "a = copy_operand off ?F (0x80, [])"
  define b where "b = copy_operand sz ?G a"
  have z: "bit (0x80 :: byte) k \<longleftrightarrow> k = 7" if "k < 8" for k
    using bit_flag [OF that, of 7] by auto
  have a_tail: "snd a = obytes off ?F"
    using copy_operand_tail [of off ?F "0x80" "[]"] by (simp add: a_def)
  have b_tail: "snd b = obytes off ?F @ obytes sz ?G"
    using copy_operand_tail [of sz ?G "fst a" "snd a", unfolded prod.collapse] a_tail
    by (simp add: b_def)
  have a_bit: "bit (fst a) k \<longleftrightarrow> k = 7 \<or> (k < 4 \<and> obyte off k \<noteq> 0)" if "k < 8" for k
    using copy_operand_bit [OF that, of off ?F "0x80" "[]"] z [OF that] that
    by (auto simp: a_def)
  have b_bit: "bit (fst b) k \<longleftrightarrow> bit (fst a) k \<or> (4 \<le> k \<and> k < 7 \<and> obyte sz (k - 4) \<noteq> 0)"
    if "k < 8" for k
  proof -
    have "(\<exists>i. (i, k) \<in> set ?G \<and> obyte sz i \<noteq> 0) \<longleftrightarrow> 4 \<le> k \<and> k < 7 \<and> obyte sz (k - 4) \<noteq> 0"
      by (auto simp: image_iff intro!: exI [of _ "k - 4"])
    with copy_operand_bit [OF that, of sz ?G "fst a" "snd a"] show ?thesis
      by (simp add: b_def)
  qed
  show thesis
  proof (rule that [of "fst b"])
    show "write_copy out off sz = out @ fst b # obytes off ?F @ obytes sz ?G"
      using b_tail by (simp add: write_copy_def a_def b_def case_prod_beta)
  qed (auto simp: a_bit b_bit)
qed

lemma length_obytes: "length (obytes v fs) \<le> length fs"
  by (induction v fs rule: obytes.induct) auto

lemma emits_write_copy:
  assumes "0 < sz" "sz \<le> MAX_COPY" "off + sz \<le> length base" "length base < 2 ^ 32"
  obtains code where "\<And>out. write_copy out off sz = out @ code"
    "emits base code (take sz (drop off base))"
proof -
  let ?F = "map (\<lambda>i. (i, i)) [0..<4] :: (nat \<times> nat) list"
  let ?G = "map (\<lambda>i. (i, 4 + i)) [0..<3] :: (nat \<times> nat) list"
  obtain cmd where code: "write_copy [] off sz = [] @ cmd # obytes off ?F @ obytes sz ?G"
    and cmd: "bit cmd 7" "\<forall>(i, k) \<in> set ?F. bit cmd k \<longleftrightarrow> obyte off i \<noteq> 0"
      "\<forall>(i, k) \<in> set ?G. bit cmd k \<longleftrightarrow> obyte sz i \<noteq> 0"
    by (rule write_copy_code)
  let ?code = "cmd # obytes off ?F @ obytes sz ?G"
  have off: "take_bit 32 off = off"
    using assms by (intro take_bit_nat_eq_self) simp
  have sz: "take_bit 24 sz = sz"
    using assms by (intro take_bit_nat_eq_self) (simp add: MAX_COPY_def)
  have vo: "foldl (\<lambda>a (i, k). a OR push_bit (8 * i) (obyte off i)) 0 ?F = off"
    using foldl_obytes [where v = off and g = "\<lambda>i. i" and n = 4] off by simp
  have vs: "foldl (\<lambda>a (i, k). a OR push_bit (8 * i) (obyte sz i)) 0 ?G = sz"
    using foldl_obytes [where v = sz and g = "\<lambda>i. 4 + i" and n = 3] sz by simp
  show thesis
  proof (rule that [of ?code])
    show "write_copy out off sz = out @ ?code" for out
      using code by (simp add: write_copy_def split: prod.splits)
    show "emits base ?code (take sz (drop off base))"
      unfolding emits_def
    proof (intro conjI allI impI)
      have "length ?code \<le> 8"
        using length_obytes [of off ?F] length_obytes [of sz ?G] by simp
      with assms show "length ?code \<le> 8 * length (take sz (drop off base))"
        by simp
      fix p r out :: bytes and t :: nat
      assume len: "length (p @ ?code @ r) < usize_lim"
        and t: "length out + length (take sz (drop off base)) \<le> t"
      let ?d = "p @ ?code @ r"
      define c1 c2 where "c1 = length p + 1 + length (obytes off ?F)" and "c2 = length p + length ?code"
      have 1: "read_operand ?d (Suc (length p)) cmd offset_masks 0 = Inr (off, c1)"
        using read_operand_obytes [OF cmd(2), of "p @ [cmd]" "obytes sz ?G @ r" 0] vo
        by (simp add: offset_masks_omasks c1_def)
      have 2: "read_operand ?d c1 cmd size_masks 0 = Inr (sz, c2)"
        using read_operand_obytes [OF cmd(3), of "p @ [cmd] @ obytes off ?F" r 0] vs
        by (simp add: size_masks_omasks add.assoc c1_def c2_def)
      have 3: "get_range base off (off + sz) = Some (take sz (drop off base))"
        using assms by (simp add: get_range_def)
      have 4: "off + sz < usize_lim" "length out + sz \<le> t"
        using assms t by (simp_all add: usize_lim_def)
      have nth: "?d ! length p = cmd" "length p < length ?d"
        by simp_all
      have room: "\<not> t - length out < sz"
        using 4 by simp
      show "delta_loop base ?d t (length p) out
          = delta_loop base ?d t (length p + length ?code) (out @ take sz (drop off base))"
        using 4 assms(1) cmd(1) room unfolding c2_def [symmetric]
        by (subst delta_loop.simps)
           (simp add: Let_def nth 1 2 3 byte_and_80 checked_sub_def checked_add_def
              del: append_Cons append_assoc length_append)
    qed
  qed
qed

section \<open>The encoder emits the target\<close>

lemma match_run_spec:
  "len \<le> match_run base target off pos len \<and>
   (\<forall>k. len \<le> k \<and> k < match_run base target off pos len \<longrightarrow>
      off + k < length base \<and> pos + k < length target \<and> base ! (off + k) = target ! (pos + k))"
proof (induction base target off pos len rule: match_run.induct)
  case (1 base target off pos len)
  show ?case
  proof (cases "off + len < length base \<and> pos + len < length target
      \<and> base ! (off + len) = target ! (pos + len)")
    case True
    then have "match_run base target off pos len = match_run base target off pos (len + 1)"
      by (subst match_run.simps) simp
    moreover have "off + k < length base \<and> pos + k < length target \<and> base ! (off + k) = target ! (pos + k)"
      if "len \<le> k" "k < match_run base target off pos (len + 1)" for k
      using 1 [OF True] True that by (cases "k = len") auto
    ultimately show ?thesis
      using 1 [OF True] by simp
  next
    case False
    then have "match_run base target off pos len = len"
      by (subst match_run.simps) auto
    then show ?thesis
      by auto
  qed
qed

definition is_match :: "bytes \<Rightarrow> bytes \<Rightarrow> nat \<Rightarrow> nat \<times> nat \<Rightarrow> bool" where
  "is_match base target pos m \<longleftrightarrow> (case m of (off, len) \<Rightarrow> 0 < len \<longrightarrow>
     off + len \<le> length base \<and> pos + len \<le> length target
     \<and> take len (drop off base) = take len (drop pos target))"

lemma match_run_is_match: "is_match base target pos (off, match_run base target off pos 0)"
proof -
  let ?n = "match_run base target off pos 0"
  have n: "off + k < length base \<and> pos + k < length target \<and> base ! (off + k) = target ! (pos + k)"
    if "k < ?n" for k
    using match_run_spec [of 0 base target off pos] that by auto
  have len: "off + ?n \<le> length base \<and> pos + ?n \<le> length target" if "0 < ?n"
    using n [of "?n - 1"] that by auto
  have "take ?n (drop off base) = take ?n (drop pos target)" if "0 < ?n"
    by (rule nth_equalityI) (use n len that in auto)
  with len show ?thesis
    by (auto simp: is_match_def)
qed

lemma best_candidate_is_match:
  "is_match base target pos m \<Longrightarrow> is_match base target pos (best_candidate base target pos os m)"
  by (induction base target pos os m rule: best_candidate.induct)
     (auto simp: Let_def match_run_is_match)

lemma longest_match_is_match: "is_match base target pos (longest_match base target pos idx)"
proof -
  have "is_match base target pos (0, 0)"
    by (simp add: is_match_def)
  then show ?thesis
    by (auto simp: longest_match_def split: option.split intro: best_candidate_is_match)
qed

lemma emits_emit_copy:
  "off + len \<le> length base \<Longrightarrow> length base < 2 ^ 32 \<Longrightarrow>
   \<exists>code. (\<forall>out. emit_copy out off len = out @ code) \<and> emits base code (take len (drop off base))"
proof (induction len arbitrary: off rule: less_induct)
  case (less len)
  show ?case
  proof (cases "0 < len")
    case False
    then show ?thesis
      by (intro exI [of _ "[]"]) (simp add: emit_copy.simps)
  next
    case True
    define chunk where "chunk = min len MAX_COPY"
    have chunk: "0 < chunk" "chunk \<le> MAX_COPY" "chunk \<le> len"
      using True by (auto simp: chunk_def MAX_COPY_def)
    obtain c1 where c1: "\<And>out. write_copy out off chunk = out @ c1"
      "emits base c1 (take chunk (drop off base))"
      by (rule emits_write_copy [of chunk off base]) (use chunk less.prems in auto)
    obtain c2 where c2: "\<And>out. emit_copy out (off + chunk) (len - chunk) = out @ c2"
      "emits base c2 (take (len - chunk) (drop (off + chunk) base))"
      using less.IH [of "len - chunk" "off + chunk"] chunk less.prems by auto
    have "take len (drop off base) = take chunk (drop off base) @ take (len - chunk) (drop (off + chunk) base)"
      using chunk take_add [of chunk "len - chunk" "drop off base"] by (simp add: add.commute)
    moreover have "emit_copy out off len = out @ c1 @ c2" for out
      using True by (subst emit_copy.simps) (simp add: Let_def c1 c2 flip: chunk_def)
    ultimately show ?thesis
      using emits_append [OF c1(2) c2(2)] by auto
  qed
qed

lemma flush_insert_code:
  "length pending \<le> MAX_INSERT \<Longrightarrow>
   \<exists>code. (\<forall>out. flush_insert out pending = (out @ code, [])) \<and> emits base code pending"
  using emits_insert [of pending base]
  by (cases "pending = []") (auto simp: flush_insert_def intro: exI [of _ "[]"])

lemma encode_loop_emits:
  assumes base: "length base < 2 ^ 32"
  shows "length pending < MAX_INSERT \<Longrightarrow>
    \<exists>code. (case encode_loop base target idx out pending i of (out', p') \<Rightarrow> fst (flush_insert out' p'))
        = out @ code \<and> emits base code (pending @ drop i target)"
proof (induction "length target - i" arbitrary: out pending i rule: less_induct)
  case less
  obtain off len where m: "longest_match base target i idx = (off, len)"
    by fastforce
  show ?case
  proof (cases "i < length target")
    case False
    obtain code where "\<forall>out. flush_insert out pending = (out @ code, [])" "emits base code pending"
      using flush_insert_code [of pending base] less.prems by auto
    with False show ?thesis
      by (subst encode_loop.simps) auto
  next
    case i: True
    show ?thesis
    proof (cases "MIN_MATCH \<le> len")
      case True
      then have len: "off + len \<le> length base" "i + len \<le> length target" "0 < len"
        "take len (drop off base) = take len (drop i target)"
        using longest_match_is_match [of base target i idx] m by (auto simp: is_match_def MIN_MATCH_def)
      obtain c1 where c1: "\<forall>out. flush_insert out pending = (out @ c1, [])" "emits base c1 pending"
        using flush_insert_code [of pending base] less.prems by auto
      obtain c2 where c2: "\<forall>out. emit_copy out off len = out @ c2" "emits base c2 (take len (drop i target))"
        using emits_emit_copy [OF len(1) base] len(4) by auto
      have "encode_loop base target idx out pending i
          = encode_loop base target idx (out @ c1 @ c2) [] (i + len)"
        using i True m c1(1) c2(1) by (subst encode_loop.simps) simp
      moreover obtain c3 where "(case encode_loop base target idx (out @ c1 @ c2) [] (i + len) of
          (out', p') \<Rightarrow> fst (flush_insert out' p')) = (out @ c1 @ c2) @ c3"
        "emits base c3 (drop (i + len) target)"
        using less.hyps [of "i + len" "[]" "out @ c1 @ c2", OF diff_less_mono2] i len
        by (auto simp: MAX_INSERT_def)
      moreover have split: "drop i target = take len (drop i target) @ drop (i + len) target"
        using append_take_drop_id [of len "drop i target"] by (simp add: add.commute)
      moreover have "emits base (c1 @ c2 @ c3) (pending @ drop i target)"
        by (subst split) (rule emits_append [OF c1(2) emits_append [OF c2(2) \<open>emits base c3 _\<close>]])
      ultimately show ?thesis
        by (auto intro!: exI [of _ "c1 @ c2 @ c3"])
    next
      case no_match: False
      let ?p = "pending @ [target ! i]"
      have drop_i: "pending @ drop i target = ?p @ drop (i + 1) target"
        using Cons_nth_drop_Suc [OF i] by simp
      show ?thesis
      proof (cases "length ?p = MAX_INSERT")
        case True
        obtain c1 where c1: "\<forall>out. flush_insert out ?p = (out @ c1, [])" "emits base c1 ?p"
          using flush_insert_code [of ?p base] True by auto
        have "encode_loop base target idx out pending i = encode_loop base target idx (out @ c1) [] (i + 1)"
          using i no_match m True c1(1) by (subst encode_loop.simps) simp
        moreover obtain c2 where "(case encode_loop base target idx (out @ c1) [] (i + 1) of
            (out', p') \<Rightarrow> fst (flush_insert out' p')) = (out @ c1) @ c2"
          "emits base c2 (drop (i + 1) target)"
          using less.hyps [of "i + 1" "[]" "out @ c1", OF diff_less_mono2] i by (auto simp: MAX_INSERT_def)
        ultimately show ?thesis
          using emits_append [OF c1(2)] drop_i by (auto intro!: exI [of _ "c1 @ c2"])
      next
        case False
        have "encode_loop base target idx out pending i = encode_loop base target idx out ?p (i + 1)"
          using i no_match m False by (subst encode_loop.simps) simp
        moreover obtain c2 where "(case encode_loop base target idx out ?p (i + 1) of
            (out', p') \<Rightarrow> fst (flush_insert out' p')) = out @ c2"
          "emits base c2 (?p @ drop (i + 1) target)"
          using less.hyps [of "i + 1" ?p out, OF diff_less_mono2] i False less.prems by auto
        ultimately show ?thesis
          using drop_i by auto
      qed
    qed
  qed
qed

lemma encode_delta_code:
  assumes "length base < 2 ^ 32"
  obtains code where
    "encode_delta base target = write_varint [] (length base) @ write_varint [] (length target) @ code"
    "emits base code target"
proof -
  let ?out = "write_varint (write_varint [] (length base)) (length target)"
  obtain code where "(case encode_loop base target (index_base base) ?out [] 0 of
      (out', p') \<Rightarrow> fst (flush_insert out' p')) = ?out @ code" "emits base code target"
    using encode_loop_emits [OF assms, of "[]" target "index_base base" ?out 0] by (auto simp: MAX_INSERT_def)
  then show thesis
    by (intro that [of code])
       (simp_all add: encode_delta_def Let_def case_prod_beta
          write_varint_append [of "write_varint [] (length base)"])
qed

lemma length_varint: "v < 128 ^ Suc n \<Longrightarrow> length (write_varint [] v) \<le> Suc n"
proof (induction n arbitrary: v)
  case (Suc n)
  then have "v div 128 < 128 ^ Suc n"
    by (simp add: less_mult_imp_div_less mult.commute)
  from Suc.IH [OF this] show ?case
    by (simp add: varint_unfold [of v])
qed (simp add: varint_unfold)

section \<open>What an accepted delta can produce\<close>

lemma read_size_loop_no_panic: "no_panic (read_size_loop d c acc s)"
proof (induction d c acc s rule: read_size_loop.induct)
  case (1 d c acc s)
  show ?case
    by (subst read_size_loop.simps) (auto simp: Let_def intro!: no_panic_ebind 1)
qed

lemma get_range_set: "get_range xs a b = Some ys \<Longrightarrow> set ys \<subseteq> set xs"
  by (auto simp: get_range_eq_Some dest: in_set_takeD in_set_dropD)

lemma get_range_length: "get_range xs a b = Some ys \<Longrightarrow> length ys = b - a"
  by (auto simp: get_range_eq_Some)

lemma delta_loop_copy:
  "c < length d \<Longrightarrow> d ! c AND 0x80 \<noteq> 0 \<Longrightarrow> delta_loop base d t c out =
     ebind (read_operand d (Suc c) (d ! c) offset_masks 0) (\<lambda>(off, c1).
     ebind (read_operand d c1 (d ! c) size_masks 0) (\<lambda>(sz, c2).
       let n = (if sz = 0 then 0x10000 else sz) in
       ebind (ok_or (checked_sub t (length out)) MalformedDelta) (\<lambda>remaining.
       if remaining < n then fail_with MalformedDelta
       else ebind (ok_or (checked_add off n) MalformedDelta) (\<lambda>endp.
            ebind (ok_or (get_range base off endp) MalformedDelta) (\<lambda>run.
              delta_loop base d t c2 (out @ run))))))"
  by (subst delta_loop.simps) (simp add: Let_def)

lemma delta_loop_literal:
  "c < length d \<Longrightarrow> d ! c AND 0x80 = 0 \<Longrightarrow> d ! c \<noteq> 0 \<Longrightarrow> delta_loop base d t c out =
     ebind (ok_or (checked_sub t (length out)) MalformedDelta) (\<lambda>remaining.
     if remaining < unat (d ! c) then fail_with MalformedDelta
     else ebind (ok_or (checked_add (Suc c) (unat (d ! c))) MalformedDelta) (\<lambda>endp.
          ebind (ok_or (get_range d (Suc c) endp) MalformedDelta) (\<lambda>run.
            delta_loop base d t endp (out @ run))))"
  by (subst delta_loop.simps) (simp add: Let_def)

text \<open>The common tail of both instructions: room in the output, then a run taken from a buffer.\<close>

lemma take_run:
  assumes eq: "r = ebind (ok_or (checked_sub t (length out)) MalformedDelta) (\<lambda>remaining.
      if remaining < n then fail_with MalformedDelta
      else ebind (ok_or (checked_add off n) MalformedDelta) (\<lambda>endp.
           ebind (ok_or (get_range buf off endp) MalformedDelta) (\<lambda>run. k endp run)))"
    and no_err: "\<nexists>e. r = fail_with e"
  obtains run where "length out + length run \<le> t" "set run \<subseteq> set buf" "r = k (off + n) run"
proof -
  have len: "length out \<le> t"
    using no_err eq by (cases "length out \<le> t") (auto simp: checked_sub_def)
  have room: "n \<le> t - length out"
    using no_err eq len by (cases "n \<le> t - length out") (auto simp: checked_sub_def)
  have add: "off + n < usize_lim"
    using no_err eq len room by (cases "off + n < usize_lim") (auto simp: checked_sub_def checked_add_def)
  obtain run where run: "get_range buf off (off + n) = Some run"
    using no_err eq len room add
    by (cases "get_range buf off (off + n)") (auto simp: checked_sub_def checked_add_def)
  show thesis
  proof (rule that)
    show "length out + length run \<le> t" "set run \<subseteq> set buf"
      using get_range_length [OF run] get_range_set [OF run] room len by auto
    show "r = k (off + n) run"
      using eq len room add run by (simp add: checked_sub_def checked_add_def)
  qed
qed

definition delta_steps :: "bytes \<Rightarrow> bytes \<Rightarrow> nat \<Rightarrow> nat \<Rightarrow> bytes \<Rightarrow> bool" where
  "delta_steps base d t c out \<longleftrightarrow>
     (\<exists>e. delta_loop base d t c out = fail_with e) \<or>
     (\<exists>c' run. c < c' \<and> length out + length run \<le> t \<and> set run \<subseteq> set base \<union> set d
        \<and> delta_loop base d t c out = delta_loop base d t c' (out @ run))"

lemma delta_loop_copy_step:
  assumes c: "c < length d" and copy: "d ! c AND 0x80 \<noteq> 0"
  shows "delta_steps base d t c out"
proof (cases "\<exists>e. delta_loop base d t c out = fail_with e")
  case no_err: False
  note unfold = delta_loop_copy [OF c copy, of base t out]
  from no_panic_cases [OF no_panic_read_operand, of d "Suc c" "d ! c" offset_masks 0] no_err
  obtain off c1 where 1: "read_operand d (Suc c) (d ! c) offset_masks 0 = Inr (off, c1)"
    by (auto simp: unfold)
  from no_panic_cases [OF no_panic_read_operand, of d c1 "d ! c" size_masks 0] no_err
  obtain sz c2 where 2: "read_operand d c1 (d ! c) size_masks 0 = Inr (sz, c2)"
    by (auto simp: unfold 1)
  define n where "n = (if sz = 0 then 0x10000 else sz)"
  have eq: "delta_loop base d t c out =
      ebind (ok_or (checked_sub t (length out)) MalformedDelta) (\<lambda>remaining.
      if remaining < n then fail_with MalformedDelta
      else ebind (ok_or (checked_add off n) MalformedDelta) (\<lambda>endp.
           ebind (ok_or (get_range base off endp) MalformedDelta) (\<lambda>run.
             delta_loop base d t c2 (out @ run))))"
    unfolding n_def by (simp only: unfold 1 2 ebind_simps prod.case Let_def)
  obtain run where "length out + length run \<le> t" "set run \<subseteq> set base"
    "delta_loop base d t c out = delta_loop base d t c2 (out @ run)"
    by (rule take_run [OF eq no_err])
  moreover have "c < c2"
    using read_operand_cursor [OF 1] read_operand_cursor [OF 2] by simp
  ultimately show ?thesis
    unfolding delta_steps_def by (intro disjI2 exI [of _ c2] exI [of _ run]) auto
qed (simp add: delta_steps_def)

lemma delta_loop_literal_step:
  assumes c: "c < length d" and lit: "d ! c AND 0x80 = 0"
  shows "delta_steps base d t c out"
proof (cases "\<exists>e. delta_loop base d t c out = fail_with e")
  case no_err: False
  have "delta_loop base d t c out = fail_with MalformedDelta" if "d ! c = 0"
    using that c lit by (subst delta_loop.simps) simp
  with no_err have nz: "d ! c \<noteq> 0"
    by blast
  obtain run where "length out + length run \<le> t" "set run \<subseteq> set d"
    "delta_loop base d t c out = delta_loop base d t (Suc c + unat (d ! c)) (out @ run)"
    by (rule take_run [OF delta_loop_literal [OF c lit nz] no_err])
  then show ?thesis
    unfolding delta_steps_def
    by (intro disjI2 exI [of _ "Suc c + unat (d ! c)"] exI [of _ run]) auto
qed (simp add: delta_steps_def)

lemma delta_loop_sound:
  "length out \<le> t \<Longrightarrow>
   no_panic (delta_loop base d t c out) \<and>
   (\<forall>res. delta_loop base d t c out = Inr res \<longrightarrow> length res \<le> t \<and> set res \<subseteq> set out \<union> set base \<union> set d)"
proof (induction "length d - c" arbitrary: c out rule: less_induct)
  case less
  show ?case
  proof (cases "c < length d")
    case False
    then have "delta_loop base d t c out = Inr out"
      by (subst delta_loop.simps) simp
    with less.prems show ?thesis
      by auto
  next
    case True
    then have "delta_steps base d t c out"
      using delta_loop_copy_step delta_loop_literal_step by blast
    then consider e where "delta_loop base d t c out = fail_with e"
      | c' run where "c < c'" "length out + length run \<le> t" "set run \<subseteq> set base \<union> set d"
          "delta_loop base d t c out = delta_loop base d t c' (out @ run)"
      unfolding delta_steps_def by blast
    then show ?thesis
    proof cases
      case 2
      have IH: "no_panic (delta_loop base d t c' (out @ run)) \<and>
          (\<forall>res. delta_loop base d t c' (out @ run) = Inr res \<longrightarrow>
            length res \<le> t \<and> set res \<subseteq> set (out @ run) \<union> set base \<union> set d)"
        by (rule less.hyps) (use 2 True in auto)
      from 2(3) have "set (out @ run) \<union> set base \<union> set d = set out \<union> set base \<union> set d"
        by auto
      with IH show ?thesis
        by (simp add: 2(4))
    qed simp
  qed
qed

lemma apply_delta_no_panic: "no_panic (apply_delta_with_limit base d limit)"
  unfolding apply_delta_with_limit_def read_size_def
  by (intro no_panic_intros read_size_loop_no_panic conjunct1 [OF delta_loop_sound]) simp_all

lemma read_size_eval:
  "c < length d \<Longrightarrow> s < 64 \<Longrightarrow>
   read_size_loop d c acc s =
     (let part = unat (d ! c AND 0x7f) * 2 ^ s mod usize_lim in
      if acc + part < usize_lim
      then if d ! c AND 0x80 = 0 then Inr (acc + part, c + 1)
           else read_size_loop d (c + 1) (acc + part) (s + 7)
      else fail_with MalformedDelta)"
  by (subst read_size_loop.simps)
     (simp add: Let_def delta_next_byte_def checked_shl_def checked_add_def push_bit_eq_mult)

lemma encode_delta_applies:
  assumes "length base < 2 ^ 32" "length target \<le> min limit MAX_OBJECT_SIZE"
  shows "apply_delta_with_limit base (encode_delta base target) limit = Inr target"
proof -
  obtain code where d: "encode_delta base target
      = write_varint [] (length base) @ write_varint [] (length target) @ code"
    and code: "emits base code target"
    by (rule encode_delta_code [OF assms(1)])
  let ?a = "write_varint [] (length base)" and ?b = "write_varint [] (length target)"
  have sz: "length base < usize_lim" "length target < usize_lim"
    using assms by (simp_all add: usize_lim_def MAX_OBJECT_SIZE_def)
  have "read_size (encode_delta base target) 0 = Inr (length base, length ?a)"
    using read_size_varint [OF sz(1), of "[]" "?b @ code"] by (simp add: d)
  moreover have "read_size (encode_delta base target) (length ?a) = Inr (length target, length (?a @ ?b))"
    using read_size_varint [OF sz(2), of ?a code] by (simp add: d)
  moreover have "length (encode_delta base target) < usize_lim"
    using emits_length [OF code] length_varint [of "length base" 5] length_varint [of "length target" 5] assms
    by (simp add: d usize_lim_def MAX_OBJECT_SIZE_def)
  then have "delta_loop base (encode_delta base target) (length target) (length (?a @ ?b)) []
      = Inr target"
    using emitsD [OF code, of "?a @ ?b" "[]" "[]" "length target"]
    by (simp add: d) (simp add: delta_loop.simps)
  moreover have "\<not> min limit MAX_OBJECT_SIZE < length target"
    using assms(2) by (simp only: not_less)
  ultimately show ?thesis
    by (simp add: apply_delta_with_limit_def del: min_less_iff_conj)
qed

section \<open>Properties\<close>

text \<open>C11: Round trip of the delta format: for a base below 4 GiB and a target within the limit, the
  delta computed by \<open>encode_delta\<close> is accepted by \<open>apply_delta_with_limit\<close> on that base
  and rebuilds the target exactly.\<close>

theorem delta_round_trip:
  assumes "length base < 2 ^ 32" "length target \<le> min limit MAX_OBJECT_SIZE"
  shows "apply_delta_with_limit base (encode_delta base target) limit = Inr target"
  by (rule encode_delta_applies [OF assms])

theorem delta_round_trip_witness:
  "apply_delta_with_limit (ascii ''hello world'') (encode_delta (ascii ''hello world'') (ascii ''hello there world'')) 100
     = Inr (ascii ''hello there world'')"
  by (rule delta_round_trip) (simp_all add: MAX_OBJECT_SIZE_def)


text \<open>C19: Applying a delta received from outside is safe. It never panics. A delta that announces another
  base size is malformed, and one that announces a target above the caller's limit (never above 1 GiB) is
  \<open>TooLarge\<close>. What is accepted announced exactly the size of the base and exactly the size of the result,
  which is within the limit and holds only bytes of the base and of the delta.\<close>

theorem apply_delta_sound:
  "no_panic (apply_delta_with_limit base d limit)
   \<and> (\<forall>n c. read_size d 0 = Inr (n, c) \<longrightarrow>
        (n \<noteq> length base \<longrightarrow> apply_delta_with_limit base d limit = fail_with MalformedDelta)
        \<and> (\<forall>m c'. n = length base \<longrightarrow> read_size d c = Inr (m, c') \<longrightarrow> min limit MAX_OBJECT_SIZE < m \<longrightarrow>
             apply_delta_with_limit base d limit = fail_with TooLarge))
   \<and> (\<forall>out. apply_delta_with_limit base d limit = Inr out \<longrightarrow>
        (\<exists>c c'. read_size d 0 = Inr (length base, c) \<and> read_size d c = Inr (length out, c'))
        \<and> length out \<le> min limit MAX_OBJECT_SIZE \<and> set out \<subseteq> set base \<union> set d)"
proof (intro conjI allI impI)
  show "no_panic (apply_delta_with_limit base d limit)"
    by (rule apply_delta_no_panic)
next
  fix n c assume "read_size d 0 = Inr (n, c)" "n \<noteq> length base"
  then show "apply_delta_with_limit base d limit = fail_with MalformedDelta"
    by (simp add: apply_delta_with_limit_def)
next
  fix n c m c' assume "read_size d 0 = Inr (n, c)" "n = length base" "read_size d c = Inr (m, c')"
    "min limit MAX_OBJECT_SIZE < m"
  then show "apply_delta_with_limit base d limit = fail_with TooLarge"
    by (simp add: apply_delta_with_limit_def)
next
  fix out assume "apply_delta_with_limit base d limit = Inr out"
  then obtain c t c' where r: "read_size d 0 = Inr (length base, c)" "read_size d c = Inr (t, c')"
    "t \<le> min limit MAX_OBJECT_SIZE" "delta_loop base d t c' [] = Inr out" "length out = t"
    by (auto simp: apply_delta_with_limit_def ebind_eq_Inr not_less split: if_splits)
  then show "\<exists>c c'. read_size d 0 = Inr (length base, c) \<and> read_size d c = Inr (length out, c')"
    by blast
  show "length out \<le> min limit MAX_OBJECT_SIZE" "set out \<subseteq> set base \<union> set d"
    using delta_loop_sound [of "[]" t base d c'] r by auto
qed

theorem apply_delta_sound_witness:
  "\<exists>d c c'. apply_delta_with_limit (ascii ''hello'') d 5 = Inr (ascii ''hello'')
      \<and> read_size d 0 = Inr (5, c) \<and> read_size d c = Inr (5, c')
      \<and> apply_delta_with_limit (ascii ''hell'') d 5 = fail_with MalformedDelta
      \<and> apply_delta_with_limit (ascii ''hello'') d 4 = fail_with TooLarge"
proof -
  have len: "length (ascii ''hello'') = 5" "length (ascii ''hell'') = 4"
    by simp_all
  obtain d where d: "apply_delta_with_limit (ascii ''hello'') d 5 = Inr (ascii ''hello'')"
    using encode_delta_applies [of "ascii ''hello''" "ascii ''hello''" 5] by (auto simp: MAX_OBJECT_SIZE_def)
  then obtain c c' where "read_size d 0 = Inr (length (ascii ''hello''), c)" "read_size d c = Inr (length (ascii ''hello''), c')"
    using apply_delta_sound [of "ascii ''hello''" d 5] by blast
  note c = this [unfolded len]
  have different: "(5 :: nat) \<noteq> 4"
    by simp
  have "apply_delta_with_limit (ascii ''hell'') d 5 = fail_with MalformedDelta"
    using apply_delta_sound [of "ascii ''hell''" d 5] c(1) different unfolding len by blast
  moreover have "min 4 MAX_OBJECT_SIZE < 5"
    by (simp add: MAX_OBJECT_SIZE_def)
  then have "apply_delta_with_limit (ascii ''hello'') d 4 = fail_with TooLarge"
    using apply_delta_sound [of "ascii ''hello''" d 4] c unfolding len by blast
  ultimately show ?thesis
    using d c by blast
qed

section \<open>Sizes beyond the machine width\<close>

text \<open>The number a size stands for: seven bits a byte, the lowest first, as far as the bytes that have
  their high bit set go.\<close>

fun size_value :: "bytes \<Rightarrow> nat" where
  "size_value [] = 0"
| "size_value (b # bs) = unat (b AND 0x7f) + 128 * size_value bs"

fun one_size :: "bytes \<Rightarrow> bool" where
  "one_size [] \<longleftrightarrow> False"
| "one_size [b] \<longleftrightarrow> b AND 0x80 = 0"
| "one_size (b # bs) \<longleftrightarrow> b AND 0x80 \<noteq> 0 \<and> one_size bs"

lemma size_part:
  assumes "acc < 2 ^ (7 * k)" "k < 10"
  shows "acc + v * 2 ^ (7 * k) mod usize_lim < usize_lim"
proof -
  have k: "(2 :: nat) ^ 64 = 2 ^ (64 - 7 * k) * 2 ^ (7 * k)"
    using assms(2) by (simp flip: power_add)
  have "v * 2 ^ (7 * k) mod 2 ^ 64 = v mod 2 ^ (64 - 7 * k) * 2 ^ (7 * k)"
    unfolding k by (rule mod_mult_mult2)
  moreover have "v mod 2 ^ (64 - 7 * k) + 1 \<le> 2 ^ (64 - 7 * k)"
    by (simp add: Suc_leI)
  then have "(v mod 2 ^ (64 - 7 * k) + 1) * 2 ^ (7 * k) \<le> 2 ^ 64"
    unfolding k by (rule mult_le_mono1)
  ultimately show ?thesis
    using assms(1) by (simp add: usize_lim_def)
qed

lemma read_size_loop_value:
  assumes "one_size bs" "acc < 2 ^ (7 * k)" "acc < usize_lim" "k \<le> 10"
  shows "read_size_loop (p @ bs @ r) (length p) acc (7 * k) =
    (if k + length bs \<le> 10 then Inr ((acc + size_value bs * 2 ^ (7 * k)) mod usize_lim, length p + length bs)
     else fail_with MalformedDelta)"
  using assms
proof (induction bs arbitrary: acc k p rule: one_size.induct)
  case (2 b)
  show ?case
  proof (cases "k < 10")
    case True
    have "acc + unat (b AND 0x7f) * 2 ^ (7 * k) mod usize_lim = (acc + unat (b AND 0x7f) * 2 ^ (7 * k)) mod usize_lim"
      using size_part [OF 2(2) True, of "unat (b AND 0x7f)"] by (metis mod_add_right_eq mod_less)
    then show ?thesis
      using True 2 size_part [OF 2(2) True] by (simp add: read_size_eval Let_def)
  next
    case False
    then show ?thesis
      using 2(4) by (subst read_size_loop.simps) (simp add: delta_next_byte_def checked_shl_def)
  qed
next
  case (3 b b' bs)
  let ?bs = "b' # bs" and ?v = "unat (b AND 0x7f)"
  show ?case
  proof (cases "k < 10")
    case True
    let ?acc = "acc + ?v * 2 ^ (7 * k) mod usize_lim"
    have lim: "?acc < usize_lim"
      by (rule size_part [OF 3(3) True])
    have "?v < 128"
      using take_bit_nat_less_exp [of 7 "unat b"] by (simp add: byte_and_7f unsigned_take_bit_eq)
    then have "(?v + 1) * 2 ^ (7 * k) \<le> 128 * 2 ^ (7 * k)"
      by (intro mult_le_mono1) simp
    then have "?v * 2 ^ (7 * k) + 2 ^ (7 * k) \<le> 2 ^ (7 * (k + 1))"
      by (simp only: add_mult_distrib mult_1 distrib_left power_add) simp
    moreover have "?v * 2 ^ (7 * k) mod usize_lim \<le> ?v * 2 ^ (7 * k)"
      by simp
    ultimately have acc: "?acc < 2 ^ (7 * (k + 1))"
      using 3(3) by linarith
    have sum_eq: "(?acc + size_value ?bs * 2 ^ (7 * (k + 1))) mod usize_lim
        = (acc + size_value (b # ?bs) * 2 ^ (7 * k)) mod usize_lim"
    proof -
      let ?rest = "size_value ?bs * 2 ^ (7 * (k + 1))"
      have "acc + size_value (b # ?bs) * 2 ^ (7 * k) = acc + ?v * 2 ^ (7 * k) + ?rest"
        by (simp add: algebra_simps power_add)
      moreover have "(?acc + ?rest) mod usize_lim = (acc + ?v * 2 ^ (7 * k) + ?rest) mod usize_lim"
        by (metis mod_add_left_eq mod_add_right_eq)
      ultimately show ?thesis
        by (simp only:)
    qed
    have "read_size_loop (p @ (b # ?bs) @ r) (length p) acc (7 * k)
        = read_size_loop ((p @ [b]) @ ?bs @ r) (length (p @ [b])) ?acc (7 * (k + 1))"
      using True lim 3(2) by (subst read_size_eval) (simp_all add: Let_def nth_append add.commute)
    also have "\<dots> = (if k + 1 + length ?bs \<le> 10
        then Inr ((?acc + size_value ?bs * 2 ^ (7 * (k + 1))) mod usize_lim, length (p @ [b]) + length ?bs)
        else fail_with MalformedDelta)"
      using 3(2) True by (intro 3(1) acc lim) simp_all
    finally show ?thesis
      unfolding sum_eq by simp
  next
    case False
    then show ?thesis
      using 3(5) by (subst read_size_loop.simps) (simp add: delta_next_byte_def checked_shl_def)
  qed
qed simp

text \<open>C26: What the size decoder reads, for every encoding: of at most ten bytes, the number modulo
  \<open>2 ^ 64\<close>, because \<open>checked_shl\<close> checks the shift amount only and the bits pushed past the top are lost; a
  longer encoding is malformed. So a number of \<open>2 ^ 64\<close> or more in ten bytes is not refused but read as a
  smaller one.\<close>

theorem read_size_drops_high_bits:
  assumes "one_size bs"
  shows "read_size (p @ bs @ r) (length p) =
    (if length bs \<le> 10 then Inr (size_value bs mod 2 ^ 64, length p + length bs) else fail_with MalformedDelta)"
  using read_size_loop_value [OF assms, of 0 0 p r] by (simp add: read_size_def usize_lim_def)

theorem read_size_drops_high_bits_witness:
  "let bs = [0x85, 0x80, 0x80, 0x80, 0x80, 0x80, 0x80, 0x80, 0x80, 0x02]
   in size_value bs = 2 ^ 64 + 5 \<and> read_size (bs @ [7]) 0 = Inr (5, 10) \<and> read_size ((0x80 # bs) @ [7]) 0 = fail_with MalformedDelta"
  using read_size_drops_high_bits [of "[0x85, 0x80, 0x80, 0x80, 0x80, 0x80, 0x80, 0x80, 0x80, 0x02]" "[]" "[7]"]
    read_size_drops_high_bits [of "[0x80, 0x85, 0x80, 0x80, 0x80, 0x80, 0x80, 0x80, 0x80, 0x80, 0x02]" "[]" "[7]"]
  by simp

end
