(* ===== verification/Git_Ewah.thy ===== *)
theory Git_Ewah
  imports Git_Object
begin

text \<open>
  EWAH-compressed bitmaps, \<open>gitana-object/src/ewah.rs\<close>. A bitmap is its list of 64-bit
  words; bit positions are \<open>u32\<close>. A compressed stream is a sequence of run-length words (bit 0
  the run's value, 32 bits of run length, 31 bits of literal count), each followed by its literals.
\<close>

section \<open>Uncompressed bitmaps\<close>

record ewah_bitmap =
  words :: "u64 list"

definition BITS_PER_WORD :: nat where "BITS_PER_WORD = 64"
definition MAX_RUNNING_LEN :: nat where "MAX_RUNNING_LEN = 2 ^ 32 - 1"
definition MAX_LITERAL_LEN :: nat where "MAX_LITERAL_LEN = 2 ^ 31 - 1"
definition LITERAL_LEN_SHIFT :: nat where "LITERAL_LEN_SHIFT = 33"

definition from_words :: "u64 list \<Rightarrow> ewah_bitmap" where
  "from_words ws = \<lparr>words = ws\<rparr>"

definition resize :: "'a list \<Rightarrow> nat \<Rightarrow> 'a \<Rightarrow> 'a list" where
  "resize xs n v = (if n \<le> length xs then take n xs else xs @ replicate (n - length xs) v)"

definition set_bit_in :: "u64 list \<Rightarrow> u32 \<Rightarrow> u64 list" where
  "set_bit_in ws pos =
     (let word = unat pos div BITS_PER_WORD;
          ws = (if length ws \<le> word then resize ws (word + 1) 0 else ws)
      in ws[word := ws ! word OR push_bit (unat pos mod BITS_PER_WORD) 1])"

definition from_set_bits :: "u32 list \<Rightarrow> ewah_bitmap" where
  "from_set_bits bits = \<lparr>words = foldl set_bit_in [] bits\<rparr>"

definition get_bit :: "ewah_bitmap \<Rightarrow> u32 \<Rightarrow> bool" where
  "get_bit bm pos =
     (let word = unat pos div BITS_PER_WORD
      in word < length (words bm)
         \<and> drop_bit (unat pos mod BITS_PER_WORD) (words bm ! word) AND 1 = 1)"

definition count_ones :: "u64 \<Rightarrow> nat" where
  "count_ones w = length (filter (bit w) [0..<64])"

definition ewah_count :: "ewah_bitmap \<Rightarrow> nat" where
  "ewah_count bm = sum_list (map count_ones (words bm))"

fun or_into :: "u64 list \<Rightarrow> u64 list \<Rightarrow> u64 list" where
  "or_into (a # as) (b # bs) = (a OR b) # or_into as bs"
| "or_into as _ = as"

definition union_in_place :: "ewah_bitmap \<Rightarrow> ewah_bitmap \<Rightarrow> ewah_bitmap" where
  "union_in_place self other =
     (let ws = (if length (words self) < length (words other)
                then resize (words self) (length (words other)) 0 else words self)
      in self\<lparr>words := or_into ws (words other)\<rparr>)"

text \<open>The set positions, ascending; \<open>index as u32 * 64 + bit\<close> in \<open>u32\<close> arithmetic.\<close>

definition word_bits :: "nat \<Rightarrow> u64 \<Rightarrow> u32 list" where
  "word_bits i w =
     (let base = (word_of_nat i * word_of_nat BITS_PER_WORD :: u32)
      in map (\<lambda>b. base + word_of_nat b) (filter (\<lambda>b. drop_bit b w AND 1 = 1) [0..<BITS_PER_WORD]))"

definition set_bits :: "ewah_bitmap \<Rightarrow> u32 list" where
  "set_bits bm = concat (map (\<lambda>(i, w). word_bits i w) (enumerate 0 (words bm)))"

section \<open>Compression\<close>

definition is_clean :: "u64 \<Rightarrow> bool" where
  "is_clean w \<longleftrightarrow> w = 0 \<or> w = - 1"

function run_from :: "u64 list \<Rightarrow> nat \<Rightarrow> u64 \<Rightarrow> nat \<Rightarrow> nat" where
  "run_from ws start first len =
     (if start + len < length ws \<and> ws ! (start + len) = first \<and> len \<noteq> MAX_RUNNING_LEN
      then run_from ws start first (len + 1) else len)"
  by pat_completeness auto
termination
  by (relation "measure (\<lambda>(ws, start, _, len). length ws - (start + len))") auto

declare run_from.simps [simp del]

definition clean_run :: "u64 list \<Rightarrow> nat \<Rightarrow> nat \<times> nat" where
  "clean_run ws start =
     (let first = ws ! start in
      if \<not> is_clean first then (0, 0)
      else (if first = - 1 then 1 else 0, run_from ws start first 0))"

function literal_end :: "u64 list \<Rightarrow> nat \<Rightarrow> nat \<Rightarrow> nat" where
  "literal_end ws literal_start i =
     (if i < length ws \<and> \<not> is_clean (ws ! i) \<and> i - literal_start \<noteq> MAX_LITERAL_LEN
      then literal_end ws literal_start (i + 1) else i)"
  by pat_completeness auto
termination
  by (relation "measure (\<lambda>(ws, _, i). length ws - i)") auto

declare literal_end.simps [simp del]

definition make_rlw :: "nat \<Rightarrow> nat \<Rightarrow> nat \<Rightarrow> u64" where
  "make_rlw run_bit run_len literal_len =
     word_of_nat run_bit OR push_bit 1 (word_of_nat run_len)
       OR push_bit LITERAL_LEN_SHIFT (word_of_nat literal_len)"

lemma run_from_ge: "len \<le> run_from ws start first len"
  by (induction ws start first len rule: run_from.induct) (subst run_from.simps, auto)

lemma literal_end_ge: "i \<le> literal_end ws ls i"
  by (induction ws ls i rule: literal_end.induct) (subst literal_end.simps, auto)

lemma block_progress:
  assumes "i < length ws" "clean_run ws i = (b, n)"
  shows "i < literal_end ws (i + n) (i + n)"
proof (cases "is_clean (ws ! i)")
  case True
  then have "n = run_from ws i (ws ! i) 0"
    using assms by (auto simp: clean_run_def Let_def split: if_splits)
  also have "\<dots> = run_from ws i (ws ! i) 1"
    using assms(1) by (subst run_from.simps) (simp add: MAX_RUNNING_LEN_def)
  finally have "1 \<le> n"
    using run_from_ge [of 1] by simp
  then show ?thesis
    using literal_end_ge [of "i + n" ws "i + n"] by simp
next
  case False
  then have "n = 0"
    using assms by (simp add: clean_run_def)
  moreover have "literal_end ws i i = literal_end ws i (i + 1)"
    using assms(1) False by (subst literal_end.simps) (simp add: MAX_LITERAL_LEN_def)
  ultimately show ?thesis
    using literal_end_ge [of "i + 1" ws i] by simp
qed

lemma literal_end_le: "i \<le> length ws \<Longrightarrow> literal_end ws ls i \<le> length ws"
  by (induction ws ls i rule: literal_end.induct) (subst literal_end.simps, auto)

lemma block_decreases:
  "i < length ws \<Longrightarrow> clean_run ws i = (b, n)
    \<Longrightarrow> length ws - literal_end ws (i + n) (i + n) < length ws - i"
  using block_progress by (meson diff_less_mono2)

function encode_words :: "u64 list \<Rightarrow> nat \<Rightarrow> u64 list \<Rightarrow> u32 \<Rightarrow> u64 list \<times> u32" where
  "encode_words ws i buffer last_rlw =
     (if i < length ws then
        let (run_bit, run_len) = clean_run ws i;
            literal_start = i + run_len;
            i' = literal_end ws literal_start literal_start;
            rlw = make_rlw run_bit run_len (i' - literal_start)
        in encode_words ws i' (buffer @ [rlw] @ take (i' - literal_start) (drop literal_start ws))
             (word_of_nat (length buffer))
      else (buffer, last_rlw))"
  by pat_completeness auto
termination
  by (relation "measure (\<lambda>(ws, i, _, _). length ws - i)")
     (auto dest!: sym [of "(_, _)"] simp: block_decreases)

declare encode_words.simps [simp del]

definition encode_ewah :: "ewah_bitmap \<Rightarrow> bytes" where
  "encode_ewah bm =
     (let ws = words bm;
          (buffer, last_rlw) = encode_words ws 0 [] 0;
          bit_size = (word_of_nat (length ws * BITS_PER_WORD) :: u32)
      in to_be32 bit_size @ to_be32 (word_of_nat (length buffer))
           @ concat (map to_be64 buffer) @ to_be32 last_rlw)"

section \<open>Decompression\<close>

function decode_words :: "u64 list \<Rightarrow> nat \<Rightarrow> nat \<Rightarrow> u64 list \<Rightarrow> u64 list ores" where
  "decode_words compressed expected p out =
     (if p < length compressed then
        let rlw = compressed ! p; p = p + 1;
            fill = (if rlw AND 1 = 1 then - 1 else 0);
            run_len = unat (drop_bit 1 rlw AND word_of_nat MAX_RUNNING_LEN);
            literal_len = unat (drop_bit LITERAL_LEN_SHIFT rlw);
            grown = (case checked_add (length out) run_len of None \<Rightarrow> None
                     | Some n \<Rightarrow> checked_add n literal_len)
        in if (case grown of Some n \<Rightarrow> expected < n | None \<Rightarrow> True) then fail_with MalformedEwah
           else
             let out = resize out (length out + run_len) fill in
             ebind (ok_or (checked_add p literal_len) MalformedEwah) (\<lambda>literal_end.
             ebind (ok_or (get_range compressed p literal_end) MalformedEwah) (\<lambda>literals.
               decode_words compressed expected literal_end (out @ literals)))
      else Inr out)"
  by pat_completeness auto
termination
  by (relation "measure (\<lambda>(compressed, _, p, _). length compressed - p)") auto

declare decode_words.simps [simp del]

definition decode_ewah :: "bytes \<Rightarrow> (ewah_bitmap \<times> nat) ores" where
  "decode_ewah bs =
     ebind (ok_or (get_range bs 0 8) MalformedEwah) (\<lambda>head.
       let bit_size = unat (from_be32 (take 4 head));
           word_count = unat (from_be32 (drop 4 head));
           words_end = 8 + word_count * 8;
           consumed = words_end + 4
       in if length bs < consumed then fail_with MalformedEwah
          else
            ebind (slice bs 8 words_end) (\<lambda>body.
              let compressed = map from_be64 (as_chunks 8 body);
                  expected = (bit_size + BITS_PER_WORD - 1) div BITS_PER_WORD
              in ebind (decode_words compressed expected 0 []) (\<lambda>out.
                 if length out \<noteq> expected then fail_with MalformedEwah
                 else
                   let tail = bit_size mod BITS_PER_WORD;
                       out = (if tail \<noteq> 0 \<and> out \<noteq> []
                              then butlast out @ [last out AND (push_bit tail 1 - 1)] else out)
                   in Inr (\<lparr>words = out\<rparr>, consumed))))"

definition decode_ewah_bounded :: "bytes \<Rightarrow> nat \<Rightarrow> (ewah_bitmap \<times> nat) ores" where
  "decode_ewah_bounded bs max_bits =
     ebind (ok_or (get_range bs 0 8) MalformedEwah) (\<lambda>head.
       if max_bits < unat (from_be32 (take 4 head)) then fail_with MalformedEwah
       else decode_ewah bs)"

section \<open>The set of positions\<close>

definition word_positions :: "u64 list \<Rightarrow> nat set" where
  "word_positions ws = {p. p div 64 < length ws \<and> bit (ws ! (p div 64)) (p mod 64)}"

abbreviation positions :: "ewah_bitmap \<Rightarrow> nat set" where
  "positions bm \<equiv> word_positions (words bm)"

lemma test_bit_word: "drop_bit n (w :: u64) AND 1 = 1 \<longleftrightarrow> bit w n"
  by (simp add: and_one_eq bit_iff_odd_drop_bit odd_iff_mod_2_eq_one)

lemma get_bit_positions: "get_bit bm pos \<longleftrightarrow> unat pos \<in> positions bm"
  by (simp add: get_bit_def word_positions_def BITS_PER_WORD_def Let_def test_bit_word)

lemma positions_resize:
  "length ws \<le> n \<Longrightarrow> word_positions (resize ws n 0) = word_positions ws"
  by (auto simp: word_positions_def resize_def nth_append)

lemma length_resize [simp]: "length (resize ws n v) = n"
  by (simp add: resize_def)

lemma positions_update:
  assumes "unat pos div 64 < length ws"
  shows "word_positions (ws[unat pos div 64 := ws ! (unat pos div 64) OR push_bit (unat pos mod 64) 1])
           = insert (unat (pos :: u32)) (word_positions ws)" (is "word_positions ?ws' = _")
proof (rule set_eqI)
  fix p
  show "p \<in> word_positions ?ws' \<longleftrightarrow> p \<in> insert (unat pos) (word_positions ws)"
  proof (cases "p div 64 = unat pos div 64")
    case True
    then have "p = unat pos \<longleftrightarrow> p mod 64 = unat pos mod 64"
      by (metis div_mult_mod_eq)
    with True assms show ?thesis
      by (auto simp: word_positions_def bit_or_iff bit_exp_iff possible_bit_word)
  next
    case False
    then show ?thesis
      by (auto simp: word_positions_def)
  qed
qed

lemma positions_set_bit_in:
  "word_positions (set_bit_in ws pos) = insert (unat pos) (word_positions ws)"
proof (cases "length ws \<le> unat pos div 64")
  case True
  then show ?thesis
    using positions_update [of pos "resize ws (unat pos div 64 + 1) 0"]
    by (simp add: set_bit_in_def BITS_PER_WORD_def positions_resize Let_def)
next
  case False
  then show ?thesis
    using positions_update [of pos ws] by (simp add: set_bit_in_def BITS_PER_WORD_def Let_def)
qed

lemma positions_foldl:
  "word_positions (foldl set_bit_in ws ps) = unat ` set ps \<union> word_positions ws"
  by (induction ps arbitrary: ws) (auto simp: positions_set_bit_in)

lemma positions_from_set_bits: "positions (from_set_bits ps) = unat ` set ps"
  by (simp add: from_set_bits_def positions_foldl) (simp add: word_positions_def)

lemma length_or_into [simp]: "length (or_into as bs) = length as"
  by (induction as bs rule: or_into.induct) auto

lemma or_into_nth:
  "i < length as \<Longrightarrow> or_into as bs ! i = (if i < length bs then as ! i OR bs ! i else as ! i)"
  by (induction as bs arbitrary: i rule: or_into.induct) (auto simp: nth_Cons split: nat.splits)

lemma positions_or_into:
  "length bs \<le> length as
    \<Longrightarrow> word_positions (or_into as bs) = word_positions as \<union> word_positions bs"
  by (auto simp: word_positions_def or_into_nth bit_or_iff split: if_splits)

lemma positions_union_in_place:
  "positions (union_in_place a b) = positions a \<union> positions b"
  by (simp add: union_in_place_def Let_def positions_or_into positions_resize)

lemma positions_append:
  "word_positions (ws @ [w]) = word_positions ws \<union> {p. p div 64 = length ws \<and> bit w (p mod 64)}"
  by (auto simp: word_positions_def nth_append)

text \<open>The iterator yields exactly the set positions in ascending order, as long as the position
  arithmetic stays within \<open>u32\<close>.\<close>

lemma word_bits_unat:
  assumes "i < 2 ^ 26"
  shows "map unat (word_bits i w) = filter (\<lambda>p. bit w (p mod 64)) [i * 64..<i * 64 + 64]"
proof -
  have "map unat (word_bits i w) = map (\<lambda>b. i * 64 + b) (filter (bit w) [0..<64])"
  proof -
    have "unat (word_of_nat i * word_of_nat 64 + word_of_nat b :: u32) = i * 64 + b"
      if "b < 64" for b
    proof -
      have "(word_of_nat i * word_of_nat 64 + word_of_nat b :: u32) = word_of_nat (i * 64 + b)"
        by simp
      also have "unat \<dots> = (i * 64 + b) mod 2 ^ 32"
        by (simp only: unat_of_nat len_of_numeral_defs) simp
      also have "\<dots> = i * 64 + b"
        using assms that by simp
      finally show ?thesis .
    qed
    then show ?thesis
      by (simp add: word_bits_def BITS_PER_WORD_def test_bit_word Let_def)
  qed
  also have "\<dots> = filter (\<lambda>p. bit w (p mod 64)) (map (\<lambda>b. i * 64 + b) [0..<64])"
  proof -
    have "filter (bit w) [0..<64] = filter (\<lambda>b. bit w ((i * 64 + b) mod 64)) [0..<64]"
      by (rule filter_cong) simp_all
    then show ?thesis
      by (simp add: filter_map comp_def)
  qed
  also have "map (\<lambda>b. i * 64 + b) [0..<64] = [i * 64..<i * 64 + 64]"
    using map_add_upt [of "i * 64" 64] by (simp add: add.commute)
  finally show ?thesis .
qed

lemma set_bits_snoc:
  "set_bits \<lparr>words = ws @ [w]\<rparr> = set_bits \<lparr>words = ws\<rparr> @ word_bits (length ws) w"
  by (simp add: set_bits_def enumerate_append_eq)

lemma set_bits_filter:
  "length ws \<le> 2 ^ 26
    \<Longrightarrow> map unat (set_bits \<lparr>words = ws\<rparr>) = filter (\<lambda>p. p \<in> word_positions ws) [0..<64 * length ws]"
proof (induction ws rule: rev_induct)
  case Nil
  then show ?case
    by (simp add: set_bits_def)
next
  case (snoc w ws)
  have split: "[0..<64 * length (ws @ [w])]
      = [0..<64 * length ws] @ [64 * length ws..<64 * length ws + 64]"
    using upt_add_eq_append [of 0 "64 * length ws" 64] by (simp add: algebra_simps)
  have lo: "filter (\<lambda>p. p \<in> word_positions (ws @ [w])) [0..<64 * length ws]
      = filter (\<lambda>p. p \<in> word_positions ws) [0..<64 * length ws]"
    by (rule filter_cong) (auto simp: positions_append)
  have hi: "filter (\<lambda>p. p \<in> word_positions (ws @ [w])) [64 * length ws..<64 * length ws + 64]
      = filter (\<lambda>p. bit w (p mod 64)) [64 * length ws..<64 * length ws + 64]"
  proof (rule filter_cong)
    fix p assume "p \<in> set [64 * length ws..<64 * length ws + 64]"
    then have "p div 64 = length ws"
      by (intro div_nat_eqI) auto
    then show "p \<in> word_positions (ws @ [w]) \<longleftrightarrow> bit w (p mod 64)"
      by (simp add: word_positions_def)
  qed simp
  show ?case
    using snoc
    by (simp only: split set_bits_snoc filter_append lo hi map_append)
       (simp add: word_bits_unat mult.commute)
qed

lemma positions_bound: "word_positions ws \<subseteq> {..<64 * length ws}"
  by (auto simp: word_positions_def)

lemma set_bits_sorted_list:
  assumes "length (words bm) \<le> 2 ^ 26"
  shows "map unat (set_bits bm) = sorted_list_of_set (positions bm)"
proof -
  have eq: "map unat (set_bits bm) = filter (\<lambda>p. p \<in> positions bm) [0..<64 * length (words bm)]"
    using set_bits_filter [OF assms] by (cases bm) simp
  have "set (map unat (set_bits bm)) = positions bm"
    using positions_bound [of "words bm"] unfolding eq by auto
  moreover have "sorted (map unat (set_bits bm))" "distinct (map unat (set_bits bm))"
    unfolding eq by (simp_all add: sorted_wrt_filter)
  ultimately show ?thesis
    by (metis sorted_list_of_set.idem_if_sorted_distinct)
qed

section \<open>The run-length word\<close>

lemma bit_of_nat_u64:
  assumes "x < 2 ^ m"
  shows "bit (word_of_nat x :: u64) i \<longleftrightarrow> i < 64 \<and> i < m \<and> bit x i"
proof -
  have "bit x i \<Longrightarrow> i < m"
    using take_bit_nat_eq_self [OF assms] by (metis bit_take_bit_iff)
  then show ?thesis
    by (auto simp: bit_unsigned_iff bit_of_nat_iff possible_bit_word)
qed

lemma bit_push_u64: "bit (push_bit m (w :: u64)) i \<longleftrightarrow> m \<le> i \<and> i < 64 \<and> bit w (i - m)"
  by (auto simp: bit_push_bit_iff possible_bit_word)

lemma rlw_bits:
  assumes "b < 2" "n < 2 ^ 32" "k < 2 ^ 31"
  shows "bit (make_rlw b n k) i \<longleftrightarrow>
     i = 0 \<and> b = 1 \<or> 0 < i \<and> i \<le> 32 \<and> bit n (i - 1) \<or> 33 \<le> i \<and> i < 64 \<and> bit k (i - 33)"
proof -
  have "bit (word_of_nat b :: u64) i \<longleftrightarrow> i = 0 \<and> b = 1"
    using assms(1) by (auto simp: less_2_cases_iff bit_1_iff)
  moreover have "bit (push_bit 1 (word_of_nat n :: u64)) i \<longleftrightarrow> 0 < i \<and> i \<le> 32 \<and> bit n (i - 1)"
    unfolding bit_push_u64 bit_of_nat_u64 [OF assms(2)] by auto
  moreover have "bit (push_bit 33 (word_of_nat k :: u64)) i \<longleftrightarrow> 33 \<le> i \<and> i < 64 \<and> bit k (i - 33)"
    unfolding bit_push_u64 bit_of_nat_u64 [OF assms(3)] by auto
  ultimately show ?thesis
    unfolding make_rlw_def LITERAL_LEN_SHIFT_def bit_or_iff by blast
qed

lemma rlw_run_bit: "b < 2 \<Longrightarrow> n < 2 ^ 32 \<Longrightarrow> k < 2 ^ 31 \<Longrightarrow> make_rlw b n k AND 1 = 1 \<longleftrightarrow> b = 1"
  using rlw_bits [of b n k 0] test_bit_word [of 0 "make_rlw b n k"] by simp

lemma rlw_run_len:
  assumes "b < 2" "n < 2 ^ 32" "k < 2 ^ 31"
  shows "drop_bit 1 (make_rlw b n k) AND word_of_nat MAX_RUNNING_LEN = word_of_nat n"
proof (rule bit_word_eqI)
  fix i assume "i < LENGTH(64)"
  have m: "(word_of_nat MAX_RUNNING_LEN :: u64) = Bit_Operations.mask 32"
    by (simp add: MAX_RUNNING_LEN_def mask_eq_exp_minus_1)
  show "bit (drop_bit 1 (make_rlw b n k) AND word_of_nat MAX_RUNNING_LEN) i = bit (word_of_nat n :: u64) i"
    using \<open>i < _\<close>
    unfolding m bit_and_iff bit_drop_bit_eq comp_def rlw_bits [OF assms] bit_of_nat_u64 [OF assms(2)]
      bit_mask_iff possible_bit_word
    by auto
qed

lemma rlw_literal_len:
  assumes "b < 2" "n < 2 ^ 32" "k < 2 ^ 31"
  shows "drop_bit LITERAL_LEN_SHIFT (make_rlw b n k) = word_of_nat k"
proof (rule bit_word_eqI)
  fix i assume "i < LENGTH(64)"
  have "bit k i \<Longrightarrow> i < 31"
    using take_bit_nat_eq_self [OF assms(3)] by (metis bit_take_bit_iff)
  with \<open>i < _\<close> show "bit (drop_bit LITERAL_LEN_SHIFT (make_rlw b n k)) i = bit (word_of_nat k :: u64) i"
    unfolding bit_drop_bit_eq comp_def rlw_bits [OF assms] bit_of_nat_u64 [OF assms(3)]
      LITERAL_LEN_SHIFT_def
    by auto
qed

lemma decode_step:
  assumes "p < length c" "c ! p AND 1 = 1 \<longleftrightarrow> f"
    and "unat (drop_bit 1 (c ! p) AND word_of_nat MAX_RUNNING_LEN) = n"
    and "unat (drop_bit LITERAL_LEN_SHIFT (c ! p)) = k"
    and "length out + n + k \<le> expected" "expected < usize_lim"
    and "p + 1 + k \<le> length c" "p + 1 + k < usize_lim"
  shows "decode_words c expected p out
    = decode_words c expected (p + 1 + k)
        (out @ replicate n (if f then - 1 else 0) @ take k (drop (p + 1) c))"
  unfolding decode_words.simps [of c expected p out] Let_def assms(2,3,4)
  using assms by (simp add: checked_add_def get_range_def resize_def)

lemma decode_block:
  assumes "b < 2" "n < 2 ^ 32" "length lits < 2 ^ 31"
    and "length out + n + length lits \<le> expected" "expected < usize_lim"
    and "length pre + 1 + length lits < usize_lim"
  shows "decode_words (pre @ make_rlw b n (length lits) # lits @ suf) expected (length pre) out
    = decode_words (pre @ make_rlw b n (length lits) # lits @ suf) expected (length pre + 1 + length lits)
        (out @ replicate n (if b = 1 then - 1 else 0) @ lits)"
proof -
  let ?r = "make_rlw b n (length lits)"
  let ?c = "pre @ ?r # lits @ suf"
  have at: "?c ! length pre = ?r"
    by simp
  have "decode_words ?c expected (length pre) out
    = decode_words ?c expected (length pre + 1 + length lits)
        (out @ replicate n (if b = 1 then - 1 else 0) @ take (length lits) (drop (length pre + 1) ?c))"
  proof (rule decode_step)
    show "?c ! length pre AND 1 = 1 \<longleftrightarrow> b = 1"
      unfolding at by (rule rlw_run_bit [OF assms(1-3)])
    show "unat (drop_bit 1 (?c ! length pre) AND word_of_nat MAX_RUNNING_LEN) = n"
      unfolding at rlw_run_len [OF assms(1-3)] using assms(2) by (simp add: unat_of_nat)
    show "unat (drop_bit LITERAL_LEN_SHIFT (?c ! length pre)) = length lits"
      unfolding at rlw_literal_len [OF assms(1-3)] using assms(3) by (simp add: unat_of_nat)
  qed (use assms in simp_all)
  then show ?thesis
    by simp
qed

section \<open>Compression and decompression are inverse\<close>

lemma run_from_props:
  assumes "m = run_from ws start first len" "len \<le> MAX_RUNNING_LEN"
    and "start + len \<le> length ws" "\<forall>j < len. ws ! (start + j) = first"
  shows "m \<le> MAX_RUNNING_LEN \<and> start + m \<le> length ws \<and> (\<forall>j < m. ws ! (start + j) = first)"
  using assms
proof (induction ws start first len rule: run_from.induct)
  case (1 ws start first len)
  show ?case
  proof (cases "start + len < length ws \<and> ws ! (start + len) = first \<and> len \<noteq> MAX_RUNNING_LEN")
    case True
    then have "m = run_from ws start first (len + 1)"
      using "1.prems"(1) run_from.simps [of ws start first len] by simp
    then show ?thesis
      using True "1.prems" by (intro "1.IH") (auto simp: less_Suc_eq)
  next
    case False
    then have "m = len"
      using "1.prems"(1) run_from.simps [of ws start first len] by metis
    then show ?thesis
      using "1.prems" by simp
  qed
qed

lemma clean_run_props:
  assumes "clean_run ws i = (b, n)" "i < length ws"
  shows "b < 2" "n < 2 ^ 32" "i + n \<le> length ws"
    "take n (drop i ws) = replicate n (if b = 1 then - 1 else 0)"
proof -
  define m where "m = run_from ws i (ws ! i) 0"
  have m: "m \<le> MAX_RUNNING_LEN \<and> i + m \<le> length ws \<and> (\<forall>j < m. ws ! (i + j) = ws ! i)"
    by (rule run_from_props [OF m_def]) (use assms(2) in auto)
  have eq: "clean_run ws i = (if \<not> is_clean (ws ! i) then (0, 0) else (if ws ! i = - 1 then 1 else 0, m))"
    by (simp add: clean_run_def Let_def m_def)
  show "b < 2" "n < 2 ^ 32" "i + n \<le> length ws"
    using m assms unfolding eq by (auto simp: MAX_RUNNING_LEN_def split: if_splits)
  show "take n (drop i ws) = replicate n (if b = 1 then - 1 else 0)"
    using m assms unfolding eq
    by (auto intro!: nth_equalityI simp: is_clean_def split: if_splits)
qed

lemma literal_end_cap:
  "i \<le> ls + MAX_LITERAL_LEN \<Longrightarrow> literal_end ws ls i \<le> ls + MAX_LITERAL_LEN"
proof (induction ws ls i rule: literal_end.induct)
  case (1 ws ls i)
  then show ?case
    by (subst literal_end.simps) auto
qed

lemma encode_words_decode:
  assumes "encode_words ws i buffer l = (res, l')" "i \<le> length ws" "length ws < 2 ^ 26"
    and "length buffer \<le> 2 * i"
  shows "(\<exists>tl. res = buffer @ tl) \<and> length res \<le> 2 * length ws \<and>
    decode_words res (length ws) (length buffer) (take i ws) = Inr ws"
  using assms
proof (induction ws i buffer l rule: encode_words.induct)
  case (1 ws i buffer l)
  show ?case
  proof (cases "i < length ws")
    case False
    with "1.prems" show ?thesis
      by (auto simp: encode_words.simps [of ws i] decode_words.simps [of res])
  next
    case True
    obtain b n where run: "clean_run ws i = (b, n)"
      by fastforce
    define e where "e = literal_end ws (i + n) (i + n)"
    define lits where "lits = take (e - (i + n)) (drop (i + n) ws)"
    note cr = clean_run_props [OF run True]
    have e: "i + n \<le> e" "e \<le> length ws" "i < e" "e - (i + n) < 2 ^ 31"
      using literal_end_ge [of "i + n" ws "i + n"] literal_end_le [of "i + n" ws "i + n"] cr
        block_progress [OF True run] literal_end_cap [of "i + n" "i + n" ws]
      by (simp_all add: e_def MAX_LITERAL_LEN_def)
    have len: "length lits = e - (i + n)"
      using e by (simp add: lits_def)
    let ?r = "make_rlw b n (length lits)"
    let ?buf = "buffer @ [?r] @ lits"
    have enc: "encode_words ws e ?buf (word_of_nat (length buffer)) = (res, l')"
      using "1.prems"(1) True encode_words.simps [of ws i buffer l]
      by (simp add: run Let_def e_def [symmetric] len lits_def [symmetric])
    have "(\<exists>tl. res = ?buf @ tl) \<and> length res \<le> 2 * length ws \<and>
      decode_words res (length ws) (length ?buf) (take e ws) = Inr ws"
      using "1.IH" [OF True run [symmetric] refl refl refl] enc e "1.prems"(3,4) len
      by (simp add: e_def [symmetric] lits_def [symmetric])
    then obtain tl where tl: "res = ?buf @ tl" and res: "length res \<le> 2 * length ws"
      and dec: "decode_words res (length ws) (length ?buf) (take e ws) = Inr ws"
      by blast
    have take_e: "take e ws = take i ws @ replicate n (if b = 1 then - 1 else 0) @ lits"
    proof -
      have "take e ws = take i ws @ take (e - i) (drop i ws)"
        using e by (simp add: take_add [symmetric])
      also have "take (e - i) (drop i ws) = take n (drop i ws) @ lits"
        using e take_add [of n "e - (i + n)" "drop i ws"] by (simp add: lits_def add.commute)
      finally show ?thesis
        using cr(4) by simp
    qed
    have "decode_words res (length ws) (length buffer) (take i ws)
        = decode_words res (length ws) (length buffer + 1 + length lits)
            (take i ws @ replicate n (if b = 1 then - 1 else 0) @ lits)"
      using decode_block [OF cr(1,2), of lits "take i ws" "length ws" buffer tl] e len True tl res
        "1.prems"(3)
      by (simp add: usize_lim_def)
    then show ?thesis
      using tl res dec take_e by simp
  qed
qed

text \<open>Bitmaps of fewer than \<open>2 ^ 26\<close> words, whose bit size fits the \<open>u32\<close> header.\<close>

definition ewah_fits :: "ewah_bitmap \<Rightarrow> bool" where
  "ewah_fits bm \<longleftrightarrow> length (words bm) < 2 ^ 26"

lemma decode_encode_ewah:
  assumes "ewah_fits bm"
  shows "decode_ewah (encode_ewah bm @ rest) = Inr (bm, length (encode_ewah bm))"
proof -
  obtain buf l where enc: "encode_words (words bm) 0 [] 0 = (buf, l)"
    by fastforce
  let ?n = "length (words bm)"
  have dec: "decode_words buf ?n 0 [] = Inr (words bm)" and len: "length buf \<le> 2 * ?n"
    using encode_words_decode [OF enc] assms by (simp_all add: ewah_fits_def)
  have n: "?n * 64 < 2 ^ 32" and b: "length buf < 2 ^ 32"
    using assms len by (simp_all add: ewah_fits_def)
  define h where "h = to_be32 (word_of_nat (?n * 64))"
  define c where "c = to_be32 (word_of_nat (length buf))"
  have vals: "unat (from_be32 h) = ?n * 64" "unat (from_be32 c) = length buf"
    using n b by (simp_all add: h_def c_def unat_of_nat del: of_nat_mult)
  have lens: "length h = 4" "length c = 4"
    by (simp_all add: h_def c_def)
  have form: "encode_ewah bm = h @ c @ concat (map to_be64 buf) @ to_be32 l"
    by (simp add: encode_ewah_def enc BITS_PER_WORD_def h_def c_def)
  have body: "map from_be64 (as_chunks 8 (concat (map to_be64 buf))) = buf"
    by (simp add: concat_map_to_be64 comp_def)
  have range: "get_range (h @ c @ concat (map to_be64 buf) @ to_be32 l @ rest) 0 8 = Some (h @ c)"
    using lens by (simp add: get_range_def)
  have sl: "slice (h @ c @ concat (map to_be64 buf) @ to_be32 l @ rest) 8 (8 + length buf * 8)
      = Inr (concat (map to_be64 buf))"
    using slice_append [of "h @ c" 8 "concat (map to_be64 buf)" "8 + length buf * 8" "to_be32 l @ rest"] lens
    by (simp add: mult.commute)
  show ?thesis
    unfolding form decode_ewah_def Let_def append_assoc range
    using lens by (simp add: vals sl body dec BITS_PER_WORD_def)
qed

interpretation ewah: prefix_codec encode_ewah decode_ewah "\<lambda>bm. bm" ewah_fits
  by unfold_locales (rule decode_encode_ewah)

section \<open>What decoding guarantees\<close>

lemma no_panic_decode_words: "no_panic (decode_words c expected p out)"
proof (induction c expected p out rule: decode_words.induct)
  case (1 c expected p out)
  show ?case
    by (subst decode_words.simps)
       (intro no_panic_intros no_panic_ok_or "1.IH"; simp split: option.splits)
qed

lemma masked_positions:
  assumes "ws \<noteq> []" "0 < m" "m < 64"
  shows "word_positions (butlast ws @ [last ws AND (2 ^ m - 1)])
    = {p \<in> word_positions ws. p < 64 * (length ws - 1) + m}"
proof -
  obtain xs w where ws: "ws = xs @ [w]"
    using assms(1) by (metis append_butlast_last_id)
  have "(2 ^ m - 1 :: u64) = Bit_Operations.mask m"
    by (simp add: mask_eq_exp_minus_1)
  then have b: "bit (w AND (2 ^ m - 1)) i \<longleftrightarrow> bit w i \<and> i < m" for i
    using assms(3) by (auto simp: bit_and_iff bit_mask_iff possible_bit_word)
  have "p div 64 = length xs \<Longrightarrow> p mod 64 < m \<longleftrightarrow> p < 64 * length xs + m" for p :: nat
    by (metis add_less_cancel_left div_mult_mod_eq mult.commute)
  moreover have "p < 64 * length xs + m" if "p \<in> word_positions xs" for p
    using positions_bound [of xs] that by auto
  ultimately show ?thesis
    unfolding ws by (auto simp: positions_append b)
qed

lemma decode_ewah_accepts:
  assumes "decode_ewah bs = Inr (bm, n)"
  shows "12 \<le> n \<and> n \<le> length bs
    \<and> length (words bm) = (unat (from_be32 (take 4 bs)) + 63) div 64
    \<and> (\<forall>p \<in> positions bm. p < unat (from_be32 (take 4 bs)))"
proof -
  let ?sz = "unat (from_be32 (take 4 bs))"
  obtain out where n: "12 \<le> n" "n \<le> length bs"
    and out: "length out = (?sz + 63) div 64"
    and bm: "words bm = (if ?sz mod 64 \<noteq> 0 \<and> out \<noteq> []
          then butlast out @ [last out AND (2 ^ (?sz mod 64) - 1)] else out)"
  proof -
    obtain out where "12 \<le> n" "n \<le> length bs" "length out = (?sz + 63) div 64"
      "(\<lparr>words = (if ?sz mod 64 \<noteq> 0 \<and> out \<noteq> []
          then butlast out @ [last out AND (push_bit (?sz mod 64) 1 - 1)] else out)\<rparr> :: ewah_bitmap) = bm"
      using assms unfolding decode_ewah_def Let_def ebind_eq_Inr ok_or_eq_Inr BITS_PER_WORD_def
      by (clarsimp simp: get_range_eq_Some if_fail_eq_Inr ebind_eq_Inr slice_eq_Inr add.commute)
    then show thesis
      by (intro that) auto
  qed
  have "p < ?sz" if "p \<in> positions bm" for p
  proof (cases "?sz mod 64 \<noteq> 0 \<and> out \<noteq> []")
    case True
    then have "p < 64 * (length out - 1) + ?sz mod 64"
      using that masked_positions [of out "?sz mod 64"] bm by simp
    moreover have "length out = ?sz div 64 + 1"
    proof -
      have "(?sz mod 64 + 63) div 64 = 1"
        by (rule div_nat_eqI) (use True in auto)
      then show ?thesis
        using out by (simp add: div_add1_eq [of ?sz 63 64])
    qed
    ultimately show ?thesis
      using div_mult_mod_eq [of ?sz 64] by simp
  next
    case False
    then have "64 * length out \<le> ?sz \<or> out = []"
      using out by auto
    then show ?thesis
      using that bm False positions_bound [of out] by auto
  qed
  moreover have "length (words bm) = length out"
    using bm by simp
  ultimately show ?thesis
    using n out by simp
qed

lemma no_panic_decode_ewah: "no_panic (decode_ewah bs)"
  unfolding decode_ewah_def Let_def
  by (intro no_panic_intros no_panic_ok_or no_panic_decode_words) (auto simp: slice_ok)

lemma length_set_bit_in: "length ws \<le> 2 ^ 26 \<Longrightarrow> length (set_bit_in ws p) \<le> 2 ^ 26"
proof -
  have "unat p div 64 < 2 ^ 26"
    using unat_bound [of p] by simp
  then show "length ws \<le> 2 ^ 26 \<Longrightarrow> length (set_bit_in ws p) \<le> 2 ^ 26"
    by (simp add: set_bit_in_def BITS_PER_WORD_def Let_def)
qed

lemma length_from_set_bits: "length (words (from_set_bits ps)) \<le> 2 ^ 26"
proof -
  have "length ws \<le> 2 ^ 26 \<Longrightarrow> length (foldl set_bit_in ws ps) \<le> 2 ^ 26" for ws
    using length_set_bit_in by (induction ps arbitrary: ws) simp_all
  then show ?thesis
    by (simp add: from_set_bits_def)
qed

lemma length_union: "length (words (union_in_place a b)) = max (length (words a)) (length (words b))"
  by (simp add: union_in_place_def Let_def)

lemma inj_unat: "inj (unat :: u32 \<Rightarrow> nat)"
  by (rule injI) (rule unsigned_word_eqI)

lemma sorted_map_unat: "sorted (map unat ps) \<longleftrightarrow> sorted (ps :: u32 list)"
proof -
  have "((\<le>) :: u32 \<Rightarrow> u32 \<Rightarrow> bool) = (\<lambda>x y. unat x \<le> unat y)"
    by (simp add: fun_eq_iff word_le_nat_alt)
  then show ?thesis
    by (simp add: sorted_wrt_map)
qed

lemma set_bits_of_set:
  assumes "length (words bm) \<le> 2 ^ 26" "positions bm = unat ` S" "finite (S :: u32 set)"
  shows "set_bits bm = sorted_list_of_set S"
proof -
  have m: "map unat (set_bits bm) = sorted_list_of_set (unat ` S)"
    using set_bits_sorted_list [OF assms(1)] assms(2) by simp
  have "sorted (map unat (set_bits bm))" "distinct (map unat (set_bits bm))"
    "set (map unat (set_bits bm)) = unat ` S"
    unfolding m using assms(3) by simp_all
  then have "sorted (set_bits bm)" "distinct (set_bits bm)" "set (set_bits bm) = S"
    by (simp_all add: sorted_map_unat distinct_map inj_image_eq_iff [OF inj_unat])
  then show ?thesis
    by (metis sorted_list_of_set.idem_if_sorted_distinct)
qed

lemma card_positions_word: "card {p. p div 64 = i \<and> bit (w :: u64) (p mod 64)} = count_ones w"
proof -
  have "{p. p div 64 = i \<and> bit w (p mod 64)} = (\<lambda>b. i * 64 + b) ` set (filter (bit w) [0..<64])"
    by (force simp: image_iff)
  also have "card \<dots> = card (set (filter (bit w) [0..<64]))"
    by (rule card_image) (simp add: inj_on_def)
  also have "\<dots> = count_ones w"
    by (simp only: count_ones_def distinct_card distinct_filter distinct_upt)
  finally show ?thesis .
qed

lemma count_positions: "sum_list (map count_ones ws) = card (word_positions ws)"
proof (induction ws rule: rev_induct)
  case (snoc w ws)
  have "finite (word_positions ws)"
    using positions_bound finite_subset by blast
  moreover have "finite {p. p div 64 = length ws \<and> bit w (p mod 64)}"
    by (rule finite_subset [of _ "{..<64 * length ws + 64}"]) auto
  moreover have "word_positions ws \<inter> {p. p div 64 = length ws \<and> bit w (p mod 64)} = {}"
    by (auto simp: word_positions_def)
  ultimately show ?case
    using snoc by (simp add: positions_append card_Un_disjoint card_positions_word)
qed (simp add: word_positions_def)

section \<open>Properties\<close>

text \<open>C22: Bitmaps written one after the other with \<open>encode_ewah\<close>, as a \<open>.bitmap\<close> file
  concatenates them, are read back by repeated \<open>decode_ewah\<close> word for word, each consuming
  exactly its own stream. Every bitmap must have fewer than \<open>2 ^ 26\<close> words (the bit size is a
  \<open>u32\<close> field).\<close>

theorem ewah_round_trip:
  assumes "list_all ewah_fits bms"
  shows "read_frames decode_ewah (length bms) (concat (map encode_ewah bms) @ rest) = Inr (bms, rest)"
  using ewah.read_frames_concat [OF assms, of rest] by simp

theorem ewah_round_trip_witness:
  "read_frames decode_ewah 2
     (concat (map encode_ewah [from_words [0, - 1, 5, 6], from_words []]) @ [1, 2])
     = Inr ([from_words [0, - 1, 5, 6], from_words []], [1, 2])"
proof -
  let ?bms = "[from_words [0, - 1, 5, 6], from_words []]"
  have "list_all ewah_fits ?bms"
    by (simp add: ewah_fits_def from_words_def)
  moreover have "length ?bms = 2"
    by simp
  ultimately show ?thesis
    using ewah_round_trip [of ?bms "[1, 2]"] by (simp only:)
qed

text \<open>\<open>decode_ewah\<close> never panics; what it accepts consumed at least the 12 framing bytes
  and at most the input, decompressed to exactly \<open>ceil(bit size / 64)\<close> words, and has no
  position at or beyond the bit size of its header; the bounded decoder accepts the same streams,
  less those whose bit size exceeds the caller's limit.\<close>

lemma decode_ewah_sound:
  "no_panic (decode_ewah bs) \<and>
   (decode_ewah bs = Inr (bm, n) \<longrightarrow>
      12 \<le> n \<and> n \<le> length bs
      \<and> length (words bm) = (unat (from_be32 (take 4 bs)) + 63) div 64
      \<and> (\<forall>p. get_bit bm p \<longrightarrow> unat p < unat (from_be32 (take 4 bs)))) \<and>
   (decode_ewah_bounded bs limit = Inr (bm, n) \<longleftrightarrow>
      decode_ewah bs = Inr (bm, n) \<and> unat (from_be32 (take 4 bs)) \<le> limit)"
  using no_panic_decode_ewah [of bs] decode_ewah_accepts [of bs bm n]
  by (auto simp: get_bit_positions decode_ewah_bounded_def decode_ewah_def ebind_eq_Inr get_range_eq_Some
      split: if_splits)

lemma decode_ewah_sound_instance:
  "no_panic (decode_ewah (encode_ewah (from_words [7])))
   \<and> length (words (from_words [7])) = (64 + 63) div 64 \<and> get_bit (from_words [7]) 2 \<and> unat (2 :: u32) < 64"
proof -
  let ?bm = "from_words [7]"
  have "decode_ewah (encode_ewah ?bm) = Inr (?bm, length (encode_ewah ?bm))"
    using decode_encode_ewah [of ?bm "[]"] by (simp add: ewah_fits_def from_words_def)
  moreover have "from_be32 (take 4 (encode_ewah ?bm)) = 64"
    by (simp add: encode_ewah_def from_words_def BITS_PER_WORD_def split: prod.split)
  moreover have "get_bit ?bm 2"
    by (simp add: get_bit_def from_words_def BITS_PER_WORD_def)
  ultimately show ?thesis
    using decode_ewah_sound [of "encode_ewah ?bm" ?bm "length (encode_ewah ?bm)"] by simp
qed

text \<open>The bitmap operations are those of finite sets of positions: \<open>set_bits\<close> of a bitmap
  built from any list of positions enumerates exactly these positions in ascending order, without
  duplicates; \<open>get\<close> is membership, \<open>count\<close> the cardinality, and
  \<open>union_in_place\<close> the union.\<close>

lemma ewah_is_a_set:
  "set_bits (from_set_bits ps) = sorted_list_of_set (set ps)
   \<and> (get_bit (from_set_bits ps) p \<longleftrightarrow> p \<in> set ps)
   \<and> ewah_count (from_set_bits ps) = card (set ps)
   \<and> set_bits (union_in_place (from_set_bits ps) (from_set_bits qs)) = sorted_list_of_set (set ps \<union> set qs)
   \<and> (get_bit (union_in_place a b) p \<longleftrightarrow> get_bit a p \<or> get_bit b p)"
proof -
  have fin: "finite (set xs)" for xs :: "u32 list"
    by simp
  have count: "ewah_count (from_set_bits ps) = card (unat ` set ps)"
    unfolding ewah_count_def count_positions positions_from_set_bits ..
  have "card (unat ` set ps) = card (set ps)"
    by (rule card_image) (rule inj_on_subset [OF inj_unat subset_UNIV])
  moreover have "set_bits (from_set_bits ps) = sorted_list_of_set (set ps)"
    by (rule set_bits_of_set)
       (simp_all only: length_from_set_bits positions_from_set_bits fin)
  moreover have "set_bits (union_in_place (from_set_bits ps) (from_set_bits qs))
      = sorted_list_of_set (set ps \<union> set qs)"
    by (rule set_bits_of_set)
       (simp_all only: length_union positions_union_in_place positions_from_set_bits image_Un
          max.bounded_iff length_from_set_bits finite_Un fin simp_thms)
  ultimately show ?thesis
    using count
    by (simp add: get_bit_positions positions_from_set_bits positions_union_in_place
        inj_image_mem_iff [OF inj_unat])
qed

end
