(* ===== verification/Git_Tree.thy ===== *)
theory Git_Tree
  imports Git_Object
begin

text \<open>
  Tree objects, \<open>gitana-object/src/tree.rs\<close>, with the entry names of
  \<open>gitana-path/src/git_tree_entry_name.rs\<close>: parsing, the structural validation of
  untrusted trees, and the canonical encoding.
\<close>

section \<open>Entries\<close>

text \<open>A \<open>GitTreeEntryName\<close> is any byte string without a NUL; its \<open>from_bytes\<close> is the
  only constructor and \<open>GitPathError::Nul\<close> its only error here.\<close>

datatype git_path_error = Nul

definition entry_name_from_bytes :: "bytes \<Rightarrow> (git_path_error, bytes) res" where
  "entry_name_from_bytes bs = (if 0 \<in> set bs then Inl (Err Nul) else Inr bs)"

record tree_entry =
  mode :: bytes
  name :: bytes
  entry_id :: object_id

definition DIR_MODE :: bytes where "DIR_MODE = ascii ''40000''"

definition STANDARD_MODES :: "bytes list" where
  "STANDARD_MODES =
     [ascii ''100644'', ascii ''100755'', ascii ''120000'', ascii ''40000'', ascii ''160000'']"

text \<open>The bytes before the first occurrence of \<open>c\<close> and the bytes after it.\<close>

definition take_until :: "byte \<Rightarrow> bytes \<Rightarrow> (bytes \<times> bytes) ores" where
  "take_until c rest =
     ebind (ok_or (position (\<lambda>b. b = c) rest) MalformedHeader) (\<lambda>i.
       Inr (take i rest, drop (i + 1) rest))"

lemma take_until_Inr:
  "take_until c rest = Inr (a, r) \<longleftrightarrow> rest = a @ c # r \<and> c \<notin> set a"
proof
  assume "take_until c rest = Inr (a, r)"
  then obtain i where i: "position (\<lambda>b. b = c) rest = Some i" "a = take i rest" "r = drop (i + 1) rest"
    by (auto simp: take_until_def ebind_eq_Inr)
  then have "i < length rest" "rest ! i = c" "\<forall>j < i. rest ! j \<noteq> c"
    by (auto simp: position_Some)
  then show "rest = a @ c # r \<and> c \<notin> set a"
    using i id_take_nth_drop [of i rest] by (auto simp: in_set_conv_nth)
next
  assume "rest = a @ c # r \<and> c \<notin> set a"
  then show "take_until c rest = Inr (a, r)"
    using position_append_first [of a "\<lambda>b. b = c" c r] by (force simp: take_until_def)
qed

lemma take_until_shorter: "take_until c rest = Inr (a, r) \<Longrightarrow> length r < length rest"
  by (auto simp: take_until_Inr)

lemma no_panic_take_until [simp]: "no_panic (take_until c rest)"
  unfolding take_until_def by (intro no_panic_intros no_panic_ok_or) simp

section \<open>Parsing\<close>

definition parse_tree_entry :: "hash_alg \<Rightarrow> bytes \<Rightarrow> (tree_entry \<times> bytes) ores" where
  "parse_tree_entry H rest =
     ebind (take_until 0x20 rest) (\<lambda>(mode_bytes, rest).
     ebind (as_utf8 mode_bytes) (\<lambda>mode.
     ebind (take_until 0 rest) (\<lambda>(name_bytes, rest).
     ebind (map_err InvalidTreeName (entry_name_from_bytes name_bytes)) (\<lambda>name.
       if length rest < raw_len H then fail_with MalformedHeader
       else ebind (from_bytes H (take (raw_len H) rest)) (\<lambda>i.
         Inr (\<lparr>mode = mode, name = name, entry_id = i\<rparr>, drop (raw_len H) rest))))))"

lemma parse_tree_entry_shorter: "parse_tree_entry H rest = Inr (e, r) \<Longrightarrow> length r < length rest"
  by (auto simp: parse_tree_entry_def ebind_eq_Inr take_until_Inr split: if_splits)

function parse_tree :: "hash_alg \<Rightarrow> bytes \<Rightarrow> tree_entry list ores" where
  "parse_tree H rest =
     (if rest = [] then Inr []
      else ebind (parse_tree_entry H rest) (\<lambda>(entry, rest).
           ebind (parse_tree H rest) (\<lambda>entries. Inr (entry # entries))))"
  by pat_completeness auto
termination
  by (relation "measure (\<lambda>(_, rest). length rest)") (auto simp: parse_tree_entry_shorter)

declare parse_tree.simps [simp del]

section \<open>Validation\<close>

function validate_loop :: "hash_alg \<Rightarrow> bytes set \<Rightarrow> bytes option \<Rightarrow> bytes \<Rightarrow> unit ores" where
  "validate_loop H names previous_key rest =
     (if rest = [] then Inr ()
      else ebind (take_until 0x20 rest) (\<lambda>(mode, rest).
        if mode \<notin> set STANDARD_MODES then fail_with InvalidTreeMode
        else ebind (take_until 0 rest) (\<lambda>(name, rest).
          if name = [] \<or> name = ascii ''.'' \<or> name = ascii ''..'' \<or> 0x2F \<in> set name
          then fail_with InvalidTreeName
          else if name \<in> names then fail_with DuplicateTreeEntry
          else if length rest < raw_len H then fail_with MalformedHeader
          else if \<forall>b \<in> set (take (raw_len H) rest). b = 0 then fail_with NullTreeEntry
          else
            let key = (if mode = DIR_MODE then name @ [0x2F] else name)
            in if (case previous_key of Some previous \<Rightarrow> key \<le> previous | None \<Rightarrow> False)
               then fail_with TreeNotSorted
               else validate_loop H (insert name names) (Some key) (drop (raw_len H) rest))))"
  by pat_completeness auto
termination
  by (relation "measure (\<lambda>(_, _, _, rest). length rest)") (auto simp: take_until_Inr)

declare validate_loop.simps [simp del]

definition validate_tree_structure :: "hash_alg \<Rightarrow> bytes \<Rightarrow> unit ores" where
  "validate_tree_structure H payload = validate_loop H {} None payload"

section \<open>Encoding\<close>

definition tree_sort_key :: "tree_entry \<Rightarrow> bytes" where
  "tree_sort_key entry = (if mode entry = DIR_MODE then name entry @ [0x2F] else name entry)"

definition encode_entry :: "tree_entry \<Rightarrow> bytes" where
  "encode_entry entry = mode entry @ [0x20] @ name entry @ [0] @ id_bytes (entry_id entry)"

text \<open>\<open>sort_by_cached_key\<close> is a stable sort, as is \<^const>\<open>sort_key\<close>.\<close>

definition encode_tree :: "tree_entry list \<Rightarrow> bytes" where
  "encode_tree entries = concat (map encode_entry (sort_key tree_sort_key entries))"

section \<open>Parsing inverts encoding\<close>

text \<open>What a \<open>TreeEntry\<close> value can hold: a UTF-8 mode, here without a space, a name
  without NUL, and an id of the algorithm.\<close>

definition entry_ok :: "hash_alg \<Rightarrow> tree_entry \<Rightarrow> bool" where
  "entry_ok H e \<longleftrightarrow> utf8_valid (mode e) \<and> 0x20 \<notin> set (mode e) \<and> 0 \<notin> set (name e) \<and> id_ok H (entry_id e)"

lemma parse_tree_entry_Inr:
  "parse_tree_entry H rest = Inr (e, r) \<longleftrightarrow> rest = encode_entry e @ r \<and> entry_ok H e"
proof
  assume "parse_tree_entry H rest = Inr (e, r)"
  then show "rest = encode_entry e @ r \<and> entry_ok H e"
    by (auto simp: parse_tree_entry_def ebind_eq_Inr take_until_Inr entry_name_from_bytes_def
        from_bytes_Inr encode_entry_def entry_ok_def id_ok_def split: if_splits)
next
  assume r: "rest = encode_entry e @ r \<and> entry_ok H e"
  then have "take_until 0x20 rest = Inr (mode e, name e @ [0] @ id_bytes (entry_id e) @ r)"
    "take_until 0 (name e @ [0] @ id_bytes (entry_id e) @ r) = Inr (name e, id_bytes (entry_id e) @ r)"
    by (simp_all add: take_until_Inr entry_ok_def encode_entry_def)
  with r show "parse_tree_entry H rest = Inr (e, r)"
    by (simp add: parse_tree_entry_def entry_name_from_bytes_def entry_ok_def id_ok_def from_bytes_def)
qed

lemma encode_entry_not_Nil [simp]: "encode_entry e \<noteq> []"
  by (simp add: encode_entry_def)

lemma parse_tree_Inr:
  "parse_tree H p = Inr es \<longleftrightarrow> p = concat (map encode_entry es) \<and> (\<forall>e \<in> set es. entry_ok H e)"
proof (induction es arbitrary: p)
  case Nil
  show ?case
    by (subst parse_tree.simps) (auto simp: ebind_eq_Inr)
next
  case (Cons e es)
  show ?case
    by (subst parse_tree.simps) (auto simp: ebind_eq_Inr parse_tree_entry_Inr Cons.IH)
qed

lemma no_panic_parse_tree_entry: "no_panic (parse_tree_entry H rest)"
  unfolding parse_tree_entry_def
  by (intro no_panic_intros no_panic_take_until no_panic_as_utf8 no_panic_from_bytes)
     (auto simp: entry_name_from_bytes_def)

lemma no_panic_parse_tree: "no_panic (parse_tree H p)"
proof (induction H p rule: parse_tree.induct)
  case (1 H p)
  show ?case
    by (subst parse_tree.simps)
       (auto intro!: no_panic_ebind no_panic_parse_tree_entry "1.IH")
qed

section \<open>What validation accepts\<close>

definition entry_strict :: "hash_alg \<Rightarrow> tree_entry \<Rightarrow> bool" where
  "entry_strict H e \<longleftrightarrow>
     mode e \<in> set STANDARD_MODES \<and> name e \<notin> {[], ascii ''.'', ascii ''..''}
     \<and> 0x2F \<notin> set (name e) \<and> 0 \<notin> set (name e)
     \<and> id_ok H (entry_id e) \<and> (\<exists>b \<in> set (id_bytes (entry_id e)). b \<noteq> 0)"

lemma standard_modes_no_space: "m \<in> set STANDARD_MODES \<Longrightarrow> 0x20 \<notin> set m \<and> utf8_valid m"
  by (auto simp: STANDARD_MODES_def utf8_valid.simps)

lemma entry_strict_ok: "entry_strict H e \<Longrightarrow> entry_ok H e"
  using standard_modes_no_space by (auto simp: entry_strict_def entry_ok_def)

lemma case_option_False: "(case v of Some x \<Rightarrow> P x | None \<Rightarrow> False) \<longleftrightarrow> (\<exists>x. v = Some x \<and> P x)"
  by (cases v) simp_all

lemma validate_step:
  "validate_loop H names prev rest = Inr () \<longleftrightarrow> rest = [] \<or>
     (\<exists>e r. rest = encode_entry e @ r \<and> entry_strict H e \<and> name e \<notin> names
        \<and> (\<forall>k. prev = Some k \<longrightarrow> k < tree_sort_key e)
        \<and> validate_loop H (insert (name e) names) (Some (tree_sort_key e)) r = Inr ())"
  (is "?L \<longleftrightarrow> rest = [] \<or> ?R")
proof (cases "rest = []")
  case True
  then show ?thesis
    by (simp add: validate_loop.simps)
next
  case False
  have "?R" if L: ?L
  proof -
    note unf = validate_loop.simps [of H names prev rest] Let_def if_fail_eq_Inr case_option_False
    obtain m r1 where m: "take_until 0x20 rest = Inr (m, r1)"
      using L False by (cases "take_until 0x20 rest") (auto simp: unf)
    have std: "m \<in> set STANDARD_MODES"
      by (rule ccontr) (use L False m in \<open>simp add: unf\<close>)
    obtain n r where n: "take_until 0 r1 = Inr (n, r)"
      using L False m std by (cases "take_until 0 r1") (auto simp: unf)
    let ?k = "if m = DIR_MODE then n @ [0x2F] else n"
    have conds: "n \<noteq> [] \<and> n \<noteq> ascii ''.'' \<and> n \<noteq> ascii ''..'' \<and> 0x2F \<notin> set n" "n \<notin> names"
      "raw_len H \<le> length r" "\<exists>b \<in> set (take (raw_len H) r). b \<noteq> 0" "\<forall>k. prev = Some k \<longrightarrow> k < ?k"
      "validate_loop H (insert n names) (Some ?k) (drop (raw_len H) r) = Inr ()"
      using L False m std n by (simp_all add: unf not_less not_le)
    define e where "e = \<lparr>mode = m, name = n, entry_id = ObjectId (take (raw_len H) r)\<rparr>"
    have "rest = encode_entry e @ drop (raw_len H) r"
      using m n by (simp add: take_until_Inr encode_entry_def e_def)
    moreover have "entry_strict H e"
      using std n conds by (simp add: entry_strict_def e_def id_ok_def take_until_Inr)
    moreover have "tree_sort_key e = (if m = DIR_MODE then n @ [0x2F] else n)" "name e = n"
      by (simp_all add: tree_sort_key_def e_def)
    ultimately show ?R
      using conds by (intro exI [of _ e] exI [of _ "drop (raw_len H) r"] conjI) (simp_all only: not_False_eq_True)
  qed
  moreover have "?L" if ?R
  proof -
    from that obtain e r where rest: "rest = encode_entry e @ r" and e: "entry_strict H e" "name e \<notin> names"
      and k: "\<forall>k. prev = Some k \<longrightarrow> k < tree_sort_key e"
      and rec: "validate_loop H (insert (name e) names) (Some (tree_sort_key e)) r = Inr ()"
      by blast
    have t: "take_until 0x20 rest = Inr (mode e, name e @ [0] @ id_bytes (entry_id e) @ r)"
      "take_until 0 (name e @ [0] @ id_bytes (entry_id e) @ r) = Inr (name e, id_bytes (entry_id e) @ r)"
      using entry_strict_ok [OF e(1)] by (simp_all add: rest take_until_Inr entry_ok_def encode_entry_def)
    show ?L
      unfolding validate_loop.simps [of H names prev rest] Let_def
      using False e t k rec
      by (simp add: entry_strict_def id_ok_def tree_sort_key_def case_option_False not_le del: ascii_Cons
          split: if_splits)
  qed
  ultimately show ?thesis
    using False by blast
qed

lemma validate_loop_Inr:
  "validate_loop H names prev p = Inr () \<longleftrightarrow>
     (\<exists>es. p = concat (map encode_entry es) \<and> (\<forall>e \<in> set es. entry_strict H e)
        \<and> distinct (map name es) \<and> set (map name es) \<inter> names = {}
        \<and> sorted_wrt (<) (case prev of None \<Rightarrow> map tree_sort_key es
             | Some k \<Rightarrow> k # map tree_sort_key es))"
proof (induction "length p" arbitrary: names prev p rule: less_induct)
  case less
  show ?case
  proof
    assume "validate_loop H names prev p = Inr ()"
    then consider "p = []" | e r where "p = encode_entry e @ r" "entry_strict H e" "name e \<notin> names"
      "\<forall>k. prev = Some k \<longrightarrow> k < tree_sort_key e"
      "validate_loop H (insert (name e) names) (Some (tree_sort_key e)) r = Inr ()"
      unfolding validate_step [of H names prev p] by blast
    then show "\<exists>es. p = concat (map encode_entry es) \<and> (\<forall>e \<in> set es. entry_strict H e)
        \<and> distinct (map name es) \<and> set (map name es) \<inter> names = {}
        \<and> sorted_wrt (<) (case prev of None \<Rightarrow> map tree_sort_key es
             | Some k \<Rightarrow> k # map tree_sort_key es)"
    proof cases
      case 1
      then show ?thesis
        by (intro exI [of _ "[]"]) (simp split: option.split)
    next
      case 2
      then have "length r < length p"
        by simp
      from less [OF this, of "insert (name e) names" "Some (tree_sort_key e)"] 2(5)
      obtain es where "r = concat (map encode_entry es)" "\<forall>e \<in> set es. entry_strict H e"
        "distinct (map name es)" "set (map name es) \<inter> insert (name e) names = {}"
        "sorted_wrt (<) (tree_sort_key e # map tree_sort_key es)"
        by auto
      with 2 show ?thesis
        by (intro exI [of _ "e # es"]) (auto split: option.split)
    qed
  next
    assume "\<exists>es. p = concat (map encode_entry es) \<and> (\<forall>e \<in> set es. entry_strict H e)
        \<and> distinct (map name es) \<and> set (map name es) \<inter> names = {}
        \<and> sorted_wrt (<) (case prev of None \<Rightarrow> map tree_sort_key es
             | Some k \<Rightarrow> k # map tree_sort_key es)"
    then obtain es where es: "p = concat (map encode_entry es)" "\<forall>e \<in> set es. entry_strict H e"
        "distinct (map name es)" "set (map name es) \<inter> names = {}"
        "sorted_wrt (<) (case prev of None \<Rightarrow> map tree_sort_key es
             | Some k \<Rightarrow> k # map tree_sort_key es)"
      by blast
    show "validate_loop H names prev p = Inr ()"
    proof (cases es)
      case Nil
      then show ?thesis
        using es validate_step [of H names prev p] by simp
    next
      case (Cons e es')
      let ?r = "concat (map encode_entry es')"
      have "length ?r < length p"
        using es(1) Cons by simp
      then have "validate_loop H (insert (name e) names) (Some (tree_sort_key e)) ?r = Inr ()"
        by (subst less) (use es Cons in \<open>auto intro!: exI [of _ es'] split: option.splits\<close>)
      moreover have "\<forall>k. prev = Some k \<longrightarrow> k < tree_sort_key e"
        using es(5) Cons by auto
      ultimately show ?thesis
        unfolding validate_step [of H names prev p] using es Cons by auto
    qed
  qed
qed

lemma no_panic_validate_loop: "no_panic (validate_loop H names prev p)"
proof (induction "length p" arbitrary: names prev p rule: less_induct)
  case less
  show ?case
    by (subst validate_loop.simps)
       (auto simp: Let_def take_until_Inr intro!: no_panic_ebind less less_SucI
          less_imp_diff_less split: option.split)
qed

text \<open>Distinct names without slashes have distinct sort keys, so sorting them is strict.\<close>

lemma sort_key_name:
  "entry_strict H e \<Longrightarrow> entry_strict H f \<Longrightarrow> tree_sort_key e = tree_sort_key f \<Longrightarrow> name e = name f"
  by (auto simp: tree_sort_key_def entry_strict_def split: if_splits)
     (metis in_set_conv_decomp)+

lemma sort_key_strict:
  assumes "\<forall>e \<in> set es. entry_strict H e" "distinct (map name es)"
  shows "sorted_wrt (<) (map tree_sort_key (sort_key tree_sort_key es))"
proof -
  have "inj_on tree_sort_key (set es)"
    using assms sort_key_name by (metis (no_types, lifting) distinct_map inj_on_def)
  then have "distinct (map tree_sort_key (sort_key tree_sort_key es))"
    using assms(2) by (simp add: distinct_map)
  then show ?thesis
    by (simp add: strict_sorted_iff)
qed

lemma sort_key_sorted: "sorted_wrt (<) (map f xs) \<Longrightarrow> sort_key f xs = xs"
  by (simp add: sorted_sort_id strict_sorted_iff sort_key_id_if_sorted)

section \<open>Properties\<close>

text \<open>C21: Encoding any entries (UTF-8 modes without a space, names without NUL, ids of the
  algorithm's width) and parsing the payload gives back the same entries, in git's order: sorted by
  name with a directory compared as if its name ended in a slash, equal keys in their original
  order.\<close>

theorem tree_round_trip:
  assumes "\<forall>e \<in> set es. entry_ok H e"
  shows "parse_tree H (encode_tree es) = Inr (sort_key tree_sort_key es)"
  using assms by (simp add: parse_tree_Inr encode_tree_def)

theorem tree_round_trip_witness:
  "parse_tree (sha1 (sum_digest 20)) (encode_tree
     [\<lparr>mode = DIR_MODE, name = ascii ''a'', entry_id = ObjectId (replicate 20 1)\<rparr>,
      \<lparr>mode = ascii ''100644'', name = ascii ''a.c'', entry_id = ObjectId (replicate 20 2)\<rparr>])
   = Inr [\<lparr>mode = ascii ''100644'', name = ascii ''a.c'', entry_id = ObjectId (replicate 20 2)\<rparr>,
          \<lparr>mode = DIR_MODE, name = ascii ''a'', entry_id = ObjectId (replicate 20 1)\<rparr>]"
proof -
  let ?a = "\<lparr>mode = DIR_MODE, name = ascii ''a'', entry_id = ObjectId (replicate 20 1)\<rparr>"
  let ?b = "\<lparr>mode = ascii ''100644'', name = ascii ''a.c'', entry_id = ObjectId (replicate 20 2)\<rparr>"
  have "\<forall>e \<in> set [?a, ?b]. entry_ok (sha1 (sum_digest 20)) e"
    by (simp add: entry_ok_def DIR_MODE_def utf8_valid.simps id_ok_def sha1_def)
  moreover have "sort_key tree_sort_key [?a, ?b] = [?b, ?a]"
    by (simp add: tree_sort_key_def DIR_MODE_def)
  ultimately show ?thesis
    using tree_round_trip [of "[?a, ?b]" "sha1 (sum_digest 20)"] by simp
qed

text \<open>C20: \<open>validate_tree_structure\<close> accepts a payload exactly when it parses to entries
  with standard modes, single-component names other than dot and dot-dot, non-null ids, no repeated
  name, and strictly ascending sort keys; neither it nor the parser ever panics.\<close>

theorem validate_tree_structure_iff:
  "(validate_tree_structure H p = Inr () \<longleftrightarrow>
     (\<exists>es. parse_tree H p = Inr es \<and> (\<forall>e \<in> set es. entry_strict H e)
        \<and> distinct (map name es) \<and> sorted_wrt (<) (map tree_sort_key es)))
   \<and> no_panic (validate_tree_structure H p) \<and> no_panic (parse_tree H p)"
  unfolding validate_tree_structure_def validate_loop_Inr parse_tree_Inr
  using entry_strict_ok [of H] no_panic_validate_loop no_panic_parse_tree by auto

theorem validate_tree_structure_iff_witness:
  "let H = sha1 (sum_digest 20);
       e = \<lparr>mode = DIR_MODE, name = ascii ''a'', entry_id = ObjectId (replicate 20 1)\<rparr>
   in validate_tree_structure H (encode_entry e) = Inr ()
      \<and> validate_tree_structure H (encode_entry e @ encode_entry e) \<noteq> Inr ()"
proof -
  let ?H = "sha1 (sum_digest 20)"
  let ?e = "\<lparr>mode = DIR_MODE, name = ascii ''a'', entry_id = ObjectId (replicate 20 1)\<rparr>"
  have e: "entry_strict ?H ?e"
    by (simp add: entry_strict_def DIR_MODE_def STANDARD_MODES_def id_ok_def sha1_def)
  then have p: "parse_tree ?H (encode_entry ?e) = Inr [?e]"
    "parse_tree ?H (encode_entry ?e @ encode_entry ?e) = Inr [?e, ?e]"
    by (simp_all add: parse_tree_Inr entry_strict_ok)
  show ?thesis
    using validate_tree_structure_iff [of ?H "encode_entry ?e"]
      validate_tree_structure_iff [of ?H "encode_entry ?e @ encode_entry ?e"] e
    unfolding p by (simp add: Let_def del: ascii_Cons)
qed

text \<open>Validated trees are canonical: parsing one and encoding its entries again reproduces
  the payload byte for byte, so its object id is kept. Conversely, the encoding of strict entries with
  distinct names, in whatever order they are given, is accepted.\<close>

lemma validated_tree_canonical:
  "(validate_tree_structure H p = Inr () \<longrightarrow>
      (\<exists>es. parse_tree H p = Inr es \<and> encode_tree es = p))
   \<and> ((\<forall>e \<in> set es. entry_strict H e) \<and> distinct (map name es)
       \<longrightarrow> validate_tree_structure H (encode_tree es) = Inr ())"
proof (intro conjI impI)
  assume "validate_tree_structure H p = Inr ()"
  then obtain fs where "p = concat (map encode_entry fs)" "\<forall>e \<in> set fs. entry_strict H e"
    "sorted_wrt (<) (map tree_sort_key fs)"
    by (auto simp: validate_tree_structure_def validate_loop_Inr)
  then show "\<exists>es. parse_tree H p = Inr es \<and> encode_tree es = p"
    by (intro exI [of _ fs]) (auto simp: parse_tree_Inr encode_tree_def sort_key_sorted entry_strict_ok)
next
  assume "(\<forall>e \<in> set es. entry_strict H e) \<and> distinct (map name es)"
  then show "validate_tree_structure H (encode_tree es) = Inr ()"
    unfolding validate_tree_structure_def validate_loop_Inr encode_tree_def
    by (intro exI [of _ "sort_key tree_sort_key es"])
       (use sort_key_strict [of es H] in \<open>auto simp: distinct_map\<close>)
qed

lemma validated_tree_canonical_instance:
  "let H = sha1 (sum_digest 20);
       es = [\<lparr>mode = DIR_MODE, name = ascii ''a'', entry_id = ObjectId (replicate 20 1)\<rparr>,
             \<lparr>mode = ascii ''100644'', name = ascii ''a.c'', entry_id = ObjectId (replicate 20 2)\<rparr>]
   in validate_tree_structure H (encode_tree es) = Inr ()
      \<and> (\<exists>fs. parse_tree H (encode_tree es) = Inr fs \<and> encode_tree fs = encode_tree es)"
proof -
  let ?a = "\<lparr>mode = DIR_MODE, name = ascii ''a'', entry_id = ObjectId (replicate 20 1)\<rparr>"
  let ?b = "\<lparr>mode = ascii ''100644'', name = ascii ''a.c'', entry_id = ObjectId (replicate 20 2)\<rparr>"
  have "\<forall>e \<in> set [?a, ?b]. entry_strict (sha1 (sum_digest 20)) e"
    by (simp add: entry_strict_def DIR_MODE_def STANDARD_MODES_def id_ok_def sha1_def)
  moreover have "distinct (map name [?a, ?b])"
    by simp
  ultimately show ?thesis
    using validated_tree_canonical [of "sha1 (sum_digest 20)" "encode_tree [?a, ?b]" "[?a, ?b]"]
    by (simp only: Let_def)
qed

end
