(* ===== verification/Git_Calendar.thy ===== *)
theory Git_Calendar
  imports Main
begin

text \<open>
  The civil calendar behind \<open>iso_date\<close>: \<open>civil_from_days\<close> of
  \<open>gitana-object/src/signature.rs\<close> against the proleptic Gregorian calendar.
\<close>

section \<open>Dates\<close>

text \<open>
  Rust's integer division truncates toward zero. The numbers are unbounded: for the day numbers that
  \<open>iso_date\<close> passes, an \<open>i64\<close> of seconds divided by 86400, no step leaves the range of an \<open>i64\<close>.
\<close>

definition tdiv :: "int \<Rightarrow> int \<Rightarrow> int" where
  "tdiv a b = sgn a * sgn b * (\<bar>a\<bar> div \<bar>b\<bar>)"

definition civil_from_days :: "int \<Rightarrow> int \<times> int \<times> int" where
  "civil_from_days z0 =
     (let z = z0 + 719468;
          era = tdiv (if 0 \<le> z then z else z - 146096) 146097;
          doe = z - era * 146097;
          yoe = tdiv (doe - tdiv doe 1460 + tdiv doe 36524 - tdiv doe 146096) 365;
          year = yoe + era * 400;
          doy = doe - (365 * yoe + tdiv yoe 4 - tdiv yoe 100);
          mp = tdiv (5 * doy + 2) 153;
          day = doy - tdiv (153 * mp + 2) 5 + 1;
          month = (if mp < 10 then mp + 3 else mp - 9)
      in (if month \<le> 2 then year + 1 else year, month, day))"

section \<open>The civil calendar\<close>

text \<open>The proleptic Gregorian calendar: leap years, month lengths, and the day number of a
  date counted with years that begin in March.\<close>

definition leap_year :: "int \<Rightarrow> bool" where
  "leap_year y \<longleftrightarrow> 4 dvd y \<and> (\<not> 100 dvd y \<or> 400 dvd y)"

definition days_in_month :: "int \<Rightarrow> int \<Rightarrow> int" where
  "days_in_month y m =
     (if m = 2 then (if leap_year y then 29 else 28) else if m \<in> {4, 6, 9, 11} then 30 else 31)"

definition days_before_march_year :: "int \<Rightarrow> int" where
  "days_before_march_year y = 365 * y + y div 4 - y div 100 + y div 400"

definition days_from_civil :: "int \<times> int \<times> int \<Rightarrow> int" where
  "days_from_civil = (\<lambda>(y, m, d).
     let y' = (if m \<le> 2 then y - 1 else y); mp = (m + 9) mod 12
     in days_before_march_year y' + (153 * mp + 2) div 5 + d - 1 - 719468)"

definition year_of_era :: "int \<Rightarrow> int" where
  "year_of_era doe = (doe - doe div 1460 + doe div 36524 - doe div 146096) div 365"

lemma year_of_era_table:
  "list_all (\<lambda>y. year_of_era (days_before_march_year y) = y
      \<and> year_of_era (days_before_march_year (y + 1) - 1) = y) [0..399]"
  by code_simp

definition month_of_day :: "int \<Rightarrow> int \<times> int" where
  "month_of_day doy =
     (let mp = (5 * doy + 2) div 153
      in (if mp < 10 then mp + 3 else mp - 9, doy - (153 * mp + 2) div 5 + 1))"

definition month_day_ok :: "int \<Rightarrow> bool" where
  "month_day_ok doy \<longleftrightarrow>
     (let (m, d) = month_of_day doy
      in 1 \<le> m \<and> m \<le> 12 \<and> 1 \<le> d
         \<and> d \<le> (if m = 2 then (if doy = 365 then 29 else 28) else if m = 4 \<or> m = 6 \<or> m = 9 \<or> m = 11 then 30 else 31)
         \<and> (153 * ((m + 9) mod 12) + 2) div 5 + d - 1 = doy)"

lemma month_of_day_table: "list_all month_day_ok [0..365]"
  by code_simp

lemma tdiv_nonneg [simp]: "0 \<le> a \<Longrightarrow> 0 < b \<Longrightarrow> tdiv a b = a div b"
  by (cases "a = 0") (simp_all add: tdiv_def)

lemma tdiv_era: "tdiv (if 0 \<le> z then z else z - 146096) 146097 = z div 146097"
proof (cases "0 \<le> z")
  case False
  have "z = 146097 * (z div 146097) + z mod 146097" "0 \<le> z mod 146097" "z mod 146097 < 146097"
    by simp_all
  then have "(146096 - z) div 146097 = - (z div 146097)"
    by (intro int_div_pos_eq [where r = "146096 - z mod 146097"]) linarith+
  with False show ?thesis
    by (simp add: tdiv_def)
qed simp

lemma div_step:
  assumes "0 < (k :: int)"
  shows "(y + 1) div k = y div k + (if k dvd y + 1 then 1 else 0)"
proof (cases "y mod k + 1 = k")
  case True
  have "y + 1 = k * (y div k) + (y mod k + 1)"
    by simp
  then have eq: "y + 1 = k * (y div k + 1)"
    unfolding True by (simp only: distrib_left mult_1_right)
  then have "k dvd y + 1" "(y + 1) div k = y div k + 1"
    using assms by (metis dvd_triv_left, metis nonzero_mult_div_cancel_left less_irrefl)
  then show ?thesis
    by simp
next
  case False
  have r: "0 \<le> y mod k" "y mod k < k" "y + 1 = k * (y div k) + (y mod k + 1)"
    using assms by simp_all
  have "(y + 1) div k = y div k"
    by (rule int_div_pos_eq [where r = "y mod k + 1"])
       (use r False in linarith)+
  moreover have "(y + 1) mod k = y mod k + 1"
    by (rule int_mod_pos_eq [where q = "y div k"])
       (use r False in linarith)+
  ultimately have "(y + 1) div k = y div k" "\<not> k dvd y + 1"
    using r(1) unfolding dvd_eq_mod_eq_0 by linarith+
  then show ?thesis
    by (simp only: if_False add_0_right)
qed

lemma leap_sum:
  fixes y a a' b b' c c' :: int
  assumes "C \<longrightarrow> B" "B \<longrightarrow> A"
    and "a' = a + (if A then 1 else 0)" "b' = b + (if B then 1 else 0)" "c' = c + (if C then 1 else 0)"
  shows "365 * (y + 1) + a' - b' + c' = 365 * y + a - b + c + (if A \<and> (\<not> B \<or> C) then 366 else 365)"
  unfolding assms(3-5) using assms(1,2) by (cases A; cases B; cases C) simp_all

lemma days_before_march_year_Suc:
  "days_before_march_year (y + 1) = days_before_march_year y + (if leap_year (y + 1) then 366 else 365)"
proof -
  have "400 dvd n \<Longrightarrow> 100 dvd n" "100 dvd n \<Longrightarrow> 4 dvd n" for n :: int
    using dvd_trans [of 100 400 n] dvd_trans [of 4 100 n] by simp_all
  then show ?thesis
    unfolding days_before_march_year_def leap_year_def
    by (intro leap_sum div_step impI) simp_all
qed

lemma diff_div_mono:
  assumes "0 < (k :: int)" "a \<le> b"
  shows "a - a div k \<le> b - b div k"
proof -
  have "b - a \<le> (b - a) * k"
    using mult_left_mono [of 1 k "b - a"] assms by simp
  then have "b div k \<le> (a + (b - a) * k) div k"
    using assms by (intro zdiv_mono1) simp_all
  also have "\<dots> = a div k + (b - a)"
    using assms by simp
  finally show ?thesis
    by simp
qed

lemma year_of_era_mono:
  assumes "a \<le> b"
  shows "year_of_era a \<le> year_of_era b"
proof -
  have q: "x div 146096 = x div 36524 div 4" for x :: int
    using zdiv_zmult2_eq [of 4 x 36524] by simp
  have "a - a div 1460 \<le> b - b div 1460"
    using assms by (intro diff_div_mono) simp_all
  moreover have "a div 36524 - a div 36524 div 4 \<le> b div 36524 - b div 36524 div 4"
    using assms by (intro diff_div_mono zdiv_mono1) simp_all
  ultimately have "(a - a div 1460) + (a div 36524 - a div 36524 div 4)
      \<le> (b - b div 1460) + (b div 36524 - b div 36524 div 4)"
    by (rule add_mono)
  then show ?thesis
    unfolding year_of_era_def q add_diff_eq by (rule zdiv_mono1) simp
qed

lemma march_year_exists:
  "0 \<le> doe \<Longrightarrow> doe < days_before_march_year (int n)
    \<Longrightarrow> \<exists>y. 0 \<le> y \<and> y < int n \<and> days_before_march_year y \<le> doe \<and> doe < days_before_march_year (y + 1)"
proof (induction n)
  case (Suc n)
  show ?case
  proof (cases "doe < days_before_march_year (int n)")
    case True
    then show ?thesis
      using Suc by force
  next
    case False
    then show ?thesis
      using Suc.prems by (intro exI [of _ "int n"]) (auto simp: add.commute)
  qed
qed (simp add: days_before_march_year_def)

lemma year_of_era_correct:
  assumes "0 \<le> doe" "doe < 146097"
  shows "0 \<le> year_of_era doe \<and> year_of_era doe < 400
    \<and> days_before_march_year (year_of_era doe) \<le> doe
    \<and> doe < days_before_march_year (year_of_era doe + 1)"
proof -
  obtain y where y: "0 \<le> y" "y < 400" "days_before_march_year y \<le> doe" "doe < days_before_march_year (y + 1)"
  proof -
    have "days_before_march_year (int 400) = 146097"
      by (simp add: days_before_march_year_def)
    then show thesis
      using march_year_exists [of doe 400] assms that by auto
  qed
  have "y \<in> set [0..399]"
    using y by simp
  then have t: "year_of_era (days_before_march_year y) = y"
    "year_of_era (days_before_march_year (y + 1) - 1) = y"
    using year_of_era_table unfolding list_all_iff by blast+
  have "0 \<le> days_before_march_year y"
    using y by (simp add: days_before_march_year_def)
  then have "year_of_era doe = y"
    using year_of_era_mono [of "days_before_march_year y" doe]
      year_of_era_mono [of doe "days_before_march_year (y + 1) - 1"] t y assms by simp
  then show ?thesis
    using y by simp
qed

text \<open>The date computed: \<open>civil_from_days\<close> splits off the era, then the year of the era,
  then month and day.\<close>

lemma civil_from_days_eq:
  fixes z :: int
  defines "era \<equiv> (z + 719468) div 146097" and "doe \<equiv> (z + 719468) mod 146097"
  defines "y \<equiv> year_of_era doe"
  shows "civil_from_days z =
    (let (m, d) = month_of_day (doe - days_before_march_year y)
     in (if m \<le> 2 then y + era * 400 + 1 else y + era * 400, m, d))"
proof -
  have doe: "0 \<le> doe" "doe < 146097"
    by (simp_all add: doe_def)
  then have y: "0 \<le> y" "y < 400" "days_before_march_year y \<le> doe"
    using year_of_era_correct by (simp_all add: y_def)
  have doe_eq: "z + 719468 - era * 146097 = doe"
    by (simp add: doe_def era_def minus_mult_div_eq_mod [symmetric] mult.commute)
  have "0 - 0 div 1460 \<le> doe - doe div 1460" "0 - 0 div 4 \<le> doe div 36524 - doe div 36524 div 4"
    using doe by (intro diff_div_mono; simp)+
  moreover have "doe div 36524 div 4 = doe div 146096"
    using zdiv_zmult2_eq [of 4 doe 36524] by simp
  ultimately have n: "0 \<le> doe - doe div 1460 + doe div 36524 - doe div 146096"
    by simp
  have yt: "tdiv (doe - tdiv doe 1460 + tdiv doe 36524 - tdiv doe 146096) 365 = y"
    using doe n by (simp add: y_def year_of_era_def)
  define doy where "doy = doe - days_before_march_year y"
  have doy: "doe - (365 * y + tdiv y 4 - tdiv y 100) = doy" "0 \<le> doy"
    using y by (simp_all add: doy_def days_before_march_year_def)
  define mp where "mp = (5 * doy + 2) div 153"
  have mp: "tdiv (5 * doy + 2) 153 = mp" "0 \<le> mp"
    using doy(2) by (simp_all add: mp_def pos_imp_zdiv_nonneg_iff)
  have dd: "tdiv (153 * mp + 2) 5 = (153 * mp + 2) div 5"
    using mp(2) by simp
  have m: "month_of_day doy = (if mp < 10 then mp + 3 else mp - 9, doy - (153 * mp + 2) div 5 + 1)"
    by (simp only: month_of_day_def Let_def mp_def)
  show ?thesis
    unfolding civil_from_days_def Let_def tdiv_era era_def [symmetric] doe_eq yt doy mp dd
      doy_def [symmetric] m prod.case
    by (rule refl)
qed

lemma march_year_era:
  "days_before_march_year (y + e * 400) = days_before_march_year y + e * 146097"
proof -
  have "(y + e * 400) div 4 = y div 4 + e * 100" "(y + e * 400) div 100 = y div 100 + e * 4"
    "(y + e * 400) div 400 = y div 400 + e"
    using div_mult_self1 [of 4 y "e * 100"] div_mult_self1 [of 100 y "e * 4"] div_mult_self1 [of 400 y e]
    by (simp_all add: ac_simps)
  then show ?thesis
    unfolding days_before_march_year_def by simp
qed

lemma civil_from_days_correct:
  "days_from_civil (civil_from_days z) = z \<and>
   (case civil_from_days z of (y, m, d) \<Rightarrow> 1 \<le> m \<and> m \<le> 12 \<and> 1 \<le> d \<and> d \<le> days_in_month y m)"
proof -
  define e doe where "e = (z + 719468) div 146097" and "doe = (z + 719468) mod 146097"
  define y doy where "y = year_of_era doe" and "doy = doe - days_before_march_year y"
  obtain m d where md: "month_of_day doy = (m, d)"
    by fastforce
  have doe: "0 \<le> doe" "doe < 146097" and z: "z = e * 146097 + doe - 719468"
    by (simp_all add: doe_def e_def)
  then have b: "days_before_march_year y \<le> doe" "doe < days_before_march_year (y + 1)"
    using year_of_era_correct by (simp_all add: y_def)
  then have doy: "0 \<le> doy" "doy < (if leap_year (y + 1) then 366 else 365)"
    using days_before_march_year_Suc [of y] by (simp_all add: doy_def)
  then have "doy \<in> set [0..365]"
    by (auto split: if_splits)
  then have "month_day_ok doy"
    using month_of_day_table unfolding list_all_iff by blast
  then have ok: "1 \<le> m" "m \<le> 12" "1 \<le> d"
    "d \<le> (if m = 2 then (if doy = 365 then 29 else 28) else if m = 4 \<or> m = 6 \<or> m = 9 \<or> m = 11 then 30 else 31)"
    "(153 * ((m + 9) mod 12) + 2) div 5 + d - 1 = doy"
    by (simp_all add: month_day_ok_def md)
  define Y where "Y = y + e * 400"
  have civil: "civil_from_days z = (if m \<le> 2 then Y + 1 else Y, m, d)"
    using civil_from_days_eq [of z] md
    by (simp add: doy_def y_def doe_def e_def Y_def)
  have "leap_year (Y + 1) \<longleftrightarrow> leap_year (y + 1)"
    using march_year_era [of y e] march_year_era [of "y + 1" e]
      days_before_march_year_Suc [of Y] days_before_march_year_Suc [of y]
    by (auto simp: Y_def add.assoc add.commute [of "e * 400"] split: if_splits)
  then have "d \<le> days_in_month (if m \<le> 2 then Y + 1 else Y) m"
    using ok(4) doy(2) by (auto simp: days_in_month_def split: if_splits)
  moreover have "days_from_civil (civil_from_days z) = days_before_march_year Y + doy - 719468"
    unfolding civil using ok(5) by (simp add: days_from_civil_def Let_def)
  moreover have "days_before_march_year Y = days_before_march_year y + e * 146097"
    by (simp add: Y_def march_year_era)
  ultimately have "days_from_civil (civil_from_days z) = z"
    using z unfolding doy_def by linarith
  then show ?thesis
    using ok(1-3) \<open>d \<le> days_in_month _ m\<close> unfolding civil prod.case by blast
qed

text \<open>C25: \<open>civil_from_days\<close> is the calendar: for every day number, negative ones included,
  the year, month and day it computes are a date of the proleptic Gregorian calendar (a month of the
  year, a day of that month, 29 February in leap years only), and it is the date of that day.\<close>

theorem civil_date_correct:
  "days_from_civil (civil_from_days z) = z \<and>
   (case civil_from_days z of (y, m, d) \<Rightarrow> 1 \<le> m \<and> m \<le> 12 \<and> 1 \<le> d \<and> d \<le> days_in_month y m)"
  by (rule civil_from_days_correct)

end
