(* ===== verification/Git_Signature.thy ===== *)
theory Git_Signature
  imports Git_Object Git_Calendar
begin

text \<open>
  Identity lines, \<open>gitana-object/src/signature.rs\<close>: \<open>Signature::parse\<close>, its
  \<open>Display\<close>, the timezone offset and the ISO date. A \<open>&str\<close> is a byte list that is
  valid UTF-8; slicing one off a character boundary panics.
\<close>

section \<open>Strings\<close>

text \<open>The characters with the Unicode property \<open>White_Space\<close>, in UTF-8.\<close>

definition white_space :: "bytes list" where
  "white_space =
     [[0x09], [0x0A], [0x0B], [0x0C], [0x0D], [0x20], [0xC2, 0x85], [0xC2, 0xA0], [0xE1, 0x9A, 0x80],
      [0xE2, 0x80, 0x80], [0xE2, 0x80, 0x81], [0xE2, 0x80, 0x82], [0xE2, 0x80, 0x83],
      [0xE2, 0x80, 0x84], [0xE2, 0x80, 0x85], [0xE2, 0x80, 0x86], [0xE2, 0x80, 0x87],
      [0xE2, 0x80, 0x88], [0xE2, 0x80, 0x89], [0xE2, 0x80, 0x8A], [0xE2, 0x80, 0xA8],
      [0xE2, 0x80, 0xA9], [0xE2, 0x80, 0xAF], [0xE2, 0x81, 0x9F], [0xE3, 0x80, 0x80]]"

lemma white_space_not_Nil: "find P white_space = Some w \<Longrightarrow> w \<noteq> []"
proof -
  assume "find P white_space = Some w"
  then have "w \<in> set white_space"
    by (auto simp: find_Some_iff)
  moreover have "[] \<notin> set white_space"
    by (simp add: white_space_def)
  ultimately show "w \<noteq> []"
    by metis
qed

text \<open>\<open>str::trim_end\<close>, \<open>str::split_whitespace\<close> (with the token read so far).\<close>

function trim_end :: "bytes \<Rightarrow> bytes" where
  "trim_end s =
     (case find (\<lambda>w. starts_with (rev w) (rev s)) white_space of
        Some w \<Rightarrow> trim_end (take (length s - length w) s)
      | None \<Rightarrow> s)"
  by pat_completeness auto
termination
proof (relation "measure length", goal_cases)
  case (2 s w)
  then have "w \<noteq> []" "starts_with (rev w) (rev s)"
    by (auto simp: white_space_not_Nil find_Some_iff)
  then show ?case
    by (cases s) (auto simp: starts_with_iff)
qed simp

declare trim_end.simps [simp del]

function split_ws :: "bytes \<Rightarrow> bytes \<Rightarrow> bytes list" where
  "split_ws cur s =
     (if s = [] then (if cur = [] then [] else [cur])
      else case find (\<lambda>w. starts_with w s) white_space of
        Some w \<Rightarrow> (if cur = [] then [] else [cur]) @ split_ws [] (drop (length w) s)
      | None \<Rightarrow> split_ws (cur @ [hd s]) (tl s))"
  by pat_completeness auto
termination
  by (relation "measure (\<lambda>(_, s). length s)") (auto dest: white_space_not_Nil)

declare split_ws.simps [simp del]

definition split_whitespace :: "bytes \<Rightarrow> bytes list" where
  "split_whitespace s = split_ws [] s"

text \<open>\<open>i64\<close>: \<open>Display\<close> and \<open>FromStr\<close>.\<close>

definition dec_int :: "int \<Rightarrow> bytes" where
  "dec_int n = (if n < 0 then 0x2D # dec_nat (nat (- n)) else dec_nat (nat n))"

definition parse_i64 :: "bytes \<Rightarrow> int option" where
  "parse_i64 s =
     (case s of [] \<Rightarrow> None
      | c # r \<Rightarrow>
        if c = 0x2D then
          (if r = [] then None else map_option (\<lambda>n. - int n) (parse_digits 10 (2 ^ 63 + 1) 0 r))
        else map_option int (parse_unsigned 10 (2 ^ 63) s))"

section \<open>Offsets and signatures\<close>

record tz_offset =
  negative :: bool
  hours :: byte
  minutes :: byte

record signature =
  sig_name :: bytes
  sig_email :: bytes
  sig_seconds :: int
  sig_offset :: tz_offset

definition total_minutes :: "tz_offset \<Rightarrow> int" where
  "total_minutes tz =
     (let magnitude = int (unat (hours tz)) * 60 + int (unat (minutes tz))
      in if negative tz then - magnitude else magnitude)"

definition offset_minutes :: "signature \<Rightarrow> int" where
  "offset_minutes s = total_minutes (sig_offset s)"

definition is_ascii_digit :: "byte \<Rightarrow> bool" where
  "is_ascii_digit b \<longleftrightarrow> 0x30 \<le> b \<and> b \<le> 0x39"

definition parse_offset :: "bytes \<Rightarrow> tz_offset ores" where
  "parse_offset tz =
     (if length tz \<noteq> 5 \<or> \<not> list_all is_ascii_digit (tl tz) then fail_with MalformedHeader
      else
        ebind (if tz ! 0 = 0x2B then Inr False
               else if tz ! 0 = 0x2D then Inr True
               else fail_with MalformedHeader) (\<lambda>neg.
          Inr \<lparr>negative = neg,
               hours = (tz ! 1 - 0x30) * 10 + (tz ! 2 - 0x30),
               minutes = (tz ! 3 - 0x30) * 10 + (tz ! 4 - 0x30)\<rparr>))"

definition sig_parse :: "bytes \<Rightarrow> signature ores" where
  "sig_parse line =
     ebind (ok_or (rfind 0x3E line) MalformedHeader) (\<lambda>email_end.
     ebind (str_slice line 0 email_end) (\<lambda>before.
     ebind (ok_or (rfind 0x3C before) MalformedHeader) (\<lambda>email_start.
     ebind (str_slice line 0 email_start) (\<lambda>name_part.
     ebind (str_slice line (email_start + 1) email_end) (\<lambda>email.
     ebind (str_slice line (email_end + 1) (length line)) (\<lambda>after.
       let rest = split_whitespace after in
       ebind (ok_or (case rest of [] \<Rightarrow> None | s # _ \<Rightarrow> parse_i64 s) MalformedHeader) (\<lambda>seconds.
       ebind (ok_or (case rest of _ # tz # _ \<Rightarrow> Some tz | _ \<Rightarrow> None) MalformedHeader) (\<lambda>tz.
       ebind (parse_offset tz) (\<lambda>offset.
         Inr \<lparr>sig_name = trim_end name_part, sig_email = email, sig_seconds = seconds,
              sig_offset = offset\<rparr>)))))))))"

text \<open>\<open>{:0w}\<close> formatting: zero padding after the sign.\<close>

definition pad_nat :: "nat \<Rightarrow> nat \<Rightarrow> bytes" where
  "pad_nat w n = replicate (w - length (dec_nat n)) 0x30 @ dec_nat n"

definition pad_int :: "nat \<Rightarrow> int \<Rightarrow> bytes" where
  "pad_int w n = (if n < 0 then 0x2D # pad_nat (w - 1) (nat (- n)) else pad_nat w (nat n))"

definition tz_display :: "tz_offset \<Rightarrow> bytes" where
  "tz_display tz =
     (if negative tz then 0x2D else 0x2B) # pad_nat 2 (unat (hours tz)) @ pad_nat 2 (unat (minutes tz))"

definition sig_display :: "signature \<Rightarrow> bytes" where
  "sig_display s =
     sig_name s @ [0x20, 0x3C] @ sig_email s @ [0x3E, 0x20] @ dec_int (sig_seconds s)
       @ [0x20] @ tz_display (sig_offset s)"

section \<open>The ISO form\<close>

text \<open>The sum \<open>seconds + offset\<close> is \<open>i64\<close> arithmetic, which wraps in a release build.\<close>

definition iso_date :: "signature \<Rightarrow> bytes" where
  "iso_date s =
     (let local = sint (word_of_int (sig_seconds s + offset_minutes s * 60) :: 64 word);
          days = local div 86400; rem = local mod 86400;
          (year, month, day) = civil_from_days days;
          hh = rem div 3600; mm = rem mod 3600 div 60; ss = rem mod 60
      in pad_int 4 year @ [0x2D] @ pad_int 2 month @ [0x2D] @ pad_int 2 day @ [0x20]
           @ pad_int 2 hh @ [0x3A] @ pad_int 2 mm @ [0x3A] @ pad_int 2 ss @ [0x20]
           @ tz_display (sig_offset s))"

section \<open>Character boundaries\<close>

text \<open>One encoded character: a head byte that is not a continuation byte, then only
  continuation bytes.\<close>

definition utf8_char :: "bytes \<Rightarrow> bool" where
  "utf8_char ch \<longleftrightarrow>
     (\<exists>a. ch = [a] \<and> a < 0x80) \<or> (\<exists>a b. ch = [a, b] \<and> utf8_2 a b)
     \<or> (\<exists>a b c. ch = [a, b, c] \<and> utf8_3 a b c) \<or> (\<exists>a b c d. ch = [a, b, c, d] \<and> utf8_4 a b c d)"

lemma ascii_not_cont: "c < 0x80 \<Longrightarrow> \<not> cont_byte c"
  by (simp add: cont_byte_def not_le)

lemma utf8_heads:
  "utf8_2 a b \<Longrightarrow> 0xC2 \<le> a \<and> a \<le> 0xDF \<and> cont_byte b"
  "utf8_3 a b c \<Longrightarrow> 0xE0 \<le> a \<and> a \<le> 0xEF \<and> cont_byte b \<and> cont_byte c"
  "utf8_4 a b c d \<Longrightarrow> 0xF0 \<le> a \<and> a \<le> 0xF4 \<and> cont_byte b \<and> cont_byte c \<and> cont_byte d"
  by (simp_all add: utf8_2_def utf8_3_def utf8_4_def)

lemma high_not_cont: "0xC2 \<le> a \<Longrightarrow> \<not> cont_byte a" "0xC2 \<le> a \<Longrightarrow> \<not> a < 0x80" for a :: byte
  by (auto simp: cont_byte_def word_le_nat_alt word_less_nat_alt)

lemma utf8_char_cons:
  assumes "utf8_char ch"
  obtains a t where "ch = a # t" "\<not> cont_byte a" "\<forall>b \<in> set t. cont_byte b" "a < 0x80 \<Longrightarrow> t = []"
proof -
  have mono: "0xC2 \<le> a" if "0xE0 \<le> a \<or> 0xF0 \<le> a" for a :: byte
    using that by (auto simp: word_le_nat_alt)
  from assms consider a where "ch = [a]" "a < 0x80" | a b where "ch = [a, b]" "utf8_2 a b"
    | a b c where "ch = [a, b, c]" "utf8_3 a b c" | a b c d where "ch = [a, b, c, d]" "utf8_4 a b c d"
    unfolding utf8_char_def by blast
  then show ?thesis
  proof cases
    case 1 then show ?thesis using that ascii_not_cont by simp
  next
    case 2 then show ?thesis using that [of a "[b]"] utf8_heads(1) [of a b] high_not_cont by simp
  next
    case 3 then show ?thesis using that [of a "[b, c]"] utf8_heads(2) [of a b c] high_not_cont mono by simp
  next
    case 4 then show ?thesis using that [of a "[b, c, d]"] utf8_heads(3) [of a b c d] high_not_cont mono by simp
  qed
qed

lemma utf8_valid_char:
  assumes "utf8_valid s" "s \<noteq> []"
  obtains ch r where "s = ch @ r" "utf8_char ch" "utf8_valid r"
proof -
  obtain a t where s: "s = a # t"
    using assms(2) by (cases s) auto
  show ?thesis
  proof (cases "a < 0x80")
    case True
    then show ?thesis
      using that [of "[a]" t] assms(1) s by (simp add: utf8_char_def)
  next
    case a: False
    obtain b t1 where t: "t = b # t1"
      using assms(1) s a by (cases t) simp_all
    show ?thesis
    proof (cases "utf8_2 a b")
      case True
      then show ?thesis
        using that [of "[a, b]" t1] assms(1) s a t by (simp add: utf8_char_def)
    next
      case b: False
      obtain c t2 where t1: "t1 = c # t2"
        using assms(1) s a t b by (cases t1) simp_all
      show ?thesis
      proof (cases "utf8_3 a b c")
        case True
        then show ?thesis
          using that [of "[a, b, c]" t2] assms(1) s a t b t1 by (simp add: utf8_char_def)
      next
        case c: False
        obtain d t3 where t2: "t2 = d # t3"
          using assms(1) s a t b t1 c by (cases t2) simp_all
        then show ?thesis
          using that [of "[a, b, c, d]" t3] assms(1) s a t b t1 c by (simp add: utf8_char_def)
      qed
    qed
  qed
qed

lemma utf8_valid_char_append:
  assumes "utf8_char ch" "utf8_valid r"
  shows "utf8_valid (ch @ r)"
proof -
  have d: "\<not> utf8_2 a b" if "0xE0 \<le> a" for a b :: byte
    using that by (auto simp: utf8_2_def word_le_nat_alt)
  have d': "\<not> utf8_2 a b \<and> \<not> utf8_3 a b c" if "0xF0 \<le> a" for a b c :: byte
    using that by (auto simp: utf8_2_def utf8_3_def word_le_nat_alt)
  have n: "\<not> a < 0x80" if "0xC2 \<le> a \<or> 0xE0 \<le> a \<or> 0xF0 \<le> a" for a :: byte
    using that by (auto simp: word_le_nat_alt word_less_nat_alt)
  from assms(1) consider a where "ch = [a]" "a < 0x80" | a b where "ch = [a, b]" "utf8_2 a b"
    | a b c where "ch = [a, b, c]" "utf8_3 a b c" | a b c d where "ch = [a, b, c, d]" "utf8_4 a b c d"
    unfolding utf8_char_def by blast
  then show ?thesis
  proof cases
    case 1 then show ?thesis using assms(2) by simp
  next
    case 2 then show ?thesis using assms(2) utf8_heads(1) [of a b] n [of a] by simp
  next
    case 3 then show ?thesis using assms(2) utf8_heads(2) [of a b c] n [of a] d [of a b] by simp
  next
    case 4 then show ?thesis using assms(2) utf8_heads(3) [of a b c d] n [of a] d' [of a b c] by simp
  qed
qed

text \<open>Valid UTF-8 may be cut before and after an ASCII byte.\<close>

lemma utf8_cut:
  "utf8_valid (p @ c # r) \<Longrightarrow> c < 0x80 \<Longrightarrow> utf8_valid p \<and> utf8_valid r"
proof (induction "length p" arbitrary: p rule: less_induct)
  case less
  obtain ch r' where ch: "p @ c # r = ch @ r'" "utf8_char ch" "utf8_valid r'"
    using utf8_valid_char [OF less.prems(1)] by blast
  obtain a t where a: "ch = a # t" "\<not> cont_byte a" "\<forall>b \<in> set t. cont_byte b" "a < 0x80 \<Longrightarrow> t = []"
    using utf8_char_cons [OF ch(2)] by blast
  show ?case
  proof (cases p)
    case Nil
    then show ?thesis
      using ch a less.prems(2) by simp
  next
    case (Cons x xs)
    have "length ch \<le> length p"
    proof (rule ccontr)
      assume "\<not> length ch \<le> length p"
      then have "ch ! length p = c" "0 < length p" "length p < length ch"
        using ch(1) Cons nth_append_length [of p c r] by (auto simp: nth_append)
      then have "c \<in> set t"
        using a(1) by (cases "length p") auto
      then show False
        using a(3) ascii_not_cont [OF less.prems(2)] by blast
    qed
    then obtain p' where p': "p = ch @ p'"
      using ch(1) by (metis append_eq_append_conv_if append_take_drop_id)
    then have "utf8_valid (p' @ c # r)" "length p' < length p"
      using ch a by simp_all
    then have "utf8_valid p' \<and> utf8_valid r"
      using less by blast
    then show ?thesis
      using p' ch(2) utf8_valid_char_append by blast
  qed
qed

lemma utf8_head: "utf8_valid (b # r) \<Longrightarrow> \<not> cont_byte b"
  by (erule utf8_valid_char) (auto elim!: utf8_char_cons)

text \<open>Slicing next to an ASCII byte never panics.\<close>

lemma boundary_before: "i < length s \<Longrightarrow> s ! i < 0x80 \<Longrightarrow> char_boundary s i"
  by (simp add: char_boundary_def ascii_not_cont)

lemma boundary_after:
  assumes "utf8_valid s" "i < length s" "s ! i < 0x80"
  shows "char_boundary s (i + 1)"
proof (cases "i + 1 = length s")
  case False
  with assms have "s = take i s @ s ! i # s ! (i + 1) # drop (i + 2) s"
    by (metis Suc_eq_plus1 Suc_lessI Cons_nth_drop_Suc add_2_eq_Suc' id_take_nth_drop)
  then have "utf8_valid (s ! (i + 1) # drop (i + 2) s)"
    using utf8_cut [of "take i s" "s ! i" "s ! (i + 1) # drop (i + 2) s"] assms by simp
  then show ?thesis
    using False assms utf8_head by (simp add: char_boundary_def)
qed (simp add: char_boundary_def)

lemma str_slice_cut:
  assumes "utf8_valid (p @ c # q)" "c < 0x80"
  shows "str_slice (p @ c # q) 0 (length p) = Inr p"
    "str_slice (p @ c # q) (Suc (length p)) (length (p @ c # q)) = Inr q"
  using assms boundary_before [of "length p" "p @ c # q"] boundary_after [of "p @ c # q" "length p"]
  by (auto simp: str_slice_def char_boundary_def)

lemma str_slice_between:
  assumes "utf8_valid (p @ c # m @ d # q)" "c < 0x80" "d < 0x80"
  shows "str_slice (p @ c # m @ d # q) (Suc (length p)) (Suc (length p + length m)) = Inr m"
proof -
  have "char_boundary (p @ c # m @ d # q) (Suc (length p))"
    using boundary_after [OF assms(1), of "length p"] assms(2) by simp
  moreover have "char_boundary (p @ c # m @ d # q) (Suc (length p + length m))"
    using boundary_before [of "length (p @ c # m)" "(p @ c # m) @ d # q"] assms(3)
    by (simp add: nth_append)
  ultimately show ?thesis
    by (simp add: str_slice_def)
qed

lemma no_panic_parse_offset [simp]: "no_panic (parse_offset tz)"
  unfolding parse_offset_def by (intro no_panic_intros) simp_all

text \<open>What the parser does once both angle brackets are found.\<close>

lemma sig_parse_split:
  assumes v: "utf8_valid (name @ 0x3C # email @ 0x3E # after)"
    and free: "0x3C \<notin> set email" "0x3E \<notin> set after"
  shows "sig_parse (name @ 0x3C # email @ 0x3E # after) =
    (let rest = split_whitespace after in
     ebind (ok_or (case rest of [] \<Rightarrow> None | s # _ \<Rightarrow> parse_i64 s) MalformedHeader) (\<lambda>seconds.
     ebind (ok_or (case rest of _ # tz # _ \<Rightarrow> Some tz | _ \<Rightarrow> None) MalformedHeader) (\<lambda>tz.
     ebind (parse_offset tz) (\<lambda>offset.
       Inr \<lparr>sig_name = trim_end name, sig_email = email, sig_seconds = seconds, sig_offset = offset\<rparr>))))"
proof -
  let ?line = "name @ 0x3C # email @ 0x3E # after"
  have line: "?line = (name @ 0x3C # email) @ 0x3E # after"
    by simp
  have r: "rfind 0x3E ?line = Some (Suc (length name + length email))"
    using rfind_append [OF free(2), of "name @ 0x3C # email"] by simp
  have s: "str_slice ?line 0 (Suc (length name + length email)) = (Inr (name @ 0x3C # email) :: bytes ores)"
    "str_slice ?line (Suc (Suc (length name + length email))) (length ?line) = (Inr after :: bytes ores)"
    using str_slice_cut [OF v [unfolded line]] by simp_all
  have n: "str_slice ?line 0 (length name) = (Inr name :: bytes ores)"
    using str_slice_cut(1) [OF v] by simp
  have m: "str_slice ?line (Suc (length name)) (Suc (length name + length email)) = (Inr email :: bytes ores)"
    using str_slice_between [OF v] by simp
  show ?thesis
    unfolding sig_parse_def
    by (simp only: r s ok_or_simps ebind_simps rfind_append [OF free(1)] n m Suc_eq_plus1 [symmetric])
qed

lemma no_panic_sig_parse:
  assumes "utf8_valid line"
  shows "no_panic (sig_parse line)"
proof (cases "rfind 0x3E line")
  case None
  then show ?thesis
    by (simp add: sig_parse_def)
next
  case (Some e)
  then obtain before after where line: "line = before @ 0x3E # after" "0x3E \<notin> set after" "e = length before"
    by (metis rfind_SomeD)
  show ?thesis
  proof (cases "rfind 0x3C before")
    case None
    have "utf8_valid (before @ 0x3E # after)"
      using assms line by simp
    then have "str_slice line 0 e = (Inr before :: bytes ores)"
      unfolding line(1,3) by (rule str_slice_cut) simp
    then show ?thesis
      using \<open>rfind 0x3E line = Some e\<close> None by (simp add: sig_parse_def)
  next
    case (Some k)
    then obtain name email where before: "before = name @ 0x3C # email" "0x3C \<notin> set email"
      by (metis rfind_SomeD)
    then have v: "utf8_valid (name @ 0x3C # email @ 0x3E # after)"
      using assms line by simp
    have eq: "line = name @ 0x3C # email @ 0x3E # after"
      using line before by simp
    show ?thesis
      unfolding eq sig_parse_split [OF v before(2) line(2)] Let_def
      by (intro no_panic_intros no_panic_ok_or) simp_all
  qed
qed

section \<open>Display and parse\<close>

definition sig_ok :: "signature \<Rightarrow> bool" where
  "sig_ok s \<longleftrightarrow>
     utf8_valid (sig_name s) \<and> trim_end (sig_name s) = sig_name s
     \<and> utf8_valid (sig_email s) \<and> 0x3C \<notin> set (sig_email s)
     \<and> - (2 ^ 63) \<le> sig_seconds s \<and> sig_seconds s < 2 ^ 63
     \<and> hours (sig_offset s) < 100 \<and> minutes (sig_offset s) < 100"

lemma trim_end_space: "trim_end (s @ [0x20]) = trim_end s"
  by (subst trim_end.simps) (simp add: white_space_def starts_with_def)

definition ws_free :: "bytes \<Rightarrow> bool" where
  "ws_free t \<longleftrightarrow> (\<forall>b \<in> set t. 0x20 < b \<and> b < 0x80)"

lemma find_ws_free:
  assumes "0x20 < b" "b < (0x80 :: byte)"
  shows "find (\<lambda>w. starts_with w (b # s)) white_space = None"
proof -
  have "unat b < 128" "32 < unat b"
    using assms by (simp_all add: word_less_nat_alt)
  then have "b \<noteq> 0x09 \<and> b \<noteq> 0x0A \<and> b \<noteq> 0x0B \<and> b \<noteq> 0x0C \<and> b \<noteq> 0x0D \<and> b \<noteq> 0x20 \<and> b \<noteq> 0xC2 \<and> b \<noteq> 0xE1
      \<and> b \<noteq> 0xE2 \<and> b \<noteq> 0xE3"
    by auto
  then show ?thesis
    by (auto simp: white_space_def starts_with_def)
qed

lemma split_ws_free: "ws_free t \<Longrightarrow> split_ws cur (t @ r) = split_ws (cur @ t) r"
proof (induction t arbitrary: cur)
  case (Cons b t)
  then show ?case
    by (subst split_ws.simps) (simp add: ws_free_def find_ws_free)
qed simp

lemma split_ws_space: "split_ws cur (0x20 # r) = (if cur = [] then [] else [cur]) @ split_ws [] r"
  by (subst split_ws.simps) (simp add: white_space_def starts_with_def)

lemma split_two_tokens:
  assumes "ws_free a" "ws_free b" "a \<noteq> []" "b \<noteq> []"
  shows "split_whitespace (0x20 # a @ 0x20 # b) = [a, b]"
  using assms split_ws_free [OF assms(1), of "[]" "0x20 # b"] split_ws_free [OF assms(2), of "[]" "[]"]
  by (simp add: split_whitespace_def split_ws_space split_ws.simps [of _ "[]"])

text \<open>The bytes of a printed number or offset: digits and signs only.\<close>

definition num_bytes :: "bytes \<Rightarrow> bool" where
  "num_bytes t \<longleftrightarrow> (\<forall>b \<in> set t. b = 0x2B \<or> b = 0x2D \<or> is_ascii_digit b)"

lemma num_bytes_facts:
  assumes "num_bytes t"
  shows "ws_free t" "ascii_only t" "0x3E \<notin> set t" "0x0A \<notin> set t"
  using assms
  by (auto simp: num_bytes_def ws_free_def ascii_only_def is_ascii_digit_def word_le_nat_alt word_less_nat_alt)

lemma num_bytes_dec_nat: "num_bytes (dec_nat n)"
  using dec_nat_mem by (auto simp: num_bytes_def is_ascii_digit_def word_le_nat_alt)

lemma num_bytes_dec_int: "num_bytes (dec_int n)"
  using num_bytes_dec_nat by (auto simp: dec_int_def num_bytes_def)

lemma dec_int_not_Nil [simp]: "dec_int n \<noteq> []"
  by (simp add: dec_int_def)

lemma parse_dec_int:
  assumes "- (2 ^ 63) \<le> n" "n < 2 ^ 63"
  shows "parse_i64 (dec_int n) = Some n"
proof (cases "n < 0")
  case True
  then have "parse_digits 10 (2 ^ 63 + 1) 0 (dec_nat (nat (- n))) = Some (nat (- n))"
    using assms by (intro parse_digits_dec_nat) (simp add: nat_less_iff)
  then show ?thesis
    using True by (simp add: parse_i64_def dec_int_def)
next
  case False
  obtain c r where cr: "dec_nat (nat n) = c # r"
    by (cases "dec_nat (nat n)") auto
  then have "c \<noteq> 0x2D"
    using dec_nat_mem [of c "nat n"] by auto
  moreover have "parse_unsigned 10 (2 ^ 63) (dec_nat (nat n)) = Some (nat n)"
    using assms False by (intro parse_dec_nat) (simp add: nat_less_iff)
  ultimately show ?thesis
    using cr False by (simp add: parse_i64_def dec_int_def)
qed

lemma pad2:
  assumes "b < (100 :: byte)"
  obtains x y where "pad_nat 2 (unat b) = [x, y]" "is_ascii_digit x" "is_ascii_digit y"
    "(x - 0x30) * 10 + (y - 0x30) = b"
proof -
  have b: "unat b < 100"
    using assms by (simp add: word_less_nat_alt)
  let ?x = "word_of_nat (48 + unat b div 10) :: byte" and ?y = "word_of_nat (48 + unat b mod 10) :: byte"
  have "pad_nat 2 (unat b) = [?x, ?y]"
    using b by (auto simp: pad_nat_def dec_nat.simps [of "unat b"] dec_nat.simps [of "unat b div 10"])
  moreover have "is_ascii_digit ?x" "is_ascii_digit ?y"
    using digit_byte [of "unat b div 10"] digit_byte [of "unat b mod 10"] b
    by (simp_all only: is_ascii_digit_def word_le_nat_alt) simp_all
  moreover have "(?x - 0x30) * 10 + (?y - 0x30) = b"
  proof -
    have "(?x - 0x30) * 10 + (?y - 0x30) = word_of_nat (unat b div 10 * 10 + unat b mod 10)"
      by (simp only: of_nat_add of_nat_mult) simp
    then show ?thesis
      by simp
  qed
  ultimately show ?thesis
    using that by blast
qed

lemma parse_tz_display:
  assumes "hours tz < 100" "minutes tz < 100"
  shows "parse_offset (tz_display tz) = Inr tz" "num_bytes (tz_display tz)" "tz_display tz \<noteq> []"
proof -
  obtain a b where h: "pad_nat 2 (unat (hours tz)) = [a, b]" "is_ascii_digit a" "is_ascii_digit b"
    "(a - 0x30) * 10 + (b - 0x30) = hours tz"
    using pad2 [OF assms(1)] by blast
  obtain c d where m: "pad_nat 2 (unat (minutes tz)) = [c, d]" "is_ascii_digit c" "is_ascii_digit d"
    "(c - 0x30) * 10 + (d - 0x30) = minutes tz"
    using pad2 [OF assms(2)] by blast
  have form: "tz_display tz = (if negative tz then 0x2D else 0x2B) # [a, b, c, d]"
    by (simp add: tz_display_def h(1) m(1))
  then have "parse_offset (tz_display tz) =
      Inr \<lparr>negative = negative tz, hours = (a - 0x30) * 10 + (b - 0x30),
           minutes = (c - 0x30) * 10 + (d - 0x30)\<rparr>"
    using h(2,3) m(2,3) by (simp add: parse_offset_def)
  then show "parse_offset (tz_display tz) = Inr tz"
    unfolding h(4) m(4) by simp
  show "num_bytes (tz_display tz)" "tz_display tz \<noteq> []"
    using h m by (simp_all add: form num_bytes_def)
qed

lemma sig_display_utf8:
  assumes "sig_ok s"
  shows "utf8_valid (sig_display s)"
proof -
  have "ascii_only (dec_int (sig_seconds s))" "ascii_only (tz_display (sig_offset s))"
    using assms num_bytes_facts(2) num_bytes_dec_int parse_tz_display(2) by (auto simp: sig_ok_def)
  then have a: "ascii_only ([0x3E, 0x20] @ dec_int (sig_seconds s) @ [0x20] @ tz_display (sig_offset s))"
    "ascii_only [0x20, 0x3C]"
    by simp_all
  have u: "utf8_valid (sig_name s)" "utf8_valid (sig_email s)"
    using assms by (simp_all add: sig_ok_def)
  show ?thesis
    using utf8_valid_append [OF u(1) utf8_valid_append [OF utf8_valid_ascii [OF a(2)]
        utf8_valid_append [OF u(2) utf8_valid_ascii [OF a(1)]]]]
    by (simp add: sig_display_def)
qed

lemma sig_parse_display:
  assumes "sig_ok s"
  shows "sig_parse (sig_display s) = Inr s"
proof -
  let ?a = "dec_int (sig_seconds s)" and ?b = "tz_display (sig_offset s)"
  let ?after = "0x20 # ?a @ 0x20 # ?b"
  have form: "sig_display s = (sig_name s @ [0x20]) @ 0x3C # sig_email s @ 0x3E # ?after"
    by (simp add: sig_display_def)
  have tz: "parse_offset ?b = Inr (sig_offset s)" "num_bytes ?b" "?b \<noteq> []"
    using assms parse_tz_display by (simp_all add: sig_ok_def)
  note nb = num_bytes_facts [OF num_bytes_dec_int [of "sig_seconds s"]] num_bytes_facts [OF tz(2)]
  have rest: "split_whitespace ?after = [?a, ?b]"
    using tz(3) nb by (intro split_two_tokens) simp_all
  have sec: "parse_i64 ?a = Some (sig_seconds s)"
    using assms by (intro parse_dec_int) (simp_all add: sig_ok_def)
  have free: "0x3C \<notin> set (sig_email s)" "0x3E \<notin> set ?after"
    using assms nb by (simp_all add: sig_ok_def)
  have trim: "trim_end (sig_name s @ [0x20]) = sig_name s"
    using assms by (simp add: trim_end_space sig_ok_def)
  have v: "utf8_valid ((sig_name s @ [0x20]) @ 0x3C # sig_email s @ 0x3E # ?after)"
    using sig_display_utf8 [OF assms] form by simp
  show ?thesis
    unfolding form sig_parse_split [OF v free] Let_def rest trim
    by (simp add: sec tz)
qed

section \<open>Properties\<close>

text \<open>C24: An identity line survives printing and parsing: for every signature whose name has no
  trailing white space, whose email has no opening angle bracket, whose seconds are an \<open>i64\<close>
  and whose offset fields have two digits (a minutes field of 60 or more and the offset \<open>-0000\<close>
  included), parsing its printed form returns exactly it; and parsing any string never panics.\<close>

theorem signature_round_trip:
  "(sig_ok s \<longrightarrow> sig_parse (sig_display s) = Inr s) \<and> (utf8_valid line \<longrightarrow> no_panic (sig_parse line))"
  using sig_parse_display no_panic_sig_parse by blast

theorem signature_round_trip_witness:
  "let s = \<lparr>sig_name = ascii ''A <b> C'', sig_email = ascii ''a@b'', sig_seconds = - 5,
            sig_offset = \<lparr>negative = True, hours = 0, minutes = 75\<rparr>\<rparr>
   in sig_parse (sig_display s) = Inr s \<and> no_panic (sig_parse (ascii ''x''))"
proof -
  let ?s = "\<lparr>sig_name = ascii ''A <b> C'', sig_email = ascii ''a@b'', sig_seconds = - 5,
            sig_offset = \<lparr>negative = True, hours = 0, minutes = 75\<rparr>\<rparr>"
  have "trim_end (ascii ''A <b> C'') = ascii ''A <b> C''"
    by (subst trim_end.simps) (simp add: white_space_def starts_with_def)
  then have "sig_ok ?s"
    by (simp add: sig_ok_def del: ascii_Cons) (simp add: utf8_valid.simps)
  then show ?thesis
    using signature_round_trip [of ?s "ascii ''x''"] by (simp add: utf8_valid.simps)
qed

end
