(* ===== verification/Git_Text.thy ===== *)
theory Git_Text
  imports Git_Object
begin

text \<open>
  The header block shared by commits and tags: lines ended by a newline, then an empty line and the
  message. The lemmas say how \<open>split_message\<close> and \<open>split\<close> of the standard library
  take such a payload apart again.
\<close>

section \<open>Header blocks\<close>

definition join_lines :: "bytes list \<Rightarrow> bytes" where
  "join_lines ls = concat (map (\<lambda>l. l @ [0x0A]) ls)"

definition lines_ok :: "bytes list \<Rightarrow> bool" where
  "lines_ok ls \<longleftrightarrow> ls \<noteq> [] \<and> (\<forall>l \<in> set ls. l \<noteq> [] \<and> 0x0A \<notin> set l)"

lemma join_lines_simps [simp]:
  "join_lines [] = []"
  "join_lines (l # ls) = l @ 0x0A # join_lines ls"
  "join_lines (ls @ ms) = join_lines ls @ join_lines ms"
  by (simp_all add: join_lines_def)

lemma join_lines_not_Nil [simp]: "join_lines ls = [] \<longleftrightarrow> ls = []"
  by (cases ls) auto

lemma last_join_lines: "ls \<noteq> [] \<Longrightarrow> last (join_lines ls) = 0x0A"
  by (induction ls rule: rev_induct) auto

text \<open>The block without its last newline, which is what the parsers see as the header.\<close>

definition header_of :: "bytes list \<Rightarrow> bytes" where
  "header_of ls = butlast (join_lines ls)"

lemma header_of_append: "ls \<noteq> [] \<Longrightarrow> join_lines ls = header_of ls @ [0x0A]"
  by (metis append_butlast_last_id header_of_def join_lines_not_Nil last_join_lines)

lemma header_of_simps:
  "header_of [l] = l"
  "ls \<noteq> [] \<Longrightarrow> header_of (l # ls) = l @ 0x0A # header_of ls"
  by (auto simp: header_of_def butlast_append)

lemma split_header:
  assumes "ls \<noteq> []" "\<forall>l \<in> set ls. 0x0A \<notin> set l"
  shows "split_on 0x0A (header_of ls) = ls"
  using assms
proof (induction ls)
  case (Cons l ls)
  then show ?case
    by (cases "ls = []") (simp_all add: header_of_simps split_on_free split_on_append)
qed simp

lemma windows2_Cons: "xs \<noteq> [] \<Longrightarrow> windows2 (x # xs) = (x, hd xs) # windows2 xs"
  by (cases xs) simp_all

lemma windows2_line:
  assumes "0x0A \<notin> set l"
  shows "(0x0A, 0x0A) \<in> set (windows2 (l @ 0x0A # r)) \<longleftrightarrow> (0x0A, 0x0A) \<in> set (windows2 (0x0A # r))"
  using assms by (induction l) (auto simp: windows2_Cons)

lemma no_blank_line:
  "\<forall>l \<in> set ls. l \<noteq> [] \<and> 0x0A \<notin> set l \<Longrightarrow> (0x0A, 0x0A) \<notin> set (windows2 (join_lines ls))"
proof (induction ls)
  case (Cons l ls)
  then have l: "l \<noteq> []" "0x0A \<notin> set l" and IH: "(0x0A, 0x0A) \<notin> set (windows2 (join_lines ls))"
    by auto
  have "(0x0A, 0x0A) \<notin> set (windows2 (0x0A # join_lines ls))"
  proof (cases ls)
    case (Cons m ms)
    with \<open>\<forall>l \<in> set (l # ls). _ l\<close> obtain c m' where "m = c # m'" "c \<noteq> 0x0A"
      by (cases m) auto
    with Cons IH show ?thesis
      by (simp add: windows2_Cons)
  qed simp
  then show ?case
    using l by (simp add: windows2_line)
qed simp

lemma blank_line_header:
  "lines_ok ls \<Longrightarrow> blank_line (join_lines ls @ 0x0A # m) = Some (length (header_of ls))"
  using blank_line_append [of "header_of ls" m] no_blank_line [of ls]
  by (simp add: lines_ok_def header_of_append)

lemma split_message_header:
  assumes "lines_ok ls" "utf8_valid m"
  shows "split_message (join_lines ls @ 0x0A # m) = Inr (header_of ls, m)"
  using blank_line_header [OF assms(1), of m] assms
  by (simp add: split_message_def) (simp add: lines_ok_def header_of_append)

lemma split_lines_ok: "lines_ok ls \<Longrightarrow> split_on 0x0A (header_of ls) = ls"
  by (rule split_header) (auto simp: lines_ok_def)

definition text_line :: "bytes \<Rightarrow> bool" where
  "text_line s \<longleftrightarrow> utf8_valid s \<and> 0x0A \<notin> set s"

section \<open>Name and value\<close>

text \<open>A line \<open>name value\<close> is recognised by \<open>strip_prefix("name ")\<close> exactly when the
  names agree.\<close>

lemma strip_prefix_name:
  assumes "0x20 \<notin> set p" "0x20 \<notin> set n"
  shows "strip_prefix (p @ [0x20]) (n @ 0x20 # v) = (if n = p then Some v else None)"
  using assms
proof (induction p arbitrary: n)
  case Nil
  then show ?case
    by (cases n) auto
next
  case (Cons c p)
  then show ?case
    by (cases n) auto
qed

lemma strip_prefix_first: "strip_prefix (p # ps) (q # qs) = None" if "p \<noteq> q"
  using that by simp

text \<open>Joining the pieces of a split with newlines gives back the text.\<close>

lemma split_on_join:
  "split_on d xs = y # ys \<Longrightarrow> y @ concat (map (\<lambda>s. d # s) ys) = xs"
proof (induction xs arbitrary: y ys)
  case (Cons x xs)
  obtain z zs where z: "split_on d xs = z # zs"
    by (cases "split_on d xs") auto
  then have "xs = z @ concat (map (\<lambda>s. d # s) zs)"
    using Cons.IH [OF z] by simp
  then show ?case
    using Cons.prems z by (cases "x = d") auto
qed simp

end
