(* ===== verification/Git_Commit.thy ===== *)
theory Git_Commit
  imports Git_Text Git_Signature
begin

text \<open>
  Commit objects, \<open>gitana-object/src/commit.rs\<close>: parsing, structural validation, encoding
  and the separation of a commit from its signature. A peekable line iterator is the list of the lines
  still to read.
\<close>

section \<open>Commits\<close>

record commit =
  tree :: object_id
  parents :: "object_id list"
  author :: bytes
  committer :: bytes
  signature_block :: "bytes option"
  extra_headers :: "(bytes \<times> bytes) list"
  message :: bytes

text \<open>\<open>unfold\<close>: append the continuation lines at the front of the iterator to a value.\<close>

fun unfold :: "bytes \<Rightarrow> bytes list \<Rightarrow> bytes \<times> bytes list" where
  "unfold value [] = (value, [])"
| "unfold value (next # lines) =
     (case strip_prefix [0x20] next of
        Some continuation \<Rightarrow> unfold (value @ 0x0A # continuation) lines
      | None \<Rightarrow> (value, next # lines))"

lemma unfold_shorter: "unfold v ls = (w, ls') \<Longrightarrow> length ls' \<le> length ls"
  by (induction v ls rule: unfold.induct) (fastforce split: option.splits)+

section \<open>Parsing\<close>

record commit_fields =
  f_tree :: "object_id option"
  f_parents :: "object_id list"
  f_author :: "bytes option"
  f_committer :: "bytes option"
  f_signature :: "bytes option"
  f_extra :: "(bytes \<times> bytes) list"

definition no_fields :: commit_fields where
  "no_fields = \<lparr>f_tree = None, f_parents = [], f_author = None, f_committer = None, f_signature = None,
                 f_extra = []\<rparr>"

definition gpgsig_prefix :: "hash_alg \<Rightarrow> bytes" where
  "gpgsig_prefix H = gpgsig_header H @ [0x20]"

definition split_name :: "bytes \<Rightarrow> bytes \<times> bytes" where
  "split_name line =
     (case position (\<lambda>b. b = 0x20) line of
        None \<Rightarrow> (line, [])
      | Some i \<Rightarrow> (take i line, drop (i + 1) line))"

function commit_lines :: "hash_alg \<Rightarrow> bytes list \<Rightarrow> commit_fields \<Rightarrow> commit_fields ores" where
  "commit_lines H [] f = Inr f"
| "commit_lines H (line # lines) f =
     (case strip_prefix (ascii ''tree '') line of Some rest \<Rightarrow>
        ebind (as_utf8 rest) (\<lambda>s. ebind (from_hex H s) (\<lambda>i.
          commit_lines H lines (f\<lparr>f_tree := Some i\<rparr>)))
      | None \<Rightarrow>
      (case strip_prefix (ascii ''parent '') line of Some rest \<Rightarrow>
        ebind (as_utf8 rest) (\<lambda>s. ebind (from_hex H s) (\<lambda>i.
          commit_lines H lines (f\<lparr>f_parents := f_parents f @ [i]\<rparr>)))
      | None \<Rightarrow>
      (case strip_prefix (ascii ''author '') line of Some rest \<Rightarrow>
        ebind (as_utf8 rest) (\<lambda>s. commit_lines H lines (f\<lparr>f_author := Some s\<rparr>))
      | None \<Rightarrow>
      (case strip_prefix (ascii ''committer '') line of Some rest \<Rightarrow>
        ebind (as_utf8 rest) (\<lambda>s. commit_lines H lines (f\<lparr>f_committer := Some s\<rparr>))
      | None \<Rightarrow>
      (case strip_prefix (gpgsig_prefix H) line of Some rest \<Rightarrow>
        (case unfold rest lines of (value, lines') \<Rightarrow>
          ebind (as_utf8 value) (\<lambda>s. commit_lines H lines' (f\<lparr>f_signature := Some s\<rparr>)))
      | None \<Rightarrow>
        if line \<noteq> [] then
          (case split_name line of (name, first) \<Rightarrow>
             ebind (as_utf8 name) (\<lambda>name.
               case unfold first lines of (value, lines') \<Rightarrow>
                 commit_lines H lines' (f\<lparr>f_extra := f_extra f @ [(name, value)]\<rparr>)))
        else commit_lines H lines f)))))"
  by pat_completeness auto
termination
  by (relation "measure (\<lambda>(_, lines, _). length lines)")
     (auto simp: less_Suc_eq_le dest: unfold_shorter [OF sym])

declare commit_lines.simps(2) [simp del]

definition parse_commit :: "hash_alg \<Rightarrow> bytes \<Rightarrow> commit ores" where
  "parse_commit H payload =
     ebind (split_message payload) (\<lambda>(header, msg).
     ebind (commit_lines H (split_on 0x0A header) no_fields) (\<lambda>f.
     ebind (ok_or (f_tree f) MalformedHeader) (\<lambda>t.
     ebind (ok_or (f_author f) MalformedHeader) (\<lambda>a.
     ebind (ok_or (f_committer f) MalformedHeader) (\<lambda>c.
       Inr \<lparr>tree = t, parents = f_parents f, author = a, committer = c, signature_block = f_signature f,
            extra_headers = f_extra f, message = msg\<rparr>)))))"

section \<open>Validation\<close>

definition validate_object_id_header :: "hash_alg \<Rightarrow> bytes \<Rightarrow> bytes \<Rightarrow> unit ores" where
  "validate_object_id_header H line prefix =
     ebind (ok_or (strip_prefix prefix line) InvalidCommitStructure) (\<lambda>value.
     ebind (map_err InvalidCommitStructure (as_utf8 value)) (\<lambda>value.
     ebind (map_err InvalidCommitStructure (from_hex H value)) (\<lambda>_. Inr ())))"

definition validate_identity_header :: "bytes \<Rightarrow> bytes \<Rightarrow> unit ores" where
  "validate_identity_header line prefix =
     ebind (ok_or (strip_prefix prefix line) InvalidCommitStructure) (\<lambda>value.
     ebind (map_err InvalidCommitIdentity (as_utf8 value)) (\<lambda>value.
     ebind (map_err InvalidCommitIdentity (sig_parse value)) (\<lambda>identity.
       if sig_name identity = [] \<or> sig_email identity = [] \<or> sig_seconds identity < 0
          \<or> sig_display identity \<noteq> value
       then fail_with InvalidCommitIdentity
       else Inr ())))"

fun validate_parents :: "hash_alg \<Rightarrow> bytes list \<Rightarrow> bytes list ores" where
  "validate_parents H [] = Inr []"
| "validate_parents H (line # lines) =
     (if starts_with (ascii ''parent '') line
      then ebind (validate_object_id_header H line (ascii ''parent '')) (\<lambda>_. validate_parents H lines)
      else Inr (line # lines))"

definition next_line :: "bytes list \<Rightarrow> (bytes \<times> bytes list) ores" where
  "next_line lines = (case lines of [] \<Rightarrow> fail_with InvalidCommitStructure | l # ls \<Rightarrow> Inr (l, ls))"

definition is_ascii_graphic :: "byte \<Rightarrow> bool" where
  "is_ascii_graphic b \<longleftrightarrow> 0x21 \<le> b \<and> b \<le> 0x7E"

fun validate_rest :: "hash_alg \<Rightarrow> bool \<Rightarrow> bool \<Rightarrow> bytes list \<Rightarrow> unit ores" where
  "validate_rest H signature_seen continuation_allowed [] = Inr ()"
| "validate_rest H signature_seen continuation_allowed (line # lines) =
     (if starts_with [0x20] line then
        (if \<not> continuation_allowed then fail_with InvalidCommitStructure
         else validate_rest H signature_seen continuation_allowed lines)
      else
        ebind (ok_or (position (\<lambda>b. b = 0x20) line) InvalidCommitStructure) (\<lambda>space.
          let name = take space line in
          if name = [] \<or> \<not> list_all (\<lambda>b. is_ascii_graphic b \<and> b \<noteq> 0x20) name
             \<or> name \<in> {ascii ''tree'', ascii ''parent'', ascii ''author'', ascii ''committer''}
          then fail_with InvalidCommitStructure
          else if name = gpgsig_header H then
            (if signature_seen then fail_with InvalidCommitStructure
             else validate_rest H True True lines)
          else validate_rest H signature_seen True lines))"

definition validate_commit_structure :: "hash_alg \<Rightarrow> bytes \<Rightarrow> unit ores" where
  "validate_commit_structure H payload =
     ebind (ok_or (blank_line payload) InvalidCommitStructure) (\<lambda>separator.
       let header = take separator payload in
       if header = [] \<or> 0 \<in> set header then fail_with InvalidCommitStructure
       else
         ebind (next_line (split_on 0x0A header)) (\<lambda>(line, lines).
         ebind (validate_object_id_header H line (ascii ''tree '')) (\<lambda>_.
         ebind (validate_parents H lines) (\<lambda>lines.
         ebind (next_line lines) (\<lambda>(line, lines).
         ebind (validate_identity_header line (ascii ''author '')) (\<lambda>_.
         ebind (next_line lines) (\<lambda>(line, lines).
         ebind (validate_identity_header line (ascii ''committer '')) (\<lambda>_.
           validate_rest H False False lines))))))))"

section \<open>Encoding\<close>

text \<open>A header with its value folded: the first line after the name, every further line after a
  space. \<open>split\<close> always yields a first piece.\<close>

definition fold_header :: "bytes \<Rightarrow> bytes \<Rightarrow> bytes" where
  "fold_header name value =
     (let segments = split_on 0x0A value
      in name @ [0x20] @ hd segments @ [0x0A] @ concat (map (\<lambda>s. [0x20] @ s @ [0x0A]) (tl segments)))"

definition encode_commit :: "hash_alg \<Rightarrow> commit \<Rightarrow> bytes" where
  "encode_commit H c =
     ascii ''tree '' @ to_hex (tree c) @ [0x0A]
     @ concat (map (\<lambda>p. ascii ''parent '' @ to_hex p @ [0x0A]) (parents c))
     @ ascii ''author '' @ author c @ [0x0A]
     @ ascii ''committer '' @ committer c @ [0x0A]
     @ concat (map (\<lambda>(name, value). fold_header name value) (extra_headers c))
     @ (case signature_block c of None \<Rightarrow> [] | Some s \<Rightarrow> fold_header (gpgsig_header H) s)
     @ [0x0A] @ message c"

definition commit_signed_payload :: "hash_alg \<Rightarrow> commit \<Rightarrow> bytes" where
  "commit_signed_payload H c =
     (if signature_block c = None then encode_commit H c
      else encode_commit H (c\<lparr>signature_block := None\<rparr>))"

definition trim_newline :: "bytes \<Rightarrow> bytes" where
  "trim_newline line = (if line \<noteq> [] \<and> last line = 0x0A then butlast line else line)"

fun collect_armor :: "bytes \<Rightarrow> bytes list \<Rightarrow> bytes \<times> bytes list" where
  "collect_armor armor [] = (armor, [])"
| "collect_armor armor (next # lines) =
     (case strip_prefix [0x20] next of
        Some rest \<Rightarrow> collect_armor (armor @ 0x0A # trim_newline rest) lines
      | None \<Rightarrow> (armor, next # lines))"

lemma collect_armor_shorter: "collect_armor v ls = (w, ls') \<Longrightarrow> length ls' \<le> length ls"
  by (induction v ls rule: collect_armor.induct) (fastforce split: option.splits)+

function separate_signature ::
  "hash_alg \<Rightarrow> bool \<Rightarrow> bytes option \<Rightarrow> bytes \<Rightarrow> bytes list \<Rightarrow> bytes option \<times> bytes" where
  "separate_signature H in_message sig payload [] = (sig, payload)"
| "separate_signature H in_message sig payload (line # lines) =
     (if \<not> in_message \<and> starts_with (gpgsig_prefix H) line then
        (case collect_armor (trim_newline (drop (length (gpgsig_prefix H)) line)) lines of
           (armor, lines') \<Rightarrow> separate_signature H in_message (Some armor) payload lines')
      else
        separate_signature H (if line = [0x0A] \<or> line = [] then True else in_message) sig
          (payload @ line) lines)"
  by pat_completeness auto
termination
  by (relation "measure (\<lambda>(_, _, _, _, lines). length lines)")
     (auto simp: less_Suc_eq_le dest: collect_armor_shorter [OF sym])

declare separate_signature.simps(2) [simp del]

definition commit_signature_and_payload :: "hash_alg \<Rightarrow> bytes \<Rightarrow> bytes option \<times> bytes" where
  "commit_signature_and_payload H raw = separate_signature H False None [] (split_inclusive 0x0A raw)"

section \<open>The lines of an encoded commit\<close>

definition core_names :: "bytes set" where
  "core_names = {ascii ''tree'', ascii ''parent'', ascii ''author'', ascii ''committer''}"

definition plain_name :: "bytes \<Rightarrow> bool" where
  "plain_name n \<longleftrightarrow> n \<noteq> [] \<and> utf8_valid n \<and> 0x20 \<notin> set n \<and> 0x0A \<notin> set n \<and> n \<notin> core_names"

definition alg_ok :: "hash_alg \<Rightarrow> bool" where
  "alg_ok H \<longleftrightarrow> hash_ok H \<and> plain_name (gpgsig_header H)"

definition commit_ok :: "hash_alg \<Rightarrow> commit \<Rightarrow> bool" where
  "commit_ok H c \<longleftrightarrow>
     id_ok H (tree c) \<and> (\<forall>p \<in> set (parents c). id_ok H p)
     \<and> text_line (author c) \<and> text_line (committer c)
     \<and> (\<forall>(n, v) \<in> set (extra_headers c). plain_name n \<and> n \<noteq> gpgsig_header H)
     \<and> (\<forall>s. signature_block c = Some s \<longrightarrow> utf8_valid s) \<and> utf8_valid (message c)"

definition fold_lines :: "bytes \<Rightarrow> bytes \<Rightarrow> bytes list" where
  "fold_lines name value =
     (let segments = split_on 0x0A value
      in (name @ 0x20 # hd segments) # map (\<lambda>s. 0x20 # s) (tl segments))"

definition core_lines :: "commit \<Rightarrow> bytes list" where
  "core_lines c =
     (ascii ''tree '' @ to_hex (tree c)) # map (\<lambda>p. ascii ''parent '' @ to_hex p) (parents c)
     @ [ascii ''author '' @ author c, ascii ''committer '' @ committer c]"

definition extra_lines :: "(bytes \<times> bytes) list \<Rightarrow> bytes list" where
  "extra_lines hs = concat (map (\<lambda>(n, v). fold_lines n v) hs)"

definition signature_lines :: "hash_alg \<Rightarrow> commit \<Rightarrow> bytes list" where
  "signature_lines H c =
     (case signature_block c of None \<Rightarrow> [] | Some s \<Rightarrow> fold_lines (gpgsig_header H) s)"

definition commit_header_lines :: "hash_alg \<Rightarrow> commit \<Rightarrow> bytes list" where
  "commit_header_lines H c = core_lines c @ extra_lines (extra_headers c) @ signature_lines H c"

lemma join_map: "join_lines (map f xs) = concat (map (\<lambda>x. f x @ [0x0A]) xs)"
  by (induction xs) auto

lemma fold_header_lines: "fold_header n v = join_lines (fold_lines n v)"
  by (simp add: fold_header_def fold_lines_def Let_def join_map)

lemma join_extra_lines:
  "join_lines (extra_lines hs) = concat (map (\<lambda>(n, v). fold_header n v) hs)"
  by (induction hs) (auto simp: extra_lines_def fold_header_lines)

lemma encode_commit_lines:
  "encode_commit H c = join_lines (commit_header_lines H c) @ 0x0A # message c"
  by (simp add: encode_commit_def commit_header_lines_def core_lines_def signature_lines_def join_map
      join_extra_lines fold_header_lines split: option.split)

lemma split_on_hd_free: "d \<notin> set (hd (split_on d v))"
  using split_on_pieces_free [of "hd (split_on d v)" d v] by simp

lemma split_on_tl_free: "s \<in> set (tl (split_on d v)) \<Longrightarrow> d \<notin> set s"
  using split_on_pieces_free [of s d v] by (metis list.set_sel(2) split_on_nonempty)

lemma fold_lines_free:
  "n \<noteq> [] \<Longrightarrow> 0x0A \<notin> set n \<Longrightarrow> l \<in> set (fold_lines n v) \<Longrightarrow> l \<noteq> [] \<and> 0x0A \<notin> set l"
  using split_on_hd_free [of "0x0A" v] split_on_tl_free [of _ "0x0A" v]
  by (auto simp: fold_lines_def Let_def)

lemma commit_lines_ok:
  assumes "alg_ok H" "commit_ok H c"
  shows "lines_ok (commit_header_lines H c)"
proof -
  have "l \<noteq> [] \<and> 0x0A \<notin> set l" if "l \<in> set (core_lines c)" for l
    using that assms by (auto simp: core_lines_def commit_ok_def text_line_def)
  moreover have "l \<noteq> [] \<and> 0x0A \<notin> set l" if l: "l \<in> set (extra_lines (extra_headers c))" for l
  proof -
    obtain n v where "(n, v) \<in> set (extra_headers c)" "l \<in> set (fold_lines n v)"
      using l by (auto simp: extra_lines_def)
    moreover from this have "plain_name n"
      using assms(2) by (auto simp: commit_ok_def)
    ultimately show ?thesis
      using fold_lines_free [of n l v] by (simp add: plain_name_def)
  qed
  moreover have "l \<noteq> [] \<and> 0x0A \<notin> set l" if l: "l \<in> set (signature_lines H c)" for l
  proof -
    obtain v where "l \<in> set (fold_lines (gpgsig_header H) v)"
      using l by (auto simp: signature_lines_def split: option.splits)
    then show ?thesis
      using fold_lines_free [of "gpgsig_header H" l v] assms(1) by (simp add: alg_ok_def plain_name_def)
  qed
  ultimately have "\<forall>l \<in> set (commit_header_lines H c). l \<noteq> [] \<and> 0x0A \<notin> set l"
    unfolding commit_header_lines_def set_append by blast
  moreover have "commit_header_lines H c \<noteq> []"
    by (simp add: commit_header_lines_def core_lines_def)
  ultimately show ?thesis
    by (simp add: lines_ok_def)
qed

section \<open>Parsing them back\<close>

definition not_continuation :: "bytes list \<Rightarrow> bool" where
  "not_continuation ls \<longleftrightarrow> ls = [] \<or> strip_prefix [0x20] (hd ls) = None"

lemma unfold_stop: "not_continuation ls \<Longrightarrow> unfold v ls = (v, ls)"
  by (cases ls) (auto simp: not_continuation_def)

lemma unfold_segments:
  "unfold v (map (\<lambda>s. 0x20 # s) segs @ rest) = unfold (v @ concat (map (\<lambda>s. 0x0A # s) segs)) rest"
  by (induction segs arbitrary: v) simp_all

lemma unfold_fold:
  assumes "not_continuation rest"
  shows "unfold (hd (split_on 0x0A v)) (map (\<lambda>s. 0x20 # s) (tl (split_on 0x0A v)) @ rest) = (v, rest)"
proof -
  obtain y ys where "split_on 0x0A v = y # ys"
    by (cases "split_on 0x0A v") auto
  then show ?thesis
    using unfold_segments unfold_stop [OF assms] split_on_join by simp
qed

lemma ascii_space: "ascii (s @ '' '') = ascii s @ [0x20]"
  by (simp add: ascii_def)

lemma strip_core_name:
  assumes "0x20 \<notin> set n" "n \<notin> core_names"
  shows "strip_prefix (ascii ''tree '') (n @ 0x20 # v) = None"
    "strip_prefix (ascii ''parent '') (n @ 0x20 # v) = None"
    "strip_prefix (ascii ''author '') (n @ 0x20 # v) = None"
    "strip_prefix (ascii ''committer '') (n @ 0x20 # v) = None"
  using assms strip_prefix_name [of "ascii ''tree''" n v] strip_prefix_name [of "ascii ''parent''" n v]
    strip_prefix_name [of "ascii ''author''" n v] strip_prefix_name [of "ascii ''committer''" n v]
  by (auto simp: core_names_def)

lemma split_name_value: "0x20 \<notin> set n \<Longrightarrow> split_name (n @ 0x20 # v) = (n, v)"
  using position_append_first [of n "\<lambda>b. b = 0x20" "0x20" v] by (force simp: split_name_def)

lemma commit_lines_extra:
  assumes "alg_ok H" "plain_name n" "n \<noteq> gpgsig_header H" "not_continuation rest"
  shows "commit_lines H (fold_lines n v @ rest) f = commit_lines H rest (f\<lparr>f_extra := f_extra f @ [(n, v)]\<rparr>)"
proof -
  have n: "n \<noteq> []" "utf8_valid n" "0x20 \<notin> set n" "n \<notin> core_names" "0x20 \<notin> set (gpgsig_header H)"
    using assms by (auto simp: plain_name_def alg_ok_def)
  show ?thesis
    using n assms(3) unfold_fold [OF assms(4), of v]
    by (simp add: fold_lines_def Let_def commit_lines.simps(2) strip_core_name gpgsig_prefix_def
        strip_prefix_name split_name_value del: ascii_Cons)
qed

lemma commit_lines_signature:
  assumes "alg_ok H" "utf8_valid s" "not_continuation rest"
  shows "commit_lines H (fold_lines (gpgsig_header H) s @ rest) f
    = commit_lines H rest (f\<lparr>f_signature := Some s\<rparr>)"
proof -
  have n: "0x20 \<notin> set (gpgsig_header H)" "gpgsig_header H \<notin> core_names"
    using assms by (auto simp: plain_name_def alg_ok_def)
  show ?thesis
    using n assms(2) unfold_fold [OF assms(3), of s]
    by (simp add: fold_lines_def Let_def commit_lines.simps(2) strip_core_name gpgsig_prefix_def
        strip_prefix_name del: ascii_Cons)
qed

lemma commit_lines_core:
  "id_ok H i \<Longrightarrow> commit_lines H ((ascii ''tree '' @ to_hex i) # ls) f = commit_lines H ls (f\<lparr>f_tree := Some i\<rparr>)"
  "id_ok H i \<Longrightarrow> commit_lines H ((ascii ''parent '' @ to_hex i) # ls) f
     = commit_lines H ls (f\<lparr>f_parents := f_parents f @ [i]\<rparr>)"
  "utf8_valid a \<Longrightarrow> commit_lines H ((ascii ''author '' @ a) # ls) f = commit_lines H ls (f\<lparr>f_author := Some a\<rparr>)"
  "utf8_valid a \<Longrightarrow> commit_lines H ((ascii ''committer '' @ a) # ls) f
     = commit_lines H ls (f\<lparr>f_committer := Some a\<rparr>)"
  by (simp_all add: commit_lines.simps(2) utf8_valid_ascii)

lemma commit_lines_parents:
  "\<forall>p \<in> set ps. id_ok H p \<Longrightarrow> commit_lines H (map (\<lambda>p. ascii ''parent '' @ to_hex p) ps @ ls) f
     = commit_lines H ls (f\<lparr>f_parents := f_parents f @ ps\<rparr>)"
proof (induction ps arbitrary: f)
  case (Cons p ps)
  then have "id_ok H p" "\<forall>p \<in> set ps. id_ok H p"
    by auto
  then show ?case
    using Cons.IH by (simp add: commit_lines_core del: ascii_Cons)
qed simp

lemma not_continuation_fold: "n \<noteq> [] \<Longrightarrow> 0x20 \<notin> set n \<Longrightarrow> not_continuation (fold_lines n v @ ls)"
  by (cases n) (auto simp: not_continuation_def fold_lines_def Let_def)

lemma commit_lines_extras:
  assumes "alg_ok H" "\<forall>(n, v) \<in> set hs. plain_name n \<and> n \<noteq> gpgsig_header H" "not_continuation rest"
  shows "commit_lines H (extra_lines hs @ rest) f = commit_lines H rest (f\<lparr>f_extra := f_extra f @ hs\<rparr>)
    \<and> not_continuation (extra_lines hs @ rest)"
  using assms(2)
proof (induction hs arbitrary: f)
  case Nil
  show ?case
    using assms(3) by (simp add: extra_lines_def)
next
  case (Cons h hs)
  obtain n v where h: "h = (n, v)"
    by fastforce
  have n: "plain_name n" "n \<noteq> gpgsig_header H"
    using Cons.prems h by auto
  have IH: "commit_lines H (extra_lines hs @ rest) g = commit_lines H rest (g\<lparr>f_extra := f_extra g @ hs\<rparr>)"
    "not_continuation (extra_lines hs @ rest)" for g
    using Cons by auto
  have "extra_lines (h # hs) @ rest = fold_lines n v @ extra_lines hs @ rest"
    by (simp add: extra_lines_def h)
  then show ?case
    using commit_lines_extra [OF assms(1) n IH(2)] IH(1) n
    by (simp add: h not_continuation_fold plain_name_def)
qed

lemma parse_encode_commit:
  assumes "alg_ok H" "commit_ok H c"
  shows "parse_commit H (encode_commit H c) = Inr c"
proof -
  let ?sig = "signature_lines H c" and ?ex = "extra_lines (extra_headers c)"
  have c: "id_ok H (tree c)" "\<forall>p \<in> set (parents c). id_ok H p" "utf8_valid (author c)" "utf8_valid (committer c)"
    "\<forall>(n, v) \<in> set (extra_headers c). plain_name n \<and> n \<noteq> gpgsig_header H" "utf8_valid (message c)"
    using assms(2) by (auto simp: commit_ok_def text_line_def)
  have nc: "not_continuation ?sig"
    using assms(1) not_continuation_fold [of "gpgsig_header H" _ "[]"]
    by (auto simp: signature_lines_def not_continuation_def alg_ok_def plain_name_def split: option.split)
  have sig: "commit_lines H ?sig f = Inr (f\<lparr>f_signature := (case signature_block c of None \<Rightarrow> f_signature f | Some s \<Rightarrow> Some s)\<rparr>)"
    for f
    using commit_lines_signature [OF assms(1), of _ "[]" f] assms(2)
    by (auto simp: signature_lines_def not_continuation_def commit_ok_def split: option.split)
  have "commit_lines H (commit_header_lines H c) no_fields =
      Inr \<lparr>f_tree = Some (tree c), f_parents = parents c, f_author = Some (author c),
           f_committer = Some (committer c), f_signature = signature_block c, f_extra = extra_headers c\<rparr>"
    using c commit_lines_extras [OF assms(1) c(5) nc]
    by (simp add: commit_header_lines_def core_lines_def commit_lines_core commit_lines_parents sig no_fields_def
        del: ascii_Cons split: option.split)
  then show ?thesis
    using split_message_header [OF commit_lines_ok [OF assms] c(6)] split_lines_ok [OF commit_lines_ok [OF assms]]
    by (simp add: parse_commit_def encode_commit_lines)
qed

section \<open>Separating the signature\<close>

lemma split_inclusive_lines:
  "\<forall>l \<in> set ls. 0x0A \<notin> set l \<Longrightarrow>
     split_inclusive 0x0A (join_lines ls @ r) = map (\<lambda>l. l @ [0x0A]) ls @ split_inclusive 0x0A r"
  by (induction ls) (simp_all add: split_inclusive_line)

lemma separate_message: "separate_signature H True sig pl ls = (sig, pl @ concat ls)"
  by (induction ls arbitrary: pl) (simp_all add: separate_signature.simps(2))

definition no_gpgsig :: "hash_alg \<Rightarrow> bytes \<Rightarrow> bool" where
  "no_gpgsig H l \<longleftrightarrow> l \<noteq> [] \<and> \<not> starts_with (gpgsig_prefix H) (l @ [0x0A])"

lemma separate_copy:
  "\<forall>l \<in> set ls. no_gpgsig H l \<Longrightarrow>
     separate_signature H False sig pl (map (\<lambda>l. l @ [0x0A]) ls @ rest)
       = separate_signature H False sig (pl @ join_lines ls) rest"
  by (induction ls arbitrary: pl) (simp_all add: separate_signature.simps(2) no_gpgsig_def)

lemma no_gpgsig_name:
  assumes "alg_ok H" "0x20 \<notin> set n" "n \<noteq> gpgsig_header H"
  shows "no_gpgsig H (n @ 0x20 # v)"
  using assms strip_prefix_name [of "gpgsig_header H" n "v @ [0x0A]"]
  by (simp add: no_gpgsig_def gpgsig_prefix_def starts_with_def alg_ok_def plain_name_def)

lemma no_gpgsig_continuation: "alg_ok H \<Longrightarrow> no_gpgsig H (0x20 # v)"
  using no_gpgsig_name [of H "[]" v] by (auto simp: alg_ok_def plain_name_def)

lemma no_gpgsig_core:
  assumes "alg_ok H" "l \<in> set (core_lines c)"
  shows "no_gpgsig H l"
proof -
  have g: "gpgsig_header H \<notin> core_names"
    using assms(1) by (simp add: alg_ok_def plain_name_def)
  obtain n v where "l = n @ 0x20 # v" "n \<in> core_names" "0x20 \<notin> set n"
  proof -
    have form: "ascii ''tree '' @ x = ascii ''tree'' @ 0x20 # x" "ascii ''parent '' @ x = ascii ''parent'' @ 0x20 # x"
      "ascii ''author '' @ x = ascii ''author'' @ 0x20 # x" "ascii ''committer '' @ x = ascii ''committer'' @ 0x20 # x" for x
      by simp_all
    have mem: "ascii ''tree'' \<in> core_names" "ascii ''parent'' \<in> core_names" "ascii ''author'' \<in> core_names"
      "ascii ''committer'' \<in> core_names"
      by (simp_all add: core_names_def)
    have free: "\<forall>n \<in> core_names. 0x20 \<notin> set n"
      by (simp add: core_names_def)
    have "(\<exists>x. l = ascii ''tree'' @ 0x20 # x) \<or> (\<exists>x. l = ascii ''parent'' @ 0x20 # x)
        \<or> (\<exists>x. l = ascii ''author'' @ 0x20 # x) \<or> (\<exists>x. l = ascii ''committer'' @ 0x20 # x)"
      using assms(2) unfolding core_lines_def form by (auto simp del: ascii_Cons)
    then show thesis
      using free mem that by blast
  qed
  then show ?thesis
    using no_gpgsig_name [OF assms(1), of n v] g by auto
qed

lemma no_gpgsig_extra:
  assumes "alg_ok H" "\<forall>(n, v) \<in> set hs. plain_name n \<and> n \<noteq> gpgsig_header H" "l \<in> set (extra_lines hs)"
  shows "no_gpgsig H l"
proof -
  obtain n v where nv: "(n, v) \<in> set hs" "l \<in> set (fold_lines n v)"
    using assms(3) by (auto simp: extra_lines_def)
  then have "0x20 \<notin> set n" "n \<noteq> gpgsig_header H"
    using assms(2) by (auto simp: plain_name_def)
  then show ?thesis
    using nv(2) no_gpgsig_name [OF assms(1)] no_gpgsig_continuation [OF assms(1)]
    by (auto simp: fold_lines_def Let_def)
qed

lemma trim_newline_line [simp]: "trim_newline (l @ [0x0A]) = l"
  by (simp add: trim_newline_def)

lemma collect_armor_segments:
  "collect_armor a (map (\<lambda>s. 0x20 # s @ [0x0A]) segs @ [0x0A] # rest)
     = (a @ concat (map (\<lambda>s. 0x0A # s) segs), [0x0A] # rest)"
  by (induction segs arbitrary: a) simp_all

lemma separate_block:
  assumes "alg_ok H"
  shows "separate_signature H False sig pl (map (\<lambda>l. l @ [0x0A]) (fold_lines (gpgsig_header H) s) @ [0x0A] # rest)
    = (Some s, pl @ 0x0A # concat rest)"
proof -
  obtain y ys where y: "split_on 0x0A s = y # ys"
    by (cases "split_on 0x0A s") auto
  have line: "gpgsig_header H @ 0x20 # v = gpgsig_prefix H @ v" for v
    by (simp add: gpgsig_prefix_def)
  have pre: "gpgsig_prefix H \<noteq> []" "hd (gpgsig_prefix H) \<noteq> 0x0A" "\<not> starts_with (gpgsig_prefix H) [0x0A]"
  proof -
    obtain c g where "gpgsig_header H = c # g" "c \<noteq> 0x0A"
      using assms by (cases "gpgsig_header H") (auto simp: alg_ok_def plain_name_def)
    then show "gpgsig_prefix H \<noteq> []" "hd (gpgsig_prefix H) \<noteq> 0x0A" "\<not> starts_with (gpgsig_prefix H) [0x0A]"
      by (simp_all add: gpgsig_prefix_def starts_with_def)
  qed
  have "separate_signature H False sig pl (map (\<lambda>l. l @ [0x0A]) (fold_lines (gpgsig_header H) s) @ [0x0A] # rest)
      = separate_signature H False (Some (y @ concat (map (\<lambda>s. 0x0A # s) ys))) pl ([0x0A] # rest)"
    using collect_armor_segments [of y ys rest]
    by (simp add: fold_lines_def Let_def y line separate_signature.simps(2) starts_with_def comp_def)
  also have "y @ concat (map (\<lambda>s. 0x0A # s) ys) = s"
    using split_on_join [OF y] .
  also have "separate_signature H False (Some s) pl ([0x0A] # rest) = (Some s, pl @ 0x0A # concat rest)"
    by (simp add: separate_signature.simps(2) pre separate_message)
  finally show ?thesis .
qed

lemma separate_unsigned:
  assumes "alg_ok H"
  shows "separate_signature H False sig pl ([0x0A] # rest) = (sig, pl @ 0x0A # concat rest)"
proof -
  obtain c g where "gpgsig_header H = c # g" "c \<noteq> 0x0A"
    using assms by (cases "gpgsig_header H") (auto simp: alg_ok_def plain_name_def)
  then have "\<not> starts_with (gpgsig_prefix H) [0x0A]"
    by (simp add: gpgsig_prefix_def starts_with_def)
  then show ?thesis
    by (simp add: separate_signature.simps(2) separate_message)
qed

lemma signature_and_payload_encode:
  assumes "alg_ok H" "commit_ok H c"
  shows "commit_signature_and_payload H (encode_commit H c) = (signature_block c, commit_signed_payload H c)"
proof -
  let ?ls = "core_lines c @ extra_lines (extra_headers c)"
  have free: "\<forall>l \<in> set (commit_header_lines H c). 0x0A \<notin> set l"
    using commit_lines_ok [OF assms] by (auto simp: lines_ok_def)
  have "split_inclusive 0x0A (encode_commit H c) = map (\<lambda>l. l @ [0x0A]) ?ls
      @ map (\<lambda>l. l @ [0x0A]) (signature_lines H c) @ [0x0A] # split_inclusive 0x0A (message c)"
    unfolding encode_commit_lines split_inclusive_lines [OF free]
    by (simp add: commit_header_lines_def)
  moreover have "\<forall>l \<in> set ?ls. no_gpgsig H l"
    using no_gpgsig_core [OF assms(1)] no_gpgsig_extra [OF assms(1)] assms(2)
    by (auto simp: commit_ok_def)
  then have "separate_signature H False None [] (map (\<lambda>l. l @ [0x0A]) ?ls @ r)
      = separate_signature H False None (join_lines ?ls) r" for r
    by (simp only: separate_copy) simp
  moreover have "separate_signature H False None (join_lines ?ls)
      (map (\<lambda>l. l @ [0x0A]) (signature_lines H c) @ [0x0A] # split_inclusive 0x0A (message c))
      = (signature_block c, join_lines ?ls @ 0x0A # message c)"
    using separate_block [OF assms(1)] separate_unsigned [OF assms(1)]
    by (simp add: signature_lines_def split: option.split)
  moreover have "commit_signed_payload H c = join_lines ?ls @ 0x0A # message c"
    by (simp add: commit_signed_payload_def encode_commit_lines commit_header_lines_def core_lines_def
        signature_lines_def del: ascii_Cons)
  ultimately show ?thesis
    by (simp only: commit_signature_and_payload_def)
qed

lemma separate_none:
  "separate_signature H b sig pl ls = (None, p) \<Longrightarrow> sig = None \<and> p = pl @ concat ls"
proof (induction H b sig pl ls rule: separate_signature.induct)
  case (2 H b sig pl line lines)
  then show ?case
    by (subst (asm) separate_signature.simps) (auto split: if_splits prod.splits)
qed simp

section \<open>Validating an encoded commit\<close>

definition identity_ok :: "bytes \<Rightarrow> bool" where
  "identity_ok v \<longleftrightarrow> 0 \<notin> set v \<and>
     (case sig_parse v of
        Inr s \<Rightarrow> sig_name s \<noteq> [] \<and> sig_email s \<noteq> [] \<and> 0 \<le> sig_seconds s \<and> sig_display s = v
      | Inl _ \<Rightarrow> False)"

definition commit_strict :: "hash_alg \<Rightarrow> commit \<Rightarrow> bool" where
  "commit_strict H c \<longleftrightarrow> commit_ok H c \<and> identity_ok (author c) \<and> identity_ok (committer c)
     \<and> (\<forall>(n, v) \<in> set (extra_headers c). list_all is_ascii_graphic n \<and> 0 \<notin> set v)
     \<and> (\<forall>s. signature_block c = Some s \<longrightarrow> 0 \<notin> set s)"

definition alg_graphic :: "hash_alg \<Rightarrow> bool" where
  "alg_graphic H \<longleftrightarrow> alg_ok H \<and> list_all is_ascii_graphic (gpgsig_header H)"

lemma graphic_facts: "list_all is_ascii_graphic n \<Longrightarrow> 0x20 \<notin> set n \<and> 0 \<notin> set n"
  by (auto simp: list_all_iff is_ascii_graphic_def)

lemma validate_continuations:
  "validate_rest H seen True (map (\<lambda>s. 0x20 # s) segs @ rest) = validate_rest H seen True rest"
  by (induction segs) (simp_all add: starts_with_def)

lemma validate_fold:
  assumes "plain_name n" "list_all is_ascii_graphic n"
  shows "validate_rest H seen ca (fold_lines n v @ rest) =
    (if n = gpgsig_header H then (if seen then fail_with InvalidCommitStructure else validate_rest H True True rest)
     else validate_rest H seen True rest)"
proof -
  have n: "n \<noteq> []" "0x20 \<notin> set n" "n \<notin> core_names"
    using assms by (simp_all add: plain_name_def)
  obtain c m where cm: "n = c # m"
    using n(1) by (cases n) auto
  have pos: "position (\<lambda>b. b = 0x20) (n @ 0x20 # w) = Some (length n)" for w
    using position_append_first [of n "\<lambda>b. b = 0x20" "0x20" w] n(2) by force
  have start: "\<not> starts_with [0x20] (n @ 0x20 # w)" for w
    using n(2) cm by (simp add: starts_with_def)
  have graphic: "list_all (\<lambda>b. is_ascii_graphic b \<and> b \<noteq> 0x20) n"
    using assms(2) n(2) by (auto simp: list_all_iff)
  show ?thesis
    using n(1,3) graphic
    by (simp add: fold_lines_def Let_def start pos validate_continuations core_names_def)
qed

lemma validate_extras:
  "\<forall>(n, v) \<in> set hs. plain_name n \<and> n \<noteq> gpgsig_header H \<and> list_all is_ascii_graphic n \<Longrightarrow>
     validate_rest H False ca (extra_lines hs @ rest) = validate_rest H False (ca \<or> hs \<noteq> []) rest"
proof (induction hs arbitrary: ca)
  case (Cons h hs)
  obtain n v where h: "h = (n, v)"
    by fastforce
  then show ?case
    using Cons.IH [of True] Cons.prems validate_fold [of n H False ca v "extra_lines hs @ rest"]
    by (simp add: extra_lines_def)
qed (simp add: extra_lines_def)

lemma validate_id_line:
  "id_ok H i \<Longrightarrow> validate_object_id_header H (ascii ''tree '' @ to_hex i) (ascii ''tree '') = Inr ()"
  "id_ok H i \<Longrightarrow> validate_object_id_header H (ascii ''parent '' @ to_hex i) (ascii ''parent '') = Inr ()"
  by (simp_all add: validate_object_id_header_def utf8_valid_ascii del: ascii_Cons)

lemma validate_parent_lines:
  "\<forall>p \<in> set ps. id_ok H p \<Longrightarrow>
     validate_parents H (map (\<lambda>p. ascii ''parent '' @ to_hex p) ps @ (ascii ''author '' @ a) # ls)
       = Inr ((ascii ''author '' @ a) # ls)"
proof (induction ps)
  case Nil
  show ?case
    by (simp add: starts_with_def)
next
  case (Cons p ps)
  then show ?case
    using validate_id_line(2) [of H p]
    by (simp add: starts_with_def del: ascii_Cons)
qed

lemma validate_identity_line:
  assumes "identity_ok v" "utf8_valid v"
  shows "validate_identity_header (p @ v) p = Inr ()"
  using assms
  by (auto simp: validate_identity_header_def identity_ok_def not_less split: sum.splits)

lemma header_zero:
  assumes "alg_graphic H" "commit_strict H c"
  shows "0 \<notin> set (header_of (commit_header_lines H c))"
proof -
  have fold: "0 \<notin> set (join_lines (fold_lines n v))" if "0 \<notin> set n" "0 \<notin> set v" for n v
  proof -
    have "set (join_lines (fold_lines n v)) \<subseteq> set n \<union> {0x20, 0x0A} \<union> (\<Union>s \<in> set (split_on 0x0A v). set s)"
      using hd_in_set [of "split_on 0x0A v"] set_mp [OF set_drop_subset [of 1 "split_on 0x0A v"]]
      by (auto simp: fold_lines_def Let_def join_map drop_Suc)
    moreover have "set s \<subseteq> set v" if "s \<in> set (split_on 0x0A v)" for s
      using that
    proof (induction v arbitrary: s)
      case (Cons x v)
      then show ?case
        by (cases "split_on 0x0A v") (auto split: if_splits, blast)
    qed simp
    then have "0 \<notin> (\<Union>s \<in> set (split_on 0x0A v). set s)"
      using that(2) by blast
    ultimately show ?thesis
      using that(1) by (auto dest: subsetD)
  qed
  have hex: "0 \<notin> set (to_hex i)" for i
  proof -
    have "0 \<notin> set (hex2 b)" for b
    proof -
      have "hex_digit n \<noteq> 0" if "n < 16" for n
        using hex_digit_facts(1) [OF that] by (auto simp: digit_val_def)
      then show ?thesis
        using byte_nibbles [of b] by (simp add: hex2_def)
    qed
    then show ?thesis
      by (auto simp: to_hex_def)
  qed
  have "0 \<notin> set (join_lines (core_lines c))"
    using assms(2) hex by (auto simp: core_lines_def join_map commit_strict_def identity_ok_def)
  moreover have "0 \<notin> set (join_lines (extra_lines (extra_headers c)))"
    using assms(2) fold graphic_facts
    by (fastforce simp: join_extra_lines fold_header_lines commit_strict_def)
  moreover have "0 \<notin> set (join_lines (signature_lines H c))"
    using assms fold graphic_facts
    by (auto simp: signature_lines_def alg_graphic_def commit_strict_def split: option.splits)
  ultimately show ?thesis
    using in_set_butlastD [of 0 "join_lines (commit_header_lines H c)"]
    by (auto simp: header_of_def commit_header_lines_def)
qed

lemma validate_encode_commit:
  assumes "alg_graphic H" "commit_strict H c"
  shows "validate_commit_structure H (encode_commit H c) = Inr ()"
proof -
  have ok: "alg_ok H" "commit_ok H c"
    using assms by (simp_all add: alg_graphic_def commit_strict_def)
  note lines = commit_lines_ok [OF ok]
  let ?h = "header_of (commit_header_lines H c)"
  have c: "id_ok H (tree c)" "\<forall>p \<in> set (parents c). id_ok H p" "utf8_valid (author c)" "utf8_valid (committer c)"
    "identity_ok (author c)" "identity_ok (committer c)"
    "\<forall>(n, v) \<in> set (extra_headers c). plain_name n \<and> n \<noteq> gpgsig_header H \<and> list_all is_ascii_graphic n"
    using assms(2) by (auto simp: commit_strict_def commit_ok_def text_line_def)
  have blank: "blank_line (encode_commit H c) = Some (length ?h)"
    using blank_line_header [OF lines] by (simp add: encode_commit_lines)
  have take: "take (length ?h) (encode_commit H c) = ?h"
    using lines by (simp add: encode_commit_lines lines_ok_def header_of_append)
  have ne: "?h \<noteq> []"
    using split_lines_ok [OF lines] by (auto simp: commit_header_lines_def core_lines_def)
  have zero: "0 \<notin> set ?h"
    using header_zero [OF assms] .
  have sig: "validate_rest H False ca (signature_lines H c) = Inr ()" for ca
    using validate_fold [of "gpgsig_header H" H False ca _ "[]"] assms(1)
    by (auto simp: signature_lines_def alg_graphic_def alg_ok_def split: option.split)
  have split: "split_on 0x0A ?h = (ascii ''tree '' @ to_hex (tree c)) # map (\<lambda>p. ascii ''parent '' @ to_hex p) (parents c)
      @ (ascii ''author '' @ author c) # (ascii ''committer '' @ committer c)
      # extra_lines (extra_headers c) @ signature_lines H c"
    unfolding split_lines_ok [OF lines] by (simp add: commit_header_lines_def core_lines_def del: ascii_Cons)
  have cond: "(?h = [] \<or> 0 \<in> set ?h) = False"
    using ne zero by blast
  have rest: "validate_rest H False False (extra_lines (extra_headers c) @ signature_lines H c) = Inr ()"
    unfolding validate_extras [OF c(7)] by (rule sig)
  show ?thesis
    unfolding validate_commit_structure_def blank Let_def ok_or_simps ebind_simps take cond if_False split
      next_line_def list.case prod.case validate_id_line(1) [OF c(1)] validate_parent_lines [OF c(2)]
      validate_identity_line [OF c(5,3)] validate_identity_line [OF c(6,4)] rest ..
qed

section \<open>Properties\<close>

text \<open>C27: Encoding a commit and parsing the payload gives back the same commit: ids, any number of
  parents, author and committer lines, extra headers with values of several lines (arbitrary bytes),
  the folded signature block and the message, for both hash algorithms' signature headers.\<close>

theorem commit_round_trip:
  assumes "alg_ok H" "commit_ok H c"
  shows "parse_commit H (encode_commit H c) = Inr c"
  by (rule parse_encode_commit [OF assms])

definition sample_commit :: commit where
  "sample_commit =
     \<lparr>tree = ObjectId (replicate 20 1), parents = [ObjectId (replicate 20 2)],
      author = ascii ''A <a> 1 +0000'', committer = ascii ''C <c> 2 -0100'',
      signature_block = Some (ascii ''x'' @ [0x0A] @ ascii ''y''),
      extra_headers = [(ascii ''mergetag'', ascii ''v'' @ [0x0A, 0x0A, 0xFF])], message = ascii ''m''\<rparr>"

lemma sample_alg: "alg_ok (sha1 (sum_digest 20))"
  by (simp add: alg_ok_def plain_name_def core_names_def) (simp add: sha1_def)

lemma sample_commit_ok: "commit_ok (sha1 (sum_digest 20)) sample_commit"
  by (simp add: commit_ok_def sample_commit_def id_ok_def text_line_def plain_name_def core_names_def sha1_def)

theorem commit_round_trip_witness:
  "parse_commit (sha1 (sum_digest 20)) (encode_commit (sha1 (sum_digest 20)) sample_commit) = Inr sample_commit"
  by (rule commit_round_trip [OF sample_alg sample_commit_ok])

text \<open>On the bytes of an encoded commit, \<open>commit_signature_and_payload\<close> finds exactly
  the commit's signature block and, as the signed payload, exactly the encoding of the commit without
  it (\<open>commit_signed_payload\<close>); and on any bytes in which it finds no signature, the payload
  is the whole input.\<close>

lemma commit_signature_split:
  "(alg_ok H \<and> commit_ok H c \<longrightarrow>
      commit_signature_and_payload H (encode_commit H c) = (signature_block c, commit_signed_payload H c))
   \<and> (\<forall>p. commit_signature_and_payload H raw = (None, p) \<longrightarrow> p = raw)"
  using signature_and_payload_encode separate_none
  by (fastforce simp: commit_signature_and_payload_def)

lemma commit_signature_split_instance:
  "let H = sha1 (sum_digest 20)
   in commit_signature_and_payload H (encode_commit H sample_commit)
        = (signature_block sample_commit, commit_signed_payload H sample_commit)"
  using commit_signature_split [of "sha1 (sum_digest 20)" sample_commit] sample_alg sample_commit_ok
  by (simp add: Let_def)

text \<open>\<open>validate_commit_structure\<close> accepts the encoding of every commit whose identity
  lines are canonical (they print back to themselves, with a name, an email and a non-negative time),
  whose header names are printable ASCII and whose header holds no NUL.\<close>

lemma encoded_commit_validates:
  assumes "alg_graphic H" "commit_strict H c"
  shows "validate_commit_structure H (encode_commit H c) = Inr ()"
  by (rule validate_encode_commit [OF assms])

lemma identity_ok_display:
  assumes "sig_ok s" "sig_name s \<noteq> []" "sig_email s \<noteq> []" "0 \<le> sig_seconds s" "0 \<notin> set (sig_display s)"
  shows "identity_ok (sig_display s)"
  using assms sig_parse_display [OF assms(1)] by (simp add: identity_ok_def)

lemma sample_identity:
  assumes "v = sig_display \<lparr>sig_name = [a], sig_email = [b], sig_seconds = k,
      sig_offset = \<lparr>negative = neg, hours = h, minutes = 0\<rparr>\<rparr>"
    and "0x40 < a" "a < 0x7F" "0x40 < b" "b < 0x7F" "0 \<le> k" "k < 10" "h < 2" "0 \<notin> set v"
  shows "identity_ok v"
proof -
  have "trim_end [a] = [a]"
  proof -
    have "find (\<lambda>w. starts_with (rev w) [a]) white_space = None"
      using assms(2,3) by (auto simp: find_None_iff white_space_def starts_with_def)
    then show ?thesis
      by (subst trim_end.simps) simp
  qed
  moreover have "a < 0x80" "b < 0x80" "b \<noteq> 0x3C" "h < 100"
    using assms by (auto simp: word_less_nat_alt)
  ultimately show ?thesis
    using assms unfolding assms(1) by (intro identity_ok_display) (auto simp: sig_ok_def)
qed

lemma sample_commit_strict: "commit_strict (sha1 (sum_digest 20)) sample_commit"
proof -
  have "identity_ok (author sample_commit)"
    by (rule sample_identity [where a = "0x41" and b = "0x61" and k = 1 and neg = False and h = 0])
       (simp_all add: sample_commit_def sig_display_def dec_int_def dec_nat.simps tz_display_def pad_nat_def)
  moreover have "identity_ok (committer sample_commit)"
    by (rule sample_identity [where a = "0x43" and b = "0x63" and k = 2 and neg = True and h = 1])
       (simp_all add: sample_commit_def sig_display_def dec_int_def dec_nat.simps tz_display_def pad_nat_def)
  ultimately show ?thesis
    using sample_commit_ok by (simp add: commit_strict_def) (simp add: sample_commit_def is_ascii_graphic_def)
qed

lemma encoded_commit_validates_instance:
  "validate_commit_structure (sha1 (sum_digest 20)) (encode_commit (sha1 (sum_digest 20)) sample_commit) = Inr ()"
  by (rule encoded_commit_validates)
     (simp_all add: sample_commit_strict alg_graphic_def sample_alg, simp add: sha1_def is_ascii_graphic_def)

lemma from_hex_split_char:
  assumes "length hex = 2 * raw_len H" "hex = a # b # c # r" "cont_byte c" "0 < raw_len H"
  shows "from_hex H hex = Inl Panic"
proof -
  have "hex_pair hex 0 = Inl Panic"
    using assms by (simp add: hex_pair_def str_slice_def char_boundary_def)
  then have "hex_loop hex 0 (raw_len H) = Inl Panic"
    using assms(4) by (cases "raw_len H") simp_all
  then show ?thesis
    using assms(1) by (simp add: from_hex_def mult.commute)
qed

text \<open>C28: A commit received from outside can stop the program: a 40-byte \<open>tree\<close> value
  that is valid UTF-8 but has a two-byte character across an even offset makes \<open>from_hex\<close>
  slice off a character boundary, and \<open>validate_commit_structure\<close> and
  \<open>parse_commit\<close> panic instead of returning an error.\<close>

theorem hostile_commit_panics:
  "let H = sha1 (sum_digest 20);
       p = ascii ''tree a'' @ [0xC3, 0xA9] @ replicate 37 0x61 @ [0x0A, 0x0A]
   in validate_commit_structure H p = Inl Panic \<and> parse_commit H p = Inl Panic"
proof -
  let ?H = "sha1 (sum_digest 20)"
  let ?v = "0x61 # 0xC3 # 0xA9 # replicate 37 (0x61 :: byte)"
  let ?l = "ascii ''tree '' @ ?v"
  have p: "ascii ''tree a'' @ [0xC3, 0xA9] @ replicate 37 0x61 @ [0x0A, 0x0A] = join_lines [?l] @ 0x0A # []"
    by simp
  have ok: "lines_ok [?l]"
    by (simp add: lines_ok_def)
  have v: "utf8_valid ?v"
    using utf8_valid_ascii [of "replicate 37 0x61"]
    by (simp add: utf8_2_def cont_byte_def ascii_only_def)
  have hex: "from_hex ?H ?v = Inl Panic"
    by (rule from_hex_split_char) (auto simp: sha1_def cont_byte_def)
  have header: "blank_line (join_lines [?l] @ [0x0A]) = Some (length ?l)"
    "split_message (join_lines [?l] @ [0x0A]) = Inr (?l, [])" "split_on 0x0A ?l = [?l]"
    using blank_line_header [OF ok, of "[]"] split_message_header [OF ok, of "[]"] split_lines_ok [OF ok]
    by (simp_all add: header_of_simps)
  have take: "take (length ?l) (join_lines [?l] @ [0x0A]) = ?l"
    by simp
  have "commit_lines ?H [?l] no_fields = Inl Panic"
    using v hex by (simp add: commit_lines.simps(2) del: ascii_Cons)
  then have "parse_commit ?H (join_lines [?l] @ [0x0A]) = Inl Panic"
    by (simp only: parse_commit_def header ebind_simps prod.case)
  moreover have "validate_object_id_header ?H ?l (ascii ''tree '') = Inl Panic"
    using v hex by (simp add: validate_object_id_header_def del: ascii_Cons)
  then have "validate_commit_structure ?H (join_lines [?l] @ [0x0A]) = Inl Panic"
    unfolding validate_commit_structure_def header Let_def ok_or_simps ebind_simps take
    by (simp add: header next_line_def del: ascii_Cons) simp
  ultimately show ?thesis
    unfolding Let_def p by blast
qed

end
