(* ===== verification/Git_Tag.thy ===== *)
theory Git_Tag
  imports Git_Text
begin

text \<open>
  Annotated tags, \<open>gitana-object/src/tag.rs\<close>. A tag's signature is an armor block appended to
  the message, found at the first line that begins with one of git's four markers.
\<close>

section \<open>Tags\<close>

record tag =
  tag_object :: object_id
  tag_kind :: object_kind
  tag_name :: bytes
  tagger :: "bytes option"
  tag_signature :: "bytes option"
  tag_message :: bytes

definition SIGNATURE_MARKERS :: "bytes list" where
  "SIGNATURE_MARKERS =
     [ascii ''-----BEGIN PGP SIGNATURE-----'', ascii ''-----BEGIN PGP MESSAGE-----'',
      ascii ''-----BEGIN SIGNED MESSAGE-----'', ascii ''-----BEGIN SSH SIGNATURE-----'']"

definition marked :: "bytes \<Rightarrow> bool" where
  "marked line \<longleftrightarrow> list_ex (\<lambda>marker. starts_with marker line) SIGNATURE_MARKERS"

text \<open>The offset of the first marked line; \<open>None\<close> when no line is marked.\<close>

fun find_marked :: "nat \<Rightarrow> bytes list \<Rightarrow> nat option" where
  "find_marked offset [] = None"
| "find_marked offset (line # lines) =
     (if marked line then Some offset else find_marked (offset + length line) lines)"

text \<open>\<open>&body[..offset]\<close> and \<open>&body[offset..]\<close> cut a \<open>&str\<close>, so they check
  the boundary.\<close>

definition split_signature :: "bytes \<Rightarrow> (bytes \<times> bytes option) ores" where
  "split_signature body =
     (case find_marked 0 (split_inclusive 0x0A body) of
        Some offset \<Rightarrow>
          ebind (str_slice body 0 offset) (\<lambda>m.
          ebind (str_slice body offset (length body)) (\<lambda>s. Inr (m, Some s)))
      | None \<Rightarrow> Inr (body, None))"

record tag_fields =
  tf_object :: "object_id option"
  tf_kind :: "object_kind option"
  tf_name :: "bytes option"
  tf_tagger :: "bytes option"

definition no_tag_fields :: tag_fields where
  "no_tag_fields = \<lparr>tf_object = None, tf_kind = None, tf_name = None, tf_tagger = None\<rparr>"

fun tag_lines :: "hash_alg \<Rightarrow> bytes list \<Rightarrow> tag_fields \<Rightarrow> tag_fields ores" where
  "tag_lines H [] f = Inr f"
| "tag_lines H (line # lines) f =
     (case strip_prefix (ascii ''object '') line of Some rest \<Rightarrow>
        ebind (as_utf8 rest) (\<lambda>s. ebind (from_hex H s) (\<lambda>i.
          tag_lines H lines (f\<lparr>tf_object := Some i\<rparr>)))
      | None \<Rightarrow>
      (case strip_prefix (ascii ''type '') line of Some rest \<Rightarrow>
        ebind (from_wire rest) (\<lambda>k. tag_lines H lines (f\<lparr>tf_kind := Some k\<rparr>))
      | None \<Rightarrow>
      (case strip_prefix (ascii ''tag '') line of Some rest \<Rightarrow>
        ebind (as_utf8 rest) (\<lambda>s. tag_lines H lines (f\<lparr>tf_name := Some s\<rparr>))
      | None \<Rightarrow>
      (case strip_prefix (ascii ''tagger '') line of Some rest \<Rightarrow>
        ebind (as_utf8 rest) (\<lambda>s. tag_lines H lines (f\<lparr>tf_tagger := Some s\<rparr>))
      | None \<Rightarrow> tag_lines H lines f))))"

declare tag_lines.simps(2) [simp del]

definition parse_tag :: "hash_alg \<Rightarrow> bytes \<Rightarrow> tag ores" where
  "parse_tag H payload =
     ebind (split_message payload) (\<lambda>(header, body).
     ebind (tag_lines H (split_on 0x0A header) no_tag_fields) (\<lambda>f.
     ebind (split_signature body) (\<lambda>(msg, sig).
     ebind (ok_or (tf_object f) MalformedHeader) (\<lambda>i.
     ebind (ok_or (tf_kind f) MalformedHeader) (\<lambda>k.
     ebind (ok_or (tf_name f) MalformedHeader) (\<lambda>n.
       Inr \<lparr>tag_object = i, tag_kind = k, tag_name = n, tagger = tf_tagger f, tag_signature = sig,
            tag_message = msg\<rparr>))))))"

definition encode_tag :: "tag \<Rightarrow> bytes" where
  "encode_tag t =
     ascii ''object '' @ to_hex (tag_object t) @ [0x0A]
     @ ascii ''type '' @ as_str (tag_kind t) @ [0x0A]
     @ ascii ''tag '' @ tag_name t @ [0x0A]
     @ (case tagger t of None \<Rightarrow> [] | Some g \<Rightarrow> ascii ''tagger '' @ g @ [0x0A])
     @ [0x0A] @ tag_message t
     @ (case tag_signature t of None \<Rightarrow> [] | Some s \<Rightarrow> s)"

definition tag_signed_payload :: "tag \<Rightarrow> bytes" where
  "tag_signed_payload t =
     (if tag_signature t = None then encode_tag t else encode_tag (t\<lparr>tag_signature := None\<rparr>))"

definition tag_signature_and_payload :: "bytes \<Rightarrow> bytes option \<times> bytes" where
  "tag_signature_and_payload raw =
     (case blank_line raw of
        None \<Rightarrow> (None, raw)
      | Some sep \<Rightarrow>
          (case find_marked (sep + 2) (split_inclusive 0x0A (drop (sep + 2) raw)) of
             Some offset \<Rightarrow> (Some (drop offset raw), take offset raw)
           | None \<Rightarrow> (None, raw)))"

section \<open>Finding the signature\<close>

lemma find_marked_shift: "find_marked (k + n) ls = map_option ((+) k) (find_marked n ls)"
  by (induction ls arbitrary: n) (auto simp: add.assoc)

lemma find_marked_append:
  assumes "\<forall>l \<in> set as. \<not> marked l" "marked b"
  shows "find_marked n (as @ b # bs) = Some (n + length (concat as))"
  using assms by (induction as arbitrary: n) (auto simp: add.assoc)

lemma find_marked_None: "find_marked n ls = None \<longleftrightarrow> (\<forall>l \<in> set ls. \<not> marked l)"
  by (induction ls arbitrary: n) auto

lemma find_marked_Some:
  "find_marked n ls = Some k \<Longrightarrow>
     \<exists>as b bs. ls = as @ b # bs \<and> (\<forall>l \<in> set as. \<not> marked l) \<and> marked b \<and> k = n + length (concat as)"
proof (induction ls arbitrary: n)
  case (Cons l ls)
  show ?case
  proof (cases "marked l")
    case True
    with Cons.prems have "l # ls = [] @ l # ls \<and> (\<forall>x \<in> set []. \<not> marked x) \<and> marked l \<and> k = n + length (concat [])"
      by simp
    then show ?thesis
      by blast
  next
    case False
    with Cons obtain as b bs where "ls = as @ b # bs" "\<forall>l \<in> set as. \<not> marked l" "marked b"
      "k = n + length l + length (concat as)"
      by fastforce
    with False show ?thesis
      by (intro exI [of _ "l # as"]) auto
  qed
qed simp

lemma marked_starts: "marked l \<Longrightarrow> \<exists>r. l = 0x2D # r"
  by (auto simp: marked_def SIGNATURE_MARKERS_def starts_with_iff)

text \<open>A marked line begins with a hyphen, so the cut is on a character boundary.\<close>

lemma no_panic_split_signature: "no_panic (split_signature body)"
proof (cases "find_marked 0 (split_inclusive 0x0A body)")
  case (Some k)
  then obtain as b bs where s: "split_inclusive 0x0A body = as @ b # bs" "marked b" "k = length (concat as)"
    using find_marked_Some [OF Some] by auto
  obtain r where "b = 0x2D # r"
    using marked_starts [OF s(2)] by blast
  then have body: "body = concat as @ 0x2D # r @ concat bs"
    using concat_split_inclusive [of "0x0A" body] unfolding s(1) by simp
  have "char_boundary body k"
    by (simp add: body s(3) char_boundary_def cont_byte_def)
  moreover have "k \<le> length body"
    by (simp add: body s(3))
  ultimately show ?thesis
    using Some by (simp add: split_signature_def str_slice_def char_boundary_def)
qed (simp add: split_signature_def)

lemma split_signature_parts:
  assumes "split_signature body = Inr (m, s)"
  shows "m @ (case s of None \<Rightarrow> [] | Some x \<Rightarrow> x) = body"
  using assms
  by (auto simp: split_signature_def str_slice_def ebind_eq_Inr split: option.splits if_splits)

lemma split_inclusive_append:
  "m = [] \<or> last m = d \<Longrightarrow> split_inclusive d (m @ s) = split_inclusive d m @ split_inclusive d s"
proof (induction m)
  case (Cons x m)
  show ?case
  proof (cases "x = d")
    case True
    have "m = [] \<or> last m = d"
      using Cons.prems by (cases m) auto
    with True Cons.IH show ?thesis
      by simp
  next
    case False
    then have m: "m \<noteq> []" "last m = d"
      using Cons.prems by auto
    then have "split_inclusive d m \<noteq> []"
      using concat_split_inclusive [of d m] by force
    with m False Cons.IH show ?thesis
      by (cases "split_inclusive d m") simp_all
  qed
qed simp

lemma starts_with_first_line:
  assumes "starts_with p s" "d \<notin> set p" "p \<noteq> []"
  shows "\<exists>l ls. split_inclusive d s = l # ls \<and> starts_with p l"
  using assms
proof (induction p arbitrary: s)
  case (Cons c p)
  then obtain r where s: "s = c # r" "starts_with p r" "c \<noteq> d" "d \<notin> set p"
    by (auto simp: starts_with_iff)
  show ?case
  proof (cases "p = []")
    case True
    then show ?thesis
      using s by (auto simp: starts_with_iff split: list.split)
  next
    case False
    then obtain l ls where "split_inclusive d r = l # ls" "starts_with p l"
      using Cons.IH s by blast
    then show ?thesis
      using s by (auto simp: starts_with_iff)
  qed
qed simp

lemma marked_first_line:
  assumes "marked s"
  obtains l ls where "split_inclusive 0x0A s = l # ls" "marked l"
proof -
  obtain p where p: "p \<in> set SIGNATURE_MARKERS" "starts_with p s"
    using assms by (auto simp: marked_def list_ex_iff)
  have "\<forall>p \<in> set SIGNATURE_MARKERS. 0x0A \<notin> set p \<and> p \<noteq> []"
    by (simp add: SIGNATURE_MARKERS_def)
  then obtain l ls where "split_inclusive 0x0A s = l # ls" "starts_with p l"
    using starts_with_first_line [OF p(2), of "0x0A"] p(1) by metis
  then show ?thesis
    using that p(1) unfolding marked_def list_ex_iff by metis
qed

section \<open>Encoded tags\<close>

text \<open>A tag whose message has no line that begins like a signature, and whose signature, if any, is
  an armor block that starts on a fresh line.\<close>

definition body_ok :: "tag \<Rightarrow> bool" where
  "body_ok t \<longleftrightarrow>
     list_all (\<lambda>l. \<not> marked l) (split_inclusive 0x0A (tag_message t)) \<and> utf8_valid (tag_message t) \<and>
     (case tag_signature t of None \<Rightarrow> True
      | Some s \<Rightarrow> marked s \<and> utf8_valid s \<and> (tag_message t = [] \<or> last (tag_message t) = 0x0A))"

definition tag_ok :: "hash_alg \<Rightarrow> tag \<Rightarrow> bool" where
  "tag_ok H t \<longleftrightarrow> id_ok H (tag_object t) \<and> text_line (tag_name t)
     \<and> (case tagger t of None \<Rightarrow> True | Some g \<Rightarrow> text_line g) \<and> body_ok t"

definition tag_body :: "tag \<Rightarrow> bytes" where
  "tag_body t = tag_message t @ (case tag_signature t of None \<Rightarrow> [] | Some s \<Rightarrow> s)"

definition tag_header_lines :: "tag \<Rightarrow> bytes list" where
  "tag_header_lines t =
     [ascii ''object '' @ to_hex (tag_object t), ascii ''type '' @ as_str (tag_kind t),
      ascii ''tag '' @ tag_name t]
     @ (case tagger t of None \<Rightarrow> [] | Some g \<Rightarrow> [ascii ''tagger '' @ g])"

lemma find_marked_body:
  assumes "body_ok t"
  shows "find_marked n (split_inclusive 0x0A (tag_body t)) =
    (case tag_signature t of None \<Rightarrow> None | Some s \<Rightarrow> Some (n + length (tag_message t)))"
proof (cases "tag_signature t")
  case None
  then show ?thesis
    using assms by (simp add: find_marked_None tag_body_def body_ok_def list_all_iff)
next
  case (Some s)
  then have m: "tag_message t = [] \<or> last (tag_message t) = 0x0A" "marked s"
    using assms by (simp_all add: body_ok_def)
  obtain l ls where l: "split_inclusive 0x0A s = l # ls" "marked l"
    using marked_first_line [OF m(2)] by blast
  have "\<forall>l \<in> set (split_inclusive 0x0A (tag_message t)). \<not> marked l"
    using assms by (simp add: body_ok_def list_all_iff)
  from find_marked_append [OF this l(2), of n ls] show ?thesis
    by (simp add: Some tag_body_def split_inclusive_append [OF m(1)] l(1))
qed

lemma split_signature_body:
  assumes "body_ok t"
  shows "split_signature (tag_body t) = Inr (tag_message t, tag_signature t)"
proof (cases "tag_signature t")
  case None
  then show ?thesis
    using find_marked_body [OF assms, of 0] by (simp add: split_signature_def tag_body_def)
next
  case (Some s)
  then obtain r where r: "s = 0x2D # r"
    using assms marked_starts by (fastforce simp: body_ok_def)
  have "char_boundary (tag_message t @ s) (length (tag_message t))"
    by (simp add: r char_boundary_def cont_byte_def)
  then show ?thesis
    using Some find_marked_body [OF assms, of 0]
    by (simp add: split_signature_def tag_body_def str_slice_def char_boundary_def)
qed

lemma encode_tag_lines: "encode_tag t = join_lines (tag_header_lines t) @ 0x0A # tag_body t"
  by (simp add: encode_tag_def tag_header_lines_def tag_body_def split: option.split)

lemma tag_signed_payload_lines:
  "tag_signed_payload t = join_lines (tag_header_lines t) @ 0x0A # tag_message t"
proof -
  have "tag_header_lines (t\<lparr>tag_signature := None\<rparr>) = tag_header_lines t"
    by (simp add: tag_header_lines_def del: ascii_Cons)
  then show ?thesis
    by (simp add: tag_signed_payload_def encode_tag_lines tag_body_def)
qed

lemma as_str_facts: "0x0A \<notin> set (as_str k)"
  by (cases k) simp_all

lemma tag_lines_ok: "tag_ok H t \<Longrightarrow> lines_ok (tag_header_lines t)"
  using as_str_facts [of "tag_kind t"]
  by (auto simp: lines_ok_def tag_header_lines_def tag_ok_def text_line_def split: option.splits)

lemma tag_lines_header:
  assumes "tag_ok H t"
  shows "tag_lines H (tag_header_lines t) no_tag_fields =
    Inr \<lparr>tf_object = Some (tag_object t), tf_kind = Some (tag_kind t), tf_name = Some (tag_name t),
         tf_tagger = tagger t\<rparr>"
  using assms
  by (cases "tagger t")
     (simp_all add: tag_header_lines_def tag_lines.simps(2) tag_ok_def text_line_def utf8_valid_ascii
       no_tag_fields_def)

lemma utf8_body: "body_ok t \<Longrightarrow> utf8_valid (tag_body t)"
  by (auto simp: body_ok_def tag_body_def intro: utf8_valid_append split: option.splits)

lemma parse_encode_tag:
  assumes "tag_ok H t"
  shows "parse_tag H (encode_tag t) = Inr t"
proof -
  have body: "body_ok t"
    using assms by (simp add: tag_ok_def)
  show ?thesis
    using split_message_header [OF tag_lines_ok [OF assms] utf8_body [OF body]]
      split_lines_ok [OF tag_lines_ok [OF assms]]
    by (simp add: parse_tag_def encode_tag_lines tag_lines_header [OF assms] split_signature_body [OF body])
qed

lemma tag_signature_encode:
  assumes "tag_ok H t"
  shows "tag_signature_and_payload (encode_tag t) = (tag_signature t, tag_signed_payload t)"
proof -
  let ?h = "header_of (tag_header_lines t)"
  have body: "body_ok t" and ne: "tag_header_lines t \<noteq> []"
    using assms by (simp_all add: tag_ok_def tag_header_lines_def)
  have join: "join_lines (tag_header_lines t) = ?h @ [0x0A]"
    using header_of_append [OF ne] .
  have enc: "encode_tag t = ?h @ [0x0A, 0x0A] @ tag_body t"
    by (simp add: encode_tag_lines join)
  have blank: "blank_line (encode_tag t) = Some (length ?h)"
    using blank_line_header [OF tag_lines_ok [OF assms]] by (simp add: encode_tag_lines)
  have drop: "drop (length ?h + 2) (encode_tag t) = tag_body t"
    by (simp add: enc)
  have payload: "tag_signed_payload t = ?h @ [0x0A, 0x0A] @ tag_message t"
    by (simp add: tag_signed_payload_lines join)
  show ?thesis
    unfolding tag_signature_and_payload_def blank option.case drop find_marked_body [OF body]
    unfolding payload enc by (cases "tag_signature t") (simp_all add: tag_body_def)
qed

lemma tag_parts:
  "tag_signature_and_payload raw = (s, p) \<Longrightarrow> p @ (case s of None \<Rightarrow> [] | Some x \<Rightarrow> x) = raw"
  by (auto simp: tag_signature_and_payload_def split: option.splits)

section \<open>Properties\<close>

text \<open>C29: Encoding a tag and parsing the payload gives back the same tag, with or without a tagger
  and an appended signature block, provided no line of the message itself begins like a signature and
  the block starts on a fresh line.\<close>

theorem tag_round_trip:
  assumes "tag_ok H t"
  shows "parse_tag H (encode_tag t) = Inr t"
  by (rule parse_encode_tag [OF assms])

definition sample_tag :: tag where
  "sample_tag =
     \<lparr>tag_object = ObjectId (replicate 20 1), tag_kind = Commit, tag_name = ascii ''v1'',
      tagger = Some (ascii ''T''), tag_signature = Some (ascii ''-----BEGIN SSH SIGNATURE-----'' @ [0x0A, 0x78]),
      tag_message = [0x6D, 0x0A]\<rparr>"

lemma sample_tag_ok: "tag_ok (sha1 (sum_digest 20)) sample_tag"
  by (simp add: tag_ok_def sample_tag_def id_ok_def sha1_def text_line_def body_ok_def marked_def
      SIGNATURE_MARKERS_def starts_with_def)

theorem tag_round_trip_witness:
  "parse_tag (sha1 (sum_digest 20)) (encode_tag sample_tag) = Inr sample_tag"
  by (rule tag_round_trip [OF sample_tag_ok])

text \<open>For an encoded tag \<open>tag_signature_and_payload\<close> finds exactly its signature
  block and \<open>tag_signed_payload\<close>; for any bytes at all, payload and signature together are
  the input, so no byte is lost or duplicated.\<close>

lemma tag_signature_split:
  "(tag_ok H t \<longrightarrow> tag_signature_and_payload (encode_tag t) = (tag_signature t, tag_signed_payload t))
   \<and> (\<forall>s p. tag_signature_and_payload raw = (s, p) \<longrightarrow> p @ (case s of None \<Rightarrow> [] | Some x \<Rightarrow> x) = raw)"
  using tag_signature_encode tag_parts by blast

lemma tag_signature_split_instance:
  "tag_signature_and_payload (encode_tag sample_tag) = (tag_signature sample_tag, tag_signed_payload sample_tag)"
  using tag_signature_split [of "sha1 (sum_digest 20)" sample_tag "[]"] sample_tag_ok by blast

end
