(* ===== verification/Git_Idx.thy ===== *)
theory Git_Idx
  imports Git_Object
begin

text \<open>
  Pack index files, version 2, \<open>gitana-object/src/idx.rs\<close>: encoding, decoding with every table
  checked, and lookup by binary search. The theory also states the interface of a table that is
  looked up by binary search, which the multi-pack index shares.
\<close>

section \<open>Tables looked up by binary search\<close>

locale sorted_table =
  fixes rows :: "'t \<Rightarrow> 'r list"
    and key :: "'r \<Rightarrow> 'k::linorder"
    and wf :: "'t \<Rightarrow> bool"
    and find_row :: "'t \<Rightarrow> 'k \<Rightarrow> 'r option"
  assumes sorted: "wf t \<Longrightarrow> sorted_wrt (<) (map key (rows t))"
    and find_row: "wf t \<Longrightarrow> find_row t k = map_option (\<lambda>i. rows t ! i) (binary_search (map key (rows t)) k)"
begin

lemma find_Some:
  assumes "wf t"
  shows "find_row t k = Some r \<longleftrightarrow> r \<in> set (rows t) \<and> key r = k"
proof
  assume "find_row t k = Some r"
  then obtain i where "binary_search (map key (rows t)) k = Some i" "r = rows t ! i"
    by (auto simp: find_row [OF assms])
  then show "r \<in> set (rows t) \<and> key r = k"
    using binary_search_Some [OF sorted [OF assms], of k i] by auto
next
  assume "r \<in> set (rows t) \<and> key r = k"
  then obtain i where i: "i < length (rows t)" "rows t ! i = r" "key r = k"
    by (auto simp: in_set_conv_nth)
  then have "binary_search (map key (rows t)) k = Some i"
    using binary_search_Some [OF sorted [OF assms], of k i] by simp
  then show "find_row t k = Some r"
    using i by (simp add: find_row [OF assms])
qed

lemma find_None: "wf t \<Longrightarrow> find_row t k = None \<longleftrightarrow> k \<notin> key ` set (rows t)"
  using binary_search_None [OF sorted, of t k] by (auto simp: find_row)

lemma find_map_of: "wf t \<Longrightarrow> find_row t k = map_of (map (\<lambda>r. (key r, r)) (rows t)) k"
proof -
  assume wf: "wf t"
  have "distinct (map key (rows t))"
    using sorted [OF wf] strict_sorted_iff by blast
  then have "map_of (map (\<lambda>r. (key r, r)) (rows t)) k = Some r \<longleftrightarrow> r \<in> set (rows t) \<and> key r = k" for r
    by (subst map_of_eq_Some_iff) (auto simp: comp_def)
  then show ?thesis
    using find_Some [OF wf, of k]
    by (cases "find_row t k"; cases "map_of (map (\<lambda>r. (key r, r)) (rows t)) k") auto
qed

end

section \<open>Entries and encoding\<close>

definition IDX_MAGIC :: bytes where "IDX_MAGIC = [0xff, 0x74, 0x4f, 0x63]"
definition IDX_VERSION :: u32 where "IDX_VERSION = 2"
definition FANOUT_LEN :: nat where "FANOUT_LEN = 256 * 4"
definition LARGE_OFFSET_FLAG :: u32 where "LARGE_OFFSET_FLAG = 0x80000000"

record pack_index_entry =
  pie_id :: object_id
  pie_offset :: u64
  pie_crc32 :: u32

definition adjacent_equal :: "'a list \<Rightarrow> bool" where
  "adjacent_equal xs \<longleftrightarrow> list_ex (\<lambda>(a, b). a = b) (windows2 xs)"

definition first_byte :: "object_id \<Rightarrow> nat" where
  "first_byte i = unat (id_bytes i ! 0)"

text \<open>Count the ids per first byte, then take prefix sums, in \<open>u32\<close>.\<close>

definition fanout_counts :: "object_id list \<Rightarrow> u32 list" where
  "fanout_counts ids = foldl (\<lambda>f i. f[first_byte i := f ! first_byte i + 1]) (replicate 256 0) ids"

fun prefix_sums :: "u32 \<Rightarrow> u32 list \<Rightarrow> u32 list" where
  "prefix_sums cumulative [] = []"
| "prefix_sums cumulative (bucket # rest) =
     (cumulative + bucket) # prefix_sums (cumulative + bucket) rest"

definition fanout :: "object_id list \<Rightarrow> u32 list" where
  "fanout ids = prefix_sums 0 (fanout_counts ids)"

text \<open>The small offsets, and the large ones they refer to in first-seen order.\<close>

fun offset_tables :: "u64 list \<Rightarrow> nat \<Rightarrow> u32 list \<times> u64 list" where
  "offset_tables [] large_len = ([], [])"
| "offset_tables (off # offs) large_len =
     (if off < ucast LARGE_OFFSET_FLAG then
        (case offset_tables offs large_len of (small, large) \<Rightarrow> (ucast off # small, large))
      else
        (case offset_tables offs (large_len + 1) of (small, large) \<Rightarrow>
          ((LARGE_OFFSET_FLAG OR word_of_nat large_len) # small, off # large)))"

definition encode_pack_index :: "hash_alg \<Rightarrow> pack_index_entry list \<Rightarrow> bytes \<Rightarrow> bytes ores" where
  "encode_pack_index H entries pack_checksum =
     (if length pack_checksum \<noteq> raw_len H then fail_with MalformedPackIndex
      else
        let sorted = sort_key pie_id entries in
        if adjacent_equal (map pie_id sorted) then fail_with MalformedPackIndex
        else
          let (small, large) = offset_tables (map pie_offset sorted) 0;
              out = IDX_MAGIC @ to_be32 IDX_VERSION
                @ concat (map to_be32 (fanout (map pie_id sorted)))
                @ concat (map (\<lambda>e. id_bytes (pie_id e)) sorted)
                @ concat (map (\<lambda>e. to_be32 (pie_crc32 e)) sorted)
                @ concat (map to_be32 small) @ concat (map to_be64 large)
                @ pack_checksum
          in Inr (out @ digest H out))"

section \<open>The index and its lookup\<close>

record pack_index =
  entries :: "pack_index_entry list"
  pack_checksum :: bytes

definition from_entries :: "hash_alg \<Rightarrow> pack_index_entry list \<Rightarrow> bytes \<Rightarrow> pack_index ores" where
  "from_entries H es checksum =
     (if length checksum \<noteq> raw_len H then fail_with MalformedPackIndex
      else
        let sorted = sort_key pie_id es in
        if adjacent_equal (map pie_id sorted) then fail_with MalformedPackIndex
        else Inr \<lparr>entries = sorted, pack_checksum = checksum\<rparr>)"

definition idx_len :: "pack_index \<Rightarrow> nat" where
  "idx_len p = length (entries p)"

definition idx_is_empty :: "pack_index \<Rightarrow> bool" where
  "idx_is_empty p \<longleftrightarrow> entries p = []"

definition lookup :: "pack_index \<Rightarrow> object_id \<Rightarrow> pack_index_entry option" where
  "lookup p i = map_option (\<lambda>k. entries p ! k) (binary_search (map pie_id (entries p)) i)"

definition offset_of :: "pack_index \<Rightarrow> object_id \<Rightarrow> u64 option" where
  "offset_of p i = map_option pie_offset (lookup p i)"

definition index_wf :: "pack_index \<Rightarrow> bool" where
  "index_wf p \<longleftrightarrow> sorted_wrt (<) (map pie_id (entries p))"

interpretation idx: sorted_table entries pie_id index_wf lookup
  by unfold_locales (simp_all add: index_wf_def lookup_def)

section \<open>Decoding\<close>

text \<open>The row \<open>i\<close> of a table of \<open>w\<close>-byte rows that begins at \<open>start\<close>; out of
  range panics.\<close>

definition row :: "bytes \<Rightarrow> nat \<Rightarrow> nat \<Rightarrow> nat \<Rightarrow> bytes ores" where
  "row bs start w i = slice bs (start + i * w) (start + (i + 1) * w)"

fun read_small :: "bytes \<Rightarrow> nat \<Rightarrow> nat \<Rightarrow> nat \<Rightarrow> u32 list ores" where
  "read_small bs off_start i 0 = Inr []"
| "read_small bs off_start i (Suc k) =
     ebind (row bs off_start 4 i) (\<lambda>b.
     ebind (read_small bs off_start (i + 1) k) (\<lambda>vs. Inr (from_be32 b # vs)))"

definition flagged :: "u32 \<Rightarrow> bool" where
  "flagged v \<longleftrightarrow> v AND LARGE_OFFSET_FLAG \<noteq> 0"

definition read_offset_at :: "bytes \<Rightarrow> nat \<Rightarrow> nat \<Rightarrow> u32 \<Rightarrow> u64 ores" where
  "read_offset_at bs large_start large_count value =
     (if \<not> flagged value then Inr (ucast value)
      else
        let i = unat (value AND NOT LARGE_OFFSET_FLAG) in
        if large_count \<le> i then fail_with MalformedPackIndex
        else ebind (row bs large_start 8 i) (\<lambda>b. Inr (from_be64 b)))"

fun read_entries ::
  "hash_alg \<Rightarrow> bytes \<Rightarrow> nat \<Rightarrow> nat \<Rightarrow> nat \<Rightarrow> nat \<Rightarrow> nat \<Rightarrow> u32 list \<Rightarrow> pack_index_entry list
     \<Rightarrow> pack_index_entry list ores" where
  "read_entries H bs ids_start crc_start large_start large_count i [] es = Inr es"
| "read_entries H bs ids_start crc_start large_start large_count i (value # small) es =
     ebind (row bs ids_start (raw_len H) i) (\<lambda>b.
     ebind (from_bytes H b) (\<lambda>oid.
       if es \<noteq> [] \<and> oid \<le> pie_id (last es) then fail_with MalformedPackIndex
       else
         ebind (row bs crc_start 4 i) (\<lambda>c.
         ebind (read_offset_at bs large_start large_count value) (\<lambda>off.
           read_entries H bs ids_start crc_start large_start large_count (i + 1) small
             (es @ [\<lparr>pie_id = oid, pie_offset = off, pie_crc32 = from_be32 c\<rparr>])))))"

text \<open>The ids not yet counted are the rest of the sorted list.\<close>

fun check_fanout ::
  "object_error \<Rightarrow> bytes \<Rightarrow> nat \<Rightarrow> object_id list \<Rightarrow> u32 \<Rightarrow> nat \<Rightarrow> nat \<Rightarrow> unit ores" where
  "check_fanout e bs start rest cumulative bucket 0 = Inr ()"
| "check_fanout e bs start rest cumulative bucket (Suc k) =
     (let here = takeWhile (\<lambda>i. first_byte i = bucket) rest;
          cumulative = cumulative + word_of_nat (length here)
      in ebind (row bs start 4 bucket) (\<lambda>b.
         if from_be32 b \<noteq> cumulative then fail_with e
         else check_fanout e bs start (dropWhile (\<lambda>i. first_byte i = bucket) rest) cumulative (bucket + 1) k))"

definition decode_pack_index :: "hash_alg \<Rightarrow> bytes \<Rightarrow> pack_index ores" where
  "decode_pack_index H bs =
     (let raw = raw_len H; header = 8 + FANOUT_LEN in
      if length bs < header + 2 * raw then fail_with MalformedPackIndex
      else
        ebind (slice bs 0 4) (\<lambda>magic.
        ebind (slice bs 4 8) (\<lambda>version.
        if magic \<noteq> IDX_MAGIC \<or> from_be32 version \<noteq> IDX_VERSION then fail_with MalformedPackIndex
        else
          let body_end = length bs - raw in
          if digest H (take body_end bs) \<noteq> drop body_end bs then fail_with MalformedPackIndex
          else
            ebind (slice bs (header - 4) header) (\<lambda>total.
              let n = unat (from_be32 total); ids_start = header;
                  table = (\<lambda>start w. ebind (ok_or (checked_mul n w) MalformedPackIndex) (\<lambda>m.
                                     ok_or (checked_add start m) MalformedPackIndex))
              in
              ebind (table ids_start raw) (\<lambda>crc_start.
              ebind (table crc_start 4) (\<lambda>off_start.
              ebind (table off_start 4) (\<lambda>large_start.
              if body_end - raw < large_start then fail_with MalformedPackIndex
              else
                ebind (read_small bs off_start 0 n) (\<lambda>small.
                  let large_count = length (filter flagged small) in
                  ebind (ok_or (checked_mul large_count 8) MalformedPackIndex) (\<lambda>m.
                  ebind (ok_or (checked_add large_start m) MalformedPackIndex) (\<lambda>large_end.
                  if large_end \<noteq> body_end - raw then fail_with MalformedPackIndex
                  else
                    ebind (read_entries H bs ids_start crc_start large_start large_count 0 small []) (\<lambda>es.
                    ebind (check_fanout MalformedPackIndex bs 8 (map pie_id es) 0 0 256) (\<lambda>_.
                    ebind (slice bs (body_end - raw) body_end) (\<lambda>checksum.
                      Inr \<lparr>entries = es, pack_checksum = checksum\<rparr>)))))))))))))"

section \<open>Reading tables\<close>

lemma row_concat:
  assumes "i < length xs" "\<forall>x \<in> set xs. length (f x) = w"
  shows "row (p @ concat (map f xs) @ s) (length p) w i = Inr (f (xs ! i))"
proof -
  have len: "\<forall>x \<in> set (map f (take i xs)). length x = w"
    using assms(2) by (auto dest: in_set_takeD)
  have "xs = take i xs @ xs ! i # drop (Suc i) xs"
    using assms(1) by (rule id_take_nth_drop)
  then have form: "p @ concat (map f xs) @ s
      = (p @ concat (map f (take i xs))) @ f (xs ! i) @ (concat (map f (drop (Suc i) xs)) @ s)"
    by (metis append.assoc concat.simps(2) concat_append list.simps(9) map_append)
  have "length (concat (map f (take i xs))) = i * w"
    using length_concat_same [OF len] assms(1) by simp
  then show ?thesis
    unfolding row_def form using assms by (intro slice_append) auto
qed

lemma row_at:
  assumes "bs = p @ concat (map f xs) @ s" "start = length p" "i < length xs" "\<forall>x \<in> set xs. length (f x) = w"
  shows "row bs start w i = Inr (f (xs ! i))"
  unfolding assms(1,2) by (rule row_concat [OF assms(3,4)])

lemma no_panic_row: "start + (i + 1) * w \<le> length bs \<Longrightarrow> no_panic (row bs start w i)"
  by (simp add: row_def slice_ok)

lemma read_small_table:
  assumes "\<forall>j. i \<le> j \<and> j < i + k \<longrightarrow> row bs st 4 j = Inr (to_be32 (vs ! j))" "length vs = i + k"
  shows "read_small bs st i k = Inr (drop i vs)"
  using assms
proof (induction k arbitrary: i)
  case (Suc k)
  have "read_small bs st (i + 1) k = Inr (drop (i + 1) vs)"
    using Suc.prems by (intro Suc.IH) auto
  moreover have "vs ! i # drop (i + 1) vs = drop i vs"
    using Suc.prems(2) by (simp add: Cons_nth_drop_Suc)
  ultimately show ?case
    using Suc.prems by simp
qed simp

section \<open>Offsets\<close>

lemma flag_bit: "LARGE_OFFSET_FLAG = 2 ^ 31"
  by (simp add: LARGE_OFFSET_FLAG_def)

lemma flagged_bit: "flagged v \<longleftrightarrow> bit v 31"
  unfolding flagged_def flag_bit and_exp_eq_0_iff_not_bit by simp

definition decode_off :: "u64 list \<Rightarrow> u32 \<Rightarrow> u64" where
  "decode_off large v = (if flagged v then large ! unat (v AND NOT LARGE_OFFSET_FLAG) else ucast v)"

lemma small_offset:
  assumes "off < ucast LARGE_OFFSET_FLAG"
  shows "\<not> flagged (ucast off :: u32)" "ucast (ucast off :: u32) = (off :: u64)"
proof -
  have "unat off < 2 ^ 31"
    using assms by (simp add: LARGE_OFFSET_FLAG_def word_less_nat_alt)
  then have t: "take_bit 31 off = off"
    by (simp add: word_unat_eq_iff unsigned_take_bit_eq take_bit_nat_eq_self)
  have "\<not> bit off 31"
    using t by (metis bit_take_bit_iff less_irrefl)
  then show "\<not> flagged (ucast off :: u32)"
    by (simp add: flagged_bit bit_ucast_iff)
  have "bit off n \<Longrightarrow> n < 31" for n
    using t by (metis bit_take_bit_iff)
  then show "ucast (ucast off :: u32) = off"
    by (intro bit_word_eqI) (auto simp: bit_ucast_iff, fastforce)
qed

lemma large_offset:
  assumes "n < 2 ^ 31"
  shows "flagged (LARGE_OFFSET_FLAG OR word_of_nat n)"
    "(LARGE_OFFSET_FLAG OR word_of_nat n) AND NOT LARGE_OFFSET_FLAG = word_of_nat n"
proof -
  have low: "bit (word_of_nat n :: u32) i \<Longrightarrow> i < 31" for i
    using assms take_bit_nat_eq_self [OF assms] by (metis bit_of_nat_iff bit_take_bit_iff)
  show "flagged (LARGE_OFFSET_FLAG OR word_of_nat n)"
    by (simp add: flagged_bit flag_bit bit_or_iff bit_exp_iff)
  show "(LARGE_OFFSET_FLAG OR word_of_nat n) AND NOT LARGE_OFFSET_FLAG = word_of_nat n"
  proof (rule bit_word_eqI)
    fix i assume "i < LENGTH(32)"
    then show "bit ((LARGE_OFFSET_FLAG OR word_of_nat n) AND NOT LARGE_OFFSET_FLAG) i = bit (word_of_nat n :: u32) i"
      using low [of i] unfolding flag_bit bit_and_iff bit_or_iff bit_not_iff bit_exp_iff possible_bit_word
      by auto
  qed
qed

lemma offset_tables_decode:
  assumes "offset_tables offs n0 = (small, large)" "length pre = n0" "n0 + length offs \<le> 2 ^ 31"
  shows "map (decode_off (pre @ large)) small = offs \<and> length (filter flagged small) = length large
    \<and> (\<forall>v \<in> set small. flagged v \<longrightarrow> unat (v AND NOT LARGE_OFFSET_FLAG) < n0 + length large)"
  using assms
proof (induction offs arbitrary: n0 pre small large)
  case (Cons off offs)
  show ?case
  proof (cases "off < ucast LARGE_OFFSET_FLAG")
    case True
    then obtain small' where s: "offset_tables offs n0 = (small', large)" "small = ucast off # small'"
      using Cons.prems(1) by (auto split: prod.splits)
    then show ?thesis
      using Cons.IH [OF s(1) Cons.prems(2)] Cons.prems(3) small_offset [OF True]
      by (simp add: decode_off_def)
  next
    case False
    then obtain small' large' where s: "offset_tables offs (n0 + 1) = (small', large')"
      "small = (LARGE_OFFSET_FLAG OR word_of_nat n0) # small'" "large = off # large'"
      using Cons.prems(1) by (auto split: prod.splits)
    have n0: "n0 < 2 ^ 31"
      using Cons.prems(3) by simp
    then have u: "unat (word_of_nat n0 :: u32) = n0"
      by (simp add: unat_of_nat)
    show ?thesis
      using Cons.IH [OF s(1), of "pre @ [off]"] Cons.prems(2,3) large_offset [OF n0] u
      by (simp add: s decode_off_def nth_append)
  qed
qed simp

section \<open>The fanout table\<close>

lemma first_byte_bound: "first_byte i < 256"
  using unat_bound [of "id_bytes i ! 0"] by (simp add: first_byte_def)

lemma fanout_counts_nth:
  "b < 256 \<Longrightarrow> fanout_counts ids ! b = word_of_nat (length (filter (\<lambda>i. first_byte i = b) ids))
    \<and> length (fanout_counts ids) = 256"
  unfolding fanout_counts_def
  by (induction ids rule: rev_induct) (auto simp: nth_list_update first_byte_bound)

lemma length_fanout_counts [simp]: "length (fanout_counts ids) = 256"
  using fanout_counts_nth [of 0 ids] by simp

lemma length_prefix_sums [simp]: "length (prefix_sums c fs) = length fs"
  by (induction fs arbitrary: c) auto

lemma prefix_sums_nth: "j < length fs \<Longrightarrow> prefix_sums c fs ! j = c + sum_list (take (Suc j) fs)"
  by (induction fs arbitrary: c j) (auto simp: nth_Cons add.assoc split: nat.splits)

lemma fanout_nth:
  assumes "j < 256"
  shows "fanout ids ! j = word_of_nat (length (filter (\<lambda>i. first_byte i \<le> j) ids))"
proof -
  have "sum_list (take (Suc j) (fanout_counts ids)) = word_of_nat (length (filter (\<lambda>i. first_byte i \<le> j) ids))"
    using assms
  proof (induction j)
    case 0
    then show ?case
      using fanout_counts_nth [of 0 ids] by (simp add: take_Suc_conv_app_nth)
  next
    case (Suc j)
    have "length (filter (\<lambda>i. first_byte i \<le> Suc j) ids)
        = length (filter (\<lambda>i. first_byte i \<le> j) ids) + length (filter (\<lambda>i. first_byte i = Suc j) ids)"
      by (induction ids) auto
    then show ?case
      using Suc fanout_counts_nth [of "Suc j" ids] by (simp add: take_Suc_conv_app_nth)
  qed
  then show ?thesis
    using assms by (simp add: fanout_def prefix_sums_nth)
qed

lemma length_fanout [simp]: "length (fanout ids) = 256"
  by (simp add: fanout_def)

lemma first_byte_mono:
  assumes "i \<le> j" "id_bytes i \<noteq> []" "id_bytes j \<noteq> []"
  shows "first_byte i \<le> first_byte j"
  using assms
  by (cases "id_bytes i"; cases "id_bytes j")
     (auto simp: first_byte_def less_eq_object_id_def word_le_nat_alt word_less_nat_alt split: if_splits)

lemma sorted_first_bytes:
  assumes "sorted_wrt (<) ids" "\<forall>i \<in> set ids. id_bytes i \<noteq> []"
  shows "sorted (map first_byte ids)"
  unfolding sorted_map
  using assms first_byte_mono by (auto elim!: sorted_wrt_mono_rel [rotated] intro: less_imp_le)

lemma check_fanout_sorted:
  assumes "sorted (map first_byte rest)" "\<forall>i \<in> set rest. b \<le> first_byte i"
    and "\<forall>j. b \<le> j \<and> j < b + k \<longrightarrow>
        row bs st 4 j = Inr (to_be32 (c + word_of_nat (length (filter (\<lambda>i. first_byte i \<le> j) rest))))"
  shows "check_fanout e bs st rest c b k = Inr ()"
  using assms
proof (induction k arbitrary: rest c b)
  case (Suc k)
  let ?here = "takeWhile (\<lambda>i. first_byte i = b) rest" and ?later = "dropWhile (\<lambda>i. first_byte i = b) rest"
  have split: "rest = ?here @ ?later"
    by simp
  have later: "b + 1 \<le> first_byte i" if "i \<in> set ?later" for i
  proof (cases "?later")
    case Nil
    with that show ?thesis
      by (metis emptyE list.set(1))
  next
    case (Cons x xs)
    have "first_byte x \<noteq> b" "x \<in> set rest"
      using hd_dropWhile [of "\<lambda>i. first_byte i = b" rest] Cons
      by (auto, metis list.set_intros(1) set_dropWhileD)
    then have "b < first_byte x"
      using Suc.prems(2) by fastforce
    moreover have "sorted (map first_byte ?later)"
      using Suc.prems(1) by (metis split map_append sorted_append)
    ultimately show ?thesis
      using that Cons by fastforce
  qed
  have here: "\<forall>i \<in> set ?here. first_byte i = b"
    using set_takeWhileD by fast
  have cnt: "length (filter (\<lambda>i. first_byte i \<le> j) rest)
      = length ?here + length (filter (\<lambda>i. first_byte i \<le> j) ?later)" if "b \<le> j" for j
  proof -
    have "filter (\<lambda>i. first_byte i \<le> j) ?here = ?here"
      using here that by (simp add: filter_id_conv)
    then show ?thesis
      by (metis split filter_append length_append)
  qed
  have "filter (\<lambda>i. first_byte i \<le> b) ?later = []"
    using later by (fastforce simp: filter_empty_conv)
  then have row: "row bs st 4 b = Inr (to_be32 (c + word_of_nat (length ?here)))"
    using Suc.prems(3) cnt [of b] by simp
  have "check_fanout e bs st ?later (c + word_of_nat (length ?here)) (b + 1) k = Inr ()"
  proof (rule Suc.IH)
    show "sorted (map first_byte ?later)"
      using Suc.prems(1) by (metis split map_append sorted_append)
    show "\<forall>j. b + 1 \<le> j \<and> j < b + 1 + k \<longrightarrow> row bs st 4 j = Inr (to_be32 (c + word_of_nat (length ?here)
        + word_of_nat (length (filter (\<lambda>i. first_byte i \<le> j) ?later))))"
      using Suc.prems(3) cnt by (simp add: add.assoc)
  qed (use later in blast)
  then show ?case
    by (simp add: row Let_def)
qed simp

section \<open>Decoding an encoded index\<close>

lemma adjacent_equal_sorted:
  "sorted xs \<Longrightarrow> adjacent_equal xs \<longleftrightarrow> \<not> distinct (xs :: 'a::linorder list)"
proof (induction xs rule: induct_list012)
  case (3 x y zs)
  then show ?case
    by (cases "x = y") (auto simp: adjacent_equal_def)
qed (auto simp: adjacent_equal_def)

lemma read_entries_table:
  assumes "\<forall>j < length es. row bs ids_start (raw_len H) j = Inr (id_bytes (pie_id (es ! j)))
      \<and> row bs crc_start 4 j = Inr (to_be32 (pie_crc32 (es ! j)))
      \<and> read_offset_at bs large_start large_count (small ! j) = Inr (pie_offset (es ! j))"
    and "\<forall>e \<in> set es. id_ok H (pie_id e)" "sorted_wrt (<) (map pie_id es)"
    and "length small = length es" "i \<le> length es"
  shows "read_entries H bs ids_start crc_start large_start large_count i (drop i small) (take i es) = Inr es"
  using assms(5)
proof (induction "length es - i" arbitrary: i)
  case (Suc k)
  then have i: "i < length es"
    by simp
  have e: "es ! i = \<lparr>pie_id = pie_id (es ! i), pie_offset = pie_offset (es ! i), pie_crc32 = pie_crc32 (es ! i)\<rparr>"
    by simp
  have "take i es = [] \<or> pie_id (last (take i es)) < pie_id (es ! i)"
  proof (cases i)
    case (Suc m)
    then have "last (take i es) = es ! m"
      using i by (simp add: take_Suc_conv_app_nth)
    then show ?thesis
      using sorted_wrt_nth_less [OF assms(3), of m i] Suc i by simp
  qed simp
  then have "\<not> (take i es \<noteq> [] \<and> pie_id (es ! i) \<le> pie_id (last (take i es)))"
    by auto
  moreover have "drop i small = small ! i # drop (i + 1) small"
    using i assms(4) by (simp add: Cons_nth_drop_Suc)
  moreover have "take i es @ [es ! i] = take (i + 1) es"
    using i by (simp add: take_Suc_conv_app_nth)
  moreover have "read_entries H bs ids_start crc_start large_start large_count (i + 1) (drop (i + 1) small)
      (take (i + 1) es) = Inr es"
    using Suc i by (intro Suc.hyps(1)) auto
  moreover have "id_ok H (pie_id (es ! i))"
    using assms(2) i by simp
  ultimately show ?case
    using assms(1) i by (simp add: e [symmetric])
qed (use assms(4) in simp)

lemma decode_offset_row:
  assumes "flagged v \<longrightarrow> unat (v AND NOT LARGE_OFFSET_FLAG) < length large"
    and "\<forall>j < length large. row bs st 8 j = Inr (to_be64 (large ! j))"
  shows "read_offset_at bs st (length large) v = Inr (decode_off large v)"
  using assms by (auto simp: read_offset_at_def decode_off_def Let_def)

lemma length_offset_tables: "offset_tables offs n = (small, large) \<Longrightarrow> length small = length offs"
  by (induction offs arbitrary: n small large) (auto split: if_splits prod.splits)

lemma length_offset_large: "offset_tables offs n = (small, large) \<Longrightarrow> length large \<le> length offs"
  by (induction offs arbitrary: n small large) (force split: if_splits prod.splits)+

definition idx_file :: "hash_alg \<Rightarrow> pack_index_entry list \<Rightarrow> u32 list \<Rightarrow> u64 list \<Rightarrow> bytes \<Rightarrow> bytes" where
  "idx_file H es small large checksum =
     IDX_MAGIC @ to_be32 IDX_VERSION @ concat (map to_be32 (fanout (map pie_id es)))
       @ concat (map (\<lambda>e. id_bytes (pie_id e)) es) @ concat (map (\<lambda>e. to_be32 (pie_crc32 e)) es)
       @ concat (map to_be32 small) @ concat (map to_be64 large) @ checksum"

definition fits_index :: "hash_alg \<Rightarrow> nat \<Rightarrow> bool" where
  "fits_index H n \<longleftrightarrow> n \<le> 2 ^ 31 \<and> raw_len H < 2 ^ 16"

lemma decode_idx_file:
  assumes H: "hash_ok H" "fits_index H (length es)" "length checksum = raw_len H"
    and ids: "\<forall>e \<in> set es. id_ok H (pie_id e)" "sorted_wrt (<) (map pie_id es)"
    and offs: "offset_tables (map pie_offset es) 0 = (small, large)"
  defines "out \<equiv> idx_file H es small large checksum"
  shows "decode_pack_index H (out @ digest H out) = Inr \<lparr>entries = es, pack_checksum = checksum\<rparr>"
proof -
  let ?n = "length es" and ?r = "raw_len H"
  let ?bs = "out @ digest H out"
  let ?F = "concat (map to_be32 (fanout (map pie_id es)))"
  let ?I = "concat (map (\<lambda>e. id_bytes (pie_id e)) es)"
  let ?C = "concat (map (\<lambda>e. to_be32 (pie_crc32 e)) es)"
  let ?S = "concat (map to_be32 small)" and ?L = "concat (map to_be64 large)"
  let ?M = "IDX_MAGIC @ to_be32 IDX_VERSION"
  have r: "0 < ?r" "?r < 2 ^ 16" "?n \<le> 2 ^ 31"
    using H hash_ok_pos by (auto simp: fits_index_def)
  have ls: "length small = ?n" "length large \<le> ?n"
    using length_offset_tables [OF offs] length_offset_large [OF offs] by simp_all
  have lenI: "length ?I = ?n * ?r"
    using ids(1) length_concat_same [of "map (\<lambda>e. id_bytes (pie_id e)) es" ?r] by (simp add: id_ok_def)
  have lenC: "length ?C = 4 * ?n"
    using length_concat_be32 [of "map pie_crc32 es"] by (simp add: comp_def)
  have lenM: "length ?M = 8" "length IDX_MAGIC = 4"
    by (simp_all add: IDX_MAGIC_def)
  have bs: "?bs = ?M @ ?F @ ?I @ ?C @ ?S @ ?L @ checksum @ digest H out"
    by (simp add: out_def idx_file_def)
  have total: "length out = 1032 + ?n * ?r + 4 * ?n + 4 * ?n + 8 * length large + ?r"
    using lenI lenC lenM ls H(3) by (simp add: out_def idx_file_def)
  have dig: "length (digest H out) = ?r"
    using H(1) by simp
  have magic: "slice ?bs 0 4 = (Inr IDX_MAGIC :: bytes ores)" "slice ?bs 4 8 = (Inr (to_be32 IDX_VERSION) :: bytes ores)"
    using slice_append [of "[]" 0 IDX_MAGIC 4] slice_append [of IDX_MAGIC 4 "to_be32 IDX_VERSION" 8] lenM
    by (simp_all add: bs)
  have F: "row ?bs 8 4 j = Inr (to_be32 (fanout (map pie_id es) ! j))" if "j < 256" for j
    by (rule row_at [where p = ?M]) (use that lenM in \<open>simp_all add: bs\<close>)
  have all: "filter (\<lambda>i. first_byte i \<le> 255) (map pie_id es) = map pie_id es"
    using first_byte_bound by (simp add: filter_id_conv less_Suc_eq_le [symmetric])
  have "slice ?bs 1028 1032 = (row ?bs 8 4 255 :: bytes ores)"
    by (simp add: row_def)
  also have "\<dots> = Inr (to_be32 (word_of_nat ?n))"
    using F [of 255] fanout_nth [of 255 "map pie_id es"] unfolding all by simp
  finally have count: "slice ?bs 1028 1032 = (Inr (to_be32 (word_of_nat ?n)) :: bytes ores)" .
  have n: "unat (word_of_nat ?n :: u32) = ?n"
    using r by (simp add: unat_of_nat)
  let ?c = "1032 + ?n * ?r"
  let ?o = "?c + ?n * 4" and ?l = "?c + ?n * 4 + ?n * 4"
  have I: "row ?bs 1032 ?r j = Inr (id_bytes (pie_id (es ! j)))" if "j < ?n" for j
    by (rule row_at [where p = "?M @ ?F" and s = "?C @ ?S @ ?L @ checksum @ digest H out"])
       (use that lenM ids(1) in \<open>simp_all add: bs id_ok_def\<close>)
  have C: "row ?bs ?c 4 j = Inr (to_be32 (pie_crc32 (es ! j)))" if "j < ?n" for j
    by (rule row_at [where p = "?M @ ?F @ ?I" and s = "?S @ ?L @ checksum @ digest H out"])
       (use that lenM lenI in \<open>simp_all add: bs\<close>)
  have S: "row ?bs ?o 4 j = Inr (to_be32 (small ! j))" if "j < ?n" for j
    by (rule row_at [where p = "?M @ ?F @ ?I @ ?C" and s = "?L @ checksum @ digest H out"])
       (use that lenM lenI lenC ls in \<open>simp_all add: bs\<close>)
  have L: "row ?bs ?l 8 j = Inr (to_be64 (large ! j))" if "j < length large" for j
    by (rule row_at [where p = "?M @ ?F @ ?I @ ?C @ ?S" and s = "checksum @ digest H out"])
       (use that lenM lenI lenC ls in \<open>simp_all add: bs\<close>)
  have small: "read_small ?bs ?o 0 ?n = Inr small"
    using read_small_table [of 0 ?n ?bs ?o small] S ls by simp
  have dec: "map (decode_off large) small = map pie_offset es" "length (filter flagged small) = length large"
    "\<forall>v \<in> set small. flagged v \<longrightarrow> unat (v AND NOT LARGE_OFFSET_FLAG) < length large"
    using offset_tables_decode [OF offs, of "[]"] r(3) by simp_all
  have O: "read_offset_at ?bs ?l (length large) (small ! j) = Inr (pie_offset (es ! j))" if "j < ?n" for j
  proof -
    have "decode_off large (small ! j) = pie_offset (es ! j)"
      using dec(1) that ls by (metis length_map nth_map)
    moreover have "small ! j \<in> set small"
      using that ls by simp
    ultimately show ?thesis
      using decode_offset_row [of "small ! j" large ?bs ?l] dec(3) L by metis
  qed
  have entries: "read_entries H ?bs 1032 ?c ?l (length large) 0 small [] = Inr es"
    using read_entries_table [of es ?bs 1032 H ?c ?l "length large" small 0] I C O ids ls by simp
  have "sorted (map first_byte (map pie_id es))"
    by (rule sorted_first_bytes [OF ids(2)]) (use ids(1) r(1) in \<open>auto simp: id_ok_def\<close>)
  then have fanout: "check_fanout MalformedPackIndex ?bs 8 (map pie_id es) 0 0 256 = Inr ()"
    using F fanout_nth by (intro check_fanout_sorted) simp_all
  have checksum: "slice ?bs (length out - ?r) (length out) = (Inr checksum :: bytes ores)"
    using slice_append [of "?M @ ?F @ ?I @ ?C @ ?S @ ?L" "length out - ?r" checksum "length out" "digest H out"]
      total lenM lenI lenC ls H(3) by (simp add: bs)
  have "?n * ?r \<le> 2 ^ 31 * 2 ^ 16"
    using r by (intro mult_le_mono) simp_all
  then have lim: "checked_mul ?n ?r = Some (?n * ?r)" "checked_mul ?n 4 = Some (?n * 4)"
    "checked_add 1032 (?n * ?r) = Some ?c" "checked_add ?c (?n * 4) = Some ?o" "checked_add ?o (?n * 4) = Some ?l"
    "checked_mul (length large) 8 = Some (length large * 8)"
    "checked_add ?l (length large * 8) = Some (length out - ?r)"
    using r ls total by (simp_all add: checked_mul_def checked_add_def usize_lim_def)
  have conds: "(length ?bs < 1032 + 2 * ?r) = False" "length ?bs - ?r = length out"
    "(length out - ?r < ?l) = False"
    using total dig ls by simp_all
  have hdr: "8 + FANOUT_LEN = 1032" "(1032::nat) - 4 = 1028"
    by (simp_all add: FANOUT_LEN_def)
  show ?thesis
    unfolding decode_pack_index_def Let_def hdr conds if_False magic ebind_simps count from_to_be32 n lim ok_or_simps
      small dec entries fanout checksum
    by simp
qed

section \<open>What decoding guarantees\<close>

lemma read_small_safe:
  assumes "off_start + (i + k) * 4 \<le> length bs"
  shows "no_panic (read_small bs off_start i k)"
    and "read_small bs off_start i k = Inr vs \<Longrightarrow> length vs = k"
  using assms
  by (induction k arbitrary: i vs) (auto intro!: no_panic_ebind no_panic_row simp: ebind_eq_Inr algebra_simps)

lemma no_panic_read_offset:
  "st + n * 8 \<le> length bs \<Longrightarrow> no_panic (read_offset_at bs st n v)"
  by (auto simp: read_offset_at_def Let_def not_le intro!: no_panic_ebind no_panic_row)

lemma no_panic_read_entries:
  assumes "ids + (i + length small) * raw_len H \<le> length bs" "crc + (i + length small) * 4 \<le> length bs"
    and "st + n * 8 \<le> length bs"
  shows "no_panic (read_entries H bs ids crc st n i small es)"
  using assms
proof (induction small arbitrary: i es)
  case (Cons v small)
  have "no_panic (row bs ids (raw_len H) i)" "no_panic (row bs crc 4 i)"
    using Cons.prems by (auto intro!: no_panic_row simp: algebra_simps)
  then show ?case
    using Cons by (auto intro!: no_panic_ebind no_panic_read_offset)
qed simp

lemma read_entries_wf:
  assumes "read_entries H bs ids crc st n i small es = Inr out"
    and "sorted_wrt (<) (map pie_id es)" "\<forall>e \<in> set es. id_ok H (pie_id e)"
  shows "sorted_wrt (<) (map pie_id out) \<and> (\<forall>e \<in> set out. id_ok H (pie_id e))
    \<and> length out = length es + length small"
  using assms
proof (induction small arbitrary: i es)
  case (Cons v small)
  obtain b oid c off where "from_bytes H b = Inr oid" "\<not> (es \<noteq> [] \<and> oid \<le> pie_id (last es))"
    and rec: "read_entries H bs ids crc st n (i + 1) small
       (es @ [\<lparr>pie_id = oid, pie_offset = off, pie_crc32 = from_be32 c\<rparr>]) = Inr out"
    using Cons.prems(1) unfolding read_entries.simps ebind_eq_Inr if_fail_eq_Inr by blast
  then have step: "id_ok H oid" "es = [] \<or> pie_id (last es) < oid"
    by (auto simp: from_bytes_Inr id_ok_def)
  have "\<forall>e \<in> set es. pie_id e < oid"
  proof
    fix e assume e: "e \<in> set es"
    then have "pie_id e \<le> pie_id (last es)"
      using Cons.prems(2) by (induction es rule: rev_induct) (auto simp: sorted_wrt_append)
    then show "pie_id e < oid"
      using step(2) e by fastforce
  qed
  then show ?case
    using Cons.IH [OF rec] Cons.prems step(1) by (simp add: sorted_wrt_append)
qed simp

lemma no_panic_check_fanout:
  "st + (b + k) * 4 \<le> length bs \<Longrightarrow> no_panic (check_fanout e bs st rest c b k)"
  by (induction k arbitrary: rest c b) (auto simp: Let_def intro!: no_panic_ebind no_panic_row)

lemma no_panic_decode_pack_index: "no_panic (decode_pack_index H bs)"
  unfolding decode_pack_index_def Let_def
  apply (intro no_panic_intros no_panic_ok_or no_panic_read_entries no_panic_check_fanout read_small_safe(1))
  apply (auto simp: slice_ok FANOUT_LEN_def ebind_eq_Inr dest: read_small_safe(2) [rotated])
  done

lemma decode_pack_index_wf:
  assumes "decode_pack_index H bs = Inr p"
  shows "index_wf p \<and> (\<forall>e \<in> set (entries p). id_ok H (pie_id e)) \<and> length (pack_checksum p) = raw_len H"
proof -
  obtain small a b c d es chk where "read_entries H bs a b c d 0 small [] = Inr es"
    and chk: "slice bs (length bs - raw_len H - raw_len H) (length bs - raw_len H) = (Inr chk :: bytes ores)"
    and len: "\<not> length bs < 8 + FANOUT_LEN + 2 * raw_len H"
    and p: "\<lparr>entries = es, pack_checksum = chk\<rparr> = p"
    using assms unfolding decode_pack_index_def Let_def ebind_eq_Inr if_fail_eq_Inr sum.inject by blast
  then have "sorted_wrt (<) (map pie_id es) \<and> (\<forall>e \<in> set es. id_ok H (pie_id e))"
    using read_entries_wf by (metis empty_iff list.set(1) list.simps(8) sorted_wrt.simps(1))
  moreover have "length chk = raw_len H"
    using chk len by (auto simp: slice_eq_Inr)
  ultimately show ?thesis
    using p by (auto simp: index_wf_def)
qed


section \<open>Properties\<close>

lemma sorted_entries:
  assumes "distinct (map pie_id es)"
  shows "sorted_wrt (<) (map pie_id (sort_key pie_id es))"
proof -
  have "distinct (map pie_id (sort_key pie_id es))"
    using assms by (metis distinct_map distinct_sort set_sort)
  then show ?thesis
    using strict_sorted_iff by fastforce
qed

lemma no_duplicate_ids: "adjacent_equal (map pie_id (sort_key pie_id es)) \<longleftrightarrow> \<not> distinct (map pie_id es)"
proof -
  have "distinct (map pie_id (sort_key pie_id es)) \<longleftrightarrow> distinct (map pie_id es)"
    by (simp add: distinct_map)
  then show ?thesis
    using adjacent_equal_sorted [of "map pie_id (sort_key pie_id es)"] by (simp add: strict_sorted_iff)
qed

lemma from_entries_Inr:
  "from_entries H es pc = Inr p \<longleftrightarrow>
     length pc = raw_len H \<and> distinct (map pie_id es) \<and> p = \<lparr>entries = sort_key pie_id es, pack_checksum = pc\<rparr>"
  by (auto simp: from_entries_def Let_def no_duplicate_ids)

lemma from_entries_wf: "from_entries H es pc = Inr p \<Longrightarrow> index_wf p"
  by (auto simp: from_entries_Inr index_wf_def sorted_entries)

text \<open>C30: \<open>encode_pack_index\<close> refuses exactly a checksum of the wrong length and duplicate
  ids; otherwise its output decodes to the entries sorted by id, large offsets (from \<open>2 ^ 31\<close>
  up) included, and to the checksum.\<close>

theorem pack_index_round_trip:
  assumes "hash_ok H" "fits_index H (length es)" "\<forall>e \<in> set es. id_ok H (pie_id e)"
  shows "if length pc = raw_len H \<and> distinct (map pie_id es)
     then \<exists>bytes. encode_pack_index H es pc = Inr bytes
            \<and> decode_pack_index H bytes = Inr \<lparr>entries = sort_key pie_id es, pack_checksum = pc\<rparr>
     else encode_pack_index H es pc = fail_with MalformedPackIndex"
proof (cases "length pc = raw_len H \<and> distinct (map pie_id es)")
  case True
  obtain small large where offs: "offset_tables (map pie_offset (sort_key pie_id es)) 0 = (small, large)"
    by fastforce
  have "encode_pack_index H es pc = Inr (idx_file H (sort_key pie_id es) small large pc
      @ digest H (idx_file H (sort_key pie_id es) small large pc))"
    using True offs by (simp add: encode_pack_index_def Let_def no_duplicate_ids idx_file_def)
  then show ?thesis
    using decode_idx_file [OF assms(1) _ _ _ sorted_entries offs] assms True by simp
next
  case False
  then show ?thesis
    by (auto simp: encode_pack_index_def Let_def no_duplicate_ids)
qed

theorem pack_index_round_trip_witness:
  "\<exists>bytes. encode_pack_index (sha1 (sum_digest 20))
       [\<lparr>pie_id = ObjectId (9 # replicate 19 0), pie_offset = 12, pie_crc32 = 7\<rparr>,
        \<lparr>pie_id = ObjectId (3 # replicate 19 0), pie_offset = 0x123456789, pie_crc32 = 8\<rparr>] (replicate 20 1) = Inr bytes
     \<and> decode_pack_index (sha1 (sum_digest 20)) bytes = Inr
       \<lparr>entries = [\<lparr>pie_id = ObjectId (3 # replicate 19 0), pie_offset = 0x123456789, pie_crc32 = 8\<rparr>,
          \<lparr>pie_id = ObjectId (9 # replicate 19 0), pie_offset = 12, pie_crc32 = 7\<rparr>], pack_checksum = replicate 20 1\<rparr>"
  using pack_index_round_trip [of "sha1 (sum_digest 20)"
      "[\<lparr>pie_id = ObjectId (9 # replicate 19 0), pie_offset = 12, pie_crc32 = 7\<rparr>,
        \<lparr>pie_id = ObjectId (3 # replicate 19 0), pie_offset = 0x123456789, pie_crc32 = 8\<rparr>]" "replicate 20 1"]
  by (simp add: fits_index_def sha1_def id_ok_def hash_ok_def sum_digest_def less_eq_object_id_def)

text \<open>C31: Decoding a pack index never panics, whatever the bytes. An index it accepts has
  strictly ascending ids of the right width, so its binary search is the map of its entries.\<close>

theorem decode_pack_index_sound:
  "no_panic (decode_pack_index H bs) \<and>
   (decode_pack_index H bs = Inr p \<longrightarrow>
      sorted_wrt (<) (map pie_id (entries p)) \<and> (\<forall>e \<in> set (entries p). id_ok H (pie_id e))
      \<and> length (pack_checksum p) = raw_len H
      \<and> lookup p i = map_of (map (\<lambda>e. (pie_id e, e)) (entries p)) i)"
  using no_panic_decode_pack_index [of H bs] decode_pack_index_wf [of H bs p] idx.find_map_of [of p i]
  by (auto simp: index_wf_def)

theorem decode_pack_index_sound_witness:
  "\<exists>bs. lookup \<lparr>entries = [\<lparr>pie_id = ObjectId (replicate 20 9), pie_offset = 12, pie_crc32 = 7\<rparr>],
          pack_checksum = replicate 20 1\<rparr> (ObjectId (replicate 20 9))
        = Some \<lparr>pie_id = ObjectId (replicate 20 9), pie_offset = 12, pie_crc32 = 7\<rparr>
     \<and> no_panic (decode_pack_index (sha1 (sum_digest 20)) bs)"
proof -
  let ?H = "sha1 (sum_digest 20)"
  let ?e = "\<lparr>pie_id = ObjectId (replicate 20 9), pie_offset = 12, pie_crc32 = 7\<rparr>"
  let ?c = "replicate 20 (1 :: byte)"
  have "decode_pack_index ?H (idx_file ?H [?e] [12] [] ?c @ digest ?H (idx_file ?H [?e] [12] [] ?c))
      = Inr \<lparr>entries = [?e], pack_checksum = ?c\<rparr>"
    by (rule decode_idx_file) (simp_all add: fits_index_def sha1_def id_ok_def hash_ok_def sum_digest_def LARGE_OFFSET_FLAG_def)
  then show ?thesis
    using decode_pack_index_sound [of ?H _ "\<lparr>entries = [?e], pack_checksum = ?c\<rparr>" "ObjectId (replicate 20 9)"]
    by fastforce
qed

text \<open>An index built from entries in any order finds exactly these entries by their id, and
  \<open>offset_of\<close> is the offset of the entry found.\<close>

lemma from_entries_lookup:
  assumes "from_entries H es pc = Inr p"
  shows "(lookup p i = Some e \<longleftrightarrow> e \<in> set es \<and> pie_id e = i)
     \<and> (offset_of p i = None \<longleftrightarrow> i \<notin> pie_id ` set es)
     \<and> (offset_of p i = Some off \<longleftrightarrow> (\<exists>e \<in> set es. pie_id e = i \<and> pie_offset e = off))
     \<and> idx_len p = length es \<and> (idx_is_empty p \<longleftrightarrow> es = [])"
proof -
  have es: "set (entries p) = set es" "idx_len p = length es" "idx_is_empty p \<longleftrightarrow> es = []"
    using assms by (auto simp: from_entries_Inr idx_len_def idx_is_empty_def simp flip: set_empty)
  then show ?thesis
    using idx.find_Some [OF from_entries_wf [OF assms], of i] idx.find_None [OF from_entries_wf [OF assms], of i]
    by (auto simp: offset_of_def)
qed

end
