(* ===== verification/Git_Midx.thy ===== *)
theory Git_Midx
  imports Git_Idx "HOL-Library.Product_Lexorder"
begin

text \<open>
  Multi-pack-index files, version 1, \<open>gitana-object/src/midx.rs\<close>, with the reverse index
  that orders objects for reachability bitmaps, \<open>revindex.rs\<close>. Lookup is an instance of the
  table interface of \<open>Git_Idx\<close>.
\<close>

section \<open>Constants and data\<close>

definition MIDX_MAGIC :: bytes where "MIDX_MAGIC = ascii ''MIDX''"
definition MIDX_VERSION :: byte where "MIDX_VERSION = 1"
definition CHUNK_PNAM :: bytes where "CHUNK_PNAM = ascii ''PNAM''"
definition CHUNK_OIDF :: bytes where "CHUNK_OIDF = ascii ''OIDF''"
definition CHUNK_OIDL :: bytes where "CHUNK_OIDL = ascii ''OIDL''"
definition CHUNK_OOFF :: bytes where "CHUNK_OOFF = ascii ''OOFF''"
definition CHUNK_LOFF :: bytes where "CHUNK_LOFF = ascii ''LOFF''"
definition CHUNK_RIDX :: bytes where "CHUNK_RIDX = ascii ''RIDX''"
definition MIDX_HEADER_LEN :: nat where "MIDX_HEADER_LEN = 12"
definition TABLE_ROW_LEN :: nat where "TABLE_ROW_LEN = 12"

definition hash_version :: "hash_alg \<Rightarrow> byte" where
  "hash_version H = (if raw_len H = 20 then 1 else if raw_len H = 32 then 2 else 0)"

record midx_entry =
  me_id :: object_id
  me_pack :: u32
  me_offset :: u64

text \<open>The cache of the inverted reverse index is recomputed by \<open>bitmap_position\<close>.\<close>

record multi_pack_index =
  pack_names :: "bytes list"
  midx_ids :: "object_id list"
  locations :: "(u32 \<times> u64) list"
  reverse_index :: "u32 list option"
  midx_checksum :: bytes

section \<open>The reverse index\<close>

definition pack_key :: "u32 \<Rightarrow> u32 \<times> u64 \<Rightarrow> bool \<times> u32 \<times> u64" where
  "pack_key preferred l = (case l of (pack, off) \<Rightarrow> (pack \<noteq> preferred, pack, off))"

definition pack_order :: "(u32 \<times> u64) list \<Rightarrow> u32 \<Rightarrow> u32 list" where
  "pack_order locs preferred =
     sort_key (\<lambda>i. pack_key preferred (locs ! unat i))
       (map word_of_nat [0..<unat (word_of_nat (length locs) :: u32)])"

section \<open>Lookup\<close>

definition midx_len :: "multi_pack_index \<Rightarrow> nat" where
  "midx_len m = length (midx_ids m)"

definition midx_is_empty :: "multi_pack_index \<Rightarrow> bool" where
  "midx_is_empty m \<longleftrightarrow> midx_ids m = []"

definition midx_lookup :: "multi_pack_index \<Rightarrow> object_id \<Rightarrow> (nat \<times> u64) option ores" where
  "midx_lookup m i =
     (case binary_search (midx_ids m) i of
        None \<Rightarrow> Inr None
      | Some k \<Rightarrow> ebind (index (locations m) k) (\<lambda>l. Inr (Some (unat (fst l), snd l))))"

definition object_at_bitmap_position :: "multi_pack_index \<Rightarrow> nat \<Rightarrow> object_id option" where
  "object_at_bitmap_position m pos =
     (case reverse_index m of
        None \<Rightarrow> None
      | Some r \<Rightarrow>
          if pos < length r then
            (if unat (r ! pos) < length (midx_ids m) then Some (midx_ids m ! unat (r ! pos)) else None)
          else None)"

definition object_position :: "multi_pack_index \<Rightarrow> object_id \<Rightarrow> nat option" where
  "object_position m i = binary_search (midx_ids m) i"

fun invert_order :: "u32 list \<Rightarrow> nat \<Rightarrow> u32 list \<Rightarrow> u32 list ores" where
  "invert_order [] pos forward = Inr forward"
| "invert_order (lexical # rest) pos forward =
     (if length forward \<le> unat lexical then Inl Panic
      else invert_order rest (pos + 1) (forward[unat lexical := word_of_nat pos]))"

definition forward_index :: "multi_pack_index \<Rightarrow> u32 list option ores" where
  "forward_index m =
     (case reverse_index m of
        None \<Rightarrow> Inr None
      | Some r \<Rightarrow> ebind (invert_order r 0 (replicate (length r) 0)) (\<lambda>f. Inr (Some f)))"

definition bitmap_position :: "multi_pack_index \<Rightarrow> object_id \<Rightarrow> u32 option ores" where
  "bitmap_position m i =
     ebind (forward_index m) (\<lambda>forward.
       Inr (case object_position m i of
              None \<Rightarrow> None
            | Some lexical \<Rightarrow>
                (case forward of
                   None \<Rightarrow> None
                 | Some f \<Rightarrow> if lexical < length f then Some (f ! lexical) else None)))"

section \<open>Encoding\<close>

definition midx_key :: "u32 option \<Rightarrow> midx_entry \<Rightarrow> object_id \<times> bool \<times> u32" where
  "midx_key preferred e = (me_id e, preferred \<noteq> Some (me_pack e), me_pack e)"

text \<open>\<open>dedup_by(|a, b| a.id == b.id)\<close>: of a run of equal keys the first is kept.\<close>

fun dedup_by :: "('a \<Rightarrow> 'b) \<Rightarrow> 'a list \<Rightarrow> 'a list" where
  "dedup_by f [] = []"
| "dedup_by f [x] = [x]"
| "dedup_by f (x # y # ys) = (if f y = f x then dedup_by f (x # ys) else x # dedup_by f (y # ys))"

definition sorted_midx_entries :: "u32 option \<Rightarrow> midx_entry list \<Rightarrow> midx_entry list" where
  "sorted_midx_entries preferred es = dedup_by me_id (sort_key (midx_key preferred) es)"

definition pad4 :: "nat \<Rightarrow> nat" where
  "pad4 n = (4 - n mod 4) mod 4"

definition pnam_chunk :: "bytes list \<Rightarrow> bytes" where
  "pnam_chunk names =
     (let pnam = concat (map (\<lambda>n. n @ [0]) names) in pnam @ replicate (pad4 (length pnam)) 0)"

fun offset_chunks :: "bool \<Rightarrow> midx_entry list \<Rightarrow> nat \<Rightarrow> bytes \<times> bytes" where
  "offset_chunks large_needed [] loff_len = ([], [])"
| "offset_chunks large_needed (e # es) loff_len =
     (if large_needed \<and> ucast LARGE_OFFSET_FLAG \<le> me_offset e then
        (case offset_chunks large_needed es (loff_len + 8) of (ooff, loff) \<Rightarrow>
          (to_be32 (me_pack e) @ to_be32 (LARGE_OFFSET_FLAG OR word_of_nat (loff_len div 8)) @ ooff,
           to_be64 (me_offset e) @ loff))
      else
        (case offset_chunks large_needed es loff_len of (ooff, loff) \<Rightarrow>
          (to_be32 (me_pack e) @ to_be32 (ucast (me_offset e)) @ ooff, loff)))"

definition midx_chunks :: "bytes list \<Rightarrow> midx_entry list \<Rightarrow> u32 option \<Rightarrow> (bytes \<times> bytes) list" where
  "midx_chunks names es preferred =
     (let large_needed = list_ex (\<lambda>e. ucast (0xFFFFFFFF :: u32) < me_offset e) es;
          (ooff, loff) = offset_chunks large_needed es 0;
          chunks = [(CHUNK_PNAM, pnam_chunk names),
                    (CHUNK_OIDF, concat (map to_be32 (fanout (map me_id es)))),
                    (CHUNK_OIDL, concat (map (\<lambda>e. id_bytes (me_id e)) es)),
                    (CHUNK_OOFF, ooff)];
          chunks = (if loff \<noteq> [] then chunks @ [(CHUNK_LOFF, loff)] else chunks)
      in case preferred of
           None \<Rightarrow> chunks
         | Some p \<Rightarrow>
             chunks @ [(CHUNK_RIDX, concat (map to_be32
               (pack_order (map (\<lambda>e. (me_pack e, me_offset e)) es) p)))])"

fun chunk_table :: "u64 \<Rightarrow> (bytes \<times> bytes) list \<Rightarrow> bytes" where
  "chunk_table off [] = [0, 0, 0, 0] @ to_be64 off"
| "chunk_table off ((cid, d) # cs) = cid @ to_be64 off @ chunk_table (off + word_of_nat (length d)) cs"

definition midx_body :: "hash_alg \<Rightarrow> nat \<Rightarrow> (bytes \<times> bytes) list \<Rightarrow> bytes" where
  "midx_body H pack_count chunks =
     MIDX_MAGIC @ [MIDX_VERSION, hash_version H, word_of_nat (length chunks), 0]
       @ to_be32 (word_of_nat pack_count)
       @ chunk_table (word_of_nat (MIDX_HEADER_LEN + (length chunks + 1) * TABLE_ROW_LEN)) chunks
       @ concat (map snd chunks)"

definition encode_midx :: "hash_alg \<Rightarrow> bytes list \<Rightarrow> midx_entry list \<Rightarrow> u32 option \<Rightarrow> bytes ores" where
  "encode_midx H names es preferred =
     (if names = [] then fail_with MalformedMultiPackIndex
      else if list_ex (\<lambda>(a, b). b \<le> a) (windows2 names) then fail_with MalformedMultiPackIndex
      else if (case preferred of None \<Rightarrow> False | Some p \<Rightarrow> length names \<le> unat p) then
        fail_with MalformedMultiPackIndex
      else
        let sorted = sorted_midx_entries preferred es in
        if list_ex (\<lambda>e. length names \<le> unat (me_pack e)) sorted then fail_with MalformedMultiPackIndex
        else
          let out = midx_body H (length names) (midx_chunks names sorted preferred)
          in Inr (out @ digest H out))"

definition encode_multi_pack_index :: "hash_alg \<Rightarrow> bytes list \<Rightarrow> midx_entry list \<Rightarrow> bytes ores" where
  "encode_multi_pack_index H names es = encode_midx H names es None"

definition encode_multi_pack_index_with_reverse_index ::
  "hash_alg \<Rightarrow> bytes list \<Rightarrow> midx_entry list \<Rightarrow> u32 \<Rightarrow> bytes ores" where
  "encode_multi_pack_index_with_reverse_index H names es preferred = encode_midx H names es (Some preferred)"

section \<open>Decoding\<close>

fun read_rows :: "bytes \<Rightarrow> nat \<Rightarrow> nat \<Rightarrow> (bytes \<times> nat) list ores" where
  "read_rows bs i 0 = Inr []"
| "read_rows bs i (Suc k) =
     (let o1 = MIDX_HEADER_LEN + i * TABLE_ROW_LEN in
      ebind (slice bs o1 (o1 + 4)) (\<lambda>cid.
      ebind (slice bs (o1 + 4) (o1 + 12)) (\<lambda>off.
      ebind (read_rows bs (i + 1) k) (\<lambda>rows. Inr ((cid, unat (from_be64 off)) # rows)))))"

definition find_chunk :: "(bytes \<times> nat) list \<Rightarrow> bytes \<Rightarrow> (nat \<times> nat) option" where
  "find_chunk rows want =
     map_option (\<lambda>(a, b). (snd a, snd b)) (find (\<lambda>(a, b). fst a = want) (windows2 rows))"

fun read_names :: "bytes list \<Rightarrow> bytes list ores" where
  "read_names [] = Inr []"
| "read_names (part # parts) =
     (if part = [] then read_names parts
      else if \<not> utf8_valid part then fail_with MalformedMultiPackIndex
      else ebind (read_names parts) (\<lambda>names. Inr (part # names)))"

definition midx_offset :: "bytes option \<Rightarrow> u32 \<Rightarrow> u64 ores" where
  "midx_offset loff_bytes raw_off =
     (case loff_bytes of
        None \<Rightarrow> Inr (ucast raw_off)
      | Some table \<Rightarrow>
          if \<not> flagged raw_off then Inr (ucast raw_off)
          else
            let i = unat (raw_off AND NOT LARGE_OFFSET_FLAG) in
            if length table < (i + 1) * 8 then fail_with MalformedMultiPackIndex
            else ebind (slice table (i * 8) (i * 8 + 8)) (\<lambda>b. Inr (from_be64 b)))"

fun read_objects ::
  "hash_alg \<Rightarrow> bytes \<Rightarrow> nat \<Rightarrow> nat \<Rightarrow> nat \<Rightarrow> bytes option \<Rightarrow> nat \<Rightarrow> nat
     \<Rightarrow> object_id list \<Rightarrow> (u32 \<times> u64) list \<Rightarrow> (object_id list \<times> (u32 \<times> u64) list) ores" where
  "read_objects H bs oidl_s ooff_s pack_count loff_bytes i 0 ids locs = Inr (ids, locs)"
| "read_objects H bs oidl_s ooff_s pack_count loff_bytes i (Suc k) ids locs =
     ebind (row bs oidl_s (raw_len H) i) (\<lambda>b.
     ebind (from_bytes H b) (\<lambda>oid.
       if ids \<noteq> [] \<and> oid \<le> last ids then fail_with MalformedMultiPackIndex
       else
         let base = ooff_s + i * 8 in
         ebind (slice bs base (base + 4)) (\<lambda>p.
         if pack_count \<le> unat (from_be32 p) then fail_with MalformedMultiPackIndex
         else
           ebind (slice bs (base + 4) (base + 8)) (\<lambda>r.
           ebind (midx_offset loff_bytes (from_be32 r)) (\<lambda>off.
             read_objects H bs oidl_s ooff_s pack_count loff_bytes (i + 1) k
               (ids @ [oid]) (locs @ [(from_be32 p, off)]))))))"

fun read_order :: "bytes \<Rightarrow> nat \<Rightarrow> nat \<Rightarrow> nat \<Rightarrow> bool list \<Rightarrow> u32 list \<Rightarrow> u32 list ores" where
  "read_order bs s i 0 seen order = Inr order"
| "read_order bs s i (Suc k) seen order =
     ebind (row bs s 4 i) (\<lambda>b.
       let lexical = from_be32 b in
       if length seen \<le> unat lexical then fail_with MalformedMultiPackIndex
       else if seen ! unat lexical then fail_with MalformedMultiPackIndex
       else read_order bs s (i + 1) k (seen[unat lexical := True]) (order @ [lexical]))"

definition read_reverse_index :: "bytes \<Rightarrow> nat \<Rightarrow> (nat \<times> nat) option \<Rightarrow> u32 list option ores" where
  "read_reverse_index bs n ridx =
     (case ridx of
        None \<Rightarrow> Inr None
      | Some (s, e) \<Rightarrow>
          if e - s \<noteq> n * 4 then fail_with MalformedMultiPackIndex
          else ebind (read_order bs s 0 n (replicate n False) []) (\<lambda>order. Inr (Some order)))"

text \<open>The part of the decoder after the chunk table: the five chunks and the cross checks.\<close>

definition decode_chunks :: "hash_alg \<Rightarrow> bytes \<Rightarrow> nat \<Rightarrow> nat \<Rightarrow> (bytes \<times> nat) list \<Rightarrow> multi_pack_index ores" where
  "decode_chunks H bs pack_count body_end rows =
     ebind (ok_or (find_chunk rows CHUNK_PNAM) MalformedMultiPackIndex) (\<lambda>(pnam_s, pnam_e).
     ebind (ok_or (find_chunk rows CHUNK_OIDF) MalformedMultiPackIndex) (\<lambda>(oidf_s, oidf_e).
     ebind (ok_or (find_chunk rows CHUNK_OIDL) MalformedMultiPackIndex) (\<lambda>(oidl_s, oidl_e).
     ebind (ok_or (find_chunk rows CHUNK_OOFF) MalformedMultiPackIndex) (\<lambda>(ooff_s, ooff_e).
     ebind (slice bs pnam_s pnam_e) (\<lambda>pnam.
     ebind (read_names (split_on 0 pnam)) (\<lambda>names.
     if length names \<noteq> pack_count \<or> list_ex (\<lambda>(a, b). b \<le> a) (windows2 names) then
       fail_with MalformedMultiPackIndex
     else if oidf_e - oidf_s \<noteq> FANOUT_LEN then fail_with MalformedMultiPackIndex
     else
       ebind (row bs oidf_s 4 255) (\<lambda>total.
       let n = unat (from_be32 total) in
       if oidl_e - oidl_s \<noteq> n * raw_len H \<or> ooff_e - ooff_s \<noteq> n * 8 then fail_with MalformedMultiPackIndex
       else
         ebind (case find_chunk rows CHUNK_LOFF of
                  None \<Rightarrow> Inr None
                | Some (s, e) \<Rightarrow> ebind (slice bs s e) (\<lambda>t. Inr (Some t))) (\<lambda>loff_bytes.
         ebind (read_objects H bs oidl_s ooff_s pack_count loff_bytes 0 n [] []) (\<lambda>(ids, locs).
         ebind (check_fanout MalformedMultiPackIndex bs oidf_s ids 0 0 256) (\<lambda>_.
         ebind (read_reverse_index bs n (find_chunk rows CHUNK_RIDX)) (\<lambda>rev_index.
         ebind (slice bs body_end (length bs)) (\<lambda>checksum.
           Inr \<lparr>pack_names = names, midx_ids = ids, locations = locs, reverse_index = rev_index,
              midx_checksum = checksum\<rparr>))))))))))))"

definition decode_multi_pack_index :: "hash_alg \<Rightarrow> bytes \<Rightarrow> multi_pack_index ores" where
  "decode_multi_pack_index H bs =
     (let raw = raw_len H in
      if length bs < MIDX_HEADER_LEN + raw then fail_with MalformedMultiPackIndex
      else
        ebind (slice bs 0 4) (\<lambda>magic.
        ebind (slice bs 4 8) (\<lambda>v.
        if magic \<noteq> MIDX_MAGIC \<or> v ! 0 \<noteq> MIDX_VERSION \<or> v ! 1 \<noteq> hash_version H \<or> v ! 3 \<noteq> 0 then
          fail_with MalformedMultiPackIndex
        else
          let chunk_count = unat (v ! 2) in
          ebind (slice bs 8 12) (\<lambda>packs.
          let pack_count = unat (from_be32 packs); body_end = length bs - raw in
          if digest H (take body_end bs) \<noteq> drop body_end bs then fail_with MalformedMultiPackIndex
          else
            let table_end = MIDX_HEADER_LEN + (chunk_count + 1) * TABLE_ROW_LEN in
            if body_end < table_end then fail_with MalformedMultiPackIndex
            else
              ebind (read_rows bs 0 (chunk_count + 1)) (\<lambda>rows.
              if snd (rows ! 0) \<noteq> table_end \<or> snd (rows ! chunk_count) \<noteq> body_end then
                fail_with MalformedMultiPackIndex
              else if list_ex (\<lambda>(a, b). snd b < snd a) (windows2 rows) then
                fail_with MalformedMultiPackIndex
              else decode_chunks H bs pack_count body_end rows)))))"


section \<open>The chunk table\<close>

fun chunk_rows :: "nat \<Rightarrow> (bytes \<times> bytes) list \<Rightarrow> (bytes \<times> nat) list" where
  "chunk_rows off [] = [([0, 0, 0, 0], off)]"
| "chunk_rows off ((cid, d) # cs) = (cid, off) # chunk_rows (off + length d) cs"

abbreviation chunk_data :: "(bytes \<times> bytes) list \<Rightarrow> bytes" where
  "chunk_data cs \<equiv> concat (map snd cs)"

lemma length_chunk_rows [simp]: "length (chunk_rows off cs) = length cs + 1"
  by (induction off cs rule: chunk_rows.induct) auto

lemma chunk_rows_hd: "\<exists>c rest. chunk_rows off cs = (c, off) # rest"
  by (cases "(off, cs)" rule: chunk_rows.cases) auto

lemma chunk_rows_last: "snd (chunk_rows off cs ! length cs) = off + length (chunk_data cs)"
  by (induction off cs rule: chunk_rows.induct) auto

lemma chunk_rows_mono: "\<not> list_ex (\<lambda>(a, b). snd b < snd a) (windows2 (chunk_rows off cs))"
proof (induction off cs rule: chunk_rows.induct)
  case (2 off cid d cs)
  obtain c rest where "chunk_rows (off + length d) cs = (c, off + length d) # rest"
    using chunk_rows_hd by blast
  then show ?case
    using 2 by simp
qed simp

lemma length_chunk_table:
  "\<forall>c \<in> set cs. length (fst c) = 4 \<Longrightarrow> length (chunk_table off cs) = (length cs + 1) * TABLE_ROW_LEN"
  by (induction off cs rule: chunk_table.induct) (auto simp: TABLE_ROW_LEN_def)

lemma read_rows_table:
  assumes "\<forall>c \<in> set cs. length (fst c) = 4" "off + length (chunk_data cs) < 2 ^ 64"
    and "length p = MIDX_HEADER_LEN + i * TABLE_ROW_LEN"
  shows "read_rows (p @ chunk_table (word_of_nat off) cs @ s) i (length cs + 1) = Inr (chunk_rows off cs)"
  using assms
proof (induction cs arbitrary: off p i)
  case Nil
  have "slice (p @ [0, 0, 0, 0] @ to_be64 (word_of_nat off) @ s) (length p) (length p + 4)
      = (Inr [0, 0, 0, 0] :: bytes ores)"
    "slice ((p @ [0, 0, 0, 0]) @ to_be64 (word_of_nat off) @ s) (length p + 4) (length p + 12)
      = (Inr (to_be64 (word_of_nat off)) :: bytes ores)"
    by (intro slice_append; simp)+
  then show ?case
    using Nil by (simp add: Let_def unat_of_nat)
next
  case (Cons c cs)
  obtain cid d where c: "c = (cid, d)"
    by (cases c)
  let ?t = "chunk_table (word_of_nat off + word_of_nat (length d)) cs"
  have len: "length cid = 4"
    using Cons.prems(1) c by simp
  have "slice (p @ cid @ to_be64 (word_of_nat off) @ ?t @ s) (length p) (length p + 4) = (Inr cid :: bytes ores)"
    by (intro slice_append) (simp_all add: len)
  moreover have "slice ((p @ cid) @ to_be64 (word_of_nat off) @ ?t @ s) (length p + 4) (length p + 12)
      = (Inr (to_be64 (word_of_nat off)) :: bytes ores)"
    by (intro slice_append) (simp_all add: len)
  moreover have "read_rows ((p @ cid @ to_be64 (word_of_nat off)) @ chunk_table (word_of_nat (off + length d)) cs @ s)
      (i + 1) (length cs + 1) = Inr (chunk_rows (off + length d) cs)"
    using Cons.prems c len by (intro Cons.IH) (simp_all add: TABLE_ROW_LEN_def)
  ultimately show ?case
    using Cons.prems c by (simp add: Let_def unat_of_nat)
qed

lemma find_chunk_Cons:
  "find_chunk ((c, a) # (c', b) # rows) want = (if c = want then Some (a, b) else find_chunk ((c', b) # rows) want)"
  by (simp add: find_chunk_def)

lemma find_chunk_None: "want \<notin> fst ` set cs \<Longrightarrow> find_chunk (chunk_rows off cs) want = None"
proof (induction off cs rule: chunk_rows.induct)
  case (1 off)
  then show ?case
    by (simp add: find_chunk_def)
next
  case (2 off cid d cs)
  obtain c rest where "chunk_rows (off + length d) cs = (c, off + length d) # rest"
    using chunk_rows_hd by blast
  then show ?case
    using 2 by (auto simp: find_chunk_Cons)
qed

lemma find_chunk_Some:
  assumes "map_of cs want = Some d" "length p = off"
  obtains q r where "find_chunk (chunk_rows off cs) want = Some (length q, length q + length d)"
    "p @ chunk_data cs @ s = q @ d @ r"
  using assms
proof (induction off cs arbitrary: p thesis rule: chunk_rows.induct)
  case (2 off cid d' cs)
  obtain c rest where rows: "chunk_rows (off + length d') cs = (c, off + length d') # rest"
    using chunk_rows_hd by blast
  show ?case
  proof (cases "cid = want")
    case True
    then have "d = d'"
      using "2.prems"(2) by simp
    then show ?thesis
      using True "2.prems"(3)
      by (intro "2.prems"(1) [of p "chunk_data cs @ s"]) (simp_all add: rows find_chunk_Cons)
  next
    case False
    then have "map_of cs want = Some d" "length (p @ d') = off + length d'"
      using "2.prems"(2,3) by simp_all
    then obtain q r where "find_chunk (chunk_rows (off + length d') cs) want = Some (length q, length q + length d)"
      "(p @ d') @ chunk_data cs @ s = q @ d @ r"
      using "2.IH" by blast
    then show ?thesis
      using False by (intro "2.prems"(1) [of q r]) (simp_all add: rows find_chunk_Cons)
  qed
qed simp

section \<open>The pack order\<close>

lemma pack_order_range:
  assumes "length locs < 2 ^ 32"
  shows "distinct (pack_order locs pref)" "length (pack_order locs pref) = length locs"
    "\<forall>x \<in> set (pack_order locs pref). unat x < length locs"
    "unat ` set (pack_order locs pref) = {..<length locs}"
proof -
  let ?n = "length locs"
  have n: "unat (word_of_nat ?n :: u32) = ?n"
    using assms by (simp add: unat_of_nat)
  have u: "unat (word_of_nat i :: u32) = i" if "i < ?n" for i
    using that assms by (simp add: unat_of_nat)
  have "inj_on (word_of_nat :: nat \<Rightarrow> u32) {0..<?n}"
    by (rule inj_on_inverseI [of _ unat]) (use u in simp)
  then show "distinct (pack_order locs pref)"
    by (simp add: pack_order_def n distinct_map)
  show "length (pack_order locs pref) = ?n"
    by (simp add: pack_order_def n)
  show "\<forall>x \<in> set (pack_order locs pref). unat x < ?n"
    using u by (auto simp: pack_order_def n)
  show "unat ` set (pack_order locs pref) = {..<?n}"
    using u by (auto simp: pack_order_def n image_image lessThan_atLeast0)
qed

lemma pack_order_sorted:
  "sorted (map (\<lambda>i. pack_key pref (locs ! unat i)) (pack_order locs pref))"
  by (simp add: pack_order_def)

lemma read_order_table:
  assumes "\<forall>j. j < length order \<longrightarrow> row bs s 4 j = Inr (to_be32 (order ! j))"
    and "distinct order" "\<forall>x \<in> set order. unat x < n" "length seen = n"
    and "length order = i + k"
    and "\<forall>x :: u32. unat x < n \<longrightarrow> seen ! unat x = (x \<in> set (take i order))"
  shows "read_order bs s i k seen (take i order) = Inr order"
  using assms(4-)
proof (induction k arbitrary: i seen)
  case (Suc k)
  let ?x = "order ! i"
  have i: "i < length order"
    using Suc.prems(2) by simp
  have x: "unat ?x < n" "?x \<notin> set (take i order)"
    using assms(2) nth_mem [OF i] assms(3) i by (blast, auto simp: in_set_conv_nth nth_eq_iff_index_eq)
  have tk: "take i order @ [?x] = take (i + 1) order"
    using i by (simp add: take_Suc_conv_app_nth)
  have "read_order bs s (i + 1) k (seen[unat ?x := True]) (take (i + 1) order) = Inr order"
  proof (rule Suc.IH)
    show "\<forall>x :: u32. unat x < n \<longrightarrow> seen[unat ?x := True] ! unat x = (x \<in> set (take (i + 1) order))"
      using Suc.prems(1,3) x(1) i
      by (auto simp: take_Suc_conv_app_nth nth_list_update word_unat_eq_iff)
  qed (use Suc.prems in simp_all)
  then show ?case
    using Suc.prems x assms(1) i by (simp add: Let_def tk)
qed simp


section \<open>Offsets\<close>

definition midx_placed :: "bool \<Rightarrow> midx_entry list \<Rightarrow> u32 list \<times> u64 list" where
  "midx_placed large_needed es =
     (if large_needed then offset_tables (map me_offset es) 0 else (map (\<lambda>e. ucast (me_offset e)) es, []))"

abbreviation ooff_row :: "midx_entry \<times> u32 \<Rightarrow> bytes" where
  "ooff_row x \<equiv> to_be32 (me_pack (fst x)) @ to_be32 (snd x)"

lemma offset_chunks_large:
  "offset_tables (map me_offset es) k = (vs, large) \<Longrightarrow>
   offset_chunks True es (8 * k) = (concat (map ooff_row (zip es vs)), concat (map to_be64 large))"
proof (induction es arbitrary: k vs large)
  case (Cons e es)
  have eight: "8 * k + 8 = 8 * (k + 1)"
    by simp
  show ?case
    using Cons.prems Cons.IH [of k] Cons.IH [of "k + 1"] unfolding eight
    by (auto simp: eight not_le not_less split: prod.splits if_splits)
qed simp

lemma offset_chunks_small:
  "offset_chunks False es k = (concat (map ooff_row (zip es (map (\<lambda>e. ucast (me_offset e)) es))), [])"
  by (induction es) auto

lemma offset_chunks_placed:
  assumes "midx_placed lg es = (vs, large)"
  shows "offset_chunks lg es 0 = (concat (map ooff_row (zip es vs)), concat (map to_be64 large))"
  using assms offset_chunks_large [of es 0 vs large] offset_chunks_small [of es 0]
  by (cases lg) (auto simp: midx_placed_def)

lemma length_placed: "midx_placed lg es = (vs, large) \<Longrightarrow> length vs = length es \<and> length large \<le> length es"
  using length_offset_tables [of "map me_offset es" 0 vs large] length_offset_large [of "map me_offset es" 0 vs large]
  by (auto simp: midx_placed_def split: if_splits)

lemma offset_tables_large:
  "offset_tables offs k = (vs, large) \<Longrightarrow> \<exists>x \<in> set offs. ucast LARGE_OFFSET_FLAG \<le> x \<Longrightarrow> large \<noteq> []"
  by (induction offs arbitrary: k vs large) (auto split: if_splits prod.splits simp: not_le not_less)

lemma midx_offset_placed:
  assumes "midx_placed (\<exists>e \<in> set es. ucast (0xFFFFFFFF :: u32) < me_offset e) es = (vs, large)"
    and "length es \<le> 2 ^ 31" "i < length es"
  shows "midx_offset (if large = [] then None else Some (concat (map to_be64 large))) (vs ! i)
    = Inr (me_offset (es ! i))"
proof (cases "\<exists>e \<in> set es. ucast (0xFFFFFFFF :: u32) < me_offset e")
  case True
  then have t: "offset_tables (map me_offset es) 0 = (vs, large)"
    using assms(1) by (auto simp: midx_placed_def)
  obtain e where e: "e \<in> set es" "ucast (0xFFFFFFFF :: u32) < me_offset e"
    using True by blast
  have "ucast LARGE_OFFSET_FLAG \<le> (ucast (0xFFFFFFFF :: u32) :: u64)"
    by (simp add: LARGE_OFFSET_FLAG_def)
  also have "\<dots> \<le> me_offset e"
    using e(2) by (rule less_imp_le)
  finally have ne: "large \<noteq> []"
    using e(1) by (intro offset_tables_large [OF t]) auto
  have i: "i < length vs"
    using assms(3) length_placed [OF assms(1)] by simp
  have dec: "map (decode_off large) vs = map me_offset es"
    "\<forall>v \<in> set vs. flagged v \<longrightarrow> unat (v AND NOT LARGE_OFFSET_FLAG) < length large"
    using offset_tables_decode [OF t, of "[]"] assms(2) by simp_all
  have off: "decode_off large (vs ! i) = me_offset (es ! i)"
    using dec(1) i assms(3) by (metis length_map nth_map)
  show ?thesis
  proof (cases "flagged (vs ! i)")
    case fl: True
    define j where "j = unat (vs ! i AND NOT LARGE_OFFSET_FLAG)"
    have j: "j < length large"
      using dec(2) i fl by (auto simp: j_def)
    have "row ([] @ concat (map to_be64 large) @ []) (length ([] :: bytes)) 8 j = Inr (to_be64 (large ! j))"
      by (rule row_concat) (use j in simp_all)
    then have "slice (concat (map to_be64 large)) (j * 8) (j * 8 + 8) = (Inr (to_be64 (large ! j)) :: bytes ores)"
      by (simp add: row_def add.commute)
    then show ?thesis
      using fl ne j off by (simp add: midx_offset_def Let_def j_def [symmetric] decode_off_def)
  next
    case False
    then show ?thesis
      using ne off by (simp add: midx_offset_def decode_off_def)
  qed
next
  case False
  then have "vs = map (\<lambda>e. ucast (me_offset e)) es" "large = []"
    using assms(1) by (auto simp: midx_placed_def)
  moreover have "me_offset (es ! i) \<le> ucast (0xFFFFFFFF :: u32)"
    using False assms(3) by (auto simp: not_less)
  then have "unat (me_offset (es ! i)) < 2 ^ 32"
    by (simp add: word_le_nat_alt)
  then have "ucast (ucast (me_offset (es ! i)) :: u32) = me_offset (es ! i)"
    by (simp add: word_unat_eq_iff unsigned_ucast_eq unsigned_take_bit_eq take_bit_nat_eq_self)
  ultimately show ?thesis
    using assms(3) by (simp add: midx_offset_def)
qed

section \<open>Sorted, deduplicated entries\<close>

lemma dedup_by_subset: "set (dedup_by f xs) \<subseteq> set xs"
  by (induction f xs rule: dedup_by.induct) auto

lemma dedup_by_hd: "xs \<noteq> [] \<Longrightarrow> \<exists>ys. dedup_by f xs = hd xs # ys"
  by (induction f xs rule: dedup_by.induct) auto

lemma dedup_by_strict:
  assumes "sorted (map f xs)"
  shows "sorted_wrt (<) (map f (dedup_by f xs))"
  using assms
proof (induction f xs rule: dedup_by.induct)
  case (3 f x y ys)
  show ?case
  proof (cases "f y = f x")
    case False
    then have "f x < f y"
      using 3(3) by (simp add: order_less_le)
    moreover have "\<forall>z \<in> set (dedup_by f (y # ys)). f y \<le> f z"
      using dedup_by_subset [of f "y # ys"] 3(3) by fastforce
    ultimately show ?thesis
      using 3 False by (auto intro: less_le_trans)
  qed (use 3 in simp)
qed simp_all

lemma dedup_by_least:
  assumes "sorted (map k xs)" "\<And>a b. k a \<le> k b \<Longrightarrow> f a \<le> (f b :: 'c::linorder)" "x \<in> set xs"
  shows "\<exists>y \<in> set (dedup_by f xs). f y = f x \<and> k y \<le> (k x :: 'd::linorder)"
  using assms
proof (induction f xs arbitrary: x rule: dedup_by.induct)
  case (3 f a b ys)
  show ?case
  proof (cases "f b = f a")
    case True
    show ?thesis
    proof (cases "x = b")
      case False
      then have "x \<in> set (a # ys)"
        using "3.prems"(3) by auto
      then show ?thesis
        using "3.IH"(1) [OF True _ "3.prems"(2), of x] "3.prems"(1) True by auto
    next
      case xb: True
      obtain y where "y \<in> set (dedup_by f (a # ys))" "f y = f a" "k y \<le> k a"
        using "3.IH"(1) [OF True _ "3.prems"(2), of a] "3.prems"(1) by auto
      then show ?thesis
        using True xb "3.prems"(1) by (auto intro: order_trans)
    qed
  next
    case False
    then show ?thesis
      using "3.IH"(2) [OF False _ "3.prems"(2), of x] "3.prems"(1,3) by auto
  qed
qed auto

lemma midx_key_id: "midx_key p a \<le> midx_key p b \<Longrightarrow> me_id a \<le> me_id b"
  by (auto simp: midx_key_def less_eq_prod_def)

lemma sorted_midx_entries_strict: "sorted_wrt (<) (map me_id (sorted_midx_entries p es))"
proof -
  have "sorted (map me_id (sort_key (midx_key p) es))"
    using sorted_sort_key [of "midx_key p" es] midx_key_id
    by (auto simp: sorted_map elim: sorted_wrt_mono_rel [rotated])
  then show ?thesis
    unfolding sorted_midx_entries_def by (rule dedup_by_strict)
qed

lemma sorted_midx_entries_subset: "set (sorted_midx_entries p es) \<subseteq> set es"
  using dedup_by_subset [of me_id "sort_key (midx_key p) es"] by (simp add: sorted_midx_entries_def)

lemma sorted_midx_entries_least:
  "x \<in> set es \<Longrightarrow> \<exists>y \<in> set (sorted_midx_entries p es). me_id y = me_id x \<and> midx_key p y \<le> midx_key p x"
  unfolding sorted_midx_entries_def by (rule dedup_by_least) (auto dest: midx_key_id)

lemma length_sorted_midx_entries: "length (sorted_midx_entries p es) \<le> length es"
proof -
  have "length (dedup_by f xs) \<le> length xs" for f :: "midx_entry \<Rightarrow> object_id" and xs
    by (induction f xs rule: dedup_by.induct) auto
  then show ?thesis
    by (metis length_sort sorted_midx_entries_def)
qed


section \<open>Decoding an encoded file\<close>

definition names_ok :: "bytes list \<Rightarrow> bool" where
  "names_ok names \<longleftrightarrow> (\<forall>n \<in> set names. n \<noteq> [] \<and> utf8_valid n \<and> 0 \<notin> set n)"

lemma split_on_zeros: "split_on 0 (replicate k (0 :: byte)) = [] # replicate k []"
  by (induction k) auto

lemma split_on_names:
  "\<forall>n \<in> set names. (0 :: byte) \<notin> set n \<Longrightarrow>
   split_on 0 (concat (map (\<lambda>n. n @ [0]) names) @ replicate k 0) = names @ [] # replicate k []"
  by (induction names) (simp_all add: split_on_append split_on_zeros)

lemma read_names_padded: "names_ok names \<Longrightarrow> read_names (names @ replicate k []) = Inr names"
proof (induction names)
  case Nil
  show ?case
    by (induction k) auto
qed (auto simp: names_ok_def)

lemma read_names_pnam: "names_ok names \<Longrightarrow> read_names (split_on 0 (pnam_chunk names)) = Inr names"
  using split_on_names [of names] read_names_padded [of names "Suc k" for k]
  by (simp add: pnam_chunk_def Let_def names_ok_def)

lemma slice_halves:
  assumes "slice bs a (a + (length x + length y)) = (Inr (x @ y) :: ('e, 'a list) res)"
  shows "slice bs a (a + length x) = (Inr x :: ('e, 'a list) res)"
    "slice bs (a + length x) (a + (length x + length y)) = (Inr y :: ('e, 'a list) res)"
proof -
  have l: "a + (length x + length y) \<le> length bs" and e: "take (length x + length y) (drop a bs) = x @ y"
    using assms by (auto simp: slice_eq_Inr)
  have "take (length x) (take (length x + length y) (drop a bs)) = x"
    "drop (length x) (take (length x + length y) (drop a bs)) = y"
    unfolding e by simp_all
  then show "slice bs a (a + length x) = (Inr x :: ('e, 'a list) res)"
    "slice bs (a + length x) (a + (length x + length y)) = (Inr y :: ('e, 'a list) res)"
    using l by (auto simp: slice_ok drop_take add.commute)
qed

lemma read_objects_table:
  assumes "\<forall>j < length es. row bs oidl (raw_len H) j = Inr (id_bytes (me_id (es ! j)))"
    and "\<forall>j < length es. row bs ooff 8 j = Inr (to_be32 (me_pack (es ! j)) @ to_be32 (vs ! j))"
    and "\<forall>j < length es. midx_offset loff (vs ! j) = Inr (me_offset (es ! j))"
    and "\<forall>e \<in> set es. id_ok H (me_id e) \<and> unat (me_pack e) < pack_count"
    and "sorted_wrt (<) (map me_id es)" "length es = i + k"
  defines "locs \<equiv> map (\<lambda>e. (me_pack e, me_offset e)) es"
  shows "read_objects H bs oidl ooff pack_count loff i k (take i (map me_id es)) (take i locs) = Inr (map me_id es, locs)"
  using assms(6)
proof (induction k arbitrary: i)
  case (Suc k)
  let ?e = "es ! i"
  have i: "i < length es"
    using Suc.prems by simp
  have "(slice bs (ooff + i * 8) (ooff + i * 8 + 8) :: bytes ores) = row bs ooff 8 i"
    by (simp add: row_def algebra_simps)
  then have halves: "slice bs (ooff + i * 8) (ooff + i * 8 + 4) = (Inr (to_be32 (me_pack ?e)) :: bytes ores)"
    "slice bs (ooff + i * 8 + 4) (ooff + i * 8 + 8) = (Inr (to_be32 (vs ! i)) :: bytes ores)"
    using slice_halves [of bs "ooff + i * 8" "to_be32 (me_pack ?e)" "to_be32 (vs ! i)"] assms(2) i by simp_all
  have "\<not> (take i (map me_id es) \<noteq> [] \<and> me_id ?e \<le> last (take i (map me_id es)))"
  proof (cases i)
    case (Suc m)
    then have "last (take i (map me_id es)) = me_id (es ! m)"
      using i by (simp add: take_Suc_conv_app_nth)
    then show ?thesis
      using sorted_wrt_nth_less [OF assms(5), of m i] Suc i by (simp add: not_le)
  qed simp
  moreover have "take i (map me_id es) @ [me_id ?e] = take (i + 1) (map me_id es)"
    "take i locs @ [(me_pack ?e, me_offset ?e)] = take (i + 1) locs"
    using i by (simp_all add: take_Suc_conv_app_nth locs_def)
  moreover have "id_ok H (me_id ?e)" "\<not> pack_count \<le> unat (me_pack ?e)"
    using assms(4) i by (simp_all add: not_le)
  ultimately show ?case
    using Suc assms(1,3) i halves by (simp del: take_append take_map)
qed (simp add: locs_def)

definition midx_fits :: "hash_alg \<Rightarrow> bytes list \<Rightarrow> midx_entry list \<Rightarrow> bool" where
  "midx_fits H names es \<longleftrightarrow>
     length names < 2 ^ 32 \<and> length es \<le> 2 ^ 31 \<and> raw_len H < 2 ^ 16 \<and> length (pnam_chunk names) < 2 ^ 62"

lemma decode_offsets_chunk:
  assumes "midx_placed (\<exists>e \<in> set es. ucast (0xFFFFFFFF :: u32) < me_offset e) es = (vs, large)"
  shows "midx_chunks names es pref =
    [(CHUNK_PNAM, pnam_chunk names), (CHUNK_OIDF, concat (map to_be32 (fanout (map me_id es)))),
     (CHUNK_OIDL, concat (map (\<lambda>e. id_bytes (me_id e)) es)), (CHUNK_OOFF, concat (map ooff_row (zip es vs)))]
    @ (if large = [] then [] else [(CHUNK_LOFF, concat (map to_be64 large))])
    @ (case pref of None \<Rightarrow> [] | Some p \<Rightarrow>
         [(CHUNK_RIDX, concat (map to_be32 (pack_order (map (\<lambda>e. (me_pack e, me_offset e)) es) p)))])"
proof -
  have "concat (map to_be64 large) = [] \<longleftrightarrow> large = []"
    by (cases large) (auto dest: arg_cong [of _ _ length])
  then show ?thesis
    using offset_chunks_placed [OF assms] by (simp add: midx_chunks_def list_ex_iff split: option.split)
qed

lemmas chunk_ids = CHUNK_PNAM_def CHUNK_OIDF_def CHUNK_OIDL_def CHUNK_OOFF_def CHUNK_LOFF_def CHUNK_RIDX_def

lemma chunk_ids_distinct: "distinct [CHUNK_PNAM, CHUNK_OIDF, CHUNK_OIDL, CHUNK_OOFF, CHUNK_LOFF, CHUNK_RIDX]"
  by (simp add: chunk_ids)


text \<open>The rows of a chunk, read out of the file.\<close>

lemma chunk_region:
  assumes "map_of cs want = Some (concat (map f xs))" "length p = off" "bs = p @ chunk_data cs @ t"
    and "\<forall>x \<in> set xs. length (f x) = w"
  obtains st where "find_chunk (chunk_rows off cs) want = Some (st, st + length xs * w)"
    "slice bs st (st + length xs * w) = (Inr (concat (map f xs)) :: bytes ores)"
    "\<forall>j < length xs. row bs st w j = Inr (f (xs ! j))"
proof -
  obtain q r where q: "find_chunk (chunk_rows off cs) want = Some (length q, length q + length (concat (map f xs)))"
    "p @ chunk_data cs @ t = q @ concat (map f xs) @ r"
    using find_chunk_Some [OF assms(1,2), of t] by blast
  have "\<forall>c \<in> set (map f xs). length c = w"
    using assms(4) by simp
  then have len: "length (concat (map f xs)) = length xs * w"
    by (simp only: length_concat_same length_map)
  show thesis
  proof (rule that [of "length q"])
    show "find_chunk (chunk_rows off cs) want = Some (length q, length q + length xs * w)"
      using q(1) len by simp
    show "slice bs (length q) (length q + length xs * w) = (Inr (concat (map f xs)) :: bytes ores)"
      unfolding assms(3) q(2) by (rule slice_append) (use len in simp_all)
    show "\<forall>j < length xs. row bs (length q) w j = Inr (f (xs ! j))"
      unfolding assms(3) q(2) using assms(4) by (auto intro: row_concat)
  qed
qed

lemma map_of_chunks:
  assumes "cs = [(CHUNK_PNAM, a), (CHUNK_OIDF, b), (CHUNK_OIDL, c), (CHUNK_OOFF, d)]
    @ (if l then [] else [(CHUNK_LOFF, e)]) @ (case pref of None \<Rightarrow> [] | Some p \<Rightarrow> [(CHUNK_RIDX, f p)])"
  shows "map_of cs CHUNK_PNAM = Some a" "map_of cs CHUNK_OIDF = Some b" "map_of cs CHUNK_OIDL = Some c"
    "map_of cs CHUNK_OOFF = Some d" "map_of cs CHUNK_LOFF = (if l then None else Some e)"
    "map_of cs CHUNK_RIDX = map_option f pref" "\<forall>x \<in> set cs. length (fst x) = 4" "length cs \<le> 6"
  by (auto simp: assms chunk_ids map_add_def split: option.splits)

definition decoded_midx :: "hash_alg \<Rightarrow> bytes list \<Rightarrow> midx_entry list \<Rightarrow> u32 option \<Rightarrow> bytes \<Rightarrow> multi_pack_index" where
  "decoded_midx H names es pref chk =
     (let locs = map (\<lambda>e. (me_pack e, me_offset e)) es in
      \<lparr>pack_names = names, midx_ids = map me_id es, locations = locs,
       reverse_index = map_option (pack_order locs) pref, midx_checksum = chk\<rparr>)"

lemma decode_chunks_encoded:
  assumes H: "hash_ok H" "midx_fits H names es" "names_ok names" "sorted_wrt (<) names"
    and es: "\<forall>e \<in> set es. id_ok H (me_id e) \<and> unat (me_pack e) < length names"
      "sorted_wrt (<) (map me_id es)"
    and bs: "bs = p @ chunk_data (midx_chunks names es pref) @ chk" "length p = off"
      "body_end = off + length (chunk_data (midx_chunks names es pref))"
  shows "decode_chunks H bs (length names) body_end (chunk_rows off (midx_chunks names es pref))
    = Inr (decoded_midx H names es pref chk)"
proof -
  let ?cs = "midx_chunks names es pref"
  let ?locs = "map (\<lambda>e. (me_pack e, me_offset e)) es"
  let ?n = "length es"
  obtain vs large where pl: "midx_placed (\<exists>e \<in> set es. ucast (0xFFFFFFFF :: u32) < me_offset e) es = (vs, large)"
    by fastforce
  note mo = map_of_chunks [OF decode_offsets_chunk [OF pl, of names pref]]
  have vs: "length vs = ?n"
    using length_placed [OF pl] by simp
  have n: "?n \<le> 2 ^ 31" "unat (word_of_nat ?n :: u32) = ?n"
    using H(2) by (simp_all add: midx_fits_def unat_of_nat)
  obtain q r where pn: "find_chunk (chunk_rows off ?cs) CHUNK_PNAM = Some (length q, length q + length (pnam_chunk names))"
    "p @ chunk_data ?cs @ chk = q @ pnam_chunk names @ r"
    using find_chunk_Some [OF mo(1) bs(2), of chk] by blast
  have pnam: "slice bs (length q) (length q + length (pnam_chunk names)) = (Inr (pnam_chunk names) :: bytes ores)"
    unfolding bs(1) pn(2) by (rule slice_append) simp_all
  obtain oidf where F: "find_chunk (chunk_rows off ?cs) CHUNK_OIDF = Some (oidf, oidf + 256 * 4)"
    "\<forall>j < 256. row bs oidf 4 j = Inr (to_be32 (fanout (map me_id es) ! j))"
    using chunk_region [OF mo(2) bs(2,1), of 4] by auto
  obtain oidl where L: "find_chunk (chunk_rows off ?cs) CHUNK_OIDL = Some (oidl, oidl + ?n * raw_len H)"
    "\<forall>j < ?n. row bs oidl (raw_len H) j = Inr (id_bytes (me_id (es ! j)))"
    using chunk_region [OF mo(3) bs(2,1), of "raw_len H"] es(1) unfolding id_ok_def by blast
  obtain ooff where O: "find_chunk (chunk_rows off ?cs) CHUNK_OOFF = Some (ooff, ooff + ?n * 8)"
    "\<forall>j < ?n. row bs ooff 8 j = Inr (to_be32 (me_pack (es ! j)) @ to_be32 (vs ! j))"
    using chunk_region [OF mo(4) bs(2,1), of 8] vs by auto
  have loff: "(case find_chunk (chunk_rows off ?cs) CHUNK_LOFF of None \<Rightarrow> Inr None
      | Some (s, e) \<Rightarrow> ebind (slice bs s e) (\<lambda>t. Inr (Some t)))
      = (Inr (if large = [] then None else Some (concat (map to_be64 large))) :: bytes option ores)"
  proof (cases "large = []")
    case True
    then show ?thesis
      using mo(5) find_chunk_None [of CHUNK_LOFF ?cs off] by (simp add: map_of_eq_None_iff)
  next
    case False
    then have "map_of ?cs CHUNK_LOFF = Some (concat (map to_be64 large))"
      using mo(5) by simp
    from chunk_region [OF this bs(2,1), of 8] show ?thesis
      using False by fastforce
  qed
  have "midx_offset (if large = [] then None else Some (concat (map to_be64 large))) (vs ! j) = Inr (me_offset (es ! j))"
    if "j < ?n" for j
    using midx_offset_placed [OF pl n(1) that] .
  then have objects: "read_objects H bs oidl ooff (length names)
      (if large = [] then None else Some (concat (map to_be64 large))) 0 ?n [] [] = Inr (map me_id es, ?locs)"
    using read_objects_table [of es bs oidl H ooff vs _ "length names" 0 ?n] L(2) O(2) es by simp
  have "sorted (map first_byte (map me_id es))"
    by (rule sorted_first_bytes [OF es(2)]) (use es(1) hash_ok_pos [OF H(1)] in \<open>auto simp: id_ok_def\<close>)
  then have fanout: "check_fanout MalformedMultiPackIndex bs oidf (map me_id es) 0 0 256 = Inr ()"
    using F(2) fanout_nth by (intro check_fanout_sorted) simp_all
  have order: "read_reverse_index bs ?n (find_chunk (chunk_rows off ?cs) CHUNK_RIDX)
      = Inr (map_option (pack_order ?locs) pref)"
  proof (cases pref)
    case None
    then show ?thesis
      using mo(6) find_chunk_None [of CHUNK_RIDX ?cs off] by (simp add: map_of_eq_None_iff read_reverse_index_def)
  next
    case (Some p)
    let ?o = "pack_order ?locs p"
    have lim: "length ?locs < 2 ^ 32"
      using n(1) by simp
    note range = pack_order_range [OF lim, of p]
    have len: "length ?o = ?n"
      using range(2) by simp
    have "map_of ?cs CHUNK_RIDX = Some (concat (map to_be32 ?o))"
      using mo(6) Some by simp
    from chunk_region [OF this bs(2,1), of 4] obtain st where
      st: "find_chunk (chunk_rows off ?cs) CHUNK_RIDX = Some (st, st + length ?o * 4)"
      "\<forall>j < length ?o. row bs st 4 j = Inr (to_be32 (?o ! j))"
      by auto
    have bound: "\<forall>x \<in> set ?o. unat x < ?n"
      using range(3) by simp
    have "read_order bs st 0 ?n (replicate ?n False) (take 0 ?o) = Inr ?o"
      by (rule read_order_table [OF st(2) range(1) bound]) (simp_all add: len)
    then show ?thesis
      using st(1) Some len by (simp add: read_reverse_index_def)
  qed
  have all: "filter (\<lambda>i. first_byte i \<le> 255) (map me_id es) = map me_id es"
    using first_byte_bound by (simp add: filter_id_conv less_Suc_eq_le [symmetric])
  have "row bs oidf 4 255 = Inr (to_be32 (word_of_nat ?n))"
    using F(2) fanout_nth [of 255 "map me_id es"] unfolding all by simp
  then have total: "row bs oidf 4 255 = (Inr (to_be32 (word_of_nat ?n)) :: bytes ores)"
    by simp
  have chk: "slice bs body_end (length bs) = (Inr chk :: bytes ores)"
    using slice_append [of "p @ chunk_data ?cs" body_end chk "length bs" "[]"] bs by simp
  have srt: "\<not> list_ex (\<lambda>(a, b). b \<le> a) (windows2 names)"
    using H(4) no_window_strict_sorted [of names] by (auto simp: list_ex_iff)
  show ?thesis
    unfolding decode_chunks_def pn(1) F(1) L(1) O(1) ok_or_simps ebind_simps case_prod_conv pnam
      read_names_pnam [OF H(3)] total from_to_be32 n(2) loff Let_def
    using objects fanout order chk srt by (simp add: FANOUT_LEN_def decoded_midx_def Let_def)
qed


lemma decode_midx_file:
  fixes pref :: "u32 option"
  assumes H: "hash_ok H" "midx_fits H names es" "names_ok names" "sorted_wrt (<) names"
    and es: "\<forall>e \<in> set es. id_ok H (me_id e) \<and> unat (me_pack e) < length names"
      "sorted_wrt (<) (map me_id es)"
  defines "out \<equiv> midx_body H (length names) (midx_chunks names es pref)"
  shows "decode_multi_pack_index H (out @ digest H out) = Inr (decoded_midx H names es pref (digest H out))"
proof -
  let ?cs = "midx_chunks names es pref"
  let ?m = "length ?cs" and ?r = "raw_len H"
  let ?bs = "out @ digest H out"
  define off where "off = MIDX_HEADER_LEN + (?m + 1) * TABLE_ROW_LEN"
  let ?v = "[MIDX_VERSION, hash_version H, word_of_nat ?m, 0]"
  let ?hd = "MIDX_MAGIC @ ?v @ to_be32 (word_of_nat (length names))"
  let ?tab = "chunk_table (word_of_nat off) ?cs"
  obtain vs large where pl: "midx_placed (\<exists>e \<in> set es. ucast (0xFFFFFFFF :: u32) < me_offset e) es = (vs, large)"
    by fastforce
  note cs = decode_offsets_chunk [OF pl, of names pref]
  note mo = map_of_chunks [OF cs]
  have r: "0 < ?r" "?r < 2 ^ 16" "length es \<le> 2 ^ 31" "length names < 2 ^ 32" "length (pnam_chunk names) < 2 ^ 62"
    using H hash_ok_pos by (auto simp: midx_fits_def)
  have m: "unat (word_of_nat ?m :: byte) = ?m" "?m \<le> 6"
    using mo(8) by (simp_all add: unat_of_nat)
  have nn: "unat (word_of_nat (length names) :: u32) = length names"
    using r by (simp add: unat_of_nat)
  have lenM: "length MIDX_MAGIC = 4"
    by (simp add: MIDX_MAGIC_def)
  have lenT: "length ?tab = (?m + 1) * TABLE_ROW_LEN"
    using mo(7) by (rule length_chunk_table)
  have lenP: "length (?hd @ ?tab) = off"
    using lenM lenT by (simp add: off_def MIDX_HEADER_LEN_def)
  have out: "out = (?hd @ ?tab) @ chunk_data ?cs"
    by (simp add: out_def midx_body_def off_def)
  have dig: "length (digest H out) = ?r"
    using H(1) by simp
  have small: "length (chunk_data ?cs) < 2 ^ 63"
  proof -
    have "\<forall>c \<in> set (map (\<lambda>e. id_bytes (me_id e)) es). length c = ?r"
      using es(1) by (auto simp: id_ok_def)
    then have ids: "length (concat (map (\<lambda>e. id_bytes (me_id e)) es)) = length es * ?r"
      using length_concat_same by fastforce
    have ooff: "length (concat (map ooff_row (zip es vs))) = length es * 8"
      using length_concat_same [of "map ooff_row (zip es vs)" 8] length_placed [OF pl] by auto
    have o: "length (pack_order (map (\<lambda>e. (me_pack e, me_offset e)) es) p) = length es" for p
      using pack_order_range(2) [of "map (\<lambda>e. (me_pack e, me_offset e)) es" p] r(3) by simp
    have "length es * ?r \<le> 2 ^ 31 * 2 ^ 16"
      using r by (intro mult_le_mono) simp_all
    then show ?thesis
      using r(3,5) length_placed [OF pl] unfolding cs
      by (simp add: ids ooff o split: option.split)
  qed
  have rows: "read_rows ?bs 0 (?m + 1) = Inr (chunk_rows off ?cs)"
    using read_rows_table [OF mo(7), of off ?hd 0 "chunk_data ?cs @ digest H out"] small lenM m(2)
    unfolding out by (simp add: off_def MIDX_HEADER_LEN_def TABLE_ROW_LEN_def)
  have magic: "slice ?bs 0 4 = (Inr MIDX_MAGIC :: bytes ores)" "slice ?bs 4 8 = (Inr ?v :: bytes ores)"
    "slice ?bs 8 12 = (Inr (to_be32 (word_of_nat (length names))) :: bytes ores)"
    using slice_append [of "[]" 0 MIDX_MAGIC 4] slice_append [of MIDX_MAGIC 4 ?v 8]
      slice_append [of "MIDX_MAGIC @ ?v" 8 "to_be32 (word_of_nat (length names))" 12] lenM
    unfolding out by simp_all
  have len: "length out = off + length (chunk_data ?cs)"
    using lenP out by simp
  obtain c rest where hd: "chunk_rows off ?cs = (c, off) # rest"
    using chunk_rows_hd by blast
  have last: "snd (chunk_rows off ?cs ! ?m) = length out"
    by (simp add: chunk_rows_last len)
  have chunks: "decode_chunks H ?bs (length names) (length out) (chunk_rows off ?cs)
      = Inr (decoded_midx H names es pref (digest H out))"
    by (rule decode_chunks_encoded [OF H es _ lenP len]) (simp add: out)
  have conds: "(length ?bs < MIDX_HEADER_LEN + ?r) = False" "length ?bs - ?r = length out"
    "(length out < MIDX_HEADER_LEN + (?m + 1) * TABLE_ROW_LEN) = False" "off = MIDX_HEADER_LEN + (?m + 1) * TABLE_ROW_LEN"
    using dig len by (simp_all add: off_def MIDX_HEADER_LEN_def)
  have v: "?v ! 0 = MIDX_VERSION" "?v ! 1 = hash_version H" "?v ! 2 = word_of_nat ?m" "?v ! 3 = 0"
    by simp_all
  have sndhd: "snd (chunk_rows off ?cs ! 0) = off"
    by (simp add: hd)
  show ?thesis
    unfolding decode_multi_pack_index_def Let_def conds(1,2) if_False magic ebind_simps v m(1) from_to_be32 nn rows
    using chunk_rows_mono [of off ?cs] chunks last sndhd conds(3,4) by simp
qed


section \<open>What decoding guarantees\<close>

lemma read_rows_safe:
  assumes "MIDX_HEADER_LEN + (i + k) * TABLE_ROW_LEN \<le> length bs"
  shows "no_panic (read_rows bs i k)" and "read_rows bs i k = Inr rows \<Longrightarrow> length rows = k"
  using assms
  by (induction k arbitrary: i rows)
     (auto intro!: no_panic_ebind simp: ebind_eq_Inr Let_def slice_ok TABLE_ROW_LEN_def algebra_simps)

lemma rows_below_last:
  "\<not> list_ex (\<lambda>(a, b). snd b < snd a) (windows2 (b # rows)) \<Longrightarrow> snd b \<le> (snd (last (b # rows)) :: nat)"
  by (induction rows arbitrary: b) fastforce+

lemma find_chunk_bounds:
  assumes "\<not> list_ex (\<lambda>(a, b). snd b < snd a) (windows2 rows)" "find_chunk rows w = Some (s, e)"
  shows "s \<le> e \<and> e \<le> snd (last rows)"
  using assms
proof (induction rows rule: induct_list012)
  case (3 a b rows)
  have "snd b \<le> snd (last (b # rows))"
    using 3(3) by (intro rows_below_last) simp
  then show ?case
    using 3 by (cases a; cases b) (auto simp: find_chunk_Cons split: if_splits)
qed (simp_all add: find_chunk_def)

lemma no_panic_read_names [simp]: "no_panic (read_names ps)"
  by (induction ps) auto

lemma no_panic_midx_offset [simp]: "no_panic (midx_offset t v)"
  by (auto simp: midx_offset_def Let_def slice_ok split: option.split)

lemma no_panic_read_objects:
  assumes "oidl + (i + k) * raw_len H \<le> length bs" "ooff + (i + k) * 8 \<le> length bs"
  shows "no_panic (read_objects H bs oidl ooff pc t i k ids locs)"
  using assms
proof (induction k arbitrary: i ids locs)
  case (Suc k)
  have "no_panic (row bs oidl (raw_len H) i)"
    using Suc.prems by (intro no_panic_row) (simp add: algebra_simps)
  then show ?case
    using Suc by (auto intro!: no_panic_ebind simp: Let_def slice_ok)
qed simp

lemma read_objects_wf:
  assumes "read_objects H bs oidl ooff pc t i k ids locs = Inr (ids', locs')"
    and "sorted_wrt (<) ids" "\<forall>j \<in> set ids. id_ok H j" "length locs = length ids" "\<forall>l \<in> set locs. unat (fst l) < pc"
  shows "sorted_wrt (<) ids' \<and> (\<forall>j \<in> set ids'. id_ok H j) \<and> length locs' = length ids'
    \<and> length ids' = length ids + k \<and> (\<forall>l \<in> set locs'. unat (fst l) < pc)"
  using assms
proof (induction k arbitrary: i ids locs)
  case (Suc k)
  obtain b oid p off where "from_bytes H b = Inr oid" "\<not> (ids \<noteq> [] \<and> oid \<le> last ids)"
    and p: "\<not> pc \<le> unat (from_be32 p)"
    and rec: "read_objects H bs oidl ooff pc t (i + 1) k (ids @ [oid]) (locs @ [(from_be32 p, off)]) = Inr (ids', locs')"
    using Suc.prems(1) unfolding read_objects.simps Let_def ebind_eq_Inr if_fail_eq_Inr by blast
  then have step: "id_ok H oid" "ids = [] \<or> last ids < oid"
    by (auto simp: from_bytes_Inr id_ok_def)
  have "\<forall>j \<in> set ids. j < oid"
  proof
    fix j assume j: "j \<in> set ids"
    then have "j \<le> last ids"
      using Suc.prems(2) by (induction ids rule: rev_induct) (auto simp: sorted_wrt_append)
    then show "j < oid"
      using step(2) j by fastforce
  qed
  then show ?case
    using Suc.IH [OF rec] Suc.prems step(1) p by (simp add: sorted_wrt_append)
qed simp

lemma no_panic_read_order:
  "s + (i + k) * 4 \<le> length bs \<Longrightarrow> no_panic (read_order bs s i k seen order)"
  by (induction k arbitrary: i seen order) (auto intro!: no_panic_ebind no_panic_row simp: Let_def)

lemma read_order_wf:
  assumes "read_order bs s i k seen order = Inr order'" "distinct order" "length seen = n"
    and "\<forall>x \<in> set order. unat x < n \<and> seen ! unat x"
  shows "distinct order' \<and> length order' = length order + k \<and> (\<forall>x \<in> set order'. unat x < n)"
  using assms
proof (induction k arbitrary: i seen order)
  case (Suc k)
  obtain b where b: "\<not> length seen \<le> unat (from_be32 b)" "\<not> seen ! unat (from_be32 b)"
    and rec: "read_order bs s (i + 1) k (seen[unat (from_be32 b) := True]) (order @ [from_be32 b]) = Inr order'"
    using Suc.prems(1) unfolding read_order.simps Let_def ebind_eq_Inr if_fail_eq_Inr by blast
  have fresh: "from_be32 b \<notin> set order"
    using Suc.prems(4) b(2) by auto
  have "\<forall>x \<in> set (order @ [from_be32 b]). unat x < n \<and> seen[unat (from_be32 b) := True] ! unat x"
    using Suc.prems(3,4) b by (auto simp: nth_list_update)
  note IH = Suc.IH [OF rec _ _ this]
  show ?case
    using IH Suc.prems(2,3) fresh by simp
qed simp

definition midx_wf :: "hash_alg \<Rightarrow> multi_pack_index \<Rightarrow> bool" where
  "midx_wf H m \<longleftrightarrow>
     sorted_wrt (<) (pack_names m) \<and> sorted_wrt (<) (midx_ids m) \<and> (\<forall>i \<in> set (midx_ids m). id_ok H i)
     \<and> length (locations m) = length (midx_ids m) \<and> length (midx_ids m) < 2 ^ 32
     \<and> (\<forall>l \<in> set (locations m). unat (fst l) < length (pack_names m))
     \<and> (\<forall>r \<in> set_option (reverse_index m).
          distinct r \<and> length r = length (midx_ids m) \<and> (\<forall>x \<in> set r. unat x < length (midx_ids m)))"

lemma no_panic_decode_chunks:
  assumes "\<And>w s e. find_chunk rows w = Some (s, e) \<Longrightarrow> s \<le> e \<and> e \<le> length bs" "body_end \<le> length bs"
  shows "no_panic (decode_chunks H bs pc body_end rows)"
proof -
  have opt: "no_panic (read_reverse_index bs n (find_chunk rows w))" for n w
    using assms(1) [of w]
    by (auto simp: read_reverse_index_def intro!: no_panic_ebind no_panic_read_order split: option.split)
  have loff: "no_panic (case find_chunk rows w of None \<Rightarrow> Inr None
      | Some (s, e) \<Rightarrow> ebind (slice bs s e) (\<lambda>t. Inr (Some t)))" for w
    using assms(1) [of w] by (auto simp: slice_ok split: option.split)
  show ?thesis
    unfolding decode_chunks_def Let_def
    apply (intro no_panic_intros no_panic_ok_or no_panic_read_names opt loff no_panic_read_objects
        no_panic_check_fanout no_panic_row)
    using assms(2) apply (auto simp: slice_ok FANOUT_LEN_def dest!: assms(1))
    done
qed

lemma decode_chunks_wf:
  assumes "decode_chunks H bs pc body_end rows = Inr m"
  shows "midx_wf H m"
proof -
  obtain names total ids locs a b t rev w chk where n: "\<not> (length names \<noteq> pc \<or> list_ex (\<lambda>(a, b). b \<le> a) (windows2 names))"
    and o: "read_objects H bs a b pc t 0 (unat (from_be32 total)) [] [] = Inr (ids, locs)"
    and r: "read_reverse_index bs (unat (from_be32 total)) (find_chunk rows CHUNK_RIDX) = Inr rev"
    and m: "\<lparr>pack_names = names, midx_ids = ids, locations = locs, reverse_index = rev, midx_checksum = chk\<rparr> = m"
    using assms unfolding decode_chunks_def Let_def
    by (auto simp: ebind_eq_Inr split: if_splits)
  have ids: "sorted_wrt (<) ids" "\<forall>j \<in> set ids. id_ok H j" "length locs = length ids"
    "length ids = unat (from_be32 total)" "\<forall>l \<in> set locs. unat (fst l) < pc"
    using read_objects_wf [OF o] by simp_all
  have "distinct x \<and> length x = length ids \<and> (\<forall>y \<in> set x. unat y < length ids)" if "rev = Some x" for x
    using r that read_order_wf [of bs _ 0 "unat (from_be32 total)" "replicate (unat (from_be32 total)) False" "[]" x
        "unat (from_be32 total)"] ids(4)
    by (auto simp: read_reverse_index_def ebind_eq_Inr split: option.splits if_splits)
  moreover have "sorted_wrt (<) names"
    using n no_window_strict_sorted [of names] by (auto simp: list_ex_iff)
  moreover have "unat (from_be32 total) < 2 ^ 32"
    using unat_bound [of "from_be32 total"] by simp
  ultimately show ?thesis
    using ids n unfolding m [symmetric] midx_wf_def by simp
qed

lemma no_panic_decode_midx: "no_panic (decode_multi_pack_index H bs)"
proof -
  have chunks: "no_panic (decode_chunks H bs pc (length bs - raw_len H) rows)"
    if "read_rows bs 0 (Suc n) = Inr rows" "MIDX_HEADER_LEN + Suc n * TABLE_ROW_LEN \<le> length bs"
      "snd (rows ! n) = length bs - raw_len H" "\<not> list_ex (\<lambda>(a, b). snd b < snd a) (windows2 rows)" for n rows pc
  proof (rule no_panic_decode_chunks)
    fix w s e
    assume f: "find_chunk rows w = Some (s, e)"
    have "length rows = Suc n"
      using read_rows_safe(2) [OF _ that(1)] that(2) by simp
    then have "last rows = rows ! n"
      using last_conv_nth [of rows] by force
    then show "s \<le> e \<and> e \<le> length bs"
      using find_chunk_bounds [OF that(4) f] that(3) by (auto dest: le_trans [OF _ diff_le_self])
  qed simp
  have short: "12 \<le> length bs" if "MIDX_HEADER_LEN + raw_len H \<le> length bs"
    using that by (simp add: MIDX_HEADER_LEN_def)
  show ?thesis
    unfolding decode_multi_pack_index_def Let_def
    apply (intro no_panic_intros read_rows_safe(1))
    apply (auto simp: slice_ok not_less simp del: mult_Suc read_rows.simps dest!: short intro!: chunks)
    done
qed


section \<open>Lookup as a table\<close>

definition midx_row :: "multi_pack_index \<Rightarrow> object_id \<Rightarrow> (object_id \<times> u32 \<times> u64) option" where
  "midx_row m i = map_option (\<lambda>k. zip (midx_ids m) (locations m) ! k) (binary_search (midx_ids m) i)"

definition table_wf :: "multi_pack_index \<Rightarrow> bool" where
  "table_wf m \<longleftrightarrow> sorted_wrt (<) (midx_ids m) \<and> length (locations m) = length (midx_ids m)"

interpretation midx: sorted_table "\<lambda>m. zip (midx_ids m) (locations m)" fst table_wf midx_row
  by unfold_locales (simp_all add: table_wf_def midx_row_def)

lemma midx_wf_table: "midx_wf H m \<Longrightarrow> table_wf m"
  by (simp add: midx_wf_def table_wf_def)

lemma midx_lookup_row:
  assumes "table_wf m"
  shows "midx_lookup m i = Inr (map_option (\<lambda>(_, p, off). (unat p, off)) (midx_row m i))"
proof (cases "binary_search (midx_ids m) i")
  case (Some k)
  then have "k < length (midx_ids m)"
    using binary_search_Some [of "midx_ids m" i k] assms by (simp add: table_wf_def)
  then show ?thesis
    using Some assms by (auto simp: midx_lookup_def midx_row_def table_wf_def split: prod.split)
qed (simp add: midx_lookup_def midx_row_def)

lemma object_position_Some:
  "table_wf m \<Longrightarrow> object_position m i = Some k \<longleftrightarrow> k < length (midx_ids m) \<and> midx_ids m ! k = i"
  unfolding object_position_def table_wf_def by (rule binary_search_Some) simp

lemma object_position_None: "table_wf m \<Longrightarrow> object_position m i = None \<longleftrightarrow> i \<notin> set (midx_ids m)"
  unfolding object_position_def table_wf_def by (rule binary_search_None) simp

lemma invert_order_inverts:
  assumes "distinct r" "\<forall>x \<in> set r. unat x < length forward"
  shows "\<exists>f. invert_order r pos forward = Inr f \<and> length f = length forward
    \<and> (\<forall>j < length r. f ! unat (r ! j) = word_of_nat (pos + j))
    \<and> (\<forall>k. k \<notin> unat ` set r \<longrightarrow> f ! k = forward ! k)"
  using assms
proof (induction r pos forward rule: invert_order.induct)
  case (2 x r pos forward)
  then have x: "\<not> length forward \<le> unat x" "unat x \<notin> unat ` set r"
    by (auto simp: not_le simp flip: word_unat_eq_iff)
  obtain f where f: "invert_order r (pos + 1) (forward[unat x := word_of_nat pos]) = Inr f"
    "length f = length forward" "\<forall>j < length r. f ! unat (r ! j) = word_of_nat (pos + 1 + j)"
    "\<forall>k. k \<notin> unat ` set r \<longrightarrow> f ! k = forward[unat x := word_of_nat pos] ! k"
    using 2 x by auto
  have "f ! unat ((x # r) ! j) = word_of_nat (pos + j)" if "j < length (x # r)" for j
    using that f(3,4) x by (cases j) (auto simp: not_le)
  then show ?case
    using f x(1) by auto
qed simp

definition example_names :: "bytes list" where
  "example_names = [ascii ''a'', ascii ''b'']"

definition example_entries :: "midx_entry list" where
  "example_entries =
     [\<lparr>me_id = ObjectId (7 # replicate 19 0), me_pack = 0, me_offset = 12\<rparr>,
      \<lparr>me_id = ObjectId (7 # replicate 19 0), me_pack = 1, me_offset = 0x123456789\<rparr>]"

lemma example_facts:
  "midx_fits (sha1 (sum_digest 20)) example_names example_entries" "names_ok example_names"
  "\<forall>e \<in> set example_entries. id_ok (sha1 (sum_digest 20)) (me_id e)"
  "example_names \<noteq> []" "sorted_wrt (<) example_names" "length example_names = 2"
  "sorted_midx_entries (Some 1) example_entries
     = [\<lparr>me_id = ObjectId (7 # replicate 19 0), me_pack = 1, me_offset = 0x123456789\<rparr>]"
proof -
  show "midx_fits (sha1 (sum_digest 20)) example_names example_entries" "names_ok example_names"
    "\<forall>e \<in> set example_entries. id_ok (sha1 (sum_digest 20)) (me_id e)"
    "example_names \<noteq> []" "sorted_wrt (<) example_names" "length example_names = 2"
    by (simp_all add: example_names_def example_entries_def midx_fits_def names_ok_def pnam_chunk_def pad4_def
        sha1_def id_ok_def Let_def)
  have "\<not> midx_key (Some 1) (example_entries ! 0) \<le> midx_key (Some 1) (example_entries ! 1)"
    by (simp add: example_entries_def midx_key_def less_eq_prod_def)
  then show "sorted_midx_entries (Some 1) example_entries
     = [\<lparr>me_id = ObjectId (7 # replicate 19 0), me_pack = 1, me_offset = 0x123456789\<rparr>]"
    by (simp add: sorted_midx_entries_def example_entries_def)
qed

section \<open>Properties\<close>

text \<open>C32: \<open>pack_order\<close> returns every lexical index once, ordered by the preferred pack
  first, then by pack, then by offset.\<close>

theorem pack_order_correct:
  assumes "length locs < 2 ^ 32"
  shows "distinct (pack_order locs pref) \<and> unat ` set (pack_order locs pref) = {..<length locs}
    \<and> sorted (map (\<lambda>i. (fst (locs ! unat i) \<noteq> pref, fst (locs ! unat i), snd (locs ! unat i))) (pack_order locs pref))"
  using pack_order_range [OF assms, of pref] pack_order_sorted [of pref locs]
  by (simp add: pack_key_def case_prod_beta)

theorem pack_order_correct_witness:
  "distinct (pack_order [(0, 100), (2, 50), (1, 30)] 1)
   \<and> unat ` set (pack_order [(0, 100), (2, 50), (1, 30)] 1) = {..<3}"
  using pack_order_correct [of "[(0, 100), (2, 50), (1, 30)]" 1] by simp

lemma encode_decode_midx:
  assumes "hash_ok H" "midx_fits H names es" "names_ok names" "\<forall>e \<in> set es. id_ok H (me_id e)"
  shows "if names \<noteq> [] \<and> sorted_wrt (<) names \<and> (\<forall>p \<in> set_option pref. unat p < length names)
        \<and> (\<forall>e \<in> set (sorted_midx_entries pref es). unat (me_pack e) < length names)
     then \<exists>out. encode_midx H names es pref = Inr (out @ digest H out)
        \<and> decode_multi_pack_index H (out @ digest H out)
            = Inr (decoded_midx H names (sorted_midx_entries pref es) pref (digest H out))
     else encode_midx H names es pref = fail_with MalformedMultiPackIndex"
proof -
  let ?s = "sorted_midx_entries pref es"
  have srt: "list_ex (\<lambda>(a, b). b \<le> a) (windows2 names) \<longleftrightarrow> \<not> sorted_wrt (<) names"
    using no_window_strict_sorted [of names] by (auto simp: list_ex_iff)
  have fits: "midx_fits H names ?s"
    using assms(2) length_sorted_midx_entries [of pref es] by (auto simp: midx_fits_def)
  have ids: "\<forall>e \<in> set ?s. id_ok H (me_id e)"
    using assms(4) sorted_midx_entries_subset by fast
  let ?out = "midx_body H (length names) (midx_chunks names ?s pref)"
  have dec: "decode_multi_pack_index H (?out @ digest H ?out) = Inr (decoded_midx H names ?s pref (digest H ?out))"
    if "sorted_wrt (<) names" "\<forall>e \<in> set ?s. unat (me_pack e) < length names"
    using ids that sorted_midx_entries_strict
    by (intro decode_midx_file [OF assms(1) fits assms(3)]) auto
  have pk: "list_ex (\<lambda>e. length names \<le> unat (me_pack e)) ?s
      \<longleftrightarrow> \<not> (\<forall>e \<in> set ?s. unat (me_pack e) < length names)"
    by (simp add: list_ex_iff not_less)
  have pr: "(case pref of None \<Rightarrow> False | Some p \<Rightarrow> length names \<le> unat p)
      \<longleftrightarrow> \<not> (\<forall>p \<in> set_option pref. unat p < length names)"
    by (auto split: option.split)
  show ?thesis
    unfolding encode_midx_def srt Let_def pk pr using dec by (auto split del: option.split)
qed

text \<open>C33: Encoding a multi-pack index succeeds exactly when the pack names are non-empty and
  strictly ascending, the preferred pack and the pack of every retained entry exist; the file
  then decodes to the names, the deduplicated entries sorted by id and the reverse index, large
  offsets included.\<close>

theorem midx_round_trip:
  assumes "hash_ok H" "midx_fits H names es" "names_ok names" "\<forall>e \<in> set es. id_ok H (me_id e)"
  shows "if names \<noteq> [] \<and> sorted_wrt (<) names \<and> (\<forall>p \<in> set_option pref. unat p < length names)
        \<and> (\<forall>e \<in> set (sorted_midx_entries pref es). unat (me_pack e) < length names)
     then \<exists>out. encode_midx H names es pref = Inr (out @ digest H out)
        \<and> decode_multi_pack_index H (out @ digest H out)
            = Inr (decoded_midx H names (sorted_midx_entries pref es) pref (digest H out))
     else encode_midx H names es pref = fail_with MalformedMultiPackIndex"
  using encode_decode_midx [OF assms, of pref] .

theorem midx_round_trip_witness:
  "\<exists>out. encode_midx (sha1 (sum_digest 20)) example_names example_entries (Some 1) = Inr (out @ sum_digest 20 out)
     \<and> decode_multi_pack_index (sha1 (sum_digest 20)) (out @ sum_digest 20 out)
        = Inr (decoded_midx (sha1 (sum_digest 20)) example_names
            [\<lparr>me_id = ObjectId (7 # replicate 19 0), me_pack = 1, me_offset = 0x123456789\<rparr>] (Some 1) (sum_digest 20 out))"
  using midx_round_trip [OF hash_ok_sha1 example_facts(1,2,3), of "Some 1"] example_facts(4-7)
  by (simp add: sha1_def)

text \<open>C34: In the decoded index, looking up an id finds the copy in the preferred pack when there
  is one and the copy in the lowest pack otherwise, and finds nothing for any other id.\<close>

theorem midx_lookup_best_copy:
  assumes "hash_ok H" "midx_fits H names es" "names_ok names" "\<forall>e \<in> set es. id_ok H (me_id e)"
    and "encode_midx H names es pref = Inr bytes" "decode_multi_pack_index H bytes = Inr m"
  shows "(i \<notin> me_id ` set es \<longrightarrow> midx_lookup m i = Inr None)
    \<and> (i \<in> me_id ` set es \<longrightarrow>
       (\<exists>y \<in> set es. me_id y = i \<and> midx_lookup m i = Inr (Some (unat (me_pack y), me_offset y))
          \<and> (\<forall>z \<in> set es. me_id z = i \<longrightarrow>
               (pref = Some (me_pack z) \<longrightarrow> pref = Some (me_pack y))
               \<and> (pref \<noteq> Some (me_pack y) \<longrightarrow> me_pack y \<le> me_pack z))))"
proof -
  let ?s = "sorted_midx_entries pref es"
  have m: "m = decoded_midx H names ?s pref (midx_checksum m)"
    using encode_decode_midx [OF assms(1-4), of pref] assms(5,6)
    by (auto simp: decoded_midx_def Let_def split: if_splits)
  have rows: "midx_ids m = map me_id ?s" "locations m = map (\<lambda>e. (me_pack e, me_offset e)) ?s"
    by (subst m, simp add: decoded_midx_def Let_def)+
  have wf: "table_wf m"
    by (simp add: table_wf_def rows sorted_midx_entries_strict)
  have set: "set (zip (midx_ids m) (locations m)) = (\<lambda>e. (me_id e, me_pack e, me_offset e)) ` set ?s"
    unfolding rows by (simp add: zip_map_map zip_same_conv_map)
  show ?thesis
  proof (cases "i \<in> me_id ` set es")
    case True
    then obtain x where x: "x \<in> set es" "me_id x = i"
      by blast
    obtain y where y: "y \<in> set ?s" "me_id y = i"
      using sorted_midx_entries_least [OF x(1), of pref] x(2) by auto
    have least: "midx_key pref y \<le> midx_key pref z" if z: "z \<in> set es" "me_id z = i" for z
    proof -
      obtain w where w: "w \<in> set ?s" "me_id w = i" "midx_key pref w \<le> midx_key pref z"
        using sorted_midx_entries_least [OF z(1), of pref] z(2) by auto
      have "distinct (map me_id ?s)"
        using sorted_midx_entries_strict strict_sorted_iff by blast
      then have "w = y"
        using w y by (auto simp: distinct_map inj_on_def)
      then show ?thesis
        using w(3) by simp
    qed
    have "midx_row m i = Some (i, me_pack y, me_offset y)"
      using midx.find_Some [OF wf, of i "(i, me_pack y, me_offset y)"] y unfolding set by force
    then have "midx_lookup m i = Inr (Some (unat (me_pack y), me_offset y))"
      using midx_lookup_row [OF wf, of i] by simp
    moreover have "(pref = Some (me_pack z) \<longrightarrow> pref = Some (me_pack y))
        \<and> (pref \<noteq> Some (me_pack y) \<longrightarrow> me_pack y \<le> me_pack z)" if "z \<in> set es" "me_id z = i" for z
      using least [OF that] y(2) that(2) by (auto simp: midx_key_def less_eq_prod_def)
    moreover have "y \<in> set es"
      using y(1) sorted_midx_entries_subset by fast
    ultimately show ?thesis
      using True y(2) by blast
  next
    case False
    then have "i \<notin> fst ` set (zip (midx_ids m) (locations m))"
      using sorted_midx_entries_subset [of pref es] unfolding set by auto
    then have "midx_row m i = None"
      using midx.find_None [OF wf] by simp
    then show ?thesis
      using False midx_lookup_row [OF wf, of i] by simp
  qed
qed


theorem midx_lookup_best_copy_witness:
  "\<exists>bytes m. encode_midx (sha1 (sum_digest 20)) example_names example_entries (Some 1) = Inr bytes
     \<and> decode_multi_pack_index (sha1 (sum_digest 20)) bytes = Inr m
     \<and> midx_lookup m (ObjectId (7 # replicate 19 0)) = Inr (Some (1, 0x123456789))"
proof -
  let ?H = "sha1 (sum_digest 20)"
  obtain out m where "encode_midx ?H example_names example_entries (Some 1) = Inr (out @ digest ?H out)"
    "decode_multi_pack_index ?H (out @ digest ?H out) = Inr m"
    using encode_decode_midx [OF hash_ok_sha1 example_facts(1-3), of "Some 1"] example_facts(4-7) by auto
  moreover from midx_lookup_best_copy [OF hash_ok_sha1 example_facts(1-3) this, of "ObjectId (7 # replicate 19 0)"]
  have "midx_lookup m (ObjectId (7 # replicate 19 0)) = Inr (Some (1, 0x123456789))"
    by (simp add: example_entries_def)
  ultimately show ?thesis
    by blast
qed

lemma decode_midx_wf:
  assumes "decode_multi_pack_index H bs = Inr m"
  shows "midx_wf H m"
proof -
  have "\<exists>pc rows. decode_chunks H bs pc (length bs - raw_len H) rows = Inr m"
    using assms by (auto simp: decode_multi_pack_index_def Let_def ebind_eq_Inr if_fail_eq_Inr simp del: read_rows.simps)
  then show ?thesis
    using decode_chunks_wf by blast
qed

lemma map_of_keyed: "map_of (map (\<lambda>r. (fst r, r)) xs) i = map_option (Pair i) (map_of xs i)"
  by (induction xs) auto

text \<open>Decoding never panics. An accepted index has ascending names and ids, a location in an
  existing pack for every id and, if present, a reverse index that is a permutation; its lookup
  is the map from ids to locations.\<close>

lemma decode_midx_sound:
  "no_panic (decode_multi_pack_index H bs)
   \<and> (decode_multi_pack_index H bs = Inr m \<longrightarrow>
       midx_wf H m
       \<and> midx_lookup m i = Inr (map_option (\<lambda>(p, off). (unat p, off)) (map_of (zip (midx_ids m) (locations m)) i)))"
proof (intro conjI impI)
  assume dec: "decode_multi_pack_index H bs = Inr m"
  show wf: "midx_wf H m"
    using dec by (rule decode_midx_wf)
  note t = midx_wf_table [OF wf]
  show "midx_lookup m i = Inr (map_option (\<lambda>(p, off). (unat p, off)) (map_of (zip (midx_ids m) (locations m)) i))"
    by (simp add: midx_lookup_row [OF t] midx.find_map_of [OF t] map_of_keyed option.map_comp comp_def)
qed (rule no_panic_decode_midx)

lemma decode_midx_sound_instance:
  "\<exists>bs m. decode_multi_pack_index (sha1 (sum_digest 20)) bs = Inr m \<and> midx_wf (sha1 (sum_digest 20)) m
     \<and> midx_lookup m (ObjectId [2]) = Inr None"
proof -
  let ?H = "sha1 (sum_digest 20)"
  obtain out where "decode_multi_pack_index ?H (out @ digest ?H out)
      = Inr (decoded_midx ?H example_names (sorted_midx_entries (Some 1) example_entries) (Some 1) (digest ?H out))"
    using encode_decode_midx [OF hash_ok_sha1 example_facts(1-3), of "Some 1"] example_facts(4-7) by auto
  with decode_midx_sound [of ?H "out @ digest ?H out" _ "ObjectId [2]"] show ?thesis
    by (fastforce simp: example_facts(7) decoded_midx_def Let_def)
qed

lemma reverse_index_inverse:
  assumes "midx_wf H m" "reverse_index m = Some r"
  obtains f where "invert_order r 0 (replicate (length r) 0) = Inr f" "length f = length (midx_ids m)"
    "\<forall>j < length (midx_ids m). f ! unat (r ! j) = word_of_nat j" "unat ` set r = {..<length (midx_ids m)}"
proof -
  let ?n = "length (midx_ids m)"
  have r: "distinct r" "length r = ?n" "\<forall>x \<in> set r. unat x < ?n"
    using assms by (auto simp: midx_wf_def)
  obtain f where f: "invert_order r 0 (replicate ?n 0) = Inr f" "length f = ?n"
    "\<forall>j < ?n. f ! unat (r ! j) = word_of_nat j"
    using invert_order_inverts [of r "replicate ?n 0" 0] r by auto
  have "unat ` set r = {..<?n}"
  proof (rule card_subset_eq)
    show "unat ` set r \<subseteq> {..<?n}"
      using r(3) by auto
    have "inj_on unat (set r)"
      by (simp add: inj_on_def word_unat_eq_iff)
    then show "card (unat ` set r) = card {..<?n}"
      using r(1,2) by (simp add: card_image distinct_card)
  qed simp
  with f show ?thesis
    using r(2) by (intro that) simp_all
qed

text \<open>On a decoded index with a reverse index, the cached inverse never panics and
  \<open>bitmap_position\<close> and \<open>object_at_bitmap_position\<close> are inverse to each other.\<close>

lemma bitmap_position_inverse:
  assumes "decode_multi_pack_index H bs = Inr m" "reverse_index m = Some r"
  shows "no_panic (bitmap_position m i)
    \<and> (pos < length r \<longrightarrow> (\<exists>j \<in> set (midx_ids m). object_at_bitmap_position m pos = Some j
          \<and> bitmap_position m j = Inr (Some (word_of_nat pos))))
    \<and> (i \<in> set (midx_ids m) \<longrightarrow> (\<exists>p. bitmap_position m i = Inr (Some p)
          \<and> object_at_bitmap_position m (unat p) = Some i))
    \<and> (i \<notin> set (midx_ids m) \<longrightarrow> bitmap_position m i = Inr None)"
proof -
  let ?n = "length (midx_ids m)"
  have wf: "midx_wf H m"
    using assms(1) by (rule decode_midx_wf)
  note t = midx_wf_table [OF wf]
  have r: "length r = ?n" "\<forall>x \<in> set r. unat x < ?n" "?n < 2 ^ 32"
    using wf assms(2) by (auto simp: midx_wf_def)
  obtain f where f: "invert_order r 0 (replicate (length r) 0) = Inr f" "length f = ?n"
    "\<forall>j < ?n. f ! unat (r ! j) = word_of_nat j" and surj: "unat ` set r = {..<?n}"
    by (rule reverse_index_inverse [OF wf assms(2)])
  have bp: "bitmap_position m i = Inr (map_option (\<lambda>k. f ! k) (object_position m i))" for i
  proof (cases "object_position m i")
    case (Some k)
    then have "k < ?n"
      using object_position_Some [OF t] by blast
    then show ?thesis
      using Some f assms(2) r(1) by (simp add: bitmap_position_def forward_index_def)
  qed (use f assms(2) r(1) in \<open>simp add: bitmap_position_def forward_index_def\<close>)
  have small: "unat (word_of_nat j :: u32) = j" if "j < ?n" for j
    using that r(3) by (simp add: unat_of_nat)
  have fwd: "\<exists>j \<in> set (midx_ids m). object_at_bitmap_position m pos = Some j
      \<and> bitmap_position m j = Inr (Some (word_of_nat pos))" if "pos < ?n" for pos
  proof -
    have k: "unat (r ! pos) < ?n"
      using r that by simp
    moreover have "object_position m (midx_ids m ! unat (r ! pos)) = Some (unat (r ! pos))"
      using k object_position_Some [OF t] by blast
    ultimately show ?thesis
      using that f(3) assms(2) r(1) by (auto simp: bp object_at_bitmap_position_def)
  qed
  have bwd: "\<exists>p. bitmap_position m i = Inr (Some p) \<and> object_at_bitmap_position m (unat p) = Some i"
    if mem: "i \<in> set (midx_ids m)" for i
  proof -
    obtain k where p: "object_position m i = Some k"
      using object_position_None [OF t, of i] mem by (cases "object_position m i") auto
    then have k: "object_position m i = Some k" "k < ?n" "midx_ids m ! k = i"
      using object_position_Some [OF t, of i k] by auto
    obtain j where j: "j < ?n" "unat (r ! j) = k"
      using surj k(2) r(1) by (metis imageE in_set_conv_nth lessThan_iff)
    then have "f ! k = word_of_nat j"
      using f(3) by blast
    then show ?thesis
      using k j small [OF j(1)] assms(2) r(1) by (simp add: bp object_at_bitmap_position_def)
  qed
  show ?thesis
    using fwd [of pos] bwd [of i] r(1) object_position_None [OF t, of i] by (auto simp: bp)
qed


lemma bitmap_position_inverse_instance:
  "\<exists>bs m. decode_multi_pack_index (sha1 (sum_digest 20)) bs = Inr m
     \<and> object_at_bitmap_position m 0 = Some (ObjectId (7 # replicate 19 0))
     \<and> bitmap_position m (ObjectId (7 # replicate 19 0)) = Inr (Some 0)"
proof -
  let ?H = "sha1 (sum_digest 20)"
  obtain out m where dec: "decode_multi_pack_index ?H (out @ digest ?H out) = Inr m"
    and m: "m = decoded_midx ?H example_names (sorted_midx_entries (Some 1) example_entries) (Some 1) (digest ?H out)"
    using encode_decode_midx [OF hash_ok_sha1 example_facts(1-3), of "Some 1"] example_facts(4-7) by auto
  have r: "reverse_index m = Some (pack_order [(1, 0x123456789)] 1)" "midx_ids m = [ObjectId (7 # replicate 19 0)]"
    by (simp_all add: m decoded_midx_def Let_def example_facts(7))
  have "length (pack_order [(1, 0x123456789)] 1) = 1"
    by (simp add: pack_order_def)
  with bitmap_position_inverse [OF dec r(1), of undefined 0] r(2) dec show ?thesis
    by fastforce
qed

end
