(* ===== verification/Git_Enumerate.thy ===== *)
theory Git_Enumerate
  imports Git_Commit Git_Tag Git_Tree
begin

text \<open>
  The objects to send, \<open>gitana-object/src/enumerate.rs\<close>: which ids an object references,
  and the worklist walk from the wanted tips that avoids everything reachable from the tips the
  other side has. The walk \<open>while let Some(id) = stack.pop()\<close>, which the bitmap builder
  shares, is one definition with its own interface. The object reader is a parameter.
\<close>

section \<open>References\<close>

definition GITLINK_MODE :: bytes where "GITLINK_MODE = ascii ''160000''"

fun referenced_ids :: "hash_alg \<Rightarrow> object_kind \<Rightarrow> bytes \<Rightarrow> object_id list ores" where
  "referenced_ids H Commit d = ebind (parse_commit H d) (\<lambda>c. Inr (tree c # parents c))"
| "referenced_ids H Tree d =
     ebind (parse_tree H d) (\<lambda>es. Inr (map entry_id (filter (\<lambda>e. mode e \<noteq> GITLINK_MODE) es)))"
| "referenced_ids H Tag d = ebind (parse_tag H d) (\<lambda>t. Inr [tag_object t])"
| "referenced_ids H Blob d = Inr []"

section \<open>The worklist walk\<close>

text \<open>
  The stack is a list with the top first: \<open>stack.pop()\<close> takes the head,
  \<open>stack.extend(ids)\<close> puts the reverse of \<open>ids\<close> in front. \<open>expand\<close> is the
  body of the loop: the ids to push and what to append to the output. The loop may run forever
  (on an infinite graph), so its value is an option.
\<close>

partial_function (option) walk ::
  "'i set \<Rightarrow> ('i \<Rightarrow> ('e, 'i list \<times> 'o list) res) \<Rightarrow> 'i set \<Rightarrow> 'o list \<Rightarrow> 'i list
     \<Rightarrow> ('e, 'i set \<times> 'o list) res option" where
  "walk excluded expand visited out stack =
     (case stack of
        [] \<Rightarrow> Some (Inr (visited, out))
      | i # stack \<Rightarrow>
          if i \<in> excluded \<or> i \<in> visited then walk excluded expand visited out stack
          else
            (case expand i of
               Inl e \<Rightarrow> Some (Inl e)
             | Inr (ids, o1) \<Rightarrow> walk excluded expand (insert i visited) (out @ o1) (rev ids @ stack)))"

record packed_object =
  po_id :: object_id
  po_kind :: object_kind
  po_data :: bytes

type_synonym reader = "object_id \<Rightarrow> (object_kind \<times> bytes) option ores"

text \<open>The loop body of the first pass: an id that \<open>read\<close> does not know is a leaf.\<close>

definition expand_have :: "hash_alg \<Rightarrow> reader \<Rightarrow> object_id \<Rightarrow> (object_id list \<times> unit list) ores" where
  "expand_have H read i =
     ebind (read i) (\<lambda>r.
       case r of
         None \<Rightarrow> Inr ([], [])
       | Some (kind, data) \<Rightarrow> ebind (referenced_ids H kind data) (\<lambda>ids. Inr (ids, [])))"

text \<open>The loop body of the second pass: an unknown id is an error, a known one is collected.\<close>

definition expand_want ::
  "hash_alg \<Rightarrow> reader \<Rightarrow> object_id \<Rightarrow> (object_id list \<times> packed_object list) ores" where
  "expand_want H read i =
     ebind (read i) (\<lambda>r.
     ebind (ok_or r MissingObject) (\<lambda>(kind, data).
     ebind (referenced_ids H kind data) (\<lambda>ids.
       Inr (ids, [\<lparr>po_id = i, po_kind = kind, po_data = data\<rparr>]))))"

definition enumerate_objects ::
  "hash_alg \<Rightarrow> object_id list \<Rightarrow> object_id list \<Rightarrow> reader \<Rightarrow> packed_object list ores option" where
  "enumerate_objects H wants haves read =
     (case walk {} (expand_have H read) {} [] (rev haves) of
        None \<Rightarrow> None
      | Some (Inl e) \<Rightarrow> Some (Inl e)
      | Some (Inr (excluded, _)) \<Rightarrow>
          (case walk excluded (expand_want H read) {} [] (rev wants) of
             None \<Rightarrow> None
           | Some (Inl e) \<Rightarrow> Some (Inl e)
           | Some (Inr (_, result)) \<Rightarrow> Some (Inr result)))"

section \<open>Every referenced id has the width of the algorithm\<close>

definition field_ids_ok :: "hash_alg \<Rightarrow> object_id option \<Rightarrow> object_id list \<Rightarrow> bool" where
  "field_ids_ok H t ps \<longleftrightarrow> (\<forall>i \<in> set_option t. id_ok H i) \<and> (\<forall>i \<in> set ps. id_ok H i)"

lemma field_ids_ok_set:
  "field_ids_ok H t ps \<Longrightarrow> id_ok H i \<Longrightarrow> field_ids_ok H (Some i) ps"
  "field_ids_ok H t ps \<Longrightarrow> id_ok H i \<Longrightarrow> field_ids_ok H t (ps @ [i])"
  by (auto simp: field_ids_ok_def)

lemma commit_lines_ids:
  "commit_lines H ls f = Inr g \<Longrightarrow> field_ids_ok H (f_tree f) (f_parents f) \<Longrightarrow>
   field_ids_ok H (f_tree g) (f_parents g)"
proof (induction "length ls" arbitrary: ls f rule: less_induct)
  case less
  show ?case
  proof (cases ls)
    case (Cons line lines)
    note IH = less.hyps [unfolded Cons, rotated 1]
    have "length lines' < length ls" if "unfold v lines = (w, lines')" for v w lines'
      using unfold_shorter [OF that] Cons by simp
    moreover have "field_ids_ok H (Some i) (f_parents f)" "field_ids_ok H (f_tree f) (f_parents f @ [i])"
      if "from_hex H x = Inr i" for x i
      using less.prems(2) from_hex_ok [OF that] by (auto intro: field_ids_ok_set)
    ultimately show ?thesis
      using less.prems unfolding Cons
      by (subst (asm) commit_lines.simps(2))
         (auto simp: ebind_eq_Inr intro: IH
           split: option.splits prod.splits if_splits simp del: ascii_Cons)
  qed (use less.prems in simp)
qed


lemma parse_commit_ids: "parse_commit H d = Inr c \<Longrightarrow> \<forall>i \<in> set (tree c # parents c). id_ok H i"
  by (auto simp: parse_commit_def ebind_eq_Inr field_ids_ok_def no_fields_def dest!: commit_lines_ids)

lemma tag_lines_ids:
  "tag_lines H ls f = Inr g \<Longrightarrow> \<forall>i \<in> set_option (tf_object f). id_ok H i \<Longrightarrow> \<forall>i \<in> set_option (tf_object g). id_ok H i"
proof (induction ls arbitrary: f)
  case (Cons line lines)
  from Cons.prems show ?case
    by (subst (asm) tag_lines.simps(2))
       (auto simp: ebind_eq_Inr simp del: ascii_Cons dest: from_hex_ok dest!: Cons.IH split: option.splits)
qed simp

lemma parse_tag_ids: "parse_tag H d = Inr t \<Longrightarrow> id_ok H (tag_object t)"
  by (auto simp: parse_tag_def ebind_eq_Inr no_tag_fields_def dest!: tag_lines_ids)

lemma referenced_ids_ok: "referenced_ids H k d = Inr ids \<Longrightarrow> \<forall>i \<in> set ids. id_ok H i"
  by (cases k) (auto simp: ebind_eq_Inr parse_tree_Inr entry_ok_def dest: parse_commit_ids parse_tag_ids)

definition ids_of :: "hash_alg \<Rightarrow> object_id set" where
  "ids_of H = {i. id_ok H i}"

lemma finite_ids: "finite (ids_of H)"
proof (rule finite_imageD)
  have "id_bytes ` ids_of H \<subseteq> {bs. set bs \<subseteq> UNIV \<and> length bs = raw_len H}"
    by (auto simp: ids_of_def id_ok_def)
  then show "finite (id_bytes ` ids_of H)"
    by (rule finite_subset) (rule finite_lists_length_eq, simp)
  show "inj_on id_bytes (ids_of H)"
    by (auto intro: inj_onI object_id.expand)
qed

section \<open>What the walk computes\<close>

text \<open>The nodes reached from \<open>S\<close> along successful expansions, never through \<open>X\<close>.\<close>

inductive reach :: "('i \<Rightarrow> ('e, 'i list \<times> 'o list) res) \<Rightarrow> 'i set \<Rightarrow> 'i set \<Rightarrow> 'i \<Rightarrow> bool"
  for expand X S where
  start: "i \<in> S \<Longrightarrow> i \<notin> X \<Longrightarrow> reach expand X S i"
| step: "reach expand X S i \<Longrightarrow> expand i = Inr (ids, o1) \<Longrightarrow> j \<in> set ids \<Longrightarrow> j \<notin> X \<Longrightarrow> reach expand X S j"

inductive_cases reachE: "reach expand X S i"

lemma reach_not_excluded: "reach expand X S i \<Longrightarrow> i \<notin> X"
  by (cases rule: reach.cases) auto

lemma reach_mono: "reach expand X S i \<Longrightarrow> S \<subseteq> T \<Longrightarrow> reach expand X T i"
  by (induction rule: reach.induct) (auto intro: reach.intros)

lemma reach_from_child:
  assumes "reach expand X (set ids \<union> S) j" "expand i = Inr (ids, o1)" "reach expand X T i" "S \<subseteq> T"
  shows "reach expand X T j"
  using assms(1)
proof (induction rule: reach.induct)
  case (start j)
  then show ?case
    using assms(2-4) by (auto intro: reach.intros)
qed (auto intro: reach.step)

lemma reach_closed:
  assumes "\<And>i ids o1 j. i \<in> X \<Longrightarrow> expand i = Inr (ids, o1) \<Longrightarrow> j \<in> set ids \<Longrightarrow> j \<in> X"
  shows "reach expand X S j \<longleftrightarrow> reach expand {} S j \<and> j \<notin> X"
proof
  show "reach expand X S j \<Longrightarrow> reach expand {} S j \<and> j \<notin> X"
    by (induction rule: reach.induct) (auto intro: reach.intros)
  have "reach expand {} S j \<Longrightarrow> j \<notin> X \<longrightarrow> reach expand X S j"
    by (induction rule: reach.induct) (auto intro: reach.intros assms)
  then show "reach expand {} S j \<and> j \<notin> X \<Longrightarrow> reach expand X S j"
    by blast
qed

text \<open>
  What a run of the walk returns, from the visited set \<open>V\<close> and the ids \<open>S\<close> on the
  stack: the newly visited ids are those reached, each expanded once and closed under expansion,
  or the error of an id that is reached.
\<close>

abbreviation outputs :: "('i \<Rightarrow> ('e, 'i list \<times> 'o list) res) \<Rightarrow> 'i list \<Rightarrow> 'o list" where
  "outputs expand vs \<equiv> concat (map (\<lambda>i. snd (projr (expand i))) vs)"

definition expanded_within :: "('i \<Rightarrow> ('e, 'i list \<times> 'o list) res) \<Rightarrow> 'i set \<Rightarrow> 'i \<Rightarrow> bool" where
  "expanded_within expand W v \<longleftrightarrow> (\<exists>ids o1. expand v = Inr (ids, o1) \<and> set ids \<subseteq> W)"

definition walk_post ::
  "('i \<Rightarrow> ('e, 'i list \<times> 'o list) res) \<Rightarrow> 'i set \<Rightarrow> 'i set \<Rightarrow> 'o list \<Rightarrow> 'i set
     \<Rightarrow> ('e, 'i set \<times> 'o list) res \<Rightarrow> bool" where
  "walk_post expand X V out S r \<longleftrightarrow>
     (\<exists>V' vs. r = Inr (V', out @ outputs expand vs) \<and> V \<subseteq> V' \<and> distinct vs \<and> set vs = V' - V
        \<and> S \<subseteq> X \<union> V' \<and> (\<forall>v \<in> V'. expanded_within expand (X \<union> V') v)
        \<and> (\<forall>v \<in> V' - V. reach expand X S v))
     \<or> (\<exists>e i. r = Inl e \<and> reach expand X S i \<and> expand i = Inl e)"

lemma walk_post_finished:
  assumes "V \<subseteq> V'" "distinct vs" "set vs = V' - V" "S \<subseteq> X \<union> V'"
    and "\<forall>v \<in> V'. expanded_within expand (X \<union> V') v" "\<forall>v \<in> V' - V. reach expand X S v"
  shows "walk_post expand X V out S (Inr (V', out @ outputs expand vs))"
  unfolding walk_post_def using assms by blast

lemma walk_post_error: "reach expand X S i \<Longrightarrow> expand i = Inl e \<Longrightarrow> walk_post expand X V out S (Inl e)"
  unfolding walk_post_def by blast

lemma walk_postE:
  assumes "walk_post expand X V out S r"
  obtains (finished) V' vs where "r = Inr (V', out @ outputs expand vs)" "V \<subseteq> V'" "distinct vs"
      "set vs = V' - V" "S \<subseteq> X \<union> V'" "\<forall>v \<in> V'. expanded_within expand (X \<union> V') v"
      "\<forall>v \<in> V' - V. reach expand X S v"
  | (error) e j where "r = Inl e" "reach expand X S j" "expand j = Inl e"
  using assms unfolding walk_post_def by blast

lemma walk_post_skip:
  assumes "walk_post expand X V out S r" "i \<in> X \<or> i \<in> V"
  shows "walk_post expand X V out (insert i S) r"
  using assms(1)
proof (cases rule: walk_postE)
  case (finished V' vs)
  have "insert i S \<subseteq> X \<union> V'" "\<forall>v \<in> V' - V. reach expand X (insert i S) v"
    using finished assms(2) by (auto intro: reach_mono)
  with finished show ?thesis
    by (auto intro: walk_post_finished)
next
  case (error e j)
  then show ?thesis
    by (auto intro: walk_post_error reach_mono)
qed

lemma walk_post_expand:
  assumes "walk_post expand X (insert i V) (out @ o1) (set ids \<union> S) r"
    and "expand i = Inr (ids, o1)" "i \<notin> X" "i \<notin> V"
  shows "walk_post expand X V out (insert i S) r"
proof -
  have i: "reach expand X (insert i S) i"
    using assms(3) by (auto intro: reach.start)
  have lift: "reach expand X (set ids \<union> S) j \<Longrightarrow> reach expand X (insert i S) j" for j
    using reach_from_child [OF _ assms(2) i, of S j] by auto
  from assms(1) show ?thesis
  proof (cases rule: walk_postE)
    case (finished V' vs)
    have "distinct (i # vs)" "set (i # vs) = V' - V" "insert i S \<subseteq> X \<union> V'" "V \<subseteq> V'"
      "\<forall>v \<in> V' - V. reach expand X (insert i S) v"
      using finished assms(4) i lift by auto
    from walk_post_finished [OF this(4,1,2,3) finished(6) this(5), of out] show ?thesis
      using finished(1) assms(2) by simp
  next
    case (error e j)
    then show ?thesis
      using lift walk_post_error by fast
  qed
qed

locale graph_walk =
  fixes expand :: "'i \<Rightarrow> ('e, 'i list \<times> 'o list) res" and U :: "'i set"
  assumes finite_universe: "finite U"
    and expand_universe: "expand i = Inr (ids, o1) \<Longrightarrow> set ids \<subseteq> U"
begin

lemma walk_run:
  assumes "\<forall>v \<in> V. expanded_within expand (X \<union> V \<union> set st) v"
  shows "\<exists>r. walk X expand V out st = Some r \<and> walk_post expand X V out (set st) r"
  using assms
proof (induction "(card ((U \<union> set st) - V), length st)" arbitrary: V out st
    rule: wf_induct_rule [OF wf_lex_prod [OF wf_less wf_less]])
  case (1 V st out)
  show ?case
  proof (cases st)
    case Nil
    then have "walk_post expand X V out (set st) (Inr (V, out @ outputs expand []))"
      using 1(2) by (intro walk_post_finished) auto
    then show ?thesis
      using Nil by (simp add: walk.simps)
  next
    case (Cons i st')
    have fin: "finite ((U \<union> set st) - V)"
      using finite_universe by simp
    show ?thesis
    proof (cases "i \<in> X \<or> i \<in> V")
      case True
      have "card ((U \<union> set st') - V) \<le> card ((U \<union> set st) - V)"
        using fin Cons by (intro card_mono) auto
      moreover have "\<forall>v \<in> V. expanded_within expand (X \<union> V \<union> set st') v"
        using 1(2) True Cons unfolding expanded_within_def by fastforce
      ultimately obtain r where "walk X expand V out st' = Some r" "walk_post expand X V out (set st') r"
        using "1.hyps" [of st' V out] Cons by fastforce
      moreover have "walk X expand V out st = walk X expand V out st'"
        unfolding Cons by (subst walk.simps) (use True in simp)
      ultimately show ?thesis
        using walk_post_skip [OF _ True] Cons by simp
    next
      case False
      show ?thesis
      proof (cases "expand i")
        case (Inl e)
        then have "walk X expand V out st = Some (Inl e)"
          unfolding Cons by (subst walk.simps) (use False in simp)
        moreover have "reach expand X (set st) i"
          using False Cons by (auto intro: reach.start)
        ultimately show ?thesis
          using walk_post_error [of expand X "set st" i e] Inl by simp
      next
        case (Inr p)
        then obtain ids o1 where p: "expand i = Inr (ids, o1)"
          by (cases p) auto
        let ?V = "insert i V" and ?st = "rev ids @ st'"
        have "(U \<union> set ?st) - ?V \<subset> (U \<union> set st) - V"
          using expand_universe [OF p] False Cons by auto
        then have "card ((U \<union> set ?st) - ?V) < card ((U \<union> set st) - V)"
          using fin by (intro psubset_card_mono) auto
        moreover have "\<forall>v \<in> ?V. expanded_within expand (X \<union> ?V \<union> set ?st) v"
          using 1(2) p Cons unfolding expanded_within_def by fastforce
        ultimately obtain r where r: "walk X expand ?V (out @ o1) ?st = Some r"
          "walk_post expand X ?V (out @ o1) (set ids \<union> set st') r"
          using "1.hyps" [of ?st ?V "out @ o1"] by auto
        have "walk X expand V out st = walk X expand ?V (out @ o1) ?st"
          unfolding Cons by (subst walk.simps) (use False p in simp)
        moreover have "walk_post expand X V out (set st) r"
          using walk_post_expand [OF r(2) p] False Cons by simp
        ultimately show ?thesis
          using r(1) by simp
      qed
    qed
  qed
qed

lemma walk_reaches:
  fixes X :: "'i set" and st :: "'i list"
  defines "R \<equiv> Collect (reach expand X (set st))"
  shows "if \<forall>i \<in> R. \<exists>p. expand i = Inr p
     then \<exists>vs. distinct vs \<and> set vs = R
        \<and> walk X expand {} [] st = Some (Inr (R, concat (map (\<lambda>i. snd (projr (expand i))) vs)))
     else \<exists>e i. i \<in> R \<and> expand i = Inl e \<and> walk X expand {} [] st = Some (Inl e)"
proof -
  obtain r where r: "walk X expand {} [] st = Some r" "walk_post expand X {} [] (set st) r"
    using walk_run [of "{}" X st "[]"] by auto
  from r(2) show ?thesis
  proof (cases rule: walk_postE)
    case (finished V' vs)
    have "i \<in> V'" if "reach expand X (set st) i" for i
      using that
    proof (induction rule: reach.induct)
      case (step i ids o1 j)
      then show ?case
        using finished(6) unfolding expanded_within_def by fastforce
    qed (use finished(5) in auto)
    then have R: "R = V'"
      using finished(7) by (auto simp: R_def)
    then have "\<forall>i \<in> R. \<exists>p. expand i = Inr p"
      using finished(6) by (auto simp: expanded_within_def)
    then show ?thesis
      using finished(1,3,4) r(1) R by auto
  next
    case (error e j)
    then show ?thesis
      using r(1) by (auto simp: R_def)
  qed
qed

end

section \<open>The two passes\<close>

interpretation haves: graph_walk "expand_have H read" "ids_of H" for H read
proof
  show "expand_have H read i = Inr (ids, o1) \<Longrightarrow> set ids \<subseteq> ids_of H" for i ids o1
    using referenced_ids_ok [of H] by (fastforce simp: expand_have_def ebind_eq_Inr ids_of_def split: option.splits)
qed (rule finite_ids)

interpretation wants: graph_walk "expand_want H read" "ids_of H" for H read
proof
  show "expand_want H read i = Inr (ids, o1) \<Longrightarrow> set ids \<subseteq> ids_of H" for i ids o1
    using referenced_ids_ok [of H] by (fastforce simp: expand_want_def ebind_eq_Inr ids_of_def)
qed (rule finite_ids)

definition refers :: "hash_alg \<Rightarrow> reader \<Rightarrow> object_id \<Rightarrow> object_id \<Rightarrow> bool" where
  "refers H read i j \<longleftrightarrow>
     (\<exists>k d ids. read i = Inr (Some (k, d)) \<and> referenced_ids H k d = Inr ids \<and> j \<in> set ids)"

definition reachable_from :: "hash_alg \<Rightarrow> reader \<Rightarrow> object_id list \<Rightarrow> object_id set" where
  "reachable_from H read S = {j. \<exists>i \<in> set S. (refers H read)\<^sup>*\<^sup>* i j}"

definition readable :: "hash_alg \<Rightarrow> reader \<Rightarrow> object_id \<Rightarrow> bool" where
  "readable H read i \<longleftrightarrow>
     read i = Inr None \<or> (\<exists>k d ids. read i = Inr (Some (k, d)) \<and> referenced_ids H k d = Inr ids)"

lemma reach_refers:
  assumes "\<And>i j. (\<exists>ids o1. expand i = Inr (ids, o1) \<and> j \<in> set ids) \<longleftrightarrow> refers H read i j"
  shows "reach expand {} (set S) j \<longleftrightarrow> j \<in> reachable_from H read S"
proof
  show "reach expand {} (set S) j \<Longrightarrow> j \<in> reachable_from H read S"
  proof (induction rule: reach.induct)
    case (step i ids o1 j)
    then have "refers H read i j"
      using assms by blast
    then show ?case
      using step.IH by (auto simp: reachable_from_def intro: rtranclp.rtrancl_into_rtrancl)
  qed (auto simp: reachable_from_def)
next
  assume "j \<in> reachable_from H read S"
  then obtain i where i: "i \<in> set S" "(refers H read)\<^sup>*\<^sup>* i j"
    by (auto simp: reachable_from_def)
  from i(2) show "reach expand {} (set S) j"
  proof induction
    case (step y z)
    then obtain ids o1 where "expand y = Inr (ids, o1)" "z \<in> set ids"
      using assms by blast
    then show ?case
      using step.IH by (auto intro: reach.step)
  qed (use i(1) in \<open>auto intro: reach.start\<close>)
qed

lemma expand_have_eq:
  "expand_have H read i = Inr (ids, o1) \<longleftrightarrow> o1 = [] \<and>
     (read i = Inr None \<and> ids = [] \<or> (\<exists>k d. read i = Inr (Some (k, d)) \<and> referenced_ids H k d = Inr ids))"
  by (cases "read i") (auto simp: expand_have_def ebind_eq_Inr split: option.splits)

lemma expand_have_refers: "(\<exists>ids o1. expand_have H read i = Inr (ids, o1) \<and> j \<in> set ids) \<longleftrightarrow> refers H read i j"
  by (auto simp: expand_have_eq refers_def)

lemma expand_want_refers: "(\<exists>ids o1. expand_want H read i = Inr (ids, o1) \<and> j \<in> set ids) \<longleftrightarrow> refers H read i j"
  by (auto simp: expand_want_def ebind_eq_Inr refers_def)

lemma expand_have_Inr: "(\<exists>p. expand_have H read i = Inr p) \<longleftrightarrow> readable H read i"
  by (auto simp: expand_have_eq readable_def)

lemma expand_want_Inr: "(\<exists>p. expand_want H read i = Inr p) \<longleftrightarrow> readable H read i \<and> read i \<noteq> Inr None"
  by (auto simp: expand_want_def ebind_eq_Inr readable_def split: option.splits)

text \<open>How an object fails: its reader does, or what it holds does not parse.\<close>

definition fails_with :: "hash_alg \<Rightarrow> reader \<Rightarrow> object_id \<Rightarrow> object_error fail \<Rightarrow> bool" where
  "fails_with H read i e \<longleftrightarrow>
     read i = Inl e \<or> (\<exists>k d. read i = Inr (Some (k, d)) \<and> referenced_ids H k d = Inl e)"

lemma expand_have_Inl: "expand_have H read i = Inl e \<Longrightarrow> fails_with H read i e"
  by (auto simp: expand_have_def ebind_eq_Inl fails_with_def split: option.splits)

lemma expand_want_Inl:
  "expand_want H read i = Inl e \<Longrightarrow> fails_with H read i e \<or> read i = Inr None \<and> e = Err MissingObject"
  by (cases "read i") (auto simp: expand_want_def ebind_eq_Inl fails_with_def ok_or_def split: option.splits)

lemma enumerate_objects_result:
  fixes H read wants haves
  defines "E \<equiv> reachable_from H read haves"
  defines "W \<equiv> reachable_from H read wants - E"
  shows "if (\<forall>i \<in> E. readable H read i) \<and> (\<forall>i \<in> W. readable H read i \<and> read i \<noteq> Inr None)
     then \<exists>objs. enumerate_objects H wants haves read = Some (Inr objs)
        \<and> distinct (map po_id objs) \<and> po_id ` set objs = W
        \<and> (\<forall>b \<in> set objs. read (po_id b) = Inr (Some (po_kind b, po_data b)))
     else \<exists>e. enumerate_objects H wants haves read = Some (Inl e)
        \<and> ((\<exists>i \<in> E \<union> W. fails_with H read i e) \<or> (\<exists>i \<in> W. read i = Inr None) \<and> e = Err MissingObject)"
proof -
  have E: "Collect (reach (expand_have H read) {} (set (rev haves))) = E"
    using reach_refers [of "expand_have H read" H read haves, OF expand_have_refers] by (auto simp: E_def)
  have closed: "j \<in> E" if "i \<in> E" "expand_want H read i = Inr (ids, o1)" "j \<in> set ids" for i ids o1 j
  proof -
    have "refers H read i j"
      using that(2,3) expand_want_refers by blast
    then show ?thesis
      using that(1) by (auto simp: E_def reachable_from_def intro: rtranclp.rtrancl_into_rtrancl)
  qed
  have W: "Collect (reach (expand_want H read) E (set (rev wants))) = W"
  proof -
    have "reach (expand_want H read) E (set (rev wants)) j \<longleftrightarrow> reach (expand_want H read) {} (set (rev wants)) j \<and> j \<notin> E" for j
      by (rule reach_closed) (use closed in blast)
    then show ?thesis
      using reach_refers [of "expand_want H read" H read wants, OF expand_want_refers] by (auto simp: W_def)
  qed
  note h = haves.walk_reaches [of H read "{}" "rev haves", unfolded E expand_have_Inr]
  note w = wants.walk_reaches [of H read E "rev wants", unfolded W expand_want_Inr]
  show ?thesis
  proof (cases "\<forall>i \<in> E. readable H read i")
    case False
    then obtain e i where "walk {} (expand_have H read) {} [] (rev haves) = Some (Inl e)" "i \<in> E" "fails_with H read i e"
      using h [unfolded if_not_P [OF False]] expand_have_Inl by blast
    then show ?thesis
      using False by (auto simp: enumerate_objects_def)
  next
    case ok: True
    then obtain o1 where h': "walk {} (expand_have H read) {} [] (rev haves) = Some (Inr (E, o1))"
      using h by auto
    show ?thesis
    proof (cases "\<forall>i \<in> W. readable H read i \<and> read i \<noteq> Inr None")
      case False
      then obtain e i where "i \<in> W" "expand_want H read i = Inl e" and
        "walk E (expand_want H read) {} [] (rev wants) = Some (Inl e)"
        using w [unfolded if_not_P [OF False]] by blast
      then have "enumerate_objects H wants haves read = Some (Inl e)"
        "(\<exists>i \<in> E \<union> W. fails_with H read i e) \<or> (\<exists>i \<in> W. read i = Inr None) \<and> e = Err MissingObject"
        using h' expand_want_Inl [OF \<open>expand_want H read i = Inl e\<close>] \<open>i \<in> W\<close> by (auto simp: enumerate_objects_def)
      then show ?thesis
        using False by auto
    next
      case True
      let ?f = "\<lambda>i. snd (projr (expand_want H read i))"
      obtain vs where vs: "distinct vs" "set vs = W"
        "walk E (expand_want H read) {} [] (rev wants) = Some (Inr (W, concat (map ?f vs)))"
        using True w by auto
      have one: "\<exists>k d. read i = Inr (Some (k, d)) \<and> ?f i = [\<lparr>po_id = i, po_kind = k, po_data = d\<rparr>]" if "i \<in> W" for i
        using True that by (auto simp: readable_def expand_want_def)
      have "map po_id (concat (map ?f vs)) = vs"
        using vs(2) one by (induction vs arbitrary: W) fastforce+
      moreover have "\<forall>b \<in> set (concat (map ?f vs)). read (po_id b) = Inr (Some (po_kind b, po_data b))"
        using vs(2) one by fastforce
      ultimately show ?thesis
        using ok True h' vs by (auto simp: enumerate_objects_def simp flip: set_map)
    qed
  qed
qed


lemma reachable_step: "i \<in> reachable_from H read S \<Longrightarrow> refers H read i j \<Longrightarrow> j \<in> reachable_from H read S"
  by (auto simp: reachable_from_def intro: rtranclp.rtrancl_into_rtrancl)

section \<open>Properties\<close>

text \<open>A store of a tree with one blob, for the concrete instances.\<close>

definition example_blob :: object_id where "example_blob = ObjectId (replicate 20 2)"
definition example_tree :: object_id where "example_tree = ObjectId (replicate 20 1)"

definition example_store :: reader where
  "example_store i =
     (if i = example_tree
      then Inr (Some (Tree, encode_entry \<lparr>mode = ascii ''100644'', name = ascii ''f'', entry_id = example_blob\<rparr>))
      else if i = example_blob then Inr (Some (Blob, [7])) else Inr None)"

lemma example_refs:
  "referenced_ids (sha1 d) Tree (encode_entry \<lparr>mode = ascii ''100644'', name = ascii ''f'', entry_id = example_blob\<rparr>)
     = Inr [example_blob]"
proof -
  have "parse_tree (sha1 d) (encode_entry \<lparr>mode = ascii ''100644'', name = ascii ''f'', entry_id = example_blob\<rparr>)
      = Inr [\<lparr>mode = ascii ''100644'', name = ascii ''f'', entry_id = example_blob\<rparr>]"
    by (simp add: parse_tree_Inr entry_ok_def id_ok_def example_blob_def sha1_def)
  then show ?thesis
    by (simp add: GITLINK_MODE_def)
qed

lemma example_neq: "example_tree \<noteq> example_blob"
proof
  assume "example_tree = example_blob"
  then have "id_bytes example_tree ! 0 = id_bytes example_blob ! 0"
    by simp
  then show False
    by (simp add: example_tree_def example_blob_def)
qed

lemma example_refers: "refers (sha1 d) example_store i j \<longleftrightarrow> i = example_tree \<and> j = example_blob"
  using example_refs [of d] by (auto simp: refers_def example_store_def simp del: referenced_ids.simps(2))

lemma example_reachable: "reachable_from (sha1 d) example_store [example_tree] = {example_tree, example_blob}"
proof -
  have "(refers (sha1 d) example_store)\<^sup>*\<^sup>* example_tree j \<Longrightarrow> j \<in> {example_tree, example_blob}" for j
    by (induction rule: rtranclp_induct) (auto simp: example_refers)
  moreover have "(refers (sha1 d) example_store)\<^sup>*\<^sup>* example_tree example_blob"
    by (simp add: example_refers r_into_rtranclp)
  ultimately show ?thesis
    by (auto simp: reachable_from_def)
qed

lemma example_readable: "readable (sha1 d) example_store i"
  using example_refs [of d] by (auto simp: readable_def example_store_def simp del: referenced_ids.simps(2))

text \<open>C6: The enumeration always returns. When every object reachable from the haves can be read and
  parsed (or is unknown), and every object reachable from the wants but not from the haves is present and
  parses, it returns exactly the latter, each once and with its content. Otherwise it fails, and the
  failure is that of one of these objects: what its reader or its parser fails with (an error, or a panic
  if that panics), or \<open>MissingObject\<close> when a wanted object is absent.\<close>

theorem enumerate_correct:
  fixes H read wants haves
  defines "E \<equiv> reachable_from H read haves"
  defines "W \<equiv> reachable_from H read wants - E"
  shows "if (\<forall>i \<in> E. readable H read i) \<and> (\<forall>i \<in> W. readable H read i \<and> read i \<noteq> Inr None)
     then \<exists>objs. enumerate_objects H wants haves read = Some (Inr objs)
        \<and> distinct (map po_id objs) \<and> po_id ` set objs = W
        \<and> (\<forall>b \<in> set objs. read (po_id b) = Inr (Some (po_kind b, po_data b)))
     else \<exists>e. enumerate_objects H wants haves read = Some (Inl e)
        \<and> ((\<exists>i \<in> E \<union> W. fails_with H read i e) \<or> (\<exists>i \<in> W. read i = Inr None) \<and> e = Err MissingObject)"
  unfolding E_def W_def by (rule enumerate_objects_result)

theorem enumerate_correct_witness:
  "\<exists>objs. enumerate_objects (sha1 (sum_digest 20)) [example_tree] [] example_store = Some (Inr objs)
     \<and> distinct (map po_id objs) \<and> po_id ` set objs = {example_tree, example_blob}"
  using enumerate_correct [of "sha1 (sum_digest 20)" example_store "[]" "[example_tree]"] example_readable
  by (auto simp: example_reachable reachable_from_def [of _ _ "[]"] example_store_def split: if_splits)

text \<open>C35: What is sent is complete: everything an enumerated object references is enumerated too, or
  is reachable from an object the other side has.\<close>

theorem enumerated_pack_closed:
  assumes "enumerate_objects H wants haves read = Some (Inr objs)" "b \<in> set objs"
  shows "\<exists>ids. referenced_ids H (po_kind b) (po_data b) = Inr ids
     \<and> (\<forall>j \<in> set ids. j \<in> po_id ` set objs \<or> j \<in> reachable_from H read haves)"
proof -
  let ?E = "reachable_from H read haves" and ?R = "reachable_from H read wants"
  have ok: "(\<forall>i \<in> ?E. readable H read i) \<and> (\<forall>i \<in> ?R - ?E. readable H read i \<and> read i \<noteq> Inr None)"
    using enumerate_objects_result [of H read haves wants] assms(1) by (auto split: if_splits)
  then have objs: "po_id ` set objs = ?R - ?E" "read (po_id b) = Inr (Some (po_kind b, po_data b))"
    using enumerate_objects_result [of H read haves wants] assms by auto
  then have "po_id b \<in> ?R - ?E"
    using assms(2) by blast
  moreover from this have "readable H read (po_id b)"
    using ok by blast
  then obtain ids where ids: "referenced_ids H (po_kind b) (po_data b) = Inr ids"
    using objs(2) by (auto simp: readable_def)
  ultimately have "j \<in> ?R" if "j \<in> set ids" for j
    using reachable_step [of "po_id b" H read wants j] that objs(2) by (auto simp: refers_def)
  then show ?thesis
    using ids objs(1) by blast
qed

theorem enumerated_pack_closed_witness:
  "\<exists>objs b. enumerate_objects (sha1 (sum_digest 20)) [example_blob] [] example_store = Some (Inr objs) \<and> b \<in> set objs
     \<and> (\<exists>ids. referenced_ids (sha1 (sum_digest 20)) (po_kind b) (po_data b) = Inr ids)"
proof -
  let ?b = "\<lparr>po_id = example_blob, po_kind = Blob, po_data = [7]\<rparr>"
  have "enumerate_objects (sha1 (sum_digest 20)) [example_blob] [] example_store = Some (Inr [?b])"
    using example_neq
    by (simp add: enumerate_objects_def walk.simps expand_want_def example_store_def)
  with enumerated_pack_closed [OF this, of ?b] show ?thesis
    by auto
qed

end
