(* ===== verification/Git_Loose.thy ===== *)
theory Git_Loose
  imports Git_Delta
begin

text \<open>
  Loose objects, \<open>gitana-object/src/loose.rs\<close>, and the interface of the zlib library (crate
  flate2) that loose objects and packs are compressed with: what a stream inflates to, how it ends,
  and the compressor. The library is a parameter; the one fact relied on is that inflating a
  compressed payload, whatever follows it, gives the payload back and uses exactly its bytes.
\<close>

section \<open>The zlib library\<close>

text \<open>The end of a stream after the bytes delivered: complete (with the number of input bytes used),
  out of input, or corrupt with the message of the library's error.\<close>

datatype zlib_end = Stream_end nat | Needs_input | Corrupt string

record zlib_lib =
  inflate_run :: "bytes \<Rightarrow> bytes \<times> zlib_end"
  deflate :: "bytes \<Rightarrow> bytes"

definition zlib_ok :: "zlib_lib \<Rightarrow> bool" where
  "zlib_ok Z \<longleftrightarrow> (\<forall>d rest. inflate_run Z (deflate Z d @ rest) = (d, Stream_end (length (deflate Z d))))"

lemma zlib_okD: "zlib_ok Z \<Longrightarrow> inflate_run Z (deflate Z d @ rest) = (d, Stream_end (length (deflate Z d)))"
  by (simp add: zlib_ok_def)

lemma zlib_okD_whole: "zlib_ok Z \<Longrightarrow> inflate_run Z (deflate Z d) = (d, Stream_end (length (deflate Z d)))"
  using zlib_okD [of Z d "[]"] by simp

text \<open>A stand-in codec for the concrete instances: every byte is announced by a one, a zero ends.\<close>

definition toy_deflate :: "bytes \<Rightarrow> bytes" where
  "toy_deflate d = concat (map (\<lambda>b. [1, b]) d) @ [0]"

fun toy_inflate :: "bytes \<Rightarrow> nat \<Rightarrow> bytes \<times> zlib_end" where
  "toy_inflate (c # b # rest) n =
     (if c = 0 then ([], Stream_end (n + 1))
      else (case toy_inflate rest (n + 2) of (d, e) \<Rightarrow> (b # d, e)))"
| "toy_inflate [c] n = (if c = 0 then ([], Stream_end (n + 1)) else ([], Needs_input))"
| "toy_inflate [] n = ([], Needs_input)"

definition toy_zlib :: zlib_lib where
  "toy_zlib = \<lparr>inflate_run = (\<lambda>bs. toy_inflate bs 0), deflate = toy_deflate\<rparr>"

lemma toy_inflate_end: "toy_inflate (0 # rest) n = ([], Stream_end (n + 1))"
  by (cases rest) auto

lemma toy_inflate_deflate: "toy_inflate (toy_deflate d @ rest) n = (d, Stream_end (n + length (toy_deflate d)))"
  by (induction d arbitrary: n) (simp_all add: toy_deflate_def toy_inflate_end)

lemma zlib_ok_toy [simp]: "zlib_ok toy_zlib"
  by (simp add: zlib_ok_def toy_zlib_def toy_inflate_deflate)

section \<open>Loose objects\<close>

definition MAX_HEADER_SIZE :: nat where "MAX_HEADER_SIZE = 64"

definition loose_header :: "object_kind \<Rightarrow> nat \<Rightarrow> bytes" where
  "loose_header kind n = as_str kind @ [0x20] @ dec_nat n @ [0]"

definition encode_loose :: "zlib_lib \<Rightarrow> object_kind \<Rightarrow> bytes \<Rightarrow> bytes" where
  "encode_loose Z kind payload = deflate Z (loose_header kind (length payload) @ payload)"

text \<open>The read loop: chunks of at most 8192 bytes until the decoder reports the end or an error.\<close>

function inflate_chunks :: "bytes \<Rightarrow> bytes \<Rightarrow> zlib_end \<Rightarrow> nat \<Rightarrow> bytes ores" where
  "inflate_chunks out rest ending cap =
     (if rest = [] then
        (case ending of
           Stream_end _ \<Rightarrow> Inr out
         | Needs_input \<Rightarrow> fail_with (Zlib ''unexpected end of file'')
         | Corrupt message \<Rightarrow> fail_with (Zlib message))
      else
        let buf = take 8192 rest in
        if cap < length out + length buf then fail_with TooLarge
        else inflate_chunks (out @ buf) (drop 8192 rest) ending cap)"
  by pat_completeness auto
termination
  by (relation "measure (\<lambda>(_, rest, _). length rest)") auto

declare inflate_chunks.simps [simp del]

definition inflate_capped :: "zlib_lib \<Rightarrow> bytes \<Rightarrow> nat \<Rightarrow> bytes ores" where
  "inflate_capped Z compressed cap =
     (case inflate_run Z compressed of (out, ending) \<Rightarrow> inflate_chunks [] out ending cap)"

definition split_header :: "bytes \<Rightarrow> (bytes \<times> bytes) ores" where
  "split_header header =
     ebind (ok_or (position (\<lambda>b. b = 0x20) header) MalformedHeader) (\<lambda>sp.
       Inr (take sp header, drop (sp + 1) header))"

definition decode_loose_with_limit :: "zlib_lib \<Rightarrow> bytes \<Rightarrow> nat \<Rightarrow> (object_kind \<times> bytes) ores" where
  "decode_loose_with_limit Z compressed max_payload_size =
     (let limit = min max_payload_size MAX_OBJECT_SIZE in
      ebind (inflate_capped Z compressed (limit + MAX_HEADER_SIZE)) (\<lambda>raw.
      ebind (ok_or (position (\<lambda>b. b = 0) raw) MalformedHeader) (\<lambda>nul.
      ebind (split_header (take nul raw)) (\<lambda>(kind_bytes, size_bytes).
      ebind (from_wire kind_bytes) (\<lambda>kind.
      ebind (ok_or (if utf8_valid size_bytes then parse_unsigned 10 (2 ^ 64) size_bytes else None) MalformedHeader)
        (\<lambda>declared.
      if limit < declared then fail_with TooLarge
      else
        let actual = length raw - (nul + 1) in
        if actual \<noteq> declared then fail_with (LengthMismatch declared actual)
        else Inr (kind, drop (nul + 1) raw)))))))"

definition decode_loose :: "zlib_lib \<Rightarrow> bytes \<Rightarrow> (object_kind \<times> bytes) ores" where
  "decode_loose Z compressed = decode_loose_with_limit Z compressed MAX_OBJECT_SIZE"

text \<open>\<open>&hex[..2]\<close> and \<open>&hex[2..]\<close> of the hex form, which is ASCII.\<close>

definition loose_object_path :: "object_id \<Rightarrow> bytes ores" where
  "loose_object_path i =
     (let hex = to_hex i in
      ebind (str_slice hex 0 2) (\<lambda>a.
      ebind (str_slice hex 2 (length hex)) (\<lambda>b.
        Inr (ascii ''objects/'' @ a @ ascii ''/'' @ b))))"

section \<open>Inflating with a cap\<close>

lemma inflate_chunks_spec:
  "inflate_chunks out rest ending cap =
     (if rest \<noteq> [] \<and> cap < length out + length rest then fail_with TooLarge
      else (case ending of
              Stream_end _ \<Rightarrow> Inr (out @ rest)
            | Needs_input \<Rightarrow> fail_with (Zlib ''unexpected end of file'')
            | Corrupt message \<Rightarrow> fail_with (Zlib message)))"
proof (induction out rest ending cap rule: inflate_chunks.induct)
  case (1 out rest ending cap)
  show ?case
  proof (cases "rest = [] \<or> cap < length out + length (take 8192 rest)")
    case True
    then show ?thesis
      by (subst inflate_chunks.simps) (cases ending; auto simp: Let_def)
  next
    case False
    then have "inflate_chunks out rest ending cap = inflate_chunks (out @ take 8192 rest) (drop 8192 rest) ending cap"
      by (subst inflate_chunks.simps) (simp add: Let_def)
    then show ?thesis
      using 1 False by (cases ending) (auto simp: Let_def)
  qed
qed

lemma inflate_capped_encoded:
  assumes "zlib_ok Z"
  shows "inflate_capped Z (deflate Z d) cap = (if cap < length d then fail_with TooLarge else Inr d)"
  by (cases "d = []") (simp_all add: inflate_capped_def zlib_okD_whole [OF assms] inflate_chunks_spec)

lemma no_panic_inflate_capped: "no_panic (inflate_capped Z c cap)"
  by (auto simp: inflate_capped_def inflate_chunks_spec split: prod.split zlib_end.split)

lemma inflate_capped_Inr:
  "inflate_capped Z c cap = Inr raw \<longleftrightarrow> (\<exists>n. inflate_run Z c = (raw, Stream_end n)) \<and> length raw \<le> cap"
  by (auto simp: inflate_capped_def inflate_chunks_spec split: prod.split zlib_end.splits)

lemma digits_length: "n < 10 ^ k \<Longrightarrow> 0 < k \<Longrightarrow> length (dec_nat n) \<le> k"
proof (induction k arbitrary: n)
  case (Suc k)
  show ?case
  proof (cases "n < 10")
    case False
    then have "n div 10 < 10 ^ k" "0 < k"
      using Suc.prems by (auto intro: gr0I)
    then have "length (dec_nat (n div 10)) \<le> k"
      by (rule Suc.IH)
    then show ?thesis
      using False by (simp add: dec_nat.simps [of n])
  qed (simp add: dec_nat.simps [of n])
qed simp

lemma loose_header_parts:
  "position (\<lambda>b. b = 0) (loose_header k n @ p) = Some (length (as_str k) + 1 + length (dec_nat n))"
  "take (length (as_str k) + 1 + length (dec_nat n)) (loose_header k n @ p) = as_str k @ [0x20] @ dec_nat n"
  "split_header (as_str k @ [0x20] @ dec_nat n) = Inr (as_str k, dec_nat n)"
proof -
  have k: "0 \<notin> set (as_str k)" "0x20 \<notin> set (as_str k)"
    by (cases k; simp)+
  have "0 \<notin> set (dec_nat n)"
    using dec_nat_mem [of 0 n] by auto
  then show "position (\<lambda>b. b = 0) (loose_header k n @ p) = Some (length (as_str k) + 1 + length (dec_nat n))"
    using k position_append_first [of "as_str k @ [0x20] @ dec_nat n" "\<lambda>b. b = 0" 0 p]
    by (auto simp: loose_header_def)
  show "take (length (as_str k) + 1 + length (dec_nat n)) (loose_header k n @ p) = as_str k @ [0x20] @ dec_nat n"
    by (simp add: loose_header_def)
  show "split_header (as_str k @ [0x20] @ dec_nat n) = Inr (as_str k, dec_nat n)"
  proof -
    have "position (\<lambda>b. b = 0x20) (as_str k @ 0x20 # dec_nat n) = Some (length (as_str k))"
      using k by (intro position_append_first) auto
    then show ?thesis
      by (simp add: split_header_def)
  qed
qed

lemma length_loose_header: "n < 2 ^ 64 \<Longrightarrow> length (loose_header k n) \<le> MAX_HEADER_SIZE"
proof -
  assume "n < 2 ^ 64"
  then have "length (dec_nat n) \<le> 20"
    by (intro digits_length) simp_all
  moreover have "length (as_str k) \<le> 6"
    by (cases k) simp_all
  ultimately show ?thesis
    by (simp add: loose_header_def MAX_HEADER_SIZE_def)
qed


lemma decode_encoded_loose:
  assumes "zlib_ok Z" "length p < 2 ^ 64"
  shows "decode_loose_with_limit Z (encode_loose Z k p) l
    = (if length p \<le> min l MAX_OBJECT_SIZE then Inr (k, p) else fail_with TooLarge)"
proof -
  let ?n = "length p"
  let ?lim = "min l MAX_OBJECT_SIZE"
  have raw: "inflate_capped Z (encode_loose Z k p) (?lim + MAX_HEADER_SIZE)
      = (if ?lim + MAX_HEADER_SIZE < length (loose_header k ?n @ p) then fail_with TooLarge
         else Inr (loose_header k ?n @ p))"
    unfolding encode_loose_def by (rule inflate_capped_encoded [OF assms(1)])
  have size: "parse_unsigned 10 (2 ^ 64) (dec_nat ?n) = Some ?n" "utf8_valid (dec_nat ?n)"
    using assms(2) parse_dec_nat dec_nat_ascii utf8_valid_ascii by blast+
  have rest: "length (loose_header k ?n @ p) - (length (as_str k) + 1 + length (dec_nat ?n) + 1) = ?n"
    "drop (length (as_str k) + 1 + length (dec_nat ?n) + 1) (loose_header k ?n @ p) = p"
    by (simp_all add: loose_header_def)
  show ?thesis
  proof (cases "?lim + MAX_HEADER_SIZE < length (loose_header k ?n @ p)")
    case True
    then have "\<not> ?n \<le> ?lim"
      using length_loose_header [OF assms(2), of k] by (simp add: min_def split: if_splits)
    then show ?thesis
      unfolding decode_loose_with_limit_def Let_def raw using True by simp
  next
    case False
    show ?thesis
      unfolding decode_loose_with_limit_def Let_def raw if_not_P [OF False] ebind_simps loose_header_parts ok_or_simps
        case_prod_conv from_wire_as_str size if_P [OF size(2)] rest
      by (simp add: min_def)
  qed
qed

section \<open>Properties\<close>

text \<open>C36: Decoding an encoded loose object gives back its kind and payload when the payload is within
  the limit (and the fixed maximum), and \<open>TooLarge\<close> otherwise.\<close>

theorem loose_round_trip:
  assumes "zlib_ok Z" "length p < 2 ^ 64"
  shows "decode_loose_with_limit Z (encode_loose Z k p) l
      = (if length p \<le> min l MAX_OBJECT_SIZE then Inr (k, p) else fail_with TooLarge)
    \<and> decode_loose Z (encode_loose Z k p) = (if length p \<le> MAX_OBJECT_SIZE then Inr (k, p) else fail_with TooLarge)"
  unfolding decode_loose_def using decode_encoded_loose [OF assms] by simp_all

theorem loose_round_trip_witness:
  "decode_loose toy_zlib (encode_loose toy_zlib Tree [1, 2, 3]) = Inr (Tree, [1, 2, 3])
   \<and> decode_loose_with_limit toy_zlib (encode_loose toy_zlib Tree [1, 2, 3]) 2 = fail_with TooLarge"
  using loose_round_trip [of toy_zlib "[1, 2, 3]" Tree 2] by (simp add: MAX_OBJECT_SIZE_def)

text \<open>Loose decoding never panics; what it accepts is a complete stream whose content is a kind name,
  a space, a decimal size, a zero byte and a payload of exactly that size, within the limit.\<close>

lemma decode_loose_sound:
  "no_panic (decode_loose_with_limit Z c l) \<and>
   (decode_loose_with_limit Z c l = Inr (k, p) \<longrightarrow>
      (\<exists>size used. inflate_run Z c = (as_str k @ [0x20] @ size @ [0] @ p, Stream_end used)
         \<and> parse_unsigned 10 (2 ^ 64) size = Some (length p)) \<and> length p \<le> min l MAX_OBJECT_SIZE)"
proof (intro conjI impI)
  show "no_panic (decode_loose_with_limit Z c l)"
    unfolding decode_loose_with_limit_def split_header_def Let_def
    by (intro no_panic_intros no_panic_inflate_capped no_panic_ok_or no_panic_from_wire) auto
next
  assume "decode_loose_with_limit Z c l = Inr (k, p)"
  then obtain raw nul kb sb where r: "inflate_capped Z c (min l MAX_OBJECT_SIZE + MAX_HEADER_SIZE) = Inr raw"
    "position (\<lambda>b. b = 0) raw = Some nul" "split_header (take nul raw) = Inr (kb, sb)" "from_wire kb = Inr k"
    "parse_unsigned 10 (2 ^ 64) sb = Some (length raw - (nul + 1))" "length raw - (nul + 1) \<le> min l MAX_OBJECT_SIZE"
    "p = drop (nul + 1) raw"
    by (auto simp: decode_loose_with_limit_def Let_def ebind_eq_Inr not_less split: if_splits)
  obtain sp where sp: "position (\<lambda>b. b = 0x20) (take nul raw) = Some sp" "kb = take sp (take nul raw)"
    "sb = drop (sp + 1) (take nul raw)"
    using r(3) by (auto simp: split_header_def ebind_eq_Inr)
  have "raw = take nul raw @ 0 # p"
    using r(2,7) id_take_nth_drop [of nul raw] by (simp add: position_Some)
  moreover have "take nul raw = kb @ 0x20 # sb"
    using sp id_take_nth_drop [of sp "take nul raw"] by (simp add: position_Some)
  ultimately have raw: "raw = as_str k @ [0x20] @ sb @ [0] @ p"
    using r(4) by (simp add: from_wire_Inr)
  show "\<exists>size used. inflate_run Z c = (as_str k @ [0x20] @ size @ [0] @ p, Stream_end used)
         \<and> parse_unsigned 10 (2 ^ 64) size = Some (length p)"
  proof -
    obtain n where "inflate_run Z c = (as_str k @ [0x20] @ sb @ [0] @ p, Stream_end n)"
      using r(1) unfolding inflate_capped_Inr raw [symmetric] by blast
    moreover have "length p = length raw - (nul + 1)"
      using r(7) by simp
    ultimately show ?thesis
      using r(5) by metis
  qed
  show "length p \<le> min l MAX_OBJECT_SIZE"
    using r(6,7) by simp
qed

lemma decode_loose_sound_instance:
  "\<exists>size used. inflate_run toy_zlib (encode_loose toy_zlib Blob [5]) = (as_str Blob @ [0x20] @ size @ [0] @ [5], Stream_end used)
     \<and> parse_unsigned 10 (2 ^ 64) size = Some (length [5 :: byte])"
proof -
  have "decode_loose_with_limit toy_zlib (encode_loose toy_zlib Blob [5]) 100 = Inr (Blob, [5])"
    using decode_encoded_loose [of toy_zlib "[5]" Blob 100] by (simp add: MAX_OBJECT_SIZE_def)
  with decode_loose_sound [of toy_zlib "encode_loose toy_zlib Blob [5]" 100 Blob "[5]"] show ?thesis
    by blast
qed

text \<open>The path of a loose object is computed without panic for every non-empty id, and different ids
  have different paths.\<close>

lemma loose_path_injective:
  assumes "id_bytes i \<noteq> []" "id_bytes j \<noteq> []"
  shows "\<exists>path. loose_object_path i = Inr path \<and> (loose_object_path j = Inr path \<longrightarrow> i = j)"
proof -
  have path: "loose_object_path i = Inr (ascii ''objects/'' @ take 2 (to_hex i) @ ascii ''/'' @ drop 2 (to_hex i))"
    if "id_bytes i \<noteq> []" for i
  proof -
    have len: "2 \<le> length (to_hex i)"
      using that by (cases "id_bytes i") auto
    have "str_slice (to_hex i) 0 2 = (Inr (take 2 (to_hex i)) :: bytes ores)"
      "str_slice (to_hex i) 2 (length (to_hex i)) = (Inr (drop 2 (to_hex i)) :: bytes ores)"
      using str_slice_ascii [of "to_hex i" 0 2] str_slice_ascii [of "to_hex i" 2 "length (to_hex i)"] len by simp_all
    then show ?thesis
      by (simp add: loose_object_path_def Let_def)
  qed
  have "i = j" if "loose_object_path i = loose_object_path j"
  proof -
    have len: "length (take 2 (to_hex k)) = 2" if "id_bytes k \<noteq> []" for k
      using that by (cases "id_bytes k") auto
    have "take 2 (to_hex i) @ ascii ''/'' @ drop 2 (to_hex i) = take 2 (to_hex j) @ ascii ''/'' @ drop 2 (to_hex j)"
      using that path assms by (simp del: ascii_Cons)
    then have "take 2 (to_hex i) = take 2 (to_hex j) \<and> drop 2 (to_hex i) = drop 2 (to_hex j)"
      using len assms by (simp add: append_eq_append_conv del: ascii_Cons)
    then have hex: "to_hex i = to_hex j"
      by (metis append_take_drop_id)
    then have l: "length (id_bytes i) = length (id_bytes j)"
      by (metis length_to_hex mult_cancel1 zero_neq_numeral)
    show ?thesis
      using hex_loop_to_hex [of "id_bytes i"] hex_loop_to_hex [of "id_bytes j"] hex l
      by (metis object_id.collapse sum.inject(2))
  qed
  then show ?thesis
    using path [OF assms(1)] by auto
qed

end
