(* ===== verification/Git_Pack.thy ===== *)
theory Git_Pack
  imports Git_Loose Git_Idx Git_Enumerate
begin

text \<open>
  Reading packfiles, version 2, \<open>gitana-object/src/pack.rs\<close>: entry headers, the scan of all
  entries, the worklist that resolves deltas in any order, and random access through a pack index.
  The zlib library and the CRC-32 function are parameters. A hash map is an association list with
  distinct keys, in its iteration order; a stack has its top first.
\<close>

section \<open>Entry headers\<close>

definition PACK_HEADER_LEN :: nat where "PACK_HEADER_LEN = 12"
definition OBJ_COMMIT :: byte where "OBJ_COMMIT = 1"
definition OBJ_TREE :: byte where "OBJ_TREE = 2"
definition OBJ_BLOB :: byte where "OBJ_BLOB = 3"
definition OBJ_TAG :: byte where "OBJ_TAG = 4"
definition OBJ_OFS_DELTA :: byte where "OBJ_OFS_DELTA = 6"
definition OBJ_REF_DELTA :: byte where "OBJ_REF_DELTA = 7"

lemmas obj_types = OBJ_COMMIT_def OBJ_TREE_def OBJ_BLOB_def OBJ_TAG_def OBJ_OFS_DELTA_def OBJ_REF_DELTA_def

definition base_types :: "byte set" where
  "base_types = {OBJ_COMMIT, OBJ_TREE, OBJ_BLOB, OBJ_TAG}"

definition pack_next :: "bytes \<Rightarrow> nat \<Rightarrow> (byte \<times> nat) ores" where
  "pack_next bs cursor =
     (if cursor < length bs then Inr (bs ! cursor, cursor + 1) else fail_with MalformedPack)"

lemma pack_next_Inr [simp]:
  "pack_next bs cursor = Inr (b, c) \<longleftrightarrow> cursor < length bs \<and> b = bs ! cursor \<and> c = cursor + 1"
  by (auto simp: pack_next_def)

definition kind_of :: "byte \<Rightarrow> object_kind ores" where
  "kind_of raw_type =
     (if raw_type = OBJ_COMMIT then Inr Commit else if raw_type = OBJ_TREE then Inr Tree
      else if raw_type = OBJ_BLOB then Inr Blob else if raw_type = OBJ_TAG then Inr Tag
      else fail_with MalformedPack)"

function header_size :: "bytes \<Rightarrow> byte \<Rightarrow> nat \<Rightarrow> nat \<Rightarrow> nat \<Rightarrow> (nat \<times> nat) ores" where
  "header_size bs byte cursor sz shift =
     (if byte AND 0x80 = 0 then Inr (sz, cursor)
      else
        ebind (pack_next bs cursor) (\<lambda>(byte, cursor).
        ebind (ok_or (checked_shl (unat (byte AND 0x7f)) shift) MalformedPack) (\<lambda>part.
        ebind (ok_or (checked_add sz part) MalformedPack) (\<lambda>sz.
          header_size bs byte cursor sz (shift + 7)))))"
  by pat_completeness auto
termination
  by (relation "measure (\<lambda>(bs, _, cursor, _, _). length bs - cursor)") auto

declare header_size.simps [simp del]

definition read_object_header :: "bytes \<Rightarrow> nat \<Rightarrow> (byte \<times> nat \<times> nat) ores" where
  "read_object_header bs cursor =
     ebind (pack_next bs cursor) (\<lambda>(first, cursor).
     ebind (header_size bs first cursor (unat (first AND 0x0f)) 4) (\<lambda>(sz, cursor).
       Inr (drop_bit 4 first AND 0x07, sz, cursor)))"

function offset_rest :: "bytes \<Rightarrow> byte \<Rightarrow> nat \<Rightarrow> nat \<Rightarrow> (nat \<times> nat) ores" where
  "offset_rest bs byte cursor off =
     (if byte AND 0x80 = 0 then Inr (off, cursor)
      else
        ebind (pack_next bs cursor) (\<lambda>(byte, cursor).
        ebind (ok_or (Option.bind (checked_add off 1) (\<lambda>n. checked_shl n 7)) MalformedPack) (\<lambda>n.
          offset_rest bs byte cursor (n OR unat (byte AND 0x7f)))))"
  by pat_completeness auto
termination
  by (relation "measure (\<lambda>(bs, _, cursor, _). length bs - cursor)") auto

declare offset_rest.simps [simp del]

definition read_offset :: "bytes \<Rightarrow> nat \<Rightarrow> (nat \<times> nat) ores" where
  "read_offset bs cursor =
     ebind (pack_next bs cursor) (\<lambda>(byte, cursor). offset_rest bs byte cursor (unat (byte AND 0x7f)))"

definition read_object_id :: "hash_alg \<Rightarrow> bytes \<Rightarrow> nat \<Rightarrow> (object_id \<times> nat) ores" where
  "read_object_id H bs cursor =
     ebind (ok_or (checked_add cursor (raw_len H)) MalformedPack) (\<lambda>endp.
     ebind (ok_or (get_range bs cursor endp) MalformedPack) (\<lambda>raw.
     ebind (from_bytes H raw) (\<lambda>i. Inr (i, endp))))"

section \<open>Inflating one entry\<close>

text \<open>
  The output buffer holds \<open>expected + 16\<close> bytes. A stream that fills it is cut there; a stream
  that runs out of input makes no progress on the next turn of the loop.
\<close>

definition inflate_with_limit :: "zlib_lib \<Rightarrow> bytes \<Rightarrow> nat \<Rightarrow> nat \<Rightarrow> (bytes \<times> nat) ores" where
  "inflate_with_limit Z input expected max_inflated =
     (let limit = min max_inflated MAX_OBJECT_SIZE in
      if limit < expected then fail_with TooLarge
      else
        (case inflate_run Z input of (run, ending) \<Rightarrow>
           let capacity = expected + 16; out = take capacity run;
               full = capacity < length run
           in case ending of
             Corrupt msg \<Rightarrow>
               if \<not> full then fail_with (Zlib msg)
               else if limit < length out then fail_with TooLarge
               else fail_with MalformedPack
           | _ \<Rightarrow>
               if limit < length out then fail_with TooLarge
               else if expected < length out then fail_with MalformedPack
               else
                 (case ending of
                    Stream_end used \<Rightarrow>
                      if length out \<noteq> expected then fail_with MalformedPack else Inr (out, used)
                  | _ \<Rightarrow> fail_with (Zlib ''truncated zlib stream''))))"

definition inflate :: "zlib_lib \<Rightarrow> bytes \<Rightarrow> nat \<Rightarrow> (bytes \<times> nat) ores" where
  "inflate Z input expected = inflate_with_limit Z input expected MAX_OBJECT_SIZE"

text \<open>\<open>inflate(&bytes[cursor..body_end], sz)\<close>: the slice panics when \<open>cursor\<close> has
  passed \<open>body_end\<close>.\<close>

definition inflate_body :: "zlib_lib \<Rightarrow> bytes \<Rightarrow> nat \<Rightarrow> nat \<Rightarrow> nat \<Rightarrow> (bytes \<times> nat) ores" where
  "inflate_body Z bs cursor body_end sz = ebind (slice bs cursor body_end) (\<lambda>input. inflate Z input sz)"

section \<open>One entry on its own\<close>

datatype pack_entry =
    EBase object_kind bytes
  | EOfsDelta nat bytes
  | ERefDelta object_id bytes

definition pack_entry_is_delta :: "bytes \<Rightarrow> bool ores" where
  "pack_entry_is_delta entry =
     ebind (read_object_header entry 0) (\<lambda>(raw_type, _, _).
       if raw_type \<in> base_types then Inr False
       else if raw_type = OBJ_OFS_DELTA \<or> raw_type = OBJ_REF_DELTA then Inr True
       else fail_with MalformedPack)"

definition decode_pack_entry_with_limit :: "hash_alg \<Rightarrow> zlib_lib \<Rightarrow> bytes \<Rightarrow> nat \<Rightarrow> pack_entry ores" where
  "decode_pack_entry_with_limit H Z entry max_inflated =
     ebind (read_object_header entry 0) (\<lambda>(raw_type, sz, cursor).
       if raw_type \<in> base_types then
         ebind (slice entry cursor (length entry)) (\<lambda>input.
         ebind (inflate_with_limit Z input sz max_inflated) (\<lambda>(data, _).
         ebind (kind_of raw_type) (\<lambda>kind. Inr (EBase kind data))))
       else if raw_type = OBJ_OFS_DELTA then
         ebind (read_offset entry cursor) (\<lambda>(distance, cursor).
         ebind (slice entry cursor (length entry)) (\<lambda>input.
         ebind (inflate_with_limit Z input sz max_inflated) (\<lambda>(delta, _). Inr (EOfsDelta distance delta))))
       else if raw_type = OBJ_REF_DELTA then
         ebind (read_object_id H entry cursor) (\<lambda>(base, cursor).
         ebind (slice entry cursor (length entry)) (\<lambda>input.
         ebind (inflate_with_limit Z input sz max_inflated) (\<lambda>(delta, _). Inr (ERefDelta base delta))))
       else fail_with MalformedPack)"

definition decode_pack_entry :: "hash_alg \<Rightarrow> zlib_lib \<Rightarrow> bytes \<Rightarrow> pack_entry ores" where
  "decode_pack_entry H Z entry = decode_pack_entry_with_limit H Z entry MAX_OBJECT_SIZE"

section \<open>Random access\<close>

datatype raw_entry = RBase object_kind bytes | RDelta u64 bytes

definition read_raw_entry ::
  "hash_alg \<Rightarrow> zlib_lib \<Rightarrow> bytes \<Rightarrow> nat \<Rightarrow> u64 \<Rightarrow> pack_index \<Rightarrow> raw_entry ores" where
  "read_raw_entry H Z pack body_end off idx =
     (let entry_start = unat off in
      if entry_start < PACK_HEADER_LEN \<or> body_end \<le> entry_start then fail_with MalformedPack
      else
        ebind (read_object_header pack entry_start) (\<lambda>(raw_type, sz, cursor).
          if raw_type \<in> base_types then
            ebind (inflate_body Z pack cursor body_end sz) (\<lambda>(data, _).
            ebind (kind_of raw_type) (\<lambda>kind. Inr (RBase kind data)))
          else if raw_type = OBJ_OFS_DELTA then
            ebind (read_offset pack cursor) (\<lambda>(distance, cursor).
            ebind (ok_or (checked_sub entry_start distance) MalformedPack) (\<lambda>base_start.
            if base_start < PACK_HEADER_LEN \<or> entry_start \<le> base_start then fail_with MalformedPack
            else
              ebind (inflate_body Z pack cursor body_end sz) (\<lambda>(delta, _).
                Inr (RDelta (word_of_nat base_start) delta))))
          else if raw_type = OBJ_REF_DELTA then
            ebind (read_object_id H pack cursor) (\<lambda>(base_id, cursor).
            ebind (ok_or (offset_of idx base_id) UnresolvedDeltaBase) (\<lambda>base_offset.
            ebind (inflate_body Z pack cursor body_end sz) (\<lambda>(delta, _).
              Inr (RDelta base_offset delta))))
          else fail_with MalformedPack))"

lemma unvisited_less: "off \<notin> visited \<Longrightarrow> card (UNIV - insert off visited) < card (UNIV - visited)" for off :: u64
  by (intro psubset_card_mono) auto

text \<open>The chain loop: \<open>visited\<close> offsets lie in the pack, so it ends. The deltas are collected
  outermost first.\<close>

function walk_chain ::
  "hash_alg \<Rightarrow> zlib_lib \<Rightarrow> bytes \<Rightarrow> nat \<Rightarrow> pack_index \<Rightarrow> u64 set \<Rightarrow> u64 \<Rightarrow> bytes list
     \<Rightarrow> (object_kind \<times> bytes \<times> bytes list) ores" where
  "walk_chain H Z pack body_end idx visited off deltas =
     (if off \<in> visited then fail_with MalformedPack
      else
        ebind (read_raw_entry H Z pack body_end off idx) (\<lambda>entry.
          case entry of
            RBase kind data \<Rightarrow> Inr (kind, data, deltas)
          | RDelta base_offset delta \<Rightarrow>
              walk_chain H Z pack body_end idx (insert off visited) base_offset (deltas @ [delta])))"
  by pat_completeness auto
termination
  by (relation "measure (\<lambda>(_, _, _, _, _, visited, _, _). card (UNIV - visited))")
     (simp_all only: in_measure case_prod_conv wf_measure, rule unvisited_less)

declare walk_chain.simps [simp del]

fun apply_deltas :: "bytes \<Rightarrow> bytes list \<Rightarrow> bytes ores" where
  "apply_deltas data [] = Inr data"
| "apply_deltas data (d # ds) = ebind (apply_delta data d) (\<lambda>data. apply_deltas data ds)"

definition check_pack_header :: "hash_alg \<Rightarrow> bytes \<Rightarrow> unit ores" where
  "check_pack_header H pack =
     (if length pack < PACK_HEADER_LEN + raw_len H then fail_with MalformedPack
      else
        ebind (slice pack 0 4) (\<lambda>magic.
        ebind (slice pack 4 8) (\<lambda>version.
        if magic \<noteq> ascii ''PACK'' \<or> from_be32 version \<noteq> 2 then fail_with MalformedPack else Inr ())))"

definition decode_object_at ::
  "hash_alg \<Rightarrow> zlib_lib \<Rightarrow> bytes \<Rightarrow> pack_index \<Rightarrow> u64 \<Rightarrow> packed_object ores" where
  "decode_object_at H Z pack idx off =
     ebind (check_pack_header H pack) (\<lambda>_.
       let body_end = length pack - raw_len H in
       ebind (walk_chain H Z pack body_end idx {} off []) (\<lambda>(kind, data, deltas).
       ebind (apply_deltas data (rev deltas)) (\<lambda>data.
         Inr \<lparr>po_id = compute H kind data, po_kind = kind, po_data = data\<rparr>)))"


section \<open>Decoding a whole pack\<close>

record decoded_entry =
  de_object :: packed_object
  de_offset :: nat
  de_crc32 :: u32

definition apply_delta_object :: "hash_alg \<Rightarrow> object_kind \<Rightarrow> bytes \<Rightarrow> bytes \<Rightarrow> packed_object ores" where
  "apply_delta_object H kind base delta =
     ebind (apply_delta base delta) (\<lambda>data.
       Inr \<lparr>po_id = compute H kind data, po_kind = kind, po_data = data\<rparr>)"

text \<open>The waiting tables: \<open>entry(k).or_default().push(i)\<close> and \<open>remove(&k)\<close>.\<close>

type_synonym 'k waiting = "('k \<times> nat list) list"

fun wait_push :: "'k \<Rightarrow> nat \<Rightarrow> 'k waiting \<Rightarrow> 'k waiting" where
  "wait_push k i [] = [(k, [i])]"
| "wait_push k i ((k', w) # al) = (if k' = k then (k', w @ [i]) # al else (k', w) # wait_push k i al)"

fun wait_remove :: "'k \<Rightarrow> 'k waiting \<Rightarrow> nat list option \<times> 'k waiting" where
  "wait_remove k [] = (None, [])"
| "wait_remove k ((k', w) # al) =
     (if k' = k then (Some w, al)
      else (case wait_remove k al of (r, al') \<Rightarrow> (r, (k', w) # al')))"

record scan_state =
  sc_cursor :: nat
  sc_resolved :: "packed_object option list"
  sc_deltas :: "bytes option list"
  sc_offsets :: "nat list"
  sc_crcs :: "u32 list"
  sc_by_offset :: "nat \<rightharpoonup> nat"
  sc_wait_offset :: "nat waiting"
  sc_wait_id :: "object_id waiting"
  sc_ready :: "nat list"

definition scan_start :: "nat \<Rightarrow> scan_state" where
  "scan_start count =
     \<lparr>sc_cursor = PACK_HEADER_LEN, sc_resolved = replicate count None, sc_deltas = replicate count None,
      sc_offsets = [], sc_crcs = [], sc_by_offset = Map.empty, sc_wait_offset = [], sc_wait_id = [],
      sc_ready = []\<rparr>"

text \<open>The bookkeeping at the end of each turn: location and checksum of the entry.\<close>

definition scan_record :: "(bytes \<Rightarrow> u32) \<Rightarrow> bytes \<Rightarrow> nat \<Rightarrow> nat \<Rightarrow> scan_state \<Rightarrow> scan_state ores" where
  "scan_record crc32 bs k entry_start st =
     ebind (slice bs entry_start (sc_cursor st)) (\<lambda>packed.
       Inr (st\<lparr>sc_by_offset := (sc_by_offset st)(entry_start \<mapsto> k),
               sc_offsets := sc_offsets st @ [entry_start],
               sc_crcs := sc_crcs st @ [crc32 packed]\<rparr>))"

definition scan_entry ::
  "hash_alg \<Rightarrow> zlib_lib \<Rightarrow> (bytes \<Rightarrow> u32) \<Rightarrow> bytes \<Rightarrow> nat \<Rightarrow> nat \<Rightarrow> scan_state \<Rightarrow> scan_state ores" where
  "scan_entry H Z crc32 bs body_end k st =
     (let entry_start = sc_cursor st in
      ebind (read_object_header bs entry_start) (\<lambda>(raw_type, sz, cursor).
      ebind
        (if raw_type \<in> base_types then
           ebind (inflate_body Z bs cursor body_end sz) (\<lambda>(data, consumed).
           ebind (kind_of raw_type) (\<lambda>kind.
             Inr (st\<lparr>sc_cursor := cursor + consumed,
                     sc_resolved := (sc_resolved st)[k :=
                       Some \<lparr>po_id = compute H kind data, po_kind = kind, po_data = data\<rparr>],
                     sc_ready := k # sc_ready st\<rparr>)))
         else if raw_type = OBJ_OFS_DELTA then
           ebind (read_offset bs cursor) (\<lambda>(distance, cursor).
           ebind (ok_or (checked_sub entry_start distance) MalformedPack) (\<lambda>base_start.
           if entry_start \<le> base_start \<or> sc_by_offset st base_start = None then fail_with MalformedPack
           else
             ebind (inflate_body Z bs cursor body_end sz) (\<lambda>(delta, consumed).
               Inr (st\<lparr>sc_cursor := cursor + consumed,
                       sc_deltas := (sc_deltas st)[k := Some delta],
                       sc_wait_offset := wait_push base_start k (sc_wait_offset st)\<rparr>))))
         else if raw_type = OBJ_REF_DELTA then
           ebind (read_object_id H bs cursor) (\<lambda>(base_id, cursor).
           ebind (inflate_body Z bs cursor body_end sz) (\<lambda>(delta, consumed).
             Inr (st\<lparr>sc_cursor := cursor + consumed,
                     sc_deltas := (sc_deltas st)[k := Some delta],
                     sc_wait_id := wait_push base_id k (sc_wait_id st)\<rparr>)))
         else fail_with MalformedPack)
        (\<lambda>st. scan_record crc32 bs k entry_start st)))"

fun scan_entries ::
  "hash_alg \<Rightarrow> zlib_lib \<Rightarrow> (bytes \<Rightarrow> u32) \<Rightarrow> bytes \<Rightarrow> nat \<Rightarrow> nat \<Rightarrow> nat \<Rightarrow> scan_state \<Rightarrow> scan_state ores" where
  "scan_entries H Z crc32 bs body_end k 0 st = Inr st"
| "scan_entries H Z crc32 bs body_end k (Suc n) st =
     ebind (scan_entry H Z crc32 bs body_end k st) (\<lambda>st. scan_entries H Z crc32 bs body_end (k + 1) n st)"

text \<open>Resolve the deltas that wait for a materialised base; a delta already resolved is skipped.\<close>

fun resolve_waiters ::
  "hash_alg \<Rightarrow> object_kind \<Rightarrow> bytes \<Rightarrow> bytes option list \<Rightarrow> nat list \<Rightarrow> packed_object option list \<Rightarrow> nat list
     \<Rightarrow> (packed_object option list \<times> nat list) ores" where
  "resolve_waiters H kind base deltas [] resolved ready = Inr (resolved, ready)"
| "resolve_waiters H kind base deltas (w # ws) resolved ready =
     ebind (index resolved w) (\<lambda>slot.
     if slot = None then
       ebind (index deltas w) (\<lambda>delta.
         case delta of
           None \<Rightarrow> Inl Panic
         | Some d \<Rightarrow>
             ebind (apply_delta_object H kind base d) (\<lambda>b.
               resolve_waiters H kind base deltas ws (resolved[w := Some b]) (w # ready)))
     else resolve_waiters H kind base deltas ws resolved ready)"

fun resolve_external_ref_deltas ::
  "hash_alg \<Rightarrow> (object_id \<times> object_kind \<times> bytes) list \<Rightarrow> bytes option list \<Rightarrow> object_id waiting
     \<Rightarrow> packed_object option list \<Rightarrow> nat list
     \<Rightarrow> (object_id waiting \<times> packed_object option list \<times> nat list) ores" where
  "resolve_external_ref_deltas H [] deltas wait_id resolved ready = Inr (wait_id, resolved, ready)"
| "resolve_external_ref_deltas H ((base_id, kind, data) # bases) deltas wait_id resolved ready =
     (case wait_remove base_id wait_id of
        (None, _) \<Rightarrow> resolve_external_ref_deltas H bases deltas wait_id resolved ready
      | (Some waiters, wait_id) \<Rightarrow>
          ebind (resolve_waiters H kind data deltas waiters resolved ready) (\<lambda>(resolved, ready).
            resolve_external_ref_deltas H bases deltas wait_id resolved ready))"

definition waiting_size :: "'k waiting \<Rightarrow> nat" where
  "waiting_size al = sum_list (map (\<lambda>(_, w). length w) al)"

definition waiters_of :: "nat list option \<Rightarrow> nat list" where
  "waiters_of r = (case r of None \<Rightarrow> [] | Some w \<Rightarrow> w)"

lemma wait_remove_size:
  "wait_remove k al = (r, al') \<Longrightarrow> waiting_size al' + length (waiters_of r) = waiting_size al"
  unfolding waiting_size_def waiters_of_def by (induction al arbitrary: r al') (auto split: if_splits prod.splits)

lemma resolve_waiters_ready:
  "resolve_waiters H kind base deltas ws resolved ready = Inr (resolved', ready') \<Longrightarrow>
   length ready' \<le> length ws + length ready \<and> length resolved' = length resolved"
  by (induction ws arbitrary: resolved ready) (fastforce simp: ebind_eq_Inr split: if_splits option.splits)+

text \<open>
  The worklist. The base is taken out of its slot while its waiters are resolved and then put back.
  It ends because every waiter is filed once: the entries still filed count twice in the measure.
\<close>

function resolve_ready ::
  "hash_alg \<Rightarrow> nat list \<Rightarrow> bytes option list \<Rightarrow> nat waiting \<Rightarrow> object_id waiting \<Rightarrow> packed_object option list
     \<Rightarrow> nat list \<Rightarrow> packed_object option list ores" where
  "resolve_ready H offsets deltas wait_offset wait_id resolved [] = Inr resolved"
| "resolve_ready H offsets deltas wait_offset wait_id resolved (i # ready) =
     ebind (index resolved i) (\<lambda>slot.
       case slot of
         None \<Rightarrow> Inl Panic
       | Some base \<Rightarrow>
           ebind (index offsets i) (\<lambda>off.
             case wait_remove off wait_offset of (w1, wait_offset) \<Rightarrow>
             case wait_remove (po_id base) wait_id of (w2, wait_id) \<Rightarrow>
             let waiters = waiters_of w1 @ waiters_of w2
             in ebind (resolve_waiters H (po_kind base) (po_data base) deltas waiters (resolved[i := None]) ready)
                  (\<lambda>(resolved, ready).
                    resolve_ready H offsets deltas wait_offset wait_id (resolved[i := Some base]) ready)))"
  by pat_completeness auto
termination
  by (relation "measure (\<lambda>(_, _, _, wo, wi, _, ready). 2 * (waiting_size wo + waiting_size wi) + length ready)")
     (auto dest!: wait_remove_size [OF sym] dest: resolve_waiters_ready)

declare resolve_ready.simps(2) [simp del]

fun emit_entries :: "packed_object option list \<Rightarrow> nat list \<Rightarrow> u32 list \<Rightarrow> nat \<Rightarrow> decoded_entry list ores" where
  "emit_entries [] offsets crcs i = Inr []"
| "emit_entries (slot # slots) offsets crcs i =
     ebind (ok_or slot UnresolvedDeltaBase) (\<lambda>b.
     ebind (index offsets i) (\<lambda>off.
     ebind (index crcs i) (\<lambda>crc.
     ebind (emit_entries slots offsets crcs (i + 1)) (\<lambda>es.
       Inr (\<lparr>de_object = b, de_offset = off, de_crc32 = crc\<rparr> # es)))))"

definition decode_entries ::
  "hash_alg \<Rightarrow> zlib_lib \<Rightarrow> (bytes \<Rightarrow> u32) \<Rightarrow> bytes \<Rightarrow> (object_id \<times> object_kind \<times> bytes) list
     \<Rightarrow> decoded_entry list ores" where
  "decode_entries H Z crc32 bs external_bases =
     ebind (check_pack_header H bs) (\<lambda>_.
     ebind (slice bs 8 12) (\<lambda>c.
       let count = unat (from_be32 c); body_end = length bs - raw_len H in
       if digest H (take body_end bs) \<noteq> drop body_end bs then fail_with MalformedPack
       else
         ebind (scan_entries H Z crc32 bs body_end 0 count (scan_start count)) (\<lambda>st.
         if sc_cursor st \<noteq> body_end then fail_with MalformedPack
         else
           ebind (resolve_external_ref_deltas H external_bases (sc_deltas st) (sc_wait_id st)
                    (sc_resolved st) (sc_ready st)) (\<lambda>(wait_id, resolved, ready).
           ebind (resolve_ready H (sc_offsets st) (sc_deltas st) (sc_wait_offset st) wait_id resolved ready)
             (\<lambda>resolved. emit_entries resolved (sc_offsets st) (sc_crcs st) 0)))))"

definition decode_pack_with_bases ::
  "hash_alg \<Rightarrow> zlib_lib \<Rightarrow> (bytes \<Rightarrow> u32) \<Rightarrow> bytes \<Rightarrow> (object_id \<times> object_kind \<times> bytes) list
     \<Rightarrow> packed_object list ores" where
  "decode_pack_with_bases H Z crc32 bs external_bases =
     ebind (decode_entries H Z crc32 bs external_bases) (\<lambda>es. Inr (map de_object es))"

definition decode_pack :: "hash_alg \<Rightarrow> zlib_lib \<Rightarrow> (bytes \<Rightarrow> u32) \<Rightarrow> bytes \<Rightarrow> packed_object list ores" where
  "decode_pack H Z crc32 bs = decode_pack_with_bases H Z crc32 bs []"

definition pack_index_entries ::
  "hash_alg \<Rightarrow> zlib_lib \<Rightarrow> (bytes \<Rightarrow> u32) \<Rightarrow> bytes \<Rightarrow> pack_index_entry list ores" where
  "pack_index_entries H Z crc32 bs =
     ebind (decode_entries H Z crc32 bs []) (\<lambda>es.
       Inr (map (\<lambda>e. \<lparr>pie_id = po_id (de_object e), pie_offset = word_of_nat (de_offset e),
                      pie_crc32 = de_crc32 e\<rparr>) es))"

text \<open>\<open>ref_delta_base_ids\<close>: the scan without materialising anything.\<close>

fun base_id_scan ::
  "hash_alg \<Rightarrow> zlib_lib \<Rightarrow> bytes \<Rightarrow> nat \<Rightarrow> nat \<Rightarrow> nat \<Rightarrow> object_id list \<Rightarrow> object_id list ores" where
  "base_id_scan H Z bs body_end 0 cursor ids = Inr ids"
| "base_id_scan H Z bs body_end (Suc k) cursor ids =
     ebind (read_object_header bs cursor) (\<lambda>(raw_type, sz, cursor).
       if raw_type \<in> base_types then
         ebind (inflate_body Z bs cursor body_end sz) (\<lambda>(_, consumed).
           base_id_scan H Z bs body_end k (cursor + consumed) ids)
       else if raw_type = OBJ_OFS_DELTA then
         ebind (read_offset bs cursor) (\<lambda>(_, cursor).
         ebind (inflate_body Z bs cursor body_end sz) (\<lambda>(_, consumed).
           base_id_scan H Z bs body_end k (cursor + consumed) ids))
       else if raw_type = OBJ_REF_DELTA then
         ebind (read_object_id H bs cursor) (\<lambda>(i, cursor).
         ebind (inflate_body Z bs cursor body_end sz) (\<lambda>(_, consumed).
           base_id_scan H Z bs body_end k (cursor + consumed) (ids @ [i])))
       else fail_with MalformedPack)"

definition ref_delta_base_ids :: "hash_alg \<Rightarrow> zlib_lib \<Rightarrow> bytes \<Rightarrow> object_id list ores" where
  "ref_delta_base_ids H Z bs =
     ebind (check_pack_header H bs) (\<lambda>_.
     ebind (slice bs 8 12) (\<lambda>c.
       base_id_scan H Z bs (length bs - raw_len H) (unat (from_be32 c)) PACK_HEADER_LEN []))"

end
