(* ===== verification/Git_Pack_Encode.thy ===== *)
theory Git_Pack_Encode
  imports Git_Pack "HOL-Library.Product_Lexorder" "HOL-Library.Multiset"
begin

text \<open>
  Writing packfiles, \<open>gitana-object/src/pack_encode.rs\<close>: the order of the candidates, the
  sliding-window delta plan and the writer (the delta encoder itself is in \<open>Git_Delta\<close>), and the
  proof that decoding a written pack gives the objects back, thin packs included.
\<close>

section \<open>Planning\<close>

definition WINDOW :: nat where "WINDOW = 10"
definition MAX_DEPTH :: nat where "MAX_DEPTH = 50"

datatype encoding = Full | Ofs nat bytes | Ref object_id bytes

datatype candidate = Real nat | Ext nat

fun type_rank :: "object_kind \<Rightarrow> nat" where
  "type_rank Commit = 0"
| "type_rank Tag = 1"
| "type_rank Tree = 2"
| "type_rank Blob = 3"

fun candidate_object :: "packed_object list \<Rightarrow> packed_object list \<Rightarrow> candidate \<Rightarrow> packed_object" where
  "candidate_object objects external_bases (Real i) = objects ! i"
| "candidate_object objects external_bases (Ext k) = external_bases ! k"

text \<open>By type, then largest first, then by id.\<close>

definition order_key :: "packed_object \<Rightarrow> nat \<times> int \<times> bytes" where
  "order_key b = (type_rank (po_kind b), - int (length (po_data b)), id_bytes (po_id b))"

definition combined_order :: "packed_object list \<Rightarrow> packed_object list \<Rightarrow> candidate list" where
  "combined_order objects external_bases =
     sort_key (\<lambda>c. order_key (candidate_object objects external_bases c))
       (map Real [0..<length objects] @ map Ext [0..<length external_bases])"

definition try_base ::
  "packed_object list \<Rightarrow> packed_object list \<Rightarrow> candidate list \<Rightarrow> nat list \<Rightarrow> nat \<Rightarrow> packed_object
     \<Rightarrow> nat \<Rightarrow> (nat \<times> bytes) option \<Rightarrow> (nat \<times> bytes) option" where
  "try_base objects external_bases combined depth i target j best =
     (if j = i \<or> (case combined ! j of Real _ \<Rightarrow> i < j | Ext _ \<Rightarrow> False) then best
      else
        let base = candidate_object objects external_bases (combined ! j) in
        if po_kind base \<noteq> po_kind target \<or> MAX_DEPTH \<le> depth ! j then best
        else
          let delta = encode_delta (po_data base) (po_data target) in
          if length delta < length (po_data target)
             \<and> (case best of None \<Rightarrow> True | Some (_, b) \<Rightarrow> length delta < length b)
          then Some (j, delta) else best)"

definition best_base ::
  "packed_object list \<Rightarrow> packed_object list \<Rightarrow> candidate list \<Rightarrow> nat list \<Rightarrow> nat \<Rightarrow> packed_object
     \<Rightarrow> (nat \<times> bytes) option" where
  "best_base objects external_bases combined depth i target =
     (let lo = i - WINDOW; hi = min (i + WINDOW + 1) (length combined)
      in fold (try_base objects external_bases combined depth i target) [lo..<hi] None)"

record plan_state =
  pl_depth :: "nat list"
  pl_emit_pos :: "nat option list"
  pl_order :: "nat list"
  pl_plans :: "encoding list"

text \<open>One turn of the planning loop; \<open>expect\<close> on a base that was not emitted would panic.\<close>

definition plan_step ::
  "packed_object list \<Rightarrow> packed_object list \<Rightarrow> candidate list \<Rightarrow> nat \<Rightarrow> plan_state \<Rightarrow> plan_state ores" where
  "plan_step objects external_bases combined i st =
     (case combined ! i of
        Ext _ \<Rightarrow> Inr st
      | Real oi \<Rightarrow>
          let target = objects ! oi;
              best = best_base objects external_bases combined (pl_depth st) i target;
              emit_pos = (pl_emit_pos st)[i := Some (length (pl_order st))]
          in ebind
               (case best of
                  None \<Rightarrow> Inr (pl_depth st, Full)
                | Some (j, delta) \<Rightarrow>
                    let depth = (pl_depth st)[i := pl_depth st ! j + 1] in
                    (case combined ! j of
                       Real _ \<Rightarrow>
                         (case emit_pos ! j of
                            None \<Rightarrow> Inl Panic
                          | Some base_pos \<Rightarrow> Inr (depth, Ofs base_pos delta))
                     | Ext k \<Rightarrow> Inr (depth, Ref (po_id (external_bases ! k)) delta)))
               (\<lambda>(depth, plan).
                  Inr \<lparr>pl_depth = depth, pl_emit_pos = emit_pos, pl_order = pl_order st @ [oi],
                       pl_plans = pl_plans st @ [plan]\<rparr>))"

fun plan_loop ::
  "packed_object list \<Rightarrow> packed_object list \<Rightarrow> candidate list \<Rightarrow> nat \<Rightarrow> nat \<Rightarrow> plan_state \<Rightarrow> plan_state ores" where
  "plan_loop objects external_bases combined i 0 st = Inr st"
| "plan_loop objects external_bases combined i (Suc n) st =
     ebind (plan_step objects external_bases combined i st)
       (\<lambda>st. plan_loop objects external_bases combined (i + 1) n st)"

definition plan_deltas ::
  "packed_object list \<Rightarrow> packed_object list \<Rightarrow> candidate list \<Rightarrow> (nat list \<times> encoding list) ores" where
  "plan_deltas objects external_bases combined =
     ebind (plan_loop objects external_bases combined 0 (length combined)
              \<lparr>pl_depth = replicate (length combined) 0, pl_emit_pos = replicate (length combined) None,
               pl_order = [], pl_plans = []\<rparr>)
       (\<lambda>st. Inr (pl_order st, pl_plans st))"

section \<open>Writing\<close>

fun raw_type :: "object_kind \<Rightarrow> byte" where
  "raw_type Commit = OBJ_COMMIT"
| "raw_type Tree = OBJ_TREE"
| "raw_type Blob = OBJ_BLOB"
| "raw_type Tag = OBJ_TAG"

function size_groups :: "byte \<Rightarrow> nat \<Rightarrow> bytes" where
  "size_groups b sz =
     (if sz \<noteq> 0 then (b OR 0x80) # size_groups (word_of_nat (sz AND 0x7f)) (drop_bit 7 sz) else [b])"
  by pat_completeness auto
termination
  by (relation "measure snd") (auto simp: drop_bit_eq_div)

declare size_groups.simps [simp del]

definition write_obj_header :: "bytes \<Rightarrow> byte \<Rightarrow> nat \<Rightarrow> bytes" where
  "write_obj_header out obj_type sz =
     out @ size_groups (push_bit 4 obj_type OR word_of_nat (sz AND 0x0f)) (drop_bit 4 sz)"

function offset_groups :: "nat \<Rightarrow> bytes" where
  "offset_groups v =
     (if v \<noteq> 0 then (0x80 OR word_of_nat ((v - 1) AND 0x7f)) # offset_groups (drop_bit 7 (v - 1)) else [])"
  by pat_completeness auto
termination
  by (relation "measure id") (auto simp: drop_bit_eq_div intro: le_less_trans [OF div_le_dividend])

declare offset_groups.simps [simp del]

definition write_offset :: "bytes \<Rightarrow> nat \<Rightarrow> bytes" where
  "write_offset out v = out @ rev (word_of_nat (v AND 0x7f) # offset_groups (drop_bit 7 v))"

definition write_entry ::
  "zlib_lib \<Rightarrow> packed_object list \<Rightarrow> nat list \<Rightarrow> encoding list \<Rightarrow> nat \<Rightarrow> bytes \<times> nat list \<Rightarrow> (bytes \<times> nat list) ores" where
  "write_entry Z objects order plans i st =
     (case st of (pack, offsets) \<Rightarrow>
        let entry_start = length pack; offsets = offsets[i := entry_start] in
        ebind (index plans i) (\<lambda>plan.
        case plan of
          Full \<Rightarrow>
            ebind (index order i) (\<lambda>oi.
            ebind (index objects oi) (\<lambda>b.
              Inr (write_obj_header pack (raw_type (po_kind b)) (length (po_data b)) @ deflate Z (po_data b), offsets)))
        | Ofs base_pos delta \<Rightarrow>
            ebind (index offsets base_pos) (\<lambda>base.
            if entry_start < base then Inl Panic
            else
              Inr (write_offset (write_obj_header pack OBJ_OFS_DELTA (length delta)) (entry_start - base)
                     @ deflate Z delta, offsets))
        | Ref base_id delta \<Rightarrow>
            Inr (write_obj_header pack OBJ_REF_DELTA (length delta) @ id_bytes base_id @ deflate Z delta, offsets)))"

fun write_entries ::
  "zlib_lib \<Rightarrow> packed_object list \<Rightarrow> nat list \<Rightarrow> encoding list \<Rightarrow> nat \<Rightarrow> nat \<Rightarrow> bytes \<times> nat list \<Rightarrow> (bytes \<times> nat list) ores" where
  "write_entries Z objects order plans i 0 st = Inr st"
| "write_entries Z objects order plans i (Suc n) st =
     ebind (write_entry Z objects order plans i st) (\<lambda>st. write_entries Z objects order plans (i + 1) n st)"

definition write_pack ::
  "hash_alg \<Rightarrow> zlib_lib \<Rightarrow> packed_object list \<Rightarrow> nat list \<Rightarrow> encoding list \<Rightarrow> bytes ores" where
  "write_pack H Z objects order plans =
     ebind (write_entries Z objects order plans 0 (length order)
              (ascii ''PACK'' @ to_be32 2 @ to_be32 (word_of_nat (length order)), replicate (length order) 0))
       (\<lambda>(pack, _). Inr (pack @ digest H pack))"

definition encode_pack_with_bases ::
  "hash_alg \<Rightarrow> zlib_lib \<Rightarrow> packed_object list \<Rightarrow> packed_object list \<Rightarrow> bytes ores" where
  "encode_pack_with_bases H Z objects external_bases =
     ebind (plan_deltas objects external_bases (combined_order objects external_bases)) (\<lambda>(order, plans).
       write_pack H Z objects order plans)"

definition encode_pack :: "hash_alg \<Rightarrow> zlib_lib \<Rightarrow> packed_object list \<Rightarrow> bytes ores" where
  "encode_pack H Z objects = encode_pack_with_bases H Z objects []"

section \<open>The combined order\<close>

lemma combined_order_set:
  "set (combined_order objects bases) = Real ` {..<length objects} \<union> Ext ` {..<length bases}"
  by (auto simp: combined_order_def)

lemma combined_order_distinct: "distinct (combined_order objects bases)"
  by (auto simp: combined_order_def distinct_map inj_on_def)

section \<open>The plan\<close>

text \<open>What the plan of one entry promises, given the base objects.\<close>

definition plan_ok ::
  "packed_object list \<Rightarrow> packed_object list \<Rightarrow> nat list \<Rightarrow> nat \<Rightarrow> packed_object \<Rightarrow> encoding \<Rightarrow> bool" where
  "plan_ok objects bases order pos target plan \<longleftrightarrow>
     (case plan of
        Full \<Rightarrow> True
      | Ofs b delta \<Rightarrow> b < pos \<and> po_kind (objects ! (order ! b)) = po_kind target
          \<and> delta = encode_delta (po_data (objects ! (order ! b))) (po_data target)
          \<and> length delta < length (po_data target)
      | Ref i delta \<Rightarrow> (\<exists>base \<in> set bases. po_id base = i \<and> po_kind base = po_kind target
          \<and> delta = encode_delta (po_data base) (po_data target) \<and> length delta < length (po_data target)))"

definition reals :: "candidate list \<Rightarrow> nat list" where
  "reals cs = concat (map (\<lambda>c. case c of Real i \<Rightarrow> [i] | Ext _ \<Rightarrow> []) cs)"

definition try_ok ::
  "packed_object list \<Rightarrow> packed_object list \<Rightarrow> candidate list \<Rightarrow> nat \<Rightarrow> packed_object \<Rightarrow> (nat \<times> bytes) option \<Rightarrow> bool" where
  "try_ok objects bases combined i target best \<longleftrightarrow>
     (\<forall>j delta. best = Some (j, delta) \<longrightarrow>
        j < length combined \<and> j \<noteq> i \<and> (\<forall>k. combined ! j = Real k \<longrightarrow> j < i)
        \<and> po_kind (candidate_object objects bases (combined ! j)) = po_kind target
        \<and> delta = encode_delta (po_data (candidate_object objects bases (combined ! j))) (po_data target)
        \<and> length delta < length (po_data target))"

lemma try_base_ok:
  "j < length combined \<Longrightarrow> try_ok objects bases combined i target best \<Longrightarrow>
   try_ok objects bases combined i target (try_base objects bases combined depth i target j best)"
  by (auto simp: try_base_def try_ok_def Let_def split: candidate.split)

lemma fold_try_base_ok:
  "\<forall>j \<in> set js. j < length combined \<Longrightarrow> try_ok objects bases combined i target best \<Longrightarrow>
   try_ok objects bases combined i target (fold (try_base objects bases combined depth i target) js best)"
  by (induction js arbitrary: best) (auto intro: try_base_ok)

lemma best_base_ok: "try_ok objects bases combined i target (best_base objects bases combined depth i target)"
  unfolding best_base_def Let_def by (rule fold_try_base_ok) (auto simp: try_ok_def)

lemma reals_snoc [simp]: "reals (cs @ [c]) = reals cs @ (case c of Real i \<Rightarrow> [i] | Ext _ \<Rightarrow> [])"
  by (simp add: reals_def)

text \<open>The invariant of the planning loop after the first \<open>i\<close> candidates.\<close>

definition plan_inv ::
  "packed_object list \<Rightarrow> packed_object list \<Rightarrow> candidate list \<Rightarrow> nat \<Rightarrow> plan_state \<Rightarrow> bool" where
  "plan_inv objects bases combined i st \<longleftrightarrow>
     pl_order st = reals (take i combined) \<and> length (pl_plans st) = length (pl_order st)
     \<and> length (pl_emit_pos st) = length combined
     \<and> (\<forall>j < i. \<forall>k. combined ! j = Real k \<longrightarrow>
          (\<exists>e < length (pl_order st). pl_emit_pos st ! j = Some e \<and> pl_order st ! e = k))
     \<and> (\<forall>e < length (pl_order st).
          plan_ok objects bases (pl_order st) e (objects ! (pl_order st ! e)) (pl_plans st ! e))"

lemma plan_ok_append:
  assumes "plan_ok objects bases order pos target plan" "pos \<le> length order"
  shows "plan_ok objects bases (order @ rest) pos target plan"
  using assms by (auto simp: plan_ok_def nth_append split: encoding.splits)


lemma plan_step_inv:
  assumes inv: "plan_inv objects bases combined i st" and i: "i < length combined"
    and set: "set combined \<subseteq> Real ` {..<length objects} \<union> Ext ` {..<length bases}"
  shows "\<exists>st'. plan_step objects bases combined i st = Inr st' \<and> plan_inv objects bases combined (i + 1) st'"
proof (cases "combined ! i")
  case (Ext k)
  then show ?thesis
    using inv i by (auto simp: plan_step_def plan_inv_def take_Suc_conv_app_nth less_Suc_eq)
next
  case (Real oi)
  let ?target = "objects ! oi"
  let ?best = "best_base objects bases combined (pl_depth st) i ?target"
  let ?emit = "(pl_emit_pos st)[i := Some (length (pl_order st))]"
  let ?order = "pl_order st @ [oi]"
  let ?d = "case ?best of None \<Rightarrow> pl_depth st | Some (j, _) \<Rightarrow> (pl_depth st)[i := pl_depth st ! j + 1]"
  have ord: "reals (take (i + 1) combined) = ?order"
    using inv i Real by (simp add: plan_inv_def take_Suc_conv_app_nth)
  have emit: "\<exists>e < length ?order. ?emit ! j = Some e \<and> ?order ! e = k"
    if j: "j < i + 1" and k: "combined ! j = Real k" for j k
  proof (cases "j = i")
    case True
    then show ?thesis
      using Real k inv i by (intro exI [of _ "length (pl_order st)"]) (auto simp: plan_inv_def)
  next
    case False
    then have "j < i"
      using j by simp
    then obtain e where "e < length (pl_order st)" "pl_emit_pos st ! j = Some e" "pl_order st ! e = k"
      using k inv unfolding plan_inv_def by blast
    then show ?thesis
      using False by (intro exI [of _ e]) (auto simp: nth_append)
  qed
  have "\<exists>plan. (case ?best of
                  None \<Rightarrow> Inr (pl_depth st, Full)
                | Some (j, delta) \<Rightarrow>
                    let depth = (pl_depth st)[i := pl_depth st ! j + 1] in
                    (case combined ! j of
                       Real _ \<Rightarrow>
                         (case ?emit ! j of
                            None \<Rightarrow> Inl Panic
                          | Some base_pos \<Rightarrow> Inr (depth, Ofs base_pos delta))
                     | Ext k \<Rightarrow> Inr (depth, Ref (po_id (bases ! k)) delta))) = (Inr (?d, plan) :: (nat list \<times> encoding) ores)
      \<and> plan_ok objects bases ?order (length (pl_order st)) ?target plan"
  proof (cases ?best)
    case None
    then show ?thesis
      by (simp add: plan_ok_def)
  next
    case (Some p)
    then obtain j delta where b: "?best = Some (j, delta)"
      by (cases p) auto
    have ok: "j < length combined" "\<forall>k. combined ! j = Real k \<longrightarrow> j < i"
      "po_kind (candidate_object objects bases (combined ! j)) = po_kind ?target"
      "delta = encode_delta (po_data (candidate_object objects bases (combined ! j))) (po_data ?target)"
      "length delta < length (po_data ?target)"
      using best_base_ok [of objects bases combined i ?target "pl_depth st"] b by (auto simp: try_ok_def)
    show ?thesis
    proof (cases "combined ! j")
      case (Real k)
      then have "j < i"
        using ok(2) by blast
      then obtain e where "e < length (pl_order st)" "pl_emit_pos st ! j = Some e" "pl_order st ! e = k"
        using Real inv unfolding plan_inv_def by blast
      then show ?thesis
        using b ok Real \<open>j < i\<close> by (simp add: plan_ok_def Let_def nth_append)
    next
      case (Ext k)
      then have "k < length bases"
        using set nth_mem [OF ok(1)] by auto
      then show ?thesis
        using b ok Ext by (auto simp: plan_ok_def Let_def)
    qed
  qed
  then obtain plan where p: "plan_step objects bases combined i st = Inr \<lparr>pl_depth = ?d, pl_emit_pos = ?emit,
      pl_order = ?order, pl_plans = pl_plans st @ [plan]\<rparr>"
    and ok: "plan_ok objects bases ?order (length (pl_order st)) ?target plan"
    by (auto simp: plan_step_def Real Let_def)
  have plans: "plan_ok objects bases ?order e (objects ! (?order ! e)) ((pl_plans st @ [plan]) ! e)"
    if "e < length ?order" for e
  proof (cases "e = length (pl_order st)")
    case True
    then show ?thesis
      using ok inv by (simp add: plan_inv_def nth_append)
  next
    case False
    then have "e < length (pl_order st)"
      using that by simp
    then show ?thesis
      using inv by (auto simp: plan_inv_def nth_append intro: plan_ok_append)
  qed
  show ?thesis
    using p ord emit plans inv unfolding plan_inv_def by simp
qed

lemma plan_loop_inv:
  assumes "set combined \<subseteq> Real ` {..<length objects} \<union> Ext ` {..<length bases}"
    and "plan_inv objects bases combined i st" "i + n = length combined"
  shows "\<exists>st'. plan_loop objects bases combined i n st = Inr st' \<and> plan_inv objects bases combined (length combined) st'"
  using assms(2,3)
proof (induction n arbitrary: i st)
  case (Suc n)
  then obtain st' where "plan_step objects bases combined i st = Inr st'" "plan_inv objects bases combined (i + 1) st'"
    using plan_step_inv [OF Suc.prems(1) _ assms(1)] by auto
  then show ?case
    using Suc.IH [of "i + 1" st'] Suc.prems(2) by simp
qed simp

lemma reals_set: "set (reals cs) = {i. Real i \<in> set cs}"
  by (induction cs) (auto simp: reals_def split: candidate.split)

lemma reals_distinct: "distinct cs \<Longrightarrow> distinct (reals cs)"
proof (induction cs)
  case (Cons c cs)
  then show ?case
    using reals_set [of cs] by (cases c) (auto simp: reals_def)
qed (simp add: reals_def)

text \<open>The order is a permutation of the objects to write and every plan is honoured by its base.\<close>

definition planned :: "packed_object list \<Rightarrow> packed_object list \<Rightarrow> nat list \<Rightarrow> encoding list \<Rightarrow> bool" where
  "planned objects bases order plans \<longleftrightarrow>
     distinct order \<and> set order = {..<length objects} \<and> length plans = length order
     \<and> (\<forall>e < length order. plan_ok objects bases order e (objects ! (order ! e)) (plans ! e))"

lemma plan_deltas_planned:
  "\<exists>order plans. plan_deltas objects bases (combined_order objects bases) = Inr (order, plans)
     \<and> planned objects bases order plans"
proof -
  let ?c = "combined_order objects bases"
  let ?st = "\<lparr>pl_depth = replicate (length ?c) 0, pl_emit_pos = replicate (length ?c) None, pl_order = [], pl_plans = []\<rparr>"
  have "plan_inv objects bases ?c 0 ?st"
    by (simp add: plan_inv_def reals_def)
  then obtain st where st: "plan_loop objects bases ?c 0 (length ?c) ?st = Inr st" "plan_inv objects bases ?c (length ?c) st"
    using plan_loop_inv [of ?c objects bases 0 ?st "length ?c"] combined_order_set [of objects bases] by auto
  have "pl_order st = reals ?c"
    using st(2) by (simp add: plan_inv_def)
  then have "distinct (pl_order st)" "set (pl_order st) = {..<length objects}"
    using reals_distinct [OF combined_order_distinct] by (auto simp: reals_set combined_order_set)
  then show ?thesis
    using st by (auto simp: plan_deltas_def planned_def plan_inv_def)
qed

lemma planned_perm:
  assumes "planned objects bases order plans"
  shows "mset (map ((!) objects) order) = mset objects" "length order = length objects"
proof -
  have "mset order = mset [0..<length objects]"
    using assms by (metis atLeast_upt distinct_upt mset_eq_setD planned_def set_eq_iff_mset_eq_distinct)
  then have "mset (map ((!) objects) order) = mset (map ((!) objects) [0..<length objects])"
    by (metis mset_map)
  then show "mset (map ((!) objects) order) = mset objects"
    by (simp add: map_nth)
  show "length order = length objects"
    using \<open>mset order = _\<close> by (metis length_upt minus_nat.diff_0 size_mset)
qed

end
