(* ===== verification/Git_Pack_Round_Trip.thy ===== *)
theory Git_Pack_Round_Trip
  imports Git_Pack_Encode
begin

text \<open>
  Decoding a written pack gives the objects back, \<open>gitana-object/src/pack.rs\<close> against
  \<open>pack_encode.rs\<close>: the entry header and the offset integer are prefix codes, one turn of
  the scan undoes one turn of the writer, and the worklist resolves every delta of the plan.
\<close>

section \<open>Entry headers\<close>

lemma nat_and_0f: "(n :: nat) AND 0x0f = take_bit 4 n"
  by (simp add: take_bit_eq_mask mask_numeral)

lemma nat_and_7f: "(n :: nat) AND 0x7f = take_bit 7 n"
  by (simp add: take_bit_eq_mask mask_numeral)

lemma size_groups_nonempty [simp]: "size_groups b v \<noteq> []"
  by (subst size_groups.simps) simp

lemma hd_size_groups: "hd (size_groups b v) = (if v \<noteq> 0 then b OR 0x80 else b)"
  by (subst size_groups.simps) simp

lemma header_size_groups:
  assumes "b AND 0x80 = 0" "v \<noteq> 0 \<Longrightarrow> s < 64" "acc + v * 2 ^ s < usize_lim"
  shows "header_size (p @ size_groups b v @ r) (hd (size_groups b v)) (length p + 1) acc s
    = Inr (acc + v * 2 ^ s, length p + length (size_groups b v))"
  using assms
proof (induction v arbitrary: b p acc s rule: less_induct)
  case (less v)
  show ?case
  proof (cases "v = 0")
    case True
    with less.prems(1) show ?thesis
      by (subst header_size.simps) (simp add: hd_size_groups, subst size_groups.simps, simp)
  next
    case False
    let ?b = "word_of_nat (v mod 128) :: byte"
    let ?g = "size_groups ?b (v div 128)"
    have g: "size_groups b v = (b OR 0x80) # ?g"
      using False by (subst size_groups.simps) (simp add: and_7f drop_bit_eq_div)
    have m: "v mod 128 < 128"
      by simp
    note bg = byte_group [OF m]
    have hb: "unat (hd ?g AND 0x7f) = v mod 128"
      by (simp only: hd_size_groups bg(1,3) split: if_split) blast
    have v: "v * 2 ^ s = v mod 128 * 2 ^ s + v div 128 * 2 ^ (s + 7)"
      by (simp add: power_add flip: add_mult_distrib) (simp add: algebra_simps flip: distrib_left)
    have lim: "acc + v mod 128 * 2 ^ s < usize_lim"
      using less.prems(3) v by linarith
    have s: "s + 7 < 64" if "v div 128 \<noteq> 0"
    proof -
      have "2 ^ (s + 7) \<le> v div 128 * 2 ^ (s + 7)"
        using that by simp
      also have "\<dots> < 2 ^ 64"
        using less.prems v by (simp add: usize_lim_def)
      finally show ?thesis
        by (rule power_less_imp_less_exp [rotated]) simp
    qed
    have nz: "(b OR 0x80) AND 0x80 \<noteq> 0"
      by (simp add: byte_and_80 bit_or_iff)
    have at: "((p @ [b OR 0x80]) @ ?g @ r) ! (length p + 1) = hd ?g"
      by (cases ?g) (simp_all add: nth_append)
    have "header_size (p @ size_groups b v @ r) (b OR 0x80) (length p + 1) acc s
        = header_size ((p @ [b OR 0x80]) @ ?g @ r) (hd ?g) (length (p @ [b OR 0x80]) + 1) (acc + v mod 128 * 2 ^ s) (s + 7)"
      using nz lim less.prems(2) False hb at
      by (subst header_size.simps)
         (simp add: g pack_next_def checked_shl_def checked_add_def push_bit_eq_mult neq_Nil_conv)
    also have "\<dots> = Inr (acc + v mod 128 * 2 ^ s + v div 128 * 2 ^ (s + 7), length (p @ [b OR 0x80]) + length ?g)"
      using bg(4) s less.prems(3) v False by (intro less.IH) auto
    finally show ?thesis
      using False v g by (simp add: hd_size_groups)
  qed
qed


definition header_bytes :: "byte \<Rightarrow> nat \<Rightarrow> bytes" where
  "header_bytes t sz = write_obj_header [] t sz"

lemma write_obj_header_append: "write_obj_header out t sz = out @ header_bytes t sz"
  by (simp add: write_obj_header_def header_bytes_def)

lemma first_byte:
  fixes t :: byte and n :: nat
  assumes "t < 8"
  defines "f \<equiv> push_bit 4 t OR word_of_nat (take_bit 4 n)"
  shows "f AND 0x80 = 0" "unat (f AND 0x0f) = take_bit 4 n" "unat ((f OR 0x80) AND 0x0f) = take_bit 4 n"
    "drop_bit 4 f AND 0x07 = t" "drop_bit 4 (f OR 0x80) AND 0x07 = t"
proof -
  have t: "bit t k \<Longrightarrow> k < 3" for k
  proof -
    have "t = take_bit 3 t"
      using assms(1) by (simp add: word_unat_eq_iff unsigned_take_bit_eq word_less_nat_alt take_bit_nat_eq_self)
    then show "bit t k \<Longrightarrow> k < 3"
      by (metis bit_take_bit_iff)
  qed
  have m: "(0x0f :: byte) = mask 4" "(7 :: byte) = mask 3"
    by (simp_all add: mask_numeral)
  have b80: "bit (128 :: int) k \<Longrightarrow> k = 7" for k
    using bit_exp_iff [of 7 k, where 'a = int] by auto
  have b8: "bit (8 :: int) k \<Longrightarrow> k = 3" for k
    using bit_exp_iff [of 3 k, where 'a = int] by auto
  show "f AND 0x80 = 0"
    using t [of 7] t [of 3] unfolding byte_and_80 f_def by (auto simp: bit_simps)
  have w: "unat (word_of_nat (take_bit 4 n) :: byte) = take_bit 4 n"
    using take_bit_nat_less_exp [of 4 n] by (simp add: unat_of_nat)
  have "f AND 0x0f = word_of_nat (take_bit 4 n)" "(f OR 0x80) AND 0x0f = word_of_nat (take_bit 4 n)"
    unfolding m f_def using t by (auto simp: bit_eq_iff bit_simps dest!: b80)
  then show "unat (f AND 0x0f) = take_bit 4 n" "unat ((f OR 0x80) AND 0x0f) = take_bit 4 n"
    using w by simp_all
  show "drop_bit 4 f AND 0x07 = t" "drop_bit 4 (f OR 0x80) AND 0x07 = t"
    unfolding m f_def using t by (auto simp: bit_eq_iff bit_simps dest: t dest!: b80 b8)
qed

lemma read_header:
  assumes "t < 8" "sz < usize_lim"
  shows "read_object_header (p @ header_bytes t sz @ r) (length p) = Inr (t, sz, length p + length (header_bytes t sz))"
proof -
  let ?f = "push_bit 4 t OR word_of_nat (take_bit 4 sz)"
  let ?g = "size_groups ?f (sz div 16)"
  note fb = first_byte [OF assms(1), of sz]
  have h: "header_bytes t sz = ?g"
    by (simp add: header_bytes_def write_obj_header_def nat_and_0f drop_bit_eq_div)
  have sz: "take_bit 4 sz + sz div 16 * 2 ^ 4 = sz"
    by (simp add: take_bit_eq_mod)
  have u: "unat (hd ?g AND 0x0f) = take_bit 4 sz" "drop_bit 4 (hd ?g) AND 7 = t"
    by (simp_all only: hd_size_groups fb split: if_split) blast+
  have at: "(p @ ?g @ r) ! length p = hd ?g"
    by (cases ?g) (simp_all add: nth_append)
  have "header_size (p @ ?g @ r) (hd ?g) (length p + 1) (take_bit 4 sz) 4 = Inr (sz, length p + length ?g)"
    using header_size_groups [of ?f "sz div 16" 4 "take_bit 4 sz" p r] fb(1) assms(2) sz by simp
  then show ?thesis
    using u at by (simp add: read_object_header_def h pack_next_def)
qed


section \<open>Base offsets\<close>

lemma push_or_take: "push_bit 7 a OR take_bit 7 b = a * 128 + take_bit 7 b" for a b :: nat
proof -
  have "push_bit 7 a + take_bit 7 b = push_bit 7 a OR take_bit 7 b"
    by (rule disjunctive_add) (auto simp: bit_simps)
  then show ?thesis
    by (simp add: push_bit_eq_mult)
qed

definition group_byte :: "nat \<Rightarrow> byte" where
  "group_byte v = 0x80 OR word_of_nat (take_bit 7 v)"

lemma take7_less: "take_bit 7 v < (128 :: nat)"
  using take_bit_nat_less_exp [of 7 v] by simp

lemma group_byte: "group_byte v AND 0x80 \<noteq> 0" "unat (group_byte v AND 0x7f) = take_bit 7 v"
  using byte_group(1,2) [OF take7_less [of v]] by (simp_all add: group_byte_def or.commute)

lemma last_byte:
  "(word_of_nat (take_bit 7 v) :: byte) AND 0x80 = 0" "unat ((word_of_nat (take_bit 7 v) :: byte) AND 0x7f) = take_bit 7 v"
  using byte_group(3,4) [OF take7_less [of v]] by simp_all

lemma offset_groups_pos: "u \<noteq> 0 \<Longrightarrow> offset_groups u = group_byte (u - 1) # offset_groups ((u - 1) div 128)"
  by (subst offset_groups.simps) (simp add: nat_and_7f drop_bit_eq_div group_byte_def)

lemma offset_groups_0 [simp]: "offset_groups 0 = []"
  by (subst offset_groups.simps) simp

lemma offset_rest_step:
  assumes "b AND 0x80 \<noteq> 0" "c < length bs" "unat (bs ! c AND 0x7f) = take_bit 7 x" "off + 1 = x div 128" "x < usize_lim"
  shows "offset_rest bs b c off = offset_rest bs (bs ! c) (c + 1) x"
proof -
  have x: "(off + 1) * 128 + take_bit 7 x = x"
    using assms(4) by (simp add: take_bit_eq_mod)
  then have "push_bit 7 (off + 1) < usize_lim"
    using assms(5) by (simp add: push_bit_eq_mult)
  moreover from this have "off + 1 < usize_lim"
    by (simp add: push_bit_eq_mult)
  ultimately have "Option.bind (checked_add off 1) (\<lambda>n. checked_shl n 7) = Some (push_bit 7 (off + 1))"
    by (simp add: checked_add_def checked_shl_def)
  then show ?thesis
    using assms(1-3) push_or_take [of "off + 1" x] x
    by (subst offset_rest.simps) (simp add: pack_next_def)
qed

lemma read_offset_groups:
  assumes "u \<noteq> 0" "u < usize_lim"
  shows "read_offset (p @ rev (offset_groups u) @ q) (length p)
    = offset_rest (p @ rev (offset_groups u) @ q) (group_byte (u - 1)) (length p + length (offset_groups u)) (u - 1)"
  using assms
proof (induction u arbitrary: q rule: less_induct)
  case (less u)
  let ?u = "(u - 1) div 128"
  let ?bs = "p @ rev (offset_groups u) @ q"
  show ?case
  proof (cases "?u = 0")
    case True
    then have "take_bit 7 (u - 1) = u - 1"
      by (simp add: take_bit_nat_eq_self_iff)
    then show ?thesis
      using True less.prems group_byte(2) [of "u - 1"] by (simp add: offset_groups_pos read_offset_def pack_next_def)
  next
    case False
    have bs: "?bs = p @ rev (offset_groups ?u) @ group_byte (u - 1) # q"
      using less.prems by (simp add: offset_groups_pos)
    have "read_offset ?bs (length p) = offset_rest ?bs (group_byte (?u - 1)) (length p + length (offset_groups ?u)) (?u - 1)"
      unfolding bs using False less.prems by (intro less.IH) auto
    also have "\<dots> = offset_rest ?bs (?bs ! (length p + length (offset_groups ?u)))
        (length p + length (offset_groups ?u) + 1) (u - 1)"
      by (rule offset_rest_step) (use False less.prems group_byte in \<open>auto simp: bs nth_append\<close>)
    finally show ?thesis
      using less.prems by (simp add: offset_groups_pos nth_append)
  qed
qed

definition offset_bytes :: "nat \<Rightarrow> bytes" where
  "offset_bytes v = write_offset [] v"

lemma write_offset_append: "write_offset out v = out @ offset_bytes v"
  by (simp add: write_offset_def offset_bytes_def)

lemma read_offset_bytes:
  assumes "v < usize_lim"
  shows "read_offset (p @ offset_bytes v @ r) (length p) = Inr (v, length p + length (offset_bytes v))"
proof (cases "v div 128 = 0")
  case True
  then have "take_bit 7 v = v"
    by (simp add: take_bit_nat_eq_self_iff)
  then show ?thesis
    using True last_byte [of v]
    by (simp add: offset_bytes_def write_offset_def drop_bit_eq_div nat_and_7f read_offset_def pack_next_def offset_rest.simps)
next
  case False
  let ?u = "v div 128"
  let ?l = "word_of_nat (take_bit 7 v) :: byte"
  let ?bs = "p @ rev (offset_groups ?u) @ ?l # r"
  have b: "offset_bytes v = rev (offset_groups ?u) @ [?l]"
    by (simp add: offset_bytes_def write_offset_def drop_bit_eq_div nat_and_7f)
  have "read_offset ?bs (length p) = offset_rest ?bs (group_byte (?u - 1)) (length p + length (offset_groups ?u)) (?u - 1)"
    using False assms by (intro read_offset_groups) auto
  also have "\<dots> = offset_rest ?bs (?bs ! (length p + length (offset_groups ?u)))
      (length p + length (offset_groups ?u) + 1) v"
    by (rule offset_rest_step) (use False assms group_byte last_byte [of v] in \<open>auto simp: nth_append\<close>)
  finally show ?thesis
    using last_byte [of v] by (simp add: b nth_append offset_rest.simps)
qed

section \<open>The layout of a written pack\<close>

definition pack_head :: "nat \<Rightarrow> bytes" where
  "pack_head n = ascii ''PACK'' @ to_be32 2 @ to_be32 (word_of_nat n)"

lemma length_pack_head [simp]: "length (pack_head n) = 12"
  by (simp add: pack_head_def)

fun piece :: "zlib_lib \<Rightarrow> (nat \<Rightarrow> packed_object) \<Rightarrow> nat list \<Rightarrow> nat \<Rightarrow> encoding \<Rightarrow> bytes" where
  "piece Z P offsets i Full =
     header_bytes (raw_type (po_kind (P i))) (length (po_data (P i))) @ deflate Z (po_data (P i))"
| "piece Z P offsets i (Ofs b delta) =
     header_bytes OBJ_OFS_DELTA (length delta) @ offset_bytes (offsets ! i - offsets ! b) @ deflate Z delta"
| "piece Z P offsets i (Ref x delta) = header_bytes OBJ_REF_DELTA (length delta) @ id_bytes x @ deflate Z delta"

definition layout :: "zlib_lib \<Rightarrow> (nat \<Rightarrow> packed_object) \<Rightarrow> encoding list \<Rightarrow> nat list \<Rightarrow> bytes list \<Rightarrow> bool" where
  "layout Z P plans offsets ps \<longleftrightarrow> length ps \<le> length offsets
     \<and> (\<forall>j < length ps. offsets ! j = 12 + length (concat (take j ps)) \<and> ps ! j = piece Z P offsets j (plans ! j))"

definition earlier_bases :: "encoding list \<Rightarrow> bool" where
  "earlier_bases plans \<longleftrightarrow> (\<forall>i b d. i < length plans \<longrightarrow> plans ! i = Ofs b d \<longrightarrow> b < i)"

lemma layout_offset: "layout Z P plans offsets ps \<Longrightarrow> j < length ps \<Longrightarrow> offsets ! j = 12 + length (concat (take j ps))"
  by (simp add: layout_def)

lemma concat_take_mono: "i \<le> j \<Longrightarrow> length (concat (take i xs)) \<le> length (concat (take j xs))"
  by (metis concat_append le_add1 le_Suc_ex length_append take_add)

lemma piece_cong:
  "earlier_bases plans \<Longrightarrow> j < length plans \<Longrightarrow> \<forall>i \<le> j. offsets ! i = offsets' ! i \<Longrightarrow>
   piece Z P offsets j (plans ! j) = piece Z P offsets' j (plans ! j)"
  by (cases "plans ! j") (auto simp: earlier_bases_def dest: less_imp_le)

lemma write_entry_layout:
  assumes lay: "layout Z P plans offsets ps" and i: "length ps < length order"
    and len: "length offsets = length order" "length plans = length order"
    and eb: "earlier_bases plans" and P: "P = (\<lambda>e. objects ! (order ! e))"
    and ord: "set order \<subseteq> {..<length objects}"
  shows "\<exists>p offsets'. write_entry Z objects order plans (length ps) (pack_head n @ concat ps, offsets)
      = Inr (pack_head n @ concat (ps @ [p]), offsets')
    \<and> layout Z P plans offsets' (ps @ [p]) \<and> length offsets' = length order"
proof -
  let ?i = "length ps"
  let ?offs = "offsets[?i := 12 + length (concat ps)]"
  let ?p = "piece Z P ?offs ?i (plans ! ?i)"
  have off: "?offs ! j = 12 + length (concat (take j (ps @ [?p])))" if "j \<le> ?i" for j
    using that lay len i by (cases "j = ?i") (auto simp: layout_def)
  have "layout Z P plans ?offs (ps @ [?p])"
    unfolding layout_def
  proof (intro conjI allI impI)
    show "length (ps @ [?p]) \<le> length ?offs"
      using i len by simp
    fix j
    assume j: "j < length (ps @ [?p])"
    then show "?offs ! j = 12 + length (concat (take j (ps @ [?p])))"
      by (intro off) simp
    show "(ps @ [?p]) ! j = piece Z P ?offs j (plans ! j)"
    proof (cases "j = ?i")
      case False
      then have "ps ! j = piece Z P offsets j (plans ! j)"
        using lay j by (simp add: layout_def)
      also have "\<dots> = piece Z P ?offs j (plans ! j)"
        using j False i len by (intro piece_cong [OF eb]) auto
      finally show ?thesis
        using j False by (simp add: nth_append)
    qed simp
  qed
  moreover have "write_entry Z objects order plans ?i (pack_head n @ concat ps, offsets)
      = Inr (pack_head n @ concat (ps @ [?p]), ?offs)"
  proof (cases "plans ! ?i")
    case Full
    have "order ! ?i < length objects"
      using subsetD [OF ord nth_mem [OF i]] by simp
    then show ?thesis
      using Full i len by (simp add: write_entry_def Let_def write_obj_header_append P add.commute)
  next
    case (Ofs b d)
    then have "b < ?i"
      using eb i len by (simp add: earlier_bases_def)
    moreover from this have "?offs ! b \<le> 12 + length (concat ps)"
      using off [of b] concat_take_mono [of b ?i ps] by simp
    ultimately show ?thesis
      using Ofs i len by (simp add: write_entry_def Let_def write_obj_header_append write_offset_append add.commute)
  next
    case (Ref x d)
    then show ?thesis
      using i len by (simp add: write_entry_def Let_def write_obj_header_append add.commute)
  qed
  ultimately show ?thesis
    using len by (intro exI [of _ ?p] exI [of _ ?offs]) simp
qed

lemma write_entries_layout:
  assumes "layout Z P plans offsets ps" "length ps + n = length order"
    and len: "length offsets = length order" "length plans = length order"
    and eb: "earlier_bases plans" and P: "P = (\<lambda>e. objects ! (order ! e))"
    and ord: "set order \<subseteq> {..<length objects}"
  shows "\<exists>ps' offsets'. write_entries Z objects order plans (length ps) n (pack_head c @ concat ps, offsets)
      = Inr (pack_head c @ concat ps', offsets')
    \<and> layout Z P plans offsets' ps' \<and> length ps' = length order \<and> length offsets' = length order"
  using assms(1-3)
proof (induction n arbitrary: ps offsets)
  case (Suc n)
  then obtain p offsets' where p: "write_entry Z objects order plans (length ps) (pack_head c @ concat ps, offsets)
      = Inr (pack_head c @ concat (ps @ [p]), offsets')"
    "layout Z P plans offsets' (ps @ [p])" "length offsets' = length order"
    using write_entry_layout [OF Suc.prems(1) _ Suc.prems(3) len(2) eb P ord, of c] by auto
  then show ?case
    using Suc.IH [OF p(2)] Suc.prems(2) by simp
qed auto

lemma write_pack_layout:
  assumes "length plans = length order" "earlier_bases plans" "P = (\<lambda>e. objects ! (order ! e))"
    and "set order \<subseteq> {..<length objects}"
  obtains ps offsets where "write_pack H Z objects order plans
      = Inr (pack_head (length order) @ concat ps @ digest H (pack_head (length order) @ concat ps))"
    "layout Z P plans offsets ps" "length ps = length order" "length offsets = length order"
proof -
  have "layout Z P plans (replicate (length order) 0) []"
    by (simp add: layout_def)
  from write_entries_layout [OF this, of "length order" order objects "length order"] assms
  obtain ps offsets where w: "write_entries Z objects order plans 0 (length order)
      (pack_head (length order), replicate (length order) 0) = Inr (pack_head (length order) @ concat ps, offsets)"
    and l: "layout Z P plans offsets ps" "length ps = length order" "length offsets = length order"
    by auto
  have "write_pack H Z objects order plans
      = Inr (pack_head (length order) @ concat ps @ digest H (pack_head (length order) @ concat ps))"
    using w unfolding write_pack_def pack_head_def by (simp del: ascii_Cons)
  from that [OF this l] show ?thesis .
qed

section \<open>Scanning a written pack\<close>

lemma inflate_entry:
  assumes "zlib_ok Z" "length d \<le> MAX_OBJECT_SIZE"
  shows "inflate Z (deflate Z d @ rest) (length d) = Inr (d, length (deflate Z d))"
  using assms(2) zlib_okD [OF assms(1), of d rest]
  by (simp add: inflate_def inflate_with_limit_def Let_def)

lemma inflate_body_entry:
  assumes "zlib_ok Z" "length d \<le> MAX_OBJECT_SIZE" "length p = c" "c + length (deflate Z d) + length r = body_end"
  shows "inflate_body Z (p @ deflate Z d @ r @ t) c body_end (length d) = Inr (d, length (deflate Z d))"
proof -
  have "slice (p @ (deflate Z d @ r) @ t) c body_end = (Inr (deflate Z d @ r) :: bytes ores)"
    using assms(3,4) by (intro slice_append) auto
  then show ?thesis
    using inflate_entry [OF assms(1,2)] by (simp add: inflate_body_def)
qed

lemma raw_type_base [simp]: "raw_type k \<in> base_types" "raw_type k < 8" "kind_of (raw_type k) = Inr k"
  by (cases k; simp add: base_types_def kind_of_def obj_types)+

lemma delta_types [simp]:
  "OBJ_OFS_DELTA \<notin> base_types" "OBJ_REF_DELTA \<notin> base_types" "OBJ_OFS_DELTA < 8" "OBJ_REF_DELTA < 8"
  "OBJ_REF_DELTA \<noteq> OBJ_OFS_DELTA"
  by (simp_all add: base_types_def obj_types)

text \<open>What the scan has recorded after the first \<open>k\<close> entries.\<close>

definition filed :: "'k waiting \<Rightarrow> 'k \<Rightarrow> nat set" where
  "filed al k = set (waiters_of (map_of al k))"

definition distinct_keys :: "'k waiting \<Rightarrow> bool" where
  "distinct_keys al \<longleftrightarrow> distinct (map fst al)"

lemma wait_push_keys: "set (map fst (wait_push k i al)) = insert k (set (map fst al))"
  by (induction k i al rule: wait_push.induct) auto

lemma distinct_wait_push: "distinct_keys al \<Longrightarrow> distinct_keys (wait_push k i al)"
proof (induction k i al rule: wait_push.induct)
  case (2 k i k' w al)
  then show ?case
    using wait_push_keys [of k i al] by (auto simp: distinct_keys_def)
qed (simp add: distinct_keys_def)

lemma filed_simps [simp]:
  "filed [] x = {}"
  "filed ((k, w) # al) x = (if x = k then set w else filed al x)"
  by (simp_all add: filed_def waiters_of_def)

lemma filed_None: "map_of al k = None \<Longrightarrow> filed al k = {}"
  by (simp add: filed_def waiters_of_def)

lemma filed_wait_push: "filed (wait_push k i al) x = (if x = k then insert i (filed al x) else filed al x)"
proof (induction al)
  case (Cons p al)
  then show ?case
    by (cases p; cases "fst p = k"; cases "x = fst p") simp_all
qed simp

lemma distinct_keys_Nil [simp]: "distinct_keys []"
  by (simp add: distinct_keys_def)

lemma snd_wait_remove: "snd (wait_remove k ((k', w) # al)) = (if k' = k then al else (k', w) # snd (wait_remove k al))"
  by (simp split: prod.split)

lemma wait_remove_subset: "set (snd (wait_remove k al)) \<subseteq> set al"
  by (induction k al rule: wait_remove.induct) (auto simp: snd_wait_remove simp del: wait_remove.simps(2))

lemma wait_remove_keys: "wait_remove k al = (r, al') \<Longrightarrow> set (map fst al') \<subseteq> set (map fst al)"
  using image_mono [OF wait_remove_subset [of k al]] by simp

lemma wait_remove_filed:
  assumes "distinct_keys al" "wait_remove k al = (r, al')"
  shows "r = map_of al k" "distinct_keys al'" "filed al' x = (if x = k then {} else filed al x)"
proof -
  have "r = map_of al k \<and> distinct_keys al' \<and> filed al' x = (if x = k then {} else filed al x)"
    using assms
  proof (induction k al arbitrary: r al' rule: wait_remove.induct)
    case (2 k k' w al)
    show ?case
    proof (cases "k' = k")
      case True
      then have "map_of al k = None"
        using "2.prems"(1) by (simp add: distinct_keys_def map_of_eq_None_iff)
      then show ?thesis
        using True "2.prems" by (auto simp: distinct_keys_def filed_None)
    next
      case False
      obtain al'' where "wait_remove k al = (r, al'')" "al' = (k', w) # al''"
        using False "2.prems"(2) by (auto split: prod.splits)
      then show ?thesis
        using False "2.IH" [of r al''] "2.prems"(1) wait_remove_keys [of k al r al'']
        by (auto simp: distinct_keys_def)
    qed
  qed simp
  then show "r = map_of al k" "distinct_keys al'" "filed al' x = (if x = k then {} else filed al x)"
    by simp_all
qed

definition good_entries :: "hash_alg \<Rightarrow> (nat \<Rightarrow> packed_object) \<Rightarrow> encoding list \<Rightarrow> bool" where
  "good_entries H P plans \<longleftrightarrow>
     (\<forall>i < length plans. length (po_data (P i)) \<le> MAX_OBJECT_SIZE
        \<and> po_id (P i) = compute H (po_kind (P i)) (po_data (P i))
        \<and> (case plans ! i of Full \<Rightarrow> True
           | Ofs b d \<Rightarrow> b < i \<and> length d \<le> MAX_OBJECT_SIZE
           | Ref x d \<Rightarrow> id_ok H x \<and> length d \<le> MAX_OBJECT_SIZE))"

fun delta_of :: "encoding \<Rightarrow> bytes option" where
  "delta_of Full = None"
| "delta_of (Ofs b d) = Some d"
| "delta_of (Ref x d) = Some d"

definition scanned ::
  "(bytes \<Rightarrow> u32) \<Rightarrow> (nat \<Rightarrow> packed_object) \<Rightarrow> encoding list \<Rightarrow> nat list \<Rightarrow> bytes list \<Rightarrow> nat \<Rightarrow> scan_state \<Rightarrow> bool" where
  "scanned crc32 P plans offsets ps k st \<longleftrightarrow>
     sc_cursor st = 12 + length (concat (take k ps))
     \<and> sc_resolved st = map (\<lambda>i. if i < k \<and> plans ! i = Full then Some (P i) else None) [0..<length plans]
     \<and> sc_deltas st = map (\<lambda>i. if i < k then delta_of (plans ! i) else None) [0..<length plans]
     \<and> sc_offsets st = take k offsets \<and> sc_crcs st = map crc32 (take k ps)
     \<and> (\<forall>i < k. sc_by_offset st (offsets ! i) \<noteq> None)
     \<and> distinct_keys (sc_wait_offset st) \<and> distinct_keys (sc_wait_id st)
     \<and> (\<forall>x. filed (sc_wait_offset st) x = {i. i < k \<and> (\<exists>b d. plans ! i = Ofs b d \<and> offsets ! b = x)})
     \<and> (\<forall>x. filed (sc_wait_id st) x = {i. i < k \<and> (\<exists>d. plans ! i = Ref x d)})
     \<and> set (sc_ready st) = {i. i < k \<and> plans ! i = Full}"

lemma concat_split: "k < length ps \<Longrightarrow> concat ps = concat (take k ps) @ ps ! k @ concat (drop (Suc k) ps)"
  by (metis concat.simps(2) concat_append id_take_nth_drop)

lemma map_upt_update:
  "k < n \<Longrightarrow> (map f [0..<n])[k := x] = map (\<lambda>i. if i = k then x else f i) [0..<n]"
  by (rule nth_equalityI) (auto simp: nth_list_update)

lemma header_bytes_nonempty [simp]: "header_bytes t sz \<noteq> []"
  by (simp add: header_bytes_def write_obj_header_def)

lemma piece_nonempty: "piece Z P offsets i plan \<noteq> []"
  by (cases plan) simp_all

lemma layout_offset_less:
  assumes "layout Z P plans offsets ps" "b < i" "i < length ps"
  shows "offsets ! b < offsets ! i"
proof -
  have "length (concat (take (Suc b) ps)) \<le> length (concat (take i ps))"
    using assms by (intro concat_take_mono) simp
  moreover have "0 < length (ps ! b)"
    using assms piece_nonempty by (simp add: layout_def)
  moreover have "take (Suc b) ps = take b ps @ [ps ! b]"
    using assms by (simp add: take_Suc_conv_app_nth)
  ultimately have "length (concat (take b ps)) < length (concat (take i ps))"
    by (simp del: length_greater_0_conv)
  then show ?thesis
    using assms by (simp add: layout_def)
qed

lemma layout_offset_inj:
  "layout Z P plans offsets ps \<Longrightarrow> b < length ps \<Longrightarrow> i < length ps \<Longrightarrow> offsets ! b = offsets ! i \<longleftrightarrow> b = i"
  using layout_offset_less [of Z P plans offsets ps b i] layout_offset_less [of Z P plans offsets ps i b]
  by (cases b i rule: linorder_cases) auto

lemma written_header:
  assumes "bs = p @ q @ r" "q = header_bytes ty sz @ u" "ty < 8" "sz \<le> MAX_OBJECT_SIZE"
  shows "read_object_header bs (length p) = Inr (ty, sz, length p + length (header_bytes ty sz))"
  using read_header [OF assms(3), of sz p "u @ r"] assms by (simp add: usize_lim_def MAX_OBJECT_SIZE_def)

lemma written_inflate:
  assumes "zlib_ok Z" "bs = p @ q @ r @ t" "body_end = length p + length q + length r"
    and "q = u @ deflate Z d" "length d \<le> MAX_OBJECT_SIZE"
  shows "inflate_body Z bs (length p + length u) body_end (length d) = Inr (d, length (deflate Z d))"
  using inflate_body_entry [OF assms(1,5), of "p @ u" "length p + length u" r body_end t] assms by simp

lemma written_offset:
  assumes "bs = p @ q @ r" "q = u @ offset_bytes v @ w" "v < usize_lim"
  shows "read_offset bs (length p + length u) = Inr (v, length p + length (u @ offset_bytes v))"
  using read_offset_bytes [OF assms(3), of "p @ u" "w @ r"] assms by (simp add: add.assoc)

lemma scan_entry_written:
  assumes Z: "zlib_ok Z" and lay: "layout Z P plans offsets ps" and good: "good_entries H P plans"
    and n: "length ps = length plans" "length offsets = length plans" and k: "k < length plans"
    and bs: "bs = h @ concat ps @ t" "length h = 12" "length bs < usize_lim" and be: "body_end = 12 + length (concat ps)"
    and st: "scanned crc32 P plans offsets ps k st"
  shows "\<exists>st'. scan_entry H Z crc32 bs body_end k st = Inr st' \<and> scanned crc32 P plans offsets ps (Suc k) st'"
proof -
  let ?p = "h @ concat (take k ps)" and ?r = "concat (drop (Suc k) ps)"
  let ?c = "length ?p"
  have q: "ps ! k = piece Z P offsets k (plans ! k)" and off: "offsets ! k = ?c"
    using lay k n bs(2) by (simp_all add: layout_def)
  have bs': "bs = ?p @ ps ! k @ ?r @ t" and be': "body_end = ?c + length (ps ! k) + length ?r"
    using concat_split [of k ps] k n bs(1,2) be by simp_all
  have cur: "sc_cursor st = ?c"
    using st bs(2) by (simp add: scanned_def)
  have lim: "?c + length (ps ! k) < usize_lim"
    using bs(3) unfolding bs' by simp
  let ?rec = "\<lambda>st1. st1\<lparr>sc_by_offset := (sc_by_offset st1)(?c \<mapsto> k), sc_offsets := sc_offsets st1 @ [?c],
        sc_crcs := sc_crcs st1 @ [crc32 (ps ! k)]\<rparr>"
  have rec: "scan_record crc32 bs k ?c st1 = Inr (?rec st1)"
    if "sc_cursor st1 = ?c + length (ps ! k)" for st1
  proof -
    have "slice bs ?c (sc_cursor st1) = (Inr (ps ! k) :: bytes ores)"
      unfolding bs' using that by (intro slice_append) simp_all
    then show ?thesis
      by (simp add: scan_record_def)
  qed
  note inf = written_inflate [OF Z bs' be']
  note hd = written_header [OF bs']
  have cur': "length (concat (take (Suc k) ps)) = length (concat (take k ps)) + length (ps ! k)"
    and offs': "take (Suc k) offsets = take k offsets @ [?c]" and crc': "take (Suc k) ps = take k ps @ [ps ! k]"
    using k n off by (simp_all add: take_Suc_conv_app_nth)
  show ?thesis
  proof (cases "plans ! k")
    case Full
    let ?o = "P k"
    have o: "length (po_data ?o) \<le> MAX_OBJECT_SIZE" "po_id ?o = compute H (po_kind ?o) (po_data ?o)"
      using good k by (auto simp: good_entries_def)
    let ?h = "header_bytes (raw_type (po_kind ?o)) (length (po_data ?o))"
    have q': "ps ! k = ?h @ deflate Z (po_data ?o)"
      using q Full by simp
    let ?st1 = "st\<lparr>sc_cursor := ?c + length (ps ! k), sc_resolved := (sc_resolved st)[k := Some ?o],
      sc_ready := k # sc_ready st\<rparr>"
    have obj: "\<lparr>po_id = compute H (po_kind ?o) (po_data ?o), po_kind = po_kind ?o, po_data = po_data ?o\<rparr> = ?o"
      using o(2) by simp
    have "scan_entry H Z crc32 bs body_end k st = scan_record crc32 bs k ?c ?st1"
      using hd [OF q' raw_type_base(2) o(1)] inf [OF q' o(1)] q'
      by (simp add: scan_entry_def Let_def cur obj add.assoc)
    moreover have "scanned crc32 P plans offsets ps (Suc k) (?rec ?st1)"
      using st Full k by (simp add: scanned_def cur' offs' crc' map_upt_update bs(2) off) (auto simp: less_Suc_eq off bs(2))
    ultimately show ?thesis
      using rec [of ?st1] by auto
  next
    case (Ofs b d)
    have o: "b < k" "length d \<le> MAX_OBJECT_SIZE"
      using good k Ofs by (auto simp: good_entries_def)
    have bk: "offsets ! b < ?c"
      using layout_offset_less [OF lay o(1)] k n off by simp
    let ?st1 = "st\<lparr>sc_cursor := ?c + length (ps ! k), sc_deltas := (sc_deltas st)[k := Some d],
      sc_wait_offset := wait_push (offsets ! b) k (sc_wait_offset st)\<rparr>"
    let ?h = "header_bytes OBJ_OFS_DELTA (length d)" and ?o = "offset_bytes (?c - offsets ! b)"
    have q': "ps ! k = ?h @ ?o @ deflate Z d" "ps ! k = (?h @ ?o) @ deflate Z d"
      using q Ofs off by simp_all
    have "?c - offsets ! b < usize_lim"
      using lim by linarith
    from written_offset [OF bs' q'(1) this]
    have "read_offset bs (?c + length ?h) = Inr (?c - offsets ! b, ?c + length (?h @ ?o))" .
    moreover obtain y where "sc_by_offset st (offsets ! b) = Some y"
      using st o(1) by (auto simp: scanned_def)
    moreover have "?c - (?c - offsets ! b) = offsets ! b"
      using bk by simp
    ultimately have "scan_entry H Z crc32 bs body_end k st = scan_record crc32 bs k ?c ?st1"
      using hd [OF q'(1) delta_types(3) o(2)] inf [OF q'(2) o(2)] q' bk
      by (simp add: scan_entry_def Let_def cur checked_sub_def add.assoc)
    moreover have "scanned crc32 P plans offsets ps (Suc k) (?rec ?st1)"
      using st Ofs k
      by (simp add: scanned_def cur' offs' crc' map_upt_update bs(2) off filed_wait_push distinct_wait_push)
         (auto simp: less_Suc_eq off bs(2))
    ultimately show ?thesis
      using rec [of ?st1] by auto
  next
    case (Ref x d)
    have o: "id_ok H x" "length d \<le> MAX_OBJECT_SIZE"
      using good k Ref by (auto simp: good_entries_def)
    let ?st1 = "st\<lparr>sc_cursor := ?c + length (ps ! k), sc_deltas := (sc_deltas st)[k := Some d],
      sc_wait_id := wait_push x k (sc_wait_id st)\<rparr>"
    let ?h = "header_bytes OBJ_REF_DELTA (length d)"
    have q': "ps ! k = ?h @ id_bytes x @ deflate Z d" "ps ! k = (?h @ id_bytes x) @ deflate Z d"
      using q Ref by simp_all
    have "read_object_id H bs (?c + length ?h) = Inr (x, ?c + length (?h @ id_bytes x))"
      using o(1) lim get_range_append [of "?p @ ?h" "?c + length ?h" "id_bytes x" "raw_len H" "deflate Z d @ ?r @ t"]
      by (simp add: read_object_id_def checked_add_def bs' q' id_ok_def)
    then have "scan_entry H Z crc32 bs body_end k st = scan_record crc32 bs k ?c ?st1"
      using hd [OF q'(1) delta_types(4) o(2)] inf [OF q'(2) o(2)] q'
      by (simp add: scan_entry_def Let_def cur add.assoc)
    moreover have "scanned crc32 P plans offsets ps (Suc k) (?rec ?st1)"
      using st Ref k
      by (simp add: scanned_def cur' offs' crc' map_upt_update bs(2) off filed_wait_push distinct_wait_push)
         (auto simp: less_Suc_eq off bs(2))
    ultimately show ?thesis
      using rec [of ?st1] by auto
  qed
qed

lemma scan_entries_written:
  assumes "zlib_ok Z" "layout Z P plans offsets ps" "good_entries H P plans"
    and "length ps = length plans" "length offsets = length plans"
    and "bs = h @ concat ps @ t" "length h = 12" "length bs < usize_lim" "body_end = 12 + length (concat ps)"
    and "scanned crc32 P plans offsets ps k st" "k + n = length plans"
  shows "\<exists>st'. scan_entries H Z crc32 bs body_end k n st = Inr st' \<and> scanned crc32 P plans offsets ps (length plans) st'"
  using assms(10,11)
proof (induction n arbitrary: k st)
  case (Suc n)
  then obtain st1 where "scan_entry H Z crc32 bs body_end k st = Inr st1" "scanned crc32 P plans offsets ps (Suc k) st1"
    using scan_entry_written [OF assms(1-5) _ assms(6-9), of k crc32 st] by auto
  then show ?case
    using Suc.IH [of "Suc k" st1] Suc.prems(2) by simp
qed simp

lemma scanned_start: "scanned crc32 P plans offsets ps 0 (scan_start (length plans))"
  by (simp add: scanned_def scan_start_def PACK_HEADER_LEN_def map_replicate_const)

section \<open>Resolving the plan\<close>

lemma resolve_waiters_all:
  assumes "\<forall>w \<in> set ws. w < length resolved \<and> w < length deltas
      \<and> (\<exists>d. deltas ! w = Some d \<and> apply_delta_object H kind base d = Inr (P w))"
  shows "\<exists>resolved' ready'. resolve_waiters H kind base deltas ws resolved ready = Inr (resolved', ready')
    \<and> length resolved' = length resolved
    \<and> (\<forall>j < length resolved. resolved' ! j = (if j \<in> set ws \<and> resolved ! j = None then Some (P j) else resolved ! j))
    \<and> set ready' = set ready \<union> {w \<in> set ws. resolved ! w = None}"
  using assms
proof (induction ws arbitrary: resolved ready)
  case (Cons w ws)
  show ?case
  proof (cases "resolved ! w")
    case (Some b)
    then have "resolve_waiters H kind base deltas (w # ws) resolved ready = resolve_waiters H kind base deltas ws resolved ready"
      using Cons.prems by simp
    moreover have "\<forall>j. (j \<in> set (w # ws) \<and> resolved ! j = None) = (j \<in> set ws \<and> resolved ! j = None)"
      using Some by auto
    ultimately show ?thesis
      using Cons.IH [of resolved ready] Cons.prems by (simp del: resolve_waiters.simps)
  next
    case None
    obtain d where "w < length resolved" "w < length deltas" "deltas ! w = Some d" "apply_delta_object H kind base d = Inr (P w)"
      using Cons.prems by auto
    then have "resolve_waiters H kind base deltas (w # ws) resolved ready
        = resolve_waiters H kind base deltas ws (resolved[w := Some (P w)]) (w # ready)"
      using None by simp
    moreover obtain resolved' ready' where r:
      "resolve_waiters H kind base deltas ws (resolved[w := Some (P w)]) (w # ready) = Inr (resolved', ready')"
      "length resolved' = length resolved"
      "\<forall>j < length resolved. resolved' ! j
         = (if j \<in> set ws \<and> resolved[w := Some (P w)] ! j = None then Some (P j) else resolved[w := Some (P w)] ! j)"
      "set ready' = insert w (set ready) \<union> {x \<in> set ws. resolved[w := Some (P w)] ! x = None}"
      using Cons.IH [of "resolved[w := Some (P w)]" "w # ready"] Cons.prems by auto
    moreover have "\<forall>j < length resolved. resolved' ! j
        = (if j \<in> set (w # ws) \<and> resolved ! j = None then Some (P j) else resolved ! j)"
      using r(3) None \<open>w < length resolved\<close> by (auto simp: nth_list_update)
    moreover have "set ready' = set ready \<union> {x \<in> set (w # ws). resolved ! x = None}"
      using r(4) None \<open>w < length resolved\<close> Cons.prems by (auto simp: nth_list_update split: if_splits)
    ultimately show ?thesis
      by simp
  qed
qed simp

text \<open>Every delta of the plan rebuilds its object from the object it was computed against.\<close>

lemma apply_planned:
  assumes "po_kind base = po_kind target" "d = encode_delta (po_data base) (po_data target)"
    and "po_id target = compute H (po_kind target) (po_data target)"
    and "length (po_data base) < 2 ^ 32" "length (po_data target) \<le> MAX_OBJECT_SIZE"
  shows "apply_delta_object H (po_kind base) (po_data base) d = Inr target"
proof -
  have "apply_delta (po_data base) d = Inr (po_data target)"
    unfolding assms(2) apply_delta_def using assms(4,5) by (intro encode_delta_applies) simp_all
  then show ?thesis
    using assms(1,3) by (simp add: apply_delta_object_def)
qed

definition rebuilds :: "hash_alg \<Rightarrow> (nat \<Rightarrow> packed_object) \<Rightarrow> bytes option list \<Rightarrow> object_kind \<Rightarrow> bytes \<Rightarrow> nat \<Rightarrow> bool" where
  "rebuilds H P deltas kind base w \<longleftrightarrow> w < length deltas
     \<and> (\<exists>d. deltas ! w = Some d \<and> apply_delta_object H kind base d = Inr (P w))"

lemma waiters_of_filed: "distinct_keys al \<Longrightarrow> wait_remove k al = (r, al') \<Longrightarrow> set (waiters_of r) = filed al k"
  using wait_remove_filed(1) [of al k r al'] by (simp add: filed_def)

lemma resolve_external_all:
  assumes "distinct_keys wid" "length resolved = length deltas"
    and "\<forall>(x, kind, data) \<in> set ext. \<forall>w \<in> filed wid x. rebuilds H P deltas kind data w"
  shows "\<exists>wid' resolved' ready'. resolve_external_ref_deltas H ext deltas wid resolved ready = Inr (wid', resolved', ready')
    \<and> distinct_keys wid' \<and> (\<forall>x. filed wid' x = (if x \<in> fst ` set ext then {} else filed wid x))
    \<and> length resolved' = length deltas
    \<and> (\<forall>j < length deltas. resolved' ! j
         = (if (\<exists>x \<in> fst ` set ext. j \<in> filed wid x) \<and> resolved ! j = None then Some (P j) else resolved ! j))
    \<and> set ready' = set ready \<union> {w. (\<exists>x \<in> fst ` set ext. w \<in> filed wid x) \<and> resolved ! w = None}"
  using assms
proof (induction ext arbitrary: wid resolved ready)
  case (Cons e ext)
  obtain x kind data where e: "e = (x, kind, data)"
    by (cases e)
  obtain r wid1 where r: "wait_remove x wid = (r, wid1)"
    by (cases "wait_remove x wid")
  note rf = wait_remove_filed [OF Cons.prems(1) r]
  show ?case
  proof (cases r)
    case None
    then have f: "filed wid x = {}"
      using rf(1) by (simp add: filed_None)
    moreover have "resolve_external_ref_deltas H (e # ext) deltas wid resolved ready
        = resolve_external_ref_deltas H ext deltas wid resolved ready"
      using e r None by simp
    moreover have "\<forall>(x, kind, data) \<in> set ext. \<forall>w \<in> filed wid x. rebuilds H P deltas kind data w"
      using Cons.prems(3) by simp
    moreover have "(\<exists>y \<in> fst ` set (e # ext). w \<in> filed wid y) = (\<exists>y \<in> fst ` set ext. w \<in> filed wid y)" for w
      using f e by simp
    moreover have "(if y \<in> fst ` set (e # ext) then {} else filed wid y) = (if y \<in> fst ` set ext then {} else filed wid y)" for y
      using f e by simp
    ultimately show ?thesis
      using Cons.IH [OF Cons.prems(1,2), of ready] by (simp only:)
  next
    case (Some ws)
    have ws: "set ws = filed wid x"
      using waiters_of_filed [OF Cons.prems(1) r] Some by (simp add: waiters_of_def)
    then have "\<forall>w \<in> set ws. w < length resolved \<and> w < length deltas
        \<and> (\<exists>d. deltas ! w = Some d \<and> apply_delta_object H kind data d = Inr (P w))"
      using Cons.prems(2,3) e by (auto simp: rebuilds_def)
    then obtain resolved1 ready1 where w: "resolve_waiters H kind data deltas ws resolved ready = Inr (resolved1, ready1)"
      "length resolved1 = length resolved"
      "\<forall>j < length resolved. resolved1 ! j = (if j \<in> set ws \<and> resolved ! j = None then Some (P j) else resolved ! j)"
      "set ready1 = set ready \<union> {w \<in> set ws. resolved ! w = None}"
      using resolve_waiters_all [of ws resolved deltas H kind data P ready] by auto
    have lt: "w < length deltas" if "y \<in> fst ` set (e # ext)" "w \<in> filed wid y" for y w
      using that Cons.prems(3) by (fastforce simp: rebuilds_def)
    have "length resolved1 = length deltas"
      "\<forall>(x, kind, data) \<in> set ext. \<forall>w \<in> filed wid1 x. rebuilds H P deltas kind data w"
      using w(2) Cons.prems(2,3) rf(3) by (auto split: if_splits)
    from Cons.IH [OF rf(2) this, of ready1] obtain wid' resolved' ready' where q:
      "resolve_external_ref_deltas H ext deltas wid1 resolved1 ready1 = Inr (wid', resolved', ready')"
      "distinct_keys wid'" "\<forall>y. filed wid' y = (if y \<in> fst ` set ext then {} else filed wid1 y)"
      "length resolved' = length deltas"
      "\<forall>j < length deltas. resolved' ! j
         = (if (\<exists>x \<in> fst ` set ext. j \<in> filed wid1 x) \<and> resolved1 ! j = None then Some (P j) else resolved1 ! j)"
      "set ready' = set ready1 \<union> {w. (\<exists>x \<in> fst ` set ext. w \<in> filed wid1 x) \<and> resolved1 ! w = None}"
      by auto
    have "resolve_external_ref_deltas H (e # ext) deltas wid resolved ready = Inr (wid', resolved', ready')"
      using e r Some w(1) q(1) by simp
    moreover have "\<forall>y. filed wid' y = (if y \<in> fst ` set (e # ext) then {} else filed wid y)"
      using q(3) rf(3) e by auto
    moreover have "\<forall>j < length deltas. resolved' ! j
         = (if (\<exists>x \<in> fst ` set (e # ext). j \<in> filed wid x) \<and> resolved ! j = None then Some (P j) else resolved ! j)"
      using q(5) w(3) ws rf(3) e Cons.prems(2) by auto
    moreover have "set ready' = set ready \<union> {w. (\<exists>x \<in> fst ` set (e # ext). w \<in> filed wid x) \<and> resolved ! w = None}"
    proof -
      have A: "(\<exists>y \<in> fst ` set (e # ext). w \<in> filed wid y) = (w \<in> set ws \<or> (\<exists>y \<in> fst ` set ext. w \<in> filed wid1 y))" for w
        using rf(3) ws e by (auto split: if_splits) (metis fst_conv)
      have "resolved1 ! w = None \<longleftrightarrow> w \<notin> set ws \<and> resolved ! w = None"
        if "\<exists>y \<in> fst ` set ext. w \<in> filed wid1 y" for w
      proof -
        have "w < length resolved"
          using lt A [of w] that Cons.prems(2) by metis
        then show ?thesis
          using w(3) by auto
      qed
      then show ?thesis
        unfolding A q(6) w(4) by blast
    qed
    ultimately show ?thesis
      using q(2,4) by blast
  qed
qed auto

text \<open>The invariant of the worklist once no entry waits for an id.\<close>

definition resolving ::
  "(nat \<Rightarrow> packed_object) \<Rightarrow> encoding list \<Rightarrow> nat list \<Rightarrow> nat waiting \<Rightarrow> object_id waiting
     \<Rightarrow> packed_object option list \<Rightarrow> nat list \<Rightarrow> bool" where
  "resolving P plans offsets wo wid resolved ready \<longleftrightarrow>
     length resolved = length plans
     \<and> (\<forall>i < length plans. resolved ! i = None \<or> resolved ! i = Some (P i))
     \<and> (\<forall>i \<in> set ready. i < length plans \<and> resolved ! i \<noteq> None)
     \<and> distinct_keys wo \<and> distinct_keys wid \<and> (\<forall>x. filed wid x = {})
     \<and> (\<forall>x. \<forall>i \<in> filed wo x. i < length plans \<and> (\<exists>b d. plans ! i = Ofs b d \<and> offsets ! b = x))
     \<and> (\<forall>i < length plans. resolved ! i = None \<longrightarrow> (\<exists>b d. plans ! i = Ofs b d \<and> i \<in> filed wo (offsets ! b)))
     \<and> (\<forall>b < length plans. resolved ! b \<noteq> None \<longrightarrow> b \<in> set ready \<or> filed wo (offsets ! b) = {})"

lemma resolving_end:
  assumes "resolving P plans offsets wo wid resolved []" "good_entries H P plans"
  shows "resolved = map (\<lambda>i. Some (P i)) [0..<length plans]"
proof -
  have "resolved ! i = Some (P i)" if "i < length plans" for i
    using that
  proof (induction i rule: less_induct)
    case (less i)
    show ?case
    proof (cases "resolved ! i")
      case None
      then obtain b d where b: "plans ! i = Ofs b d" "i \<in> filed wo (offsets ! b)"
        using assms(1) less.prems unfolding resolving_def by blast
      then have "b < i"
        using assms(2) less.prems by (auto simp: good_entries_def)
      then have "resolved ! b \<noteq> None" "b < length plans"
        using less.IH [of b] less.prems by auto
      then have "filed wo (offsets ! b) = {}"
        using assms(1) unfolding resolving_def by auto
      with b show ?thesis
        by simp
    next
      case (Some x)
      then show ?thesis
        using assms(1) less.prems by (auto simp: resolving_def)
    qed
  qed
  then show ?thesis
    using assms(1) by (intro nth_equalityI) (auto simp: resolving_def)
qed

lemma resolving_step:
  assumes inv: "resolving P plans offsets wo wid resolved (i # ready)" and good: "good_entries H P plans"
    and w1: "wait_remove (offsets ! i) wo = (w1, wo')" and w2: "wait_remove x wid = (w2, wid')"
    and len: "length deltas = length plans" "length offsets = length plans"
    and inj: "\<forall>b c. b < length plans \<longrightarrow> c < length plans \<longrightarrow> (offsets ! b = offsets ! c \<longleftrightarrow> b = c)"
    and reb: "\<forall>w b d. w < length plans \<longrightarrow> plans ! w = Ofs b d \<longrightarrow>
      rebuilds H P deltas (po_kind (P b)) (po_data (P b)) w"
  shows "\<exists>resolved' ready'. resolve_waiters H (po_kind (P i)) (po_data (P i)) deltas
        (waiters_of w1 @ waiters_of w2) (resolved[i := None]) ready = Inr (resolved', ready')
      \<and> resolving P plans offsets wo' wid' (resolved'[i := Some (P i)]) ready'"
proof -
  have i: "i < length plans" "resolved ! i = Some (P i)" "length resolved = length plans"
    using inv by (auto simp: resolving_def)
  have dk: "distinct_keys wo" "distinct_keys wid" "\<forall>x. filed wid x = {}"
    using inv by (simp_all add: resolving_def)
  have files: "\<forall>x. \<forall>i \<in> filed wo x. i < length plans \<and> (\<exists>b d. plans ! i = Ofs b d \<and> offsets ! b = x)"
    and unres: "\<forall>i < length plans. resolved ! i = None \<longrightarrow> (\<exists>b d. plans ! i = Ofs b d \<and> i \<in> filed wo (offsets ! b))"
    and drained: "\<forall>b < length plans. resolved ! b \<noteq> None \<longrightarrow> b \<in> set (i # ready) \<or> filed wo (offsets ! b) = {}"
    using inv unfolding resolving_def by blast+
  note rf1 = wait_remove_filed [OF dk(1) w1] and rf2 = wait_remove_filed [OF dk(2) w2]
  have ws: "set (waiters_of w1) = filed wo (offsets ! i)" "waiters_of w2 = []"
    using waiters_of_filed [OF dk(1) w1] waiters_of_filed [OF dk(2) w2] dk(3) by simp_all
  have fi: "w < length plans \<and> (\<exists>d. plans ! w = Ofs i d) \<and> i < w" if m: "w \<in> filed wo (offsets ! i)" for w
  proof -
    obtain b d where b: "w < length plans" "plans ! w = Ofs b d" "offsets ! b = offsets ! i"
      using files m by blast
    then have "b < w"
      using good by (auto simp: good_entries_def)
    then have "b = i"
      using inj [rule_format, of b i] b i(1) by simp
    with b \<open>b < w\<close> show ?thesis
      by simp
  qed
  let ?r = "resolved[i := None]" and ?ws = "filed wo (offsets ! i)"
  have "\<forall>w \<in> set (waiters_of w1). w < length ?r \<and> w < length deltas
      \<and> (\<exists>d. deltas ! w = Some d \<and> apply_delta_object H (po_kind (P i)) (po_data (P i)) d = Inr (P w))"
  proof
    fix w assume "w \<in> set (waiters_of w1)"
    then obtain d where d: "w < length plans" "plans ! w = Ofs i d"
      using fi ws(1) by blast
    show "w < length ?r \<and> w < length deltas
      \<and> (\<exists>d. deltas ! w = Some d \<and> apply_delta_object H (po_kind (P i)) (po_data (P i)) d = Inr (P w))"
      using reb d i(3) len(1) by (simp add: rebuilds_def)
  qed
  from resolve_waiters_all [OF this, of ready] obtain resolved' ready' where r:
    "resolve_waiters H (po_kind (P i)) (po_data (P i)) deltas (waiters_of w1) ?r ready = Inr (resolved', ready')"
    "length resolved' = length ?r"
    "\<forall>j < length ?r. resolved' ! j = (if j \<in> ?ws \<and> ?r ! j = None then Some (P j) else ?r ! j)"
    "set ready' = set ready \<union> {w \<in> ?ws. ?r ! w = None}"
    unfolding ws(1) by blast
  let ?f = "resolved'[i := Some (P i)]"
  have f: "?f ! j = (if j \<in> ?ws \<and> resolved ! j = None then Some (P j) else resolved ! j)" if "j < length plans" for j
    using that r(2,3) i fi [of j] by (cases "j = i") (auto simp: nth_list_update)
  have rd: "set ready' = set ready \<union> {w \<in> ?ws. resolved ! w = None}"
  proof -
    have "?r ! w = resolved ! w" if "w \<in> ?ws" for w
      using fi [OF that] by auto
    then show ?thesis
      unfolding r(4) by auto
  qed
  have "resolving P plans offsets wo' wid' ?f ready'"
    unfolding resolving_def
  proof (intro conjI allI impI ballI)
    show "length ?f = length plans"
      using r(2) i(3) by simp
    show "distinct_keys wo'" "distinct_keys wid'" "filed wid' y = {}" for y
      using rf1(2) rf2(2,3) dk(3) by simp_all
  next
    fix j assume j: "j < length plans"
    then show "?f ! j = None \<or> ?f ! j = Some (P j)"
      using f inv by (simp add: resolving_def)
  next
    fix j assume "j \<in> set ready'"
    then show "j < length plans" "?f ! j \<noteq> None"
      using inv f fi by (auto simp: rd resolving_def)
  next
    fix y w assume "w \<in> filed wo' y"
    then have "w \<in> filed wo y"
      using rf1(3) [of y] by (auto split: if_splits)
    then show "w < length plans" "\<exists>b d. plans ! w = Ofs b d \<and> offsets ! b = y"
      using files by blast+
  next
    fix j assume j: "j < length plans" "?f ! j = None"
    then have n: "resolved ! j = None" "j \<notin> ?ws"
      using f by (auto split: if_splits)
    then obtain b d where "plans ! j = Ofs b d" "j \<in> filed wo (offsets ! b)"
      using unres j by blast
    then show "\<exists>b d. plans ! j = Ofs b d \<and> j \<in> filed wo' (offsets ! b)"
      using n rf1(3) by auto
  next
    fix b assume b: "b < length plans" "?f ! b \<noteq> None"
    show "b \<in> set ready' \<or> filed wo' (offsets ! b) = {}"
    proof (cases "resolved ! b")
      case None
      then show ?thesis
        using b f rd by (auto split: if_splits)
    next
      case (Some y)
      then have "b \<in> set (i # ready) \<or> filed wo (offsets ! b) = {}"
        using drained b(1) by blast
      then show ?thesis
        using rd rf1(3) by auto
    qed
  qed
  then show ?thesis
    using r(1) ws(2) by auto
qed

lemma resolve_ready_planned:
  assumes good: "good_entries H P plans"
    and len: "length deltas = length plans" "length offsets = length plans"
    and inj: "\<forall>b c. b < length plans \<longrightarrow> c < length plans \<longrightarrow> (offsets ! b = offsets ! c \<longleftrightarrow> b = c)"
    and reb: "\<forall>w b d. w < length plans \<longrightarrow> plans ! w = Ofs b d \<longrightarrow>
      rebuilds H P deltas (po_kind (P b)) (po_data (P b)) w"
  shows "resolving P plans offsets wo wid resolved ready \<Longrightarrow>
    resolve_ready H offsets deltas wo wid resolved ready = Inr (map (\<lambda>i. Some (P i)) [0..<length plans])"
proof (induction "2 * (waiting_size wo + waiting_size wid) + length ready" arbitrary: wo wid resolved ready rule: less_induct)
  case less
  show ?case
  proof (cases ready)
    case Nil
    then show ?thesis
      using resolving_end less.prems good by simp
  next
    case (Cons i ready1)
    obtain w1 wo' w2 wid' where w: "wait_remove (offsets ! i) wo = (w1, wo')" "wait_remove (po_id (P i)) wid = (w2, wid')"
      by (metis surj_pair)
    obtain resolved' ready' where r: "resolve_waiters H (po_kind (P i)) (po_data (P i)) deltas
        (waiters_of w1 @ waiters_of w2) (resolved[i := None]) ready1 = Inr (resolved', ready')"
      and inv: "resolving P plans offsets wo' wid' (resolved'[i := Some (P i)]) ready'"
      using resolving_step [OF less.prems [unfolded Cons] good w len inj reb] by blast
    have i: "i < length plans" "i < length resolved" "resolved ! i = Some (P i)"
      using less.prems Cons by (auto simp: resolving_def)
    have "resolve_ready H offsets deltas wo wid resolved ready
        = resolve_ready H offsets deltas wo' wid' (resolved'[i := Some (P i)]) ready'"
      using i len w r Cons by (simp add: resolve_ready.simps(2))
    moreover have "2 * (waiting_size wo' + waiting_size wid') + length ready'
        < 2 * (waiting_size wo + waiting_size wid) + length ready"
      using resolve_waiters_ready [OF r] wait_remove_size [OF w(1)] wait_remove_size [OF w(2)] Cons by simp
    ultimately show ?thesis
      using less.hyps inv by simp
  qed
qed

lemma emit_entries_map:
  "length offsets = i + n \<Longrightarrow> length crcs = i + n \<Longrightarrow>
   emit_entries (map (\<lambda>j. Some (P j)) [i..<i + n]) offsets crcs i
     = Inr (map (\<lambda>j. \<lparr>de_object = P j, de_offset = offsets ! j, de_crc32 = crcs ! j\<rparr>) [i..<i + n])"
proof (induction n arbitrary: i)
  case (Suc n)
  have "[i..<i + Suc n] = i # [Suc i..<Suc i + n]"
    by (simp add: upt_conv_Cons)
  then show ?case
    using Suc.IH [of "Suc i"] Suc.prems by simp
qed simp

section \<open>Decoding a written pack\<close>

text \<open>The two sides of a transfer: objects that fit the limits, external bases the reader also holds.\<close>

definition packable :: "hash_alg \<Rightarrow> packed_object list \<Rightarrow> bool" where
  "packable H objects \<longleftrightarrow> length objects < 2 ^ 32
     \<and> (\<forall>b \<in> set objects. po_id b = compute H (po_kind b) (po_data b) \<and> length (po_data b) \<le> MAX_OBJECT_SIZE)"

definition holds_bases :: "hash_alg \<Rightarrow> packed_object list \<Rightarrow> (object_id \<times> object_kind \<times> bytes) list \<Rightarrow> bool" where
  "holds_bases H bases ext \<longleftrightarrow> distinct (map fst ext)
     \<and> (\<forall>b \<in> set bases. id_ok H (po_id b) \<and> length (po_data b) < 2 ^ 32 \<and> (po_id b, po_kind b, po_data b) \<in> set ext)"

lemma planned_plan:
  "planned objects bases order plans \<Longrightarrow> e < length plans \<Longrightarrow> plan_ok objects bases order e (objects ! (order ! e)) (plans ! e)"
  by (simp add: planned_def)

lemma planned_object:
  assumes "planned objects bases order plans" "packable H objects" "e < length plans"
  shows "po_id (objects ! (order ! e)) = compute H (po_kind (objects ! (order ! e))) (po_data (objects ! (order ! e)))"
    "length (po_data (objects ! (order ! e))) \<le> MAX_OBJECT_SIZE"
proof -
  have "order ! e \<in> {..<length objects}"
    using assms(1,3) nth_mem [of e order] by (metis planned_def)
  then have "objects ! (order ! e) \<in> set objects"
    by simp
  then show "po_id (objects ! (order ! e)) = compute H (po_kind (objects ! (order ! e))) (po_data (objects ! (order ! e)))"
    "length (po_data (objects ! (order ! e))) \<le> MAX_OBJECT_SIZE"
    using assms(2) by (simp_all add: packable_def)
qed

lemma planned_good:
  assumes "planned objects bases order plans" "packable H objects" "holds_bases H bases ext"
  shows "good_entries H (\<lambda>e. objects ! (order ! e)) plans"
  unfolding good_entries_def
proof (intro allI impI conjI)
  fix e assume e: "e < length plans"
  note o = planned_object [OF assms(1,2) e]
  show "length (po_data (objects ! (order ! e))) \<le> MAX_OBJECT_SIZE"
    "po_id (objects ! (order ! e)) = compute H (po_kind (objects ! (order ! e))) (po_data (objects ! (order ! e)))"
    using o by blast+
  show "case plans ! e of Full \<Rightarrow> True | Ofs b d \<Rightarrow> b < e \<and> length d \<le> MAX_OBJECT_SIZE
      | Ref x d \<Rightarrow> id_ok H x \<and> length d \<le> MAX_OBJECT_SIZE"
    using planned_plan [OF assms(1) e] o(2) assms(3)
    by (auto simp: plan_ok_def holds_bases_def split: encoding.splits)
qed

lemma ofs_rebuilds:
  assumes "planned objects bases order plans" "packable H objects" "holds_bases H bases ext"
    and "P = (\<lambda>e. objects ! (order ! e))" "deltas = map (\<lambda>i. delta_of (plans ! i)) [0..<length plans]"
    and "w < length plans" "plans ! w = Ofs b d"
  shows "rebuilds H P deltas (po_kind (P b)) (po_data (P b)) w"
proof -
  have p: "b < w" "po_kind (P b) = po_kind (P w)" "d = encode_delta (po_data (P b)) (po_data (P w))"
    using planned_plan [OF assms(1,6)] assms(4,7) by (simp_all add: plan_ok_def)
  have "length (po_data (P b)) \<le> MAX_OBJECT_SIZE"
    using planned_object(2) [OF assms(1,2), of b] p(1) assms(4,6) by simp
  then have "apply_delta_object H (po_kind (P b)) (po_data (P b)) d = Inr (P w)"
    using p(2,3) planned_object [OF assms(1,2,6)] assms(4)
    by (intro apply_planned) (simp_all add: MAX_OBJECT_SIZE_def)
  then show ?thesis
    using assms(5-7) by (simp add: rebuilds_def)
qed

lemma ref_rebuilds:
  assumes "planned objects bases order plans" "packable H objects" "holds_bases H bases ext"
    and "P = (\<lambda>e. objects ! (order ! e))" "deltas = map (\<lambda>i. delta_of (plans ! i)) [0..<length plans]"
    and "w < length plans" "plans ! w = Ref x d"
  shows "x \<in> fst ` set ext"
    and "(x, kind, data) \<in> set ext \<Longrightarrow> rebuilds H P deltas kind data w"
proof -
  obtain base where b: "base \<in> set bases" "po_id base = x" "po_kind base = po_kind (P w)"
    "d = encode_delta (po_data base) (po_data (P w))"
    using planned_plan [OF assms(1,6)] assms(4,7) by (auto simp: plan_ok_def)
  have e: "(x, po_kind base, po_data base) \<in> set ext" "length (po_data base) < 2 ^ 32"
    using b(1,2) assms(3) by (auto simp: holds_bases_def)
  then show "x \<in> fst ` set ext"
    by force
  assume "(x, kind, data) \<in> set ext"
  then have "kind = po_kind base" "data = po_data base"
    using e(1) assms(3) by (auto simp: holds_bases_def dest: eq_key_imp_eq_value)
  moreover have "apply_delta_object H (po_kind base) (po_data base) d = Inr (P w)"
    using b(3,4) e(2) planned_object [OF assms(1,2,6)] assms(4) by (intro apply_planned) simp_all
  ultimately show "rebuilds H P deltas kind data w"
    using assms(5-7) by (simp add: rebuilds_def)
qed

lemma resolve_written:
  assumes pl: "planned objects bases order plans" "packable H objects" "holds_bases H bases ext"
    and P: "P = (\<lambda>e. objects ! (order ! e))"
    and lay: "layout Z P plans offsets ps" and n: "length ps = length plans" "length offsets = length plans"
    and st: "scanned crc32 P plans offsets ps (length plans) st"
  shows "\<exists>wid resolved ready. resolve_external_ref_deltas H ext (sc_deltas st) (sc_wait_id st) (sc_resolved st) (sc_ready st)
        = Inr (wid, resolved, ready)
      \<and> resolve_ready H (sc_offsets st) (sc_deltas st) (sc_wait_offset st) wid resolved ready
        = Inr (map (\<lambda>i. Some (P i)) [0..<length plans])"
proof -
  let ?n = "length plans"
  have good: "good_entries H P plans"
    using planned_good [OF pl] P by simp
  have sc: "sc_resolved st = map (\<lambda>i. if plans ! i = Full then Some (P i) else None) [0..<?n]"
    "sc_deltas st = map (\<lambda>i. delta_of (plans ! i)) [0..<?n]" "sc_offsets st = offsets"
    "distinct_keys (sc_wait_offset st)" "distinct_keys (sc_wait_id st)"
    "\<And>x. filed (sc_wait_offset st) x = {i. i < ?n \<and> (\<exists>b d. plans ! i = Ofs b d \<and> offsets ! b = x)}"
    "\<And>x. filed (sc_wait_id st) x = {i. i < ?n \<and> (\<exists>d. plans ! i = Ref x d)}"
    "set (sc_ready st) = {i. i < ?n \<and> plans ! i = Full}"
    using st n by (simp_all add: scanned_def cong: map_cong if_cong)
  have "\<forall>(x, kind, data) \<in> set ext. \<forall>w \<in> filed (sc_wait_id st) x. rebuilds H P (sc_deltas st) kind data w"
    using ref_rebuilds(2) [OF pl P sc(2)] by (auto simp: sc(7))
  from resolve_external_all [OF sc(5) _ this, of "sc_resolved st" "sc_ready st"]
  obtain wid resolved ready where r:
    "resolve_external_ref_deltas H ext (sc_deltas st) (sc_wait_id st) (sc_resolved st) (sc_ready st) = Inr (wid, resolved, ready)"
    "distinct_keys wid" "\<forall>x. filed wid x = (if x \<in> fst ` set ext then {} else filed (sc_wait_id st) x)"
    "length resolved = length (sc_deltas st)"
    "\<forall>j < length (sc_deltas st). resolved ! j = (if (\<exists>x \<in> fst ` set ext. j \<in> filed (sc_wait_id st) x) \<and> sc_resolved st ! j = None
       then Some (P j) else sc_resolved st ! j)"
    "set ready = set (sc_ready st) \<union> {w. (\<exists>x \<in> fst ` set ext. w \<in> filed (sc_wait_id st) x) \<and> sc_resolved st ! w = None}"
    by (auto simp: sc(1,2))
  have waits: "(\<exists>x \<in> fst ` set ext. j \<in> filed (sc_wait_id st) x) \<longleftrightarrow> (\<exists>x d. plans ! j = Ref x d)" if "j < ?n" for j
    using ref_rebuilds(1) [OF pl P sc(2) that] that by (auto simp: sc(7))
  have res: "resolved ! j = (if \<exists>b d. plans ! j = Ofs b d then None else Some (P j))" if "j < ?n" for j
    using r(5) waits [OF that] that by (cases "plans ! j") (simp_all add: sc(1,2))
  have rdy: "j \<in> set ready \<longleftrightarrow> j < ?n \<and> \<not> (\<exists>b d. plans ! j = Ofs b d)" for j
  proof (cases "j < ?n")
    case True
    then show ?thesis
      using waits [OF True] by (cases "plans ! j") (simp_all add: r(6) sc(1,8))
  next
    case False
    then show ?thesis
      by (auto simp: r(6) sc(7,8))
  qed
  have "resolving P plans offsets (sc_wait_offset st) wid resolved ready"
    unfolding resolving_def
  proof (intro conjI allI impI ballI)
    show "length resolved = ?n" "distinct_keys (sc_wait_offset st)" "distinct_keys wid"
      using r(2,4) sc(2,4) by simp_all
    show "filed wid x = {}" for x
      using r(3) ref_rebuilds(1) [OF pl P sc(2)] by (auto simp: sc(7))
    show "resolved ! i = None \<or> resolved ! i = Some (P i)" if "i < ?n" for i
      using res [OF that] by simp
    show "i < ?n" "resolved ! i \<noteq> None" if "i \<in> set ready" for i
      using that rdy res by auto
    show "i < ?n" "\<exists>b d. plans ! i = Ofs b d \<and> offsets ! b = x" if "i \<in> filed (sc_wait_offset st) x" for i x
      using that by (simp_all add: sc(6))
    show "\<exists>b d. plans ! i = Ofs b d \<and> i \<in> filed (sc_wait_offset st) (offsets ! b)"
      if "i < ?n" "resolved ! i = None" for i
      using that res [OF that(1)] by (auto simp: sc(6) split: if_splits)
    show "b \<in> set ready \<or> filed (sc_wait_offset st) (offsets ! b) = {}" if "b < ?n" "resolved ! b \<noteq> None" for b
      using that res [OF that(1)] rdy by auto
  qed
  moreover have "\<forall>b c. b < ?n \<longrightarrow> c < ?n \<longrightarrow> (offsets ! b = offsets ! c \<longleftrightarrow> b = c)"
    using layout_offset_inj [OF lay] n(1) by simp
  moreover have "\<forall>w b d. w < ?n \<longrightarrow> plans ! w = Ofs b d \<longrightarrow> rebuilds H P (sc_deltas st) (po_kind (P b)) (po_data (P b)) w"
    using ofs_rebuilds [OF pl P sc(2)] by blast
  ultimately have "resolve_ready H offsets (sc_deltas st) (sc_wait_offset st) wid resolved ready
      = Inr (map (\<lambda>i. Some (P i)) [0..<?n])"
    using good n(2) sc(2) by (intro resolve_ready_planned) simp_all
  with r(1) show ?thesis
    by (auto simp: sc(3))
qed

text \<open>What the reader reports of the \<open>j\<close>-th entry of a written pack.\<close>

definition entry_of ::
  "(bytes \<Rightarrow> u32) \<Rightarrow> (nat \<Rightarrow> packed_object) \<Rightarrow> nat list \<Rightarrow> bytes list \<Rightarrow> nat \<Rightarrow> decoded_entry" where
  "entry_of crc32 P offsets ps j = \<lparr>de_object = P j, de_offset = offsets ! j, de_crc32 = crc32 (ps ! j)\<rparr>"

lemma check_pack_header_written:
  assumes "hash_ok H" "length t = raw_len H"
  shows "check_pack_header H (pack_head n @ body @ t) = Inr ()"
proof -
  have "slice (pack_head n @ body @ t) 0 4 = (Inr (ascii ''PACK'') :: bytes ores)"
    unfolding pack_head_def
    using slice_append [of "[]" 0 "ascii ''PACK''" 4 "to_be32 2 @ to_be32 (word_of_nat n) @ body @ t"] by simp
  moreover have "slice (pack_head n @ body @ t) 4 8 = (Inr (to_be32 2) :: bytes ores)"
    unfolding pack_head_def
    using slice_append [of "ascii ''PACK''" 4 "to_be32 2" 8 "to_be32 (word_of_nat n) @ body @ t"] by simp
  ultimately show ?thesis
    using assms by (simp add: check_pack_header_def PACK_HEADER_LEN_def)
qed

lemma pack_count:
  assumes "n < 2 ^ 32"
  shows "slice (pack_head n @ r) 8 12 = Inr (to_be32 (word_of_nat n))" "unat (word_of_nat n :: u32) = n"
proof -
  show "slice (pack_head n @ r) 8 12 = Inr (to_be32 (word_of_nat n))"
    unfolding pack_head_def using slice_append [of "ascii ''PACK'' @ to_be32 2" 8 "to_be32 (word_of_nat n)" 12 r] by simp
  show "unat (word_of_nat n :: u32) = n"
    using assms by (simp add: unat_of_nat)
qed

lemma decode_written:
  assumes H: "hash_ok H" "zlib_ok Z"
    and pl: "planned objects bases order plans" "packable H objects" "holds_bases H bases ext"
    and P: "P = (\<lambda>e. objects ! (order ! e))"
    and lay: "layout Z P plans offsets ps" and n: "length ps = length plans" "length offsets = length plans"
    and pack: "pack = pack_head (length plans) @ concat ps @ digest H (pack_head (length plans) @ concat ps)"
    and lim: "length pack < usize_lim"
  shows "decode_entries H Z crc32 pack ext = Inr (map (entry_of crc32 P offsets ps) [0..<length plans])"
proof -
  let ?n = "length plans"
  let ?h = "pack_head ?n" and ?t = "digest H (pack_head ?n @ concat ps)"
  have t: "length ?t = raw_len H"
    using H(1) by simp
  have cnt: "?n < 2 ^ 32"
    using pl(1,2) planned_perm(2) [OF pl(1)] by (simp add: packable_def planned_def)
  have be: "length pack - raw_len H = 12 + length (concat ps)"
    "take (12 + length (concat ps)) pack = ?h @ concat ps" "drop (12 + length (concat ps)) pack = ?t"
    using t by (simp_all add: pack)
  have sl: "slice pack 8 12 = (Inr (to_be32 (word_of_nat ?n)) :: bytes ores)"
    unfolding pack by (rule pack_count(1) [OF cnt])
  obtain st where st: "scan_entries H Z crc32 pack (12 + length (concat ps)) 0 ?n (scan_start ?n) = Inr st"
    "scanned crc32 P plans offsets ps ?n st"
    using scan_entries_written [OF H(2) lay planned_good [OF pl, folded P] n pack length_pack_head lim refl scanned_start]
    by auto
  obtain wid resolved ready where r:
    "resolve_external_ref_deltas H ext (sc_deltas st) (sc_wait_id st) (sc_resolved st) (sc_ready st) = Inr (wid, resolved, ready)"
    "resolve_ready H (sc_offsets st) (sc_deltas st) (sc_wait_offset st) wid resolved ready
      = Inr (map (\<lambda>i. Some (P i)) [0..<?n])"
    using resolve_written [OF pl P lay n st(2)] by auto
  have sc: "sc_cursor st = 12 + length (concat ps)" "sc_offsets st = offsets" "sc_crcs st = map crc32 ps"
    using st(2) n by (simp_all add: scanned_def)
  have "emit_entries (map (\<lambda>i. Some (P i)) [0..<?n]) offsets (map crc32 ps) 0
      = Inr (map (entry_of crc32 P offsets ps) [0..<?n])"
    using emit_entries_map [of offsets 0 ?n "map crc32 ps" P] n
    by (simp add: entry_of_def cong: map_cong)
  then show ?thesis
    using check_pack_header_written [OF H(1) t, of ?n "concat ps"] sl pack_count(2) [OF cnt] be st(1) r sc
    unfolding decode_entries_def Let_def by (simp flip: pack)
qed

text \<open>Writing succeeds, and the layout of what is written.\<close>

lemma encode_written:
  obtains order plans offsets ps pack where "planned objects bases order plans"
    "encode_pack_with_bases H Z objects bases = Inr pack"
    "pack = pack_head (length plans) @ concat ps @ digest H (pack_head (length plans) @ concat ps)"
    "layout Z (\<lambda>e. objects ! (order ! e)) plans offsets ps" "length ps = length plans" "length offsets = length plans"
proof -
  obtain order plans where p: "plan_deltas objects bases (combined_order objects bases) = Inr (order, plans)"
    "planned objects bases order plans"
    using plan_deltas_planned by blast
  have l: "length plans = length order" "set order \<subseteq> {..<length objects}"
    using p(2) by (simp_all add: planned_def)
  have "earlier_bases plans"
    unfolding earlier_bases_def
  proof (intro allI impI)
    fix i b d assume "i < length plans" "plans ! i = Ofs b d"
    then show "b < i"
      using planned_plan [OF p(2), of i] by (simp add: plan_ok_def)
  qed
  from write_pack_layout [OF l(1) this refl l(2), of H Z] obtain ps offsets where
    "write_pack H Z objects order plans
      = Inr (pack_head (length order) @ concat ps @ digest H (pack_head (length order) @ concat ps))"
    "layout Z (\<lambda>e. objects ! (order ! e)) plans offsets ps" "length ps = length order" "length offsets = length order"
    by blast
  with p l(1) show ?thesis
    by (intro that [of order plans _ ps offsets]) (simp_all add: encode_pack_with_bases_def)
qed

section \<open>Random access into a written pack\<close>

lemma read_raw_entry_written:
  assumes Z: "zlib_ok Z" and lay: "layout Z P plans offsets ps" and good: "good_entries H P plans"
    and n: "length ps = length plans" "length offsets = length plans" and k: "k < length plans"
    and bs: "bs = h @ concat ps @ t" "length h = 12" "length bs < usize_lim" and be: "body_end = 12 + length (concat ps)"
  shows "plans ! k = Full \<Longrightarrow>
      read_raw_entry H Z bs body_end (word_of_nat (offsets ! k)) idx = Inr (RBase (po_kind (P k)) (po_data (P k)))"
    and "plans ! k = Ofs b d \<Longrightarrow>
      read_raw_entry H Z bs body_end (word_of_nat (offsets ! k)) idx = Inr (RDelta (word_of_nat (offsets ! b)) d)"
proof -
  let ?p = "h @ concat (take k ps)" and ?r = "concat (drop (Suc k) ps)"
  let ?c = "length ?p"
  have q: "ps ! k = piece Z P offsets k (plans ! k)" and off: "offsets ! k = ?c"
    using lay k n bs(2) by (simp_all add: layout_def)
  have bs': "bs = ?p @ ps ! k @ ?r @ t" and be': "body_end = ?c + length (ps ! k) + length ?r"
    using concat_split [of k ps] k n bs(1,2) be by simp_all
  have lim: "?c + length (ps ! k) < usize_lim"
    using bs(3) unfolding bs' by simp
  have off': "unat (word_of_nat (offsets ! k) :: u64) = ?c"
    using lim unfolding off by (simp add: unat_of_nat usize_lim_def del: of_nat_add length_append)
  have rng: "\<not> (?c < PACK_HEADER_LEN \<or> body_end \<le> ?c)"
    using be' bs(2) q piece_nonempty [of Z P offsets k "plans ! k"] by (simp add: PACK_HEADER_LEN_def)
  note inf = written_inflate [OF Z bs' be']
  note hd = written_header [OF bs']
  {
    assume Full: "plans ! k = Full"
    let ?h = "header_bytes (raw_type (po_kind (P k))) (length (po_data (P k)))"
    have o: "length (po_data (P k)) \<le> MAX_OBJECT_SIZE"
      using good k by (auto simp: good_entries_def)
    have q': "ps ! k = ?h @ deflate Z (po_data (P k))"
      using q Full by simp
    from inf [OF q' o] hd [OF q' raw_type_base(2) o] rng
    show "read_raw_entry H Z bs body_end (word_of_nat (offsets ! k)) idx = Inr (RBase (po_kind (P k)) (po_data (P k)))"
      unfolding read_raw_entry_def Let_def off' by simp
  next
    assume Ofs: "plans ! k = Ofs b d"
    have o: "b < k" "length d \<le> MAX_OBJECT_SIZE"
      using good k Ofs by (auto simp: good_entries_def)
    have bk: "offsets ! b < ?c" "12 \<le> offsets ! b"
      using layout_offset_less [OF lay o(1)] layout_offset [OF lay, of b] k n off o(1) by simp_all
    let ?h = "header_bytes OBJ_OFS_DELTA (length d)" and ?o = "offset_bytes (?c - offsets ! b)"
    have q': "ps ! k = ?h @ ?o @ deflate Z d" "ps ! k = (?h @ ?o) @ deflate Z d"
      using q Ofs off by simp_all
    have v: "?c - offsets ! b < usize_lim"
      using lim by linarith
    have sub: "checked_sub ?c (?c - offsets ! b) = Some (offsets ! b)"
      using bk by simp
    have rng2: "\<not> (offsets ! b < PACK_HEADER_LEN \<or> ?c \<le> offsets ! b)"
      using bk by (simp add: PACK_HEADER_LEN_def)
    show "read_raw_entry H Z bs body_end (word_of_nat (offsets ! k)) idx = Inr (RDelta (word_of_nat (offsets ! b)) d)"
      unfolding read_raw_entry_def Let_def off' if_not_P [OF rng] hd [OF q'(1) delta_types(3) o(2)]
      using written_offset [OF bs' q'(1) v] sub rng2 inf [OF q'(2) o(2)]
      by (simp del: length_append length_take checked_sub_Some)
  }
qed

lemma apply_deltas_append: "apply_deltas data (xs @ ys) = ebind (apply_deltas data xs) (\<lambda>data. apply_deltas data ys)"
  by (induction xs arbitrary: data) (simp_all add: ebind_assoc)

lemma walk_chain_written:
  assumes raw: "\<And>k. k < n \<Longrightarrow> plans ! k = Full \<Longrightarrow>
      read_raw_entry H Z pack body_end (off k) idx = Inr (RBase (po_kind (P k)) (po_data (P k)))"
    "\<And>k b d. k < n \<Longrightarrow> plans ! k = Ofs b d \<Longrightarrow>
      b < k \<and> read_raw_entry H Z pack body_end (off k) idx = Inr (RDelta (off b) d)
        \<and> po_kind (P b) = po_kind (P k) \<and> apply_delta (po_data (P b)) d = Inr (po_data (P k))"
    "\<And>k x d. k < n \<Longrightarrow> plans ! k \<noteq> Ref x d"
    and inj: "inj_on off {..<n}"
  shows "k < n \<Longrightarrow> \<forall>b \<le> k. off b \<notin> visited \<Longrightarrow>
    \<exists>data ds. walk_chain H Z pack body_end idx visited (off k) deltas = Inr (po_kind (P k), data, deltas @ ds)
      \<and> apply_deltas data (rev ds) = Inr (po_data (P k))"
proof (induction k arbitrary: visited deltas rule: less_induct)
  case (less k)
  have nv: "off k \<notin> visited"
    using less.prems(2) by blast
  show ?case
  proof (cases "plans ! k")
    case Full
    then have "walk_chain H Z pack body_end idx visited (off k) deltas = Inr (po_kind (P k), po_data (P k), deltas @ [])"
      using raw(1) [OF less.prems(1)] nv by (subst walk_chain.simps) simp
    then show ?thesis
      by (intro exI [of _ "po_data (P k)"] exI [of _ "[]"]) simp
  next
    case (Ofs b d)
    note r = raw(2) [OF less.prems(1) Ofs]
    have "\<forall>c \<le> b. off c \<notin> insert (off k) visited"
    proof (intro allI impI)
      fix c assume "c \<le> b"
      then have "c < k"
        using r by simp
      then show "off c \<notin> insert (off k) visited"
        using less.prems inj by (auto dest: inj_onD)
    qed
    then obtain data ds where IH: "walk_chain H Z pack body_end idx (insert (off k) visited) (off b) (deltas @ [d])
        = Inr (po_kind (P b), data, (deltas @ [d]) @ ds)" "apply_deltas data (rev ds) = Inr (po_data (P b))"
      using less.IH [of b "insert (off k) visited" "deltas @ [d]"] r less.prems(1) by auto
    have "walk_chain H Z pack body_end idx visited (off k) deltas = Inr (po_kind (P k), data, deltas @ d # ds)"
      using r nv IH(1) by (subst walk_chain.simps) simp
    moreover have "apply_deltas data (rev (d # ds)) = Inr (po_data (P k))"
      using IH(2) r by (simp add: apply_deltas_append)
    ultimately show ?thesis
      by blast
  next
    case (Ref x d)
    then show ?thesis
      using raw(3) less.prems(1) by blast
  qed
qed

text \<open>A pack without external bases has no \<open>Ref\<close> entry, so the index is never asked.\<close>

lemma decode_object_at_written:
  assumes H: "hash_ok H" "zlib_ok Z" and pl: "planned objects [] order plans" "packable H objects"
    and P: "P = (\<lambda>e. objects ! (order ! e))"
    and lay: "layout Z P plans offsets ps" and n: "length ps = length plans" "length offsets = length plans"
    and pack: "pack = pack_head (length plans) @ concat ps @ digest H (pack_head (length plans) @ concat ps)"
    and lim: "length pack < usize_lim" and k: "k < length plans"
  shows "decode_object_at H Z pack idx (word_of_nat (offsets ! k)) = Inr (P k)"
proof -
  let ?t = "digest H (pack_head (length plans) @ concat ps)"
  let ?be = "12 + length (concat ps)"
  have hb: "holds_bases H [] []"
    by (simp add: holds_bases_def)
  have good: "good_entries H P plans"
    using planned_good [OF pl hb] P by simp
  note raw = read_raw_entry_written [OF H(2) lay good n _ pack length_pack_head lim refl]
  have t: "length ?t = raw_len H"
    using H(1) by simp
  have be: "length pack - raw_len H = ?be"
    using t by (simp add: pack)
  have lt: "offsets ! j < 2 ^ 64" if "j < length plans" for j
  proof -
    have "length (concat (take j ps)) \<le> length (concat ps)"
      using concat_take_mono [of j "length ps" ps] that n(1) by simp
    then show ?thesis
      using layout_offset [OF lay] that n(1) lim by (simp add: pack usize_lim_def)
  qed
  have "inj_on (\<lambda>k. word_of_nat (offsets ! k) :: u64) {..<length plans}"
  proof (rule inj_onI)
    fix a b assume ab: "a \<in> {..<length plans}" "b \<in> {..<length plans}"
      "(word_of_nat (offsets ! a) :: u64) = word_of_nat (offsets ! b)"
    then have "offsets ! a = offsets ! b"
      using lt [of a] lt [of b] by (simp add: word_unat_eq_iff unat_of_nat)
    then show "a = b"
      using ab layout_offset_inj [OF lay] n(1) by simp
  qed
  moreover have "b < j \<and> po_kind (P b) = po_kind (P j) \<and> apply_delta (po_data (P b)) d = Inr (po_data (P j))"
    if "j < length plans" "plans ! j = Ofs b d" for j b d
  proof -
    have p: "b < j" "po_kind (P b) = po_kind (P j)" "d = encode_delta (po_data (P b)) (po_data (P j))"
      using planned_plan [OF pl(1) that(1)] P that(2) by (simp_all add: plan_ok_def)
    have "length (po_data (P b)) < 2 ^ 32" "length (po_data (P j)) \<le> MAX_OBJECT_SIZE"
      using planned_object(2) [OF pl, of b] planned_object(2) [OF pl that(1)] p(1) P that(1)
      by (simp_all add: MAX_OBJECT_SIZE_def)
    then show ?thesis
      using p unfolding apply_delta_def by (simp add: encode_delta_applies)
  qed
  moreover have "plans ! j \<noteq> Ref x d" if "j < length plans" for j x d
    using planned_plan [OF pl(1) that] by (auto simp: plan_ok_def)
  ultimately obtain data ds where
    "walk_chain H Z pack ?be idx {} (word_of_nat (offsets ! k)) [] = Inr (po_kind (P k), data, [] @ ds)"
    "apply_deltas data (rev ds) = Inr (po_data (P k))"
    using walk_chain_written [of "length plans" plans H Z pack ?be "\<lambda>k. word_of_nat (offsets ! k)" idx P k "{}" "[]"] raw k
    by auto
  then show ?thesis
    using check_pack_header_written [OF H(1) t, of "length plans" "concat ps"] be planned_object(1) [OF pl k] P
    by (simp add: decode_object_at_def Let_def flip: pack)
qed

lemma written_pack_decodes:
  assumes "hash_ok H" "zlib_ok Z" "packable H objects" "holds_bases H bases ext"
  shows "\<exists>pack. encode_pack_with_bases H Z objects bases = Inr pack
    \<and> (length pack < usize_lim \<longrightarrow>
        (\<exists>out. decode_pack_with_bases H Z crc32 pack ext = Inr out \<and> mset out = mset objects))"
proof -
  obtain order plans offsets ps pack where e: "planned objects bases order plans"
    "encode_pack_with_bases H Z objects bases = Inr pack"
    "pack = pack_head (length plans) @ concat ps @ digest H (pack_head (length plans) @ concat ps)"
    "layout Z (\<lambda>e. objects ! (order ! e)) plans offsets ps" "length ps = length plans" "length offsets = length plans"
    by (rule encode_written)
  let ?P = "\<lambda>e. objects ! (order ! e)"
  have "decode_pack_with_bases H Z crc32 pack ext = Inr (map ?P [0..<length plans])" if "length pack < usize_lim"
    using decode_written [OF assms(1,2) e(1) assms(3,4) refl e(4,5,6,3) that, of crc32]
    by (simp add: decode_pack_with_bases_def comp_def entry_of_def)
  moreover have "mset (map ?P [0..<length plans]) = mset objects"
  proof -
    have "map ?P [0..<length plans] = map ((!) objects) order"
      using e(1) by (intro nth_equalityI) (simp_all add: planned_def)
    then show ?thesis
      using planned_perm(1) [OF e(1)] by simp
  qed
  ultimately show ?thesis
    using e(2) by blast
qed

section \<open>Properties\<close>

text \<open>C1: Pack round trip, thin packs included: for any objects below the size limit (and fewer than
  \<open>2 ^ 32\<close> of them) and any external bases, the writer never panics, and a reader that holds the
  bases gets exactly the same objects back (in pack order), with ids, kinds and payloads, through every
  delta the planner chose.\<close>

theorem pack_round_trip:
  assumes "hash_ok H" "zlib_ok Z" "packable H objects" "holds_bases H bases ext"
  shows "\<exists>pack. encode_pack_with_bases H Z objects bases = Inr pack
    \<and> (length pack < usize_lim \<longrightarrow>
        (\<exists>out. decode_pack_with_bases H Z crc32 pack ext = Inr out \<and> mset out = mset objects))"
  by (rule written_pack_decodes [OF assms])

theorem pack_round_trip_witness:
  "\<exists>pack. encode_pack_with_bases (sha1 (sum_digest 20)) toy_zlib
        [\<lparr>po_id = compute (sha1 (sum_digest 20)) Blob [1, 2, 3], po_kind = Blob, po_data = [1, 2, 3]\<rparr>]
        [\<lparr>po_id = ObjectId (replicate 20 7), po_kind = Blob, po_data = [1, 2]\<rparr>] = Inr pack
    \<and> (length pack < usize_lim \<longrightarrow>
        (\<exists>out. decode_pack_with_bases (sha1 (sum_digest 20)) toy_zlib (\<lambda>_. 0) pack
            [(ObjectId (replicate 20 7), Blob, [1, 2])] = Inr out
          \<and> mset out = mset [\<lparr>po_id = compute (sha1 (sum_digest 20)) Blob [1, 2, 3], po_kind = Blob, po_data = [1, 2, 3]\<rparr>]))"
  by (rule pack_round_trip)
     (simp_all add: packable_def holds_bases_def id_ok_def MAX_OBJECT_SIZE_def, simp_all add: sha1_def)

text \<open>C12: The index of a written pack addresses it: \<open>pack_index_entries\<close> lists every object exactly
  once, and \<open>decode_object_at\<close> at a listed offset materialises, through the entry's own delta
  chain only, an object that was written and has the listed id.\<close>

theorem pack_index_addresses_pack:
  assumes "hash_ok H" "zlib_ok Z" "packable H objects"
  shows "\<exists>pack. encode_pack H Z objects = Inr pack \<and> (length pack < usize_lim \<longrightarrow>
      (\<exists>es. pack_index_entries H Z crc32 pack = Inr es \<and> mset (map pie_id es) = mset (map po_id objects)
        \<and> (\<forall>e \<in> set es. \<forall>idx. \<exists>b \<in> set objects.
              decode_object_at H Z pack idx (pie_offset e) = Inr b \<and> po_id b = pie_id e)))"
proof -
  obtain order plans offsets ps pack where e: "planned objects [] order plans"
    "encode_pack_with_bases H Z objects [] = Inr pack"
    "pack = pack_head (length plans) @ concat ps @ digest H (pack_head (length plans) @ concat ps)"
    "layout Z (\<lambda>e. objects ! (order ! e)) plans offsets ps" "length ps = length plans" "length offsets = length plans"
    by (rule encode_written)
  let ?P = "\<lambda>e. objects ! (order ! e)"
  let ?es = "map (\<lambda>j. \<lparr>pie_id = po_id (?P j), pie_offset = word_of_nat (offsets ! j), pie_crc32 = crc32 (ps ! j)\<rparr>)
    [0..<length plans]"
  have p: "encode_pack H Z objects = Inr pack"
    using e(2) by (simp add: encode_pack_def)
  have hb: "holds_bases H [] []"
    by (simp add: holds_bases_def)
  have "pack_index_entries H Z crc32 pack = Inr ?es" if "length pack < usize_lim"
    using decode_written [OF assms(1,2) e(1) assms(3) hb refl e(4,5,6,3) that, of crc32]
    by (simp add: pack_index_entries_def comp_def entry_of_def)
  moreover have "mset (map pie_id ?es) = mset (map po_id objects)"
  proof -
    have "map pie_id ?es = map po_id (map ((!) objects) order)"
      using e(1) by (intro nth_equalityI) (simp_all add: planned_def)
    then show ?thesis
      using planned_perm(1) [OF e(1)] by (metis mset_map)
  qed
  moreover have "?P j \<in> set objects \<and> decode_object_at H Z pack idx (word_of_nat (offsets ! j)) = Inr (?P j)"
    if j: "j < length plans" and lim: "length pack < usize_lim" for j idx
  proof -
    have "order ! j \<in> {..<length objects}"
      using e(1) j nth_mem [of j order] by (metis planned_def)
    then show ?thesis
      using decode_object_at_written [OF assms(1,2) e(1) assms(3) refl e(4,5,6,3) lim j] by simp
  qed
  ultimately show ?thesis
    using p by (intro exI [of _ pack] conjI impI exI [of _ ?es]) auto
qed

theorem pack_index_addresses_pack_witness:
  "\<exists>pack. encode_pack (sha1 (sum_digest 20)) toy_zlib
        [\<lparr>po_id = compute (sha1 (sum_digest 20)) Blob [1, 2, 3], po_kind = Blob, po_data = [1, 2, 3]\<rparr>] = Inr pack
    \<and> (length pack < usize_lim \<longrightarrow>
      (\<exists>es. pack_index_entries (sha1 (sum_digest 20)) toy_zlib (\<lambda>_. 0) pack = Inr es
        \<and> mset (map pie_id es) = mset (map po_id
            [\<lparr>po_id = compute (sha1 (sum_digest 20)) Blob [1, 2, 3], po_kind = Blob, po_data = [1, 2, 3]\<rparr>])
        \<and> (\<forall>e \<in> set es. \<forall>idx. \<exists>b \<in> set
            [\<lparr>po_id = compute (sha1 (sum_digest 20)) Blob [1, 2, 3], po_kind = Blob, po_data = [1, 2, 3]\<rparr>].
              decode_object_at (sha1 (sum_digest 20)) toy_zlib pack idx (pie_offset e) = Inr b \<and> po_id b = pie_id e)))"
  by (rule pack_index_addresses_pack) (simp_all add: packable_def MAX_OBJECT_SIZE_def)

end
