(* ===== verification/Git_Pack_Sound.thy ===== *)
theory Git_Pack_Sound
  imports Git_Pack
begin

text \<open>
  What the pack reader of \<open>gitana-object/src/pack.rs\<close> guarantees about the packs it accepts,
  and the packs on which it panics.
\<close>

section \<open>Soundness of the reader\<close>

definition slot_ok :: "hash_alg \<Rightarrow> packed_object option \<Rightarrow> bool" where
  "slot_ok H slot \<longleftrightarrow> (\<forall>b. slot = Some b \<longrightarrow> po_id b = compute H (po_kind b) (po_data b))"

definition slots_ok :: "hash_alg \<Rightarrow> packed_object option list \<Rightarrow> bool" where
  "slots_ok H slots \<longleftrightarrow> (\<forall>slot \<in> set slots. slot_ok H slot)"

lemma slots_ok_update: "slots_ok H slots \<Longrightarrow> slot_ok H slot \<Longrightarrow> slots_ok H (slots[i := slot])"
  using set_update_subset_insert [of slots i slot] by (auto simp: slots_ok_def)

lemma slot_ok_simps [simp]:
  "slot_ok H None"
  "slot_ok H (Some b) \<longleftrightarrow> po_id b = compute H (po_kind b) (po_data b)"
  by (simp_all add: slot_ok_def)

lemma apply_delta_object_ok: "apply_delta_object H kind base d = Inr b \<Longrightarrow> slot_ok H (Some b)"
  by (auto simp: apply_delta_object_def ebind_eq_Inr)

lemma resolve_waiters_ok:
  "resolve_waiters H kind base deltas ws resolved ready = Inr (resolved', ready') \<Longrightarrow> slots_ok H resolved \<Longrightarrow>
   slots_ok H resolved'"
proof (induction ws arbitrary: resolved ready)
  case (Cons w ws)
  obtain slot where slot: "index resolved w = (Inr slot :: packed_object option ores)"
    using Cons.prems(1) by (auto simp: ebind_eq_Inr)
  show ?case
  proof (cases slot)
    case None
    then obtain d b where "apply_delta_object H kind base d = Inr b"
      "resolve_waiters H kind base deltas ws (resolved[w := Some b]) (w # ready) = Inr (resolved', ready')"
      using Cons.prems(1) slot by (auto simp: ebind_eq_Inr split: option.splits)
    then show ?thesis
      using Cons.IH Cons.prems(2) slots_ok_update apply_delta_object_ok by blast
  next
    case (Some b)
    then show ?thesis
      using Cons.IH Cons.prems slot by auto
  qed
qed simp

lemma resolve_external_ok:
  "resolve_external_ref_deltas H ext deltas wid resolved ready = Inr (wid', resolved', ready') \<Longrightarrow> slots_ok H resolved \<Longrightarrow>
   slots_ok H resolved' \<and> length resolved' = length resolved"
proof (induction H ext deltas wid resolved ready rule: resolve_external_ref_deltas.induct)
  case (2 H base_id kind data bases deltas wait_id resolved ready)
  show ?case
  proof (cases "wait_remove base_id wait_id")
    case (Pair r wid1)
    show ?thesis
    proof (cases r)
      case None
      then show ?thesis
        using 2 Pair by simp
    next
      case (Some ws)
      then obtain resolved1 ready1 where "resolve_waiters H kind data deltas ws resolved ready = Inr (resolved1, ready1)"
        "resolve_external_ref_deltas H bases deltas wid1 resolved1 ready1 = Inr (wid', resolved', ready')"
        using "2.prems"(1) Pair by (auto simp: ebind_eq_Inr)
      then show ?thesis
        using "2.IH"(2) [OF Pair [symmetric] Some, of "(resolved1, ready1)"] "2.prems"(2)
          resolve_waiters_ok resolve_waiters_ready by fastforce
    qed
  qed
qed simp

lemma resolve_ready_ok:
  "resolve_ready H offsets deltas wo wid resolved ready = Inr resolved' \<Longrightarrow> slots_ok H resolved \<Longrightarrow>
   slots_ok H resolved' \<and> length resolved' = length resolved"
proof (induction H offsets deltas wo wid resolved ready rule: resolve_ready.induct)
  case (2 H offsets deltas wo wid resolved i ready)
  obtain base where b: "i < length resolved" "resolved ! i = Some base"
    using "2.prems"(1) by (subst (asm) resolve_ready.simps) (auto simp: ebind_eq_Inr index_def split: if_splits option.splits)
  obtain off where off: "index offsets i = (Inr off :: nat ores)"
    using "2.prems"(1) b by (subst (asm) resolve_ready.simps) (auto simp: ebind_eq_Inr)
  obtain w1 wo' w2 wid' where w: "wait_remove off wo = (w1, wo')" "wait_remove (po_id base) wid = (w2, wid')"
    by (metis surj_pair)
  obtain resolved1 ready1 where r: "resolve_waiters H (po_kind base) (po_data base) deltas (waiters_of w1 @ waiters_of w2)
      (resolved[i := None]) ready = Inr (resolved1, ready1)"
    "resolve_ready H offsets deltas wo' wid' (resolved1[i := Some base]) ready1 = Inr resolved'"
    using "2.prems"(1) b off w by (subst (asm) resolve_ready.simps) (auto simp: ebind_eq_Inr Let_def)
  have "slot_ok H (Some base)"
    using "2.prems"(2) b nth_mem [OF b(1)] unfolding slots_ok_def by metis
  then have "slots_ok H (resolved1[i := Some base])" "length resolved1 = length resolved"
    using resolve_waiters_ok [OF r(1)] resolve_waiters_ready [OF r(1)] slots_ok_update [OF "2.prems"(2), of None i]
    by (auto intro!: slots_ok_update)
  moreover have "index resolved i = (Inr (Some base) :: packed_object option ores)"
    using b by simp
  from "2.IH" [OF this refl off w(1) [symmetric] w(2) [symmetric] refl r(1) refl r(2)] calculation show ?case
    by simp
qed simp

lemma header_size_cursor: "header_size bs b c sz s = Inr (v, c') \<Longrightarrow> c \<le> c'"
proof (induction bs b c sz s rule: header_size.induct)
  case (1 bs b c sz s)
  show ?case
  proof (cases "b AND 0x80 = 0")
    case True
    then show ?thesis
      using "1.prems" by (subst (asm) header_size.simps) simp
  next
    case False
    obtain b1 part sz1 where p: "pack_next bs c = Inr (b1, c + 1)" "ok_or (checked_shl (unat (b1 AND 0x7f)) s) MalformedPack = Inr part"
      "ok_or (checked_add sz part) MalformedPack = Inr sz1" "header_size bs b1 (c + 1) sz1 (s + 7) = Inr (v, c')"
      using "1.prems" False by (subst (asm) header_size.simps) (auto simp: ebind_eq_Inr)
    show ?thesis
      using "1.IH" [OF False p(1) refl p(2,3,4)] by simp
  qed
qed

lemma read_object_header_cursor: "read_object_header bs c = Inr (ty, sz, c') \<Longrightarrow> c < c'"
  by (auto simp: read_object_header_def ebind_eq_Inr dest!: header_size_cursor)

lemma offset_rest_cursor: "offset_rest bs b c off = Inr (v, c') \<Longrightarrow> c \<le> c'"
proof (induction bs b c off rule: offset_rest.induct)
  case (1 bs b c off)
  show ?case
  proof (cases "b AND 0x80 = 0")
    case True
    then show ?thesis
      using "1.prems" by (subst (asm) offset_rest.simps) simp
  next
    case False
    obtain b1 n where p: "pack_next bs c = Inr (b1, c + 1)"
      "ok_or (Option.bind (checked_add off 1) (\<lambda>n. checked_shl n 7)) MalformedPack = Inr n"
      "offset_rest bs b1 (c + 1) (n OR unat (b1 AND 0x7f)) = Inr (v, c')"
      using "1.prems" False by (subst (asm) offset_rest.simps) (auto simp: ebind_eq_Inr)
    show ?thesis
      using "1.IH" [OF False p(1) refl p(2,3)] by simp
  qed
qed

lemma read_offset_cursor: "read_offset bs c = Inr (v, c') \<Longrightarrow> c \<le> c'"
  by (auto simp: read_offset_def ebind_eq_Inr dest!: offset_rest_cursor)

lemma read_object_id_cursor: "read_object_id H bs c = Inr (i, c') \<Longrightarrow> c \<le> c'"
  by (auto simp: read_object_id_def ebind_eq_Inr)

text \<open>The invariant of the scan.\<close>

definition scan_inv :: "hash_alg \<Rightarrow> nat \<Rightarrow> nat \<Rightarrow> scan_state \<Rightarrow> bool" where
  "scan_inv H count k st \<longleftrightarrow> slots_ok H (sc_resolved st) \<and> length (sc_resolved st) = count
     \<and> length (sc_offsets st) = k \<and> length (sc_crcs st) = k \<and> PACK_HEADER_LEN \<le> sc_cursor st
     \<and> sorted_wrt (<) (sc_offsets st) \<and> (\<forall>off \<in> set (sc_offsets st). PACK_HEADER_LEN \<le> off \<and> off < sc_cursor st)"

lemma scan_inv_record:
  assumes "scan_inv H count k st" "scan_record crc32 bs k (sc_cursor st) st1 = Inr st'"
    and "sc_cursor st < sc_cursor st1" "slots_ok H (sc_resolved st1)" "length (sc_resolved st1) = length (sc_resolved st)"
    and "sc_offsets st1 = sc_offsets st" "sc_crcs st1 = sc_crcs st"
  shows "scan_inv H count (Suc k) st'"
  using assms by (auto simp: scan_inv_def scan_record_def ebind_eq_Inr sorted_wrt_append) (meson less_trans)

lemma scan_entry_inv:
  assumes "scan_inv H count k st" "scan_entry H Z crc32 bs body_end k st = Inr st'"
  shows "scan_inv H count (Suc k) st'"
proof -
  let ?s = "sc_cursor st"
  obtain ty sz c where h: "read_object_header bs ?s = Inr (ty, sz, c)"
    using assms(2) by (auto simp: scan_entry_def Let_def ebind_eq_Inr)
  have c: "?s < c"
    using read_object_header_cursor [OF h] .
  have ok: "slots_ok H (sc_resolved st)"
    using assms(1) by (simp add: scan_inv_def)
  note unf = assms(2) [unfolded scan_entry_def Let_def h ebind_simps prod.case]
  consider (base) "ty \<in> base_types" | (ofs) "ty = OBJ_OFS_DELTA" "ty \<notin> base_types"
    | (ref) "ty = OBJ_REF_DELTA" "ty \<noteq> OBJ_OFS_DELTA" "ty \<notin> base_types" | (bad) "ty \<notin> base_types" "ty \<noteq> OBJ_OFS_DELTA" "ty \<noteq> OBJ_REF_DELTA"
    by blast
  then show ?thesis
  proof cases
    case base
    obtain data consumed kind where "scan_record crc32 bs k ?s (st\<lparr>sc_cursor := c + consumed,
        sc_resolved := (sc_resolved st)[k := Some \<lparr>po_id = compute H kind data, po_kind = kind, po_data = data\<rparr>],
        sc_ready := k # sc_ready st\<rparr>) = Inr st'"
      using unf base by (auto simp: ebind_eq_Inr)
    from scan_inv_record [OF assms(1) this] c ok show ?thesis
      by (simp add: slots_ok_update)
  next
    case ofs
    obtain dist c1 delta consumed b where r: "read_offset bs c = Inr (dist, c1)"
      "scan_record crc32 bs k ?s (st\<lparr>sc_cursor := c1 + consumed, sc_deltas := (sc_deltas st)[k := Some delta],
         sc_wait_offset := wait_push b k (sc_wait_offset st)\<rparr>) = Inr st'"
      using unf ofs by (auto simp: ebind_eq_Inr split: if_splits)
    from scan_inv_record [OF assms(1) r(2)] c ok read_offset_cursor [OF r(1)] show ?thesis
      by simp
  next
    case ref
    obtain i c1 delta consumed where r: "read_object_id H bs c = Inr (i, c1)"
      "scan_record crc32 bs k ?s (st\<lparr>sc_cursor := c1 + consumed, sc_deltas := (sc_deltas st)[k := Some delta],
         sc_wait_id := wait_push i k (sc_wait_id st)\<rparr>) = Inr st'"
      using unf ref by (auto simp: ebind_eq_Inr)
    from scan_inv_record [OF assms(1) r(2)] c ok read_object_id_cursor [OF r(1)] show ?thesis
      by simp
  next
    case bad
    then show ?thesis
      using unf by simp
  qed
qed

lemma scan_entries_inv:
  "scan_entries H Z crc32 bs body_end k n st = Inr st' \<Longrightarrow> scan_inv H count k st \<Longrightarrow> scan_inv H count (k + n) st'"
proof (induction n arbitrary: k st)
  case (Suc n)
  then show ?case
    by (auto simp: ebind_eq_Inr dest: scan_entry_inv) (metis Suc_eq_plus1 add_Suc scan_entry_inv)
qed simp

lemma emit_entries_Inr:
  "emit_entries slots offsets crcs i = Inr es \<Longrightarrow>
   map (Some \<circ> de_object) es = slots \<and> map de_offset es = take (length slots) (drop i offsets) \<and> length es = length slots"
proof (induction slots arbitrary: i es)
  case (Cons slot slots)
  obtain b off crc es' where e: "slot = Some b" "index offsets i = (Inr off :: nat ores)"
    "emit_entries slots offsets crcs (i + 1) = Inr es'" "es = \<lparr>de_object = b, de_offset = off, de_crc32 = crc\<rparr> # es'"
    using Cons.prems by (auto simp: ebind_eq_Inr)
  have "i < length offsets" "off = offsets ! i"
    using e(2) by (auto simp: index_def split: if_splits)
  then have "drop i offsets = off # drop (Suc i) offsets"
    by (simp add: Cons_nth_drop_Suc)
  then show ?case
    using Cons.IH [OF e(3)] e by simp
qed simp

text \<open>C10: What the pack reader accepts is sound, whatever the bytes and whatever zlib returns: the
  trailer is the hash of the body, there are exactly as many entries as the header counts, at strictly
  ascending offsets inside the body, and every materialised object carries the id of its own bytes.\<close>

theorem decode_entries_sound:
  assumes "decode_entries H Z crc32 bs ext = Inr es"
  shows "digest H (take (length bs - raw_len H) bs) = drop (length bs - raw_len H) bs
    \<and> length es = unat (from_be32 (take 4 (drop 8 bs)))
    \<and> sorted_wrt (<) (map de_offset es)
    \<and> (\<forall>e \<in> set es. PACK_HEADER_LEN \<le> de_offset e \<and> de_offset e < length bs - raw_len H
          \<and> po_id (de_object e) = compute H (po_kind (de_object e)) (po_data (de_object e)))"
proof -
  let ?be = "length bs - raw_len H" and ?n = "unat (from_be32 (take 4 (drop 8 bs)))"
  obtain st wid resolved ready resolved' where d: "digest H (take ?be bs) = drop ?be bs"
    "scan_entries H Z crc32 bs ?be 0 ?n (scan_start ?n) = Inr st" "sc_cursor st = ?be"
    "resolve_external_ref_deltas H ext (sc_deltas st) (sc_wait_id st) (sc_resolved st) (sc_ready st) = Inr (wid, resolved, ready)"
    "resolve_ready H (sc_offsets st) (sc_deltas st) (sc_wait_offset st) wid resolved ready = Inr resolved'"
    "emit_entries resolved' (sc_offsets st) (sc_crcs st) 0 = Inr es"
    using assms by (auto simp: decode_entries_def Let_def ebind_eq_Inr slice_eq_Inr split: if_splits)
  have "scan_inv H ?n 0 (scan_start ?n)"
    by (simp add: scan_inv_def scan_start_def slots_ok_def)
  from scan_entries_inv [OF d(2) this] have inv: "scan_inv H ?n ?n st"
    by simp
  then have r: "slots_ok H resolved" "length resolved = ?n"
    using resolve_external_ok [OF d(4)] by (auto simp: scan_inv_def)
  have r': "slots_ok H resolved'" "length resolved' = ?n"
    using resolve_ready_ok [OF d(5) r(1)] r(2) by auto
  note em = emit_entries_Inr [OF d(6)]
  have offs: "map de_offset es = sc_offsets st" and len: "length es = ?n"
    using em r'(2) inv by (simp_all add: scan_inv_def)
  have "po_id (de_object e) = compute H (po_kind (de_object e)) (po_data (de_object e))" if "e \<in> set es" for e
  proof -
    have "Some (de_object e) \<in> set resolved'"
      using em that by (metis comp_apply image_eqI list.set_map)
    then show ?thesis
      using r'(1) by (auto simp: slots_ok_def)
  qed
  moreover have "PACK_HEADER_LEN \<le> de_offset e \<and> de_offset e < ?be" if "e \<in> set es" for e
  proof -
    have "de_offset e \<in> set (sc_offsets st)"
      using offs that by (metis image_eqI list.set_map)
    then show ?thesis
      using inv d(3) by (simp add: scan_inv_def)
  qed
  ultimately show ?thesis
    using d(1) len inv offs by (simp add: scan_inv_def)
qed

definition flat_hash :: hash_alg where
  "flat_hash = sha1 (\<lambda>_. replicate 20 0x10)"

lemma hash_ok_flat [simp]: "hash_ok flat_hash"
  by (simp add: flat_hash_def hash_ok_def sha1_def)

definition small_pack :: bytes where
  "small_pack = ascii ''PACK'' @ [0, 0, 0, 2, 0, 0, 0, 1] @ [0x31, 1, 65, 0] @ replicate 20 0x10"

definition small_object :: packed_object where
  "small_object = \<lparr>po_id = compute flat_hash Blob [65], po_kind = Blob, po_data = [65]\<rparr>"

lemma small_pack_decodes:
  "decode_entries flat_hash toy_zlib (\<lambda>_. 0) small_pack [] = Inr [\<lparr>de_object = small_object, de_offset = 12, de_crc32 = 0\<rparr>]"
proof -
  let ?st = "(scan_start 1)\<lparr>sc_cursor := 16, sc_resolved := [Some small_object], sc_ready := [0],
    sc_by_offset := [12 \<mapsto> 0], sc_offsets := [12], sc_crcs := [0]\<rparr>"
  have len: "length small_pack = 36" "raw_len flat_hash = 20"
    by (simp_all add: small_pack_def flat_hash_def sha1_def)
  have chk: "check_pack_header flat_hash small_pack = Inr ()"
    using len by (simp add: check_pack_header_def PACK_HEADER_LEN_def slice_ok)
      (simp add: small_pack_def from_be32_def be_val_def)
  have hd: "read_object_header small_pack 12 = Inr (3, 1, 13)"
    by (simp add: read_object_header_def pack_next_def small_pack_def header_size.simps)
  have bd: "inflate_body toy_zlib small_pack 13 16 1 = Inr ([65], 3)"
    by (simp add: inflate_body_def slice_ok len inflate_def inflate_with_limit_def toy_zlib_def small_pack_def MAX_OBJECT_SIZE_def)
  have "scan_entry flat_hash toy_zlib (\<lambda>_. 0) small_pack 16 0 (scan_start 1) = Inr ?st"
    using hd bd by (simp add: scan_entry_def Let_def scan_start_def PACK_HEADER_LEN_def base_types_def obj_types kind_of_def
        scan_record_def slice_ok len small_object_def)
  then have "scan_entries flat_hash toy_zlib (\<lambda>_. 0) small_pack 16 0 1 (scan_start 1) = Inr ?st"
    by simp
  moreover have "digest flat_hash (take 16 small_pack) = drop 16 small_pack" "take 4 (drop 8 small_pack) = [0, 0, 0, 1]"
    by (simp_all add: flat_hash_def sha1_def small_pack_def)
  ultimately show ?thesis
    using chk len by (simp add: decode_entries_def Let_def slice_ok from_be32_def be_val_def resolve_ready.simps(2)
        scan_start_def waiters_of_def)
qed

theorem decode_entries_sound_witness:
  "digest flat_hash (take (length small_pack - raw_len flat_hash) small_pack) = drop (length small_pack - raw_len flat_hash) small_pack
    \<and> unat (from_be32 (take 4 (drop 8 small_pack))) = 1
    \<and> PACK_HEADER_LEN \<le> 12 \<and> 12 < length small_pack - raw_len flat_hash
    \<and> po_id small_object = compute flat_hash (po_kind small_object) (po_data small_object)"
  using decode_entries_sound [OF small_pack_decodes] by simp

text \<open>C37: A pack can make the reader panic: entry headers are read up to the end of the file, not
  of the body. When a pack counts one entry more than its body holds and its trailer happens to begin with
  a byte that reads as a base-object header, the slice of the entry's data starts past its end. For SHA-1
  this is so already for the 32-byte file that announces one object and holds none.\<close>

theorem decode_pack_panics:
  assumes "hash_ok H" "0 < n" "n < 2 ^ 32"
    and "digest H (ascii ''PACK'' @ to_be32 2 @ to_be32 (word_of_nat n)) = b # r"
    and "b AND 0x80 = 0" "drop_bit 4 b AND 0x07 \<in> base_types"
  shows "decode_pack H Z crc32 (ascii ''PACK'' @ to_be32 2 @ to_be32 (word_of_nat n)
      @ digest H (ascii ''PACK'' @ to_be32 2 @ to_be32 (word_of_nat n))) = Inl Panic"
proof -
  let ?h = "ascii ''PACK'' @ to_be32 2 @ to_be32 (word_of_nat n)"
  let ?bs = "?h @ b # r"
  have h: "length ?h = 12" "length r + 1 = raw_len H"
    using hash_ok_length [OF assms(1), of ?h] assms(4) by simp_all
  have m: "slice ?bs 0 4 = (Inr (ascii ''PACK'') :: bytes ores)"
    using slice_append [of "[]" 0 "ascii ''PACK''" 4 "to_be32 2 @ to_be32 (word_of_nat n) @ b # r"] by simp
  have v: "slice ?bs 4 8 = (Inr (to_be32 2) :: bytes ores)"
    using slice_append [of "ascii ''PACK''" 4 "to_be32 2" 8 "to_be32 (word_of_nat n) @ b # r"] by simp
  have c: "slice ?bs 8 12 = (Inr (to_be32 (word_of_nat n)) :: bytes ores)"
    using slice_append [of "ascii ''PACK'' @ to_be32 2" 8 "to_be32 (word_of_nat n)" 12 "b # r"] by simp
  have chk: "check_pack_header H ?bs = Inr ()"
    using m v h by (simp add: check_pack_header_def PACK_HEADER_LEN_def)
  have n: "unat (word_of_nat n :: u32) = n"
    using assms(3) by (simp add: unat_of_nat)
  have be: "length ?bs - raw_len H = 12"
    using h by simp
  have tk: "take 12 ?bs = ?h" "drop 12 ?bs = b # r"
    using h(1) by (simp_all del: ascii_Cons)
  have hd: "read_object_header ?bs 12 = Inr (drop_bit 4 b AND 7, unat (b AND 15), 13)"
    using h(1) assms(5) by (simp add: read_object_header_def pack_next_def nth_append header_size.simps del: ascii_Cons)
  have "slice ?bs 13 12 = (Inl Panic :: bytes ores)"
    by (simp add: slice_def get_range_def)
  then have "scan_entry H Z crc32 ?bs 12 0 (scan_start n) = Inl Panic"
    using hd assms(6) by (simp add: scan_entry_def Let_def scan_start_def PACK_HEADER_LEN_def inflate_body_def)
  moreover obtain k where "n = Suc k"
    using assms(2) by (cases n) auto
  ultimately have "scan_entries H Z crc32 ?bs 12 0 n (scan_start n) = Inl Panic"
    by simp
  then have "decode_entries H Z crc32 ?bs [] = Inl Panic"
    using chk c n be tk assms(4) by (simp add: decode_entries_def Let_def del: ascii_Cons)
  then show ?thesis
    using assms(4) by (simp add: decode_pack_def decode_pack_with_bases_def del: ascii_Cons)
qed

theorem decode_pack_panics_witness:
  "decode_pack flat_hash toy_zlib (\<lambda>_. 0) (ascii ''PACK'' @ to_be32 2 @ to_be32 (word_of_nat 1)
      @ digest flat_hash (ascii ''PACK'' @ to_be32 2 @ to_be32 (word_of_nat 1))) = Inl Panic"
  by (rule decode_pack_panics [where b = "0x10" and r = "replicate 19 0x10"])
     (simp, simp, simp, simp add: flat_hash_def sha1_def numeral_eq_Suc, simp_all add: base_types_def obj_types)

end
