(* ===== verification/Git_Bitmap.thy ===== *)
theory Git_Bitmap
  imports Git_Ewah Git_Midx Git_Enumerate
begin

text \<open>
  Reachability bitmaps of a multi-pack index, \<open>gitana-object/src/bitmap.rs\<close>: the
  \<open>.bitmap\<close> file (four type indexes, then one bitmap per selected commit, possibly stored as an
  XOR against an earlier one), the queries, and the builder, whose closure walk is the worklist of
  \<open>Git_Enumerate\<close>. The two readers of the builder are parameters.
\<close>

section \<open>The file\<close>

definition BITMAP_SIGNATURE :: bytes where "BITMAP_SIGNATURE = ascii ''BITM''"
definition BITMAP_VERSION :: nat where "BITMAP_VERSION = 1"
definition FLAG_FULL_DAG :: nat where "FLAG_FULL_DAG = 0x1"
definition FLAG_LOOKUP_TABLE :: nat where "FLAG_LOOKUP_TABLE = 0x10"
definition ENTRY_HEADER_LEN :: nat where "ENTRY_HEADER_LEN = 6"

record bitmap_index =
  bi_commits :: ewah_bitmap
  bi_trees :: ewah_bitmap
  bi_blobs :: ewah_bitmap
  bi_tags :: ewah_bitmap
  bi_reachability :: "ewah_bitmap list"
  bi_by_position :: "u32 \<rightharpoonup> nat"
  bi_midx_checksum :: bytes

text \<open>The word-wise XOR, the shorter one extended with zeros.\<close>

definition word_or_zero :: "u64 list \<Rightarrow> nat \<Rightarrow> u64" where
  "word_or_zero ws i = (if i < length ws then ws ! i else 0)"

definition ewah_xor :: "ewah_bitmap \<Rightarrow> ewah_bitmap \<Rightarrow> ewah_bitmap" where
  "ewah_xor a b =
     from_words (map (\<lambda>i. word_or_zero (words a) i XOR word_or_zero (words b) i)
       [0..<max (length (words a)) (length (words b))])"

definition take_ewah :: "bytes \<Rightarrow> nat \<Rightarrow> (ewah_bitmap \<times> nat) ores" where
  "take_ewah bs cursor =
     ebind (ok_or (get_range bs cursor (length bs)) MalformedBitmap) (\<lambda>rest.
     ebind (decode_ewah rest) (\<lambda>(bm, consumed). Inr (bm, cursor + consumed)))"

fun read_bitmap_entries ::
  "bytes \<Rightarrow> nat \<Rightarrow> nat \<Rightarrow> nat \<Rightarrow> ewah_bitmap list \<Rightarrow> (u32 \<rightharpoonup> nat) \<Rightarrow> (ewah_bitmap list \<times> (u32 \<rightharpoonup> nat)) ores" where
  "read_bitmap_entries bs i 0 cursor reachability by_position = Inr (reachability, by_position)"
| "read_bitmap_entries bs i (Suc n) cursor reachability by_position =
     ebind (ok_or (get_range bs cursor (cursor + ENTRY_HEADER_LEN)) MalformedBitmap) (\<lambda>head.
       let pos = from_be32 (take 4 head); xor_offset = unat (head ! 4) in
       ebind (take_ewah bs (cursor + ENTRY_HEADER_LEN)) (\<lambda>(stored, cursor).
       ebind
         (if xor_offset = 0 then Inr stored
          else
            ebind (ok_or (Option.bind (checked_sub i xor_offset)
                            (\<lambda>j. if j < length reachability then Some (reachability ! j) else None)) MalformedBitmap)
              (\<lambda>base. Inr (ewah_xor stored base)))
         (\<lambda>actual.
           read_bitmap_entries bs (i + 1) n cursor (reachability @ [actual]) (by_position(pos \<mapsto> i)))))"

definition decode_midx_bitmap :: "hash_alg \<Rightarrow> bytes \<Rightarrow> bitmap_index ores" where
  "decode_midx_bitmap H bs =
     ebind (ok_or (get_range bs 0 (12 + raw_len H)) MalformedBitmap) (\<lambda>header.
       if take 4 header \<noteq> BITMAP_SIGNATURE then fail_with MalformedBitmap
       else if be_val (take 2 (drop 4 header)) \<noteq> BITMAP_VERSION then fail_with MalformedBitmap
       else if be_val (take 2 (drop 6 header)) AND FLAG_LOOKUP_TABLE \<noteq> 0 then fail_with MalformedBitmap
       else
         let entry_count = unat (from_be32 (take 4 (drop 8 header))) in
         ebind (take_ewah bs (12 + raw_len H)) (\<lambda>(commits, cursor).
         ebind (take_ewah bs cursor) (\<lambda>(trees, cursor).
         ebind (take_ewah bs cursor) (\<lambda>(blobs, cursor).
         ebind (take_ewah bs cursor) (\<lambda>(tags, cursor).
         ebind (read_bitmap_entries bs 0 entry_count cursor [] Map.empty) (\<lambda>(reachability, by_position).
           Inr \<lparr>bi_commits = commits, bi_trees = trees, bi_blobs = blobs, bi_tags = tags,
                bi_reachability = reachability, bi_by_position = by_position,
                bi_midx_checksum = drop 12 header\<rparr>))))))"

text \<open>The four type indexes are passed in git's order: commits, trees, blobs, tags.\<close>

type_synonym type_bitmaps = "ewah_bitmap \<times> ewah_bitmap \<times> ewah_bitmap \<times> ewah_bitmap"

definition bitmap_entry :: "u32 \<times> ewah_bitmap \<Rightarrow> bytes" where
  "bitmap_entry e = (case e of (pos, reachable) \<Rightarrow> to_be32 pos @ [0, 0] @ encode_ewah reachable)"

definition encode_midx_bitmap ::
  "hash_alg \<Rightarrow> bytes \<Rightarrow> type_bitmaps \<Rightarrow> (u32 \<times> ewah_bitmap) list \<Rightarrow> bytes ores" where
  "encode_midx_bitmap H checksum types commits =
     (if length checksum \<noteq> raw_len H then fail_with MalformedBitmap
      else
        case types of (c, t, b, g) \<Rightarrow>
          let out = BITMAP_SIGNATURE @ be_bytes 2 BITMAP_VERSION @ be_bytes 2 FLAG_FULL_DAG
                      @ to_be32 (word_of_nat (length commits)) @ checksum
                      @ concat (map encode_ewah [c, t, b, g]) @ concat (map bitmap_entry commits)
          in Inr (out @ digest H out))"

section \<open>Queries\<close>

fun type_bitmap :: "bitmap_index \<Rightarrow> object_kind \<Rightarrow> ewah_bitmap" where
  "type_bitmap bi Commit = bi_commits bi"
| "type_bitmap bi Tree = bi_trees bi"
| "type_bitmap bi Blob = bi_blobs bi"
| "type_bitmap bi Tag = bi_tags bi"

definition bitmapped_commit_positions :: "bitmap_index \<Rightarrow> u32 set" where
  "bitmapped_commit_positions bi = dom (bi_by_position bi)"

text \<open>\<open>self.reachability[i]\<close> panics on a dangling index.\<close>

definition commit_reachability :: "bitmap_index \<Rightarrow> u32 \<Rightarrow> ewah_bitmap option ores" where
  "commit_reachability bi pos =
     (case bi_by_position bi pos of
        None \<Rightarrow> Inr None
      | Some i \<Rightarrow> ebind (index (bi_reachability bi) i) (\<lambda>bm. Inr (Some bm)))"

text \<open>\<open>collect()\<close> into an \<open>Option<Vec>\<close>: all or nothing.\<close>

fun collect_all :: "('a \<Rightarrow> 'b option) \<Rightarrow> 'a list \<Rightarrow> 'b list option" where
  "collect_all f [] = Some []"
| "collect_all f (x # xs) =
     (case f x of None \<Rightarrow> None | Some y \<Rightarrow> map_option ((#) y) (collect_all f xs))"

definition reachable_object_ids :: "bitmap_index \<Rightarrow> u32 \<Rightarrow> multi_pack_index \<Rightarrow> object_id list option ores" where
  "reachable_object_ids bi pos m =
     (if bi_midx_checksum bi \<noteq> midx_checksum m then Inr None
      else
        ebind (commit_reachability bi pos) (\<lambda>r.
          Inr (case r of
                 None \<Rightarrow> None
               | Some bm \<Rightarrow> collect_all (\<lambda>p. object_at_bitmap_position m (unat p)) (set_bits bm))))"

definition commit_reachability_ewah :: "bitmap_index \<Rightarrow> object_id \<Rightarrow> multi_pack_index \<Rightarrow> ewah_bitmap option ores" where
  "commit_reachability_ewah bi commit m =
     (if bi_midx_checksum bi \<noteq> midx_checksum m then Inr None
      else
        (case object_position m commit of
           None \<Rightarrow> Inr None
         | Some p \<Rightarrow> commit_reachability bi (word_of_nat p)))"

definition bitmap_reachable_from :: "bitmap_index \<Rightarrow> object_id \<Rightarrow> multi_pack_index \<Rightarrow> object_id list option ores" where
  "bitmap_reachable_from bi commit m =
     (case object_position m commit of
        None \<Rightarrow> Inr None
      | Some p \<Rightarrow> reachable_object_ids bi (word_of_nat p) m)"

section \<open>Building\<close>

record reachability_bitmaps =
  rb_types :: type_bitmaps
  rb_commits :: "(u32 \<times> ewah_bitmap) list"

definition rb_encode :: "hash_alg \<Rightarrow> reachability_bitmaps \<Rightarrow> bytes \<Rightarrow> bytes ores" where
  "rb_encode H rb checksum = encode_midx_bitmap H checksum (rb_types rb) (rb_commits rb)"

fun type_slot :: "object_kind \<Rightarrow> nat" where
  "type_slot Commit = 0"
| "type_slot Tree = 1"
| "type_slot Blob = 2"
| "type_slot Tag = 3"

type_synonym kind_reader = "object_id \<Rightarrow> object_kind option"
type_synonym byte_reader = "object_id \<Rightarrow> bytes option"

definition lexical_position :: "multi_pack_index \<Rightarrow> u32 list \<Rightarrow> object_id \<Rightarrow> u32 option ores" where
  "lexical_position m position_by_lexical i =
     (case object_position m i of
        None \<Rightarrow> Inr None
      | Some k \<Rightarrow> ebind (index position_by_lexical k) (\<lambda>p. Inr (Some p)))"

fun bucket_kinds :: "kind_reader \<Rightarrow> u32 list \<Rightarrow> object_id list \<Rightarrow> nat \<Rightarrow> u32 list list \<Rightarrow> u32 list list ores" where
  "bucket_kinds kind_of position_by_lexical [] lexical by_kind = Inr by_kind"
| "bucket_kinds kind_of position_by_lexical (i # ids) lexical by_kind =
     ebind (ok_or (kind_of i) MissingObject) (\<lambda>kind.
     ebind (index position_by_lexical lexical) (\<lambda>p.
       bucket_kinds kind_of position_by_lexical ids (lexical + 1)
         (by_kind[type_slot kind := by_kind ! type_slot kind @ [p]])))"

text \<open>The body of the closure walk; the body of a blob is never read.\<close>

definition expand_bitmap ::
  "hash_alg \<Rightarrow> multi_pack_index \<Rightarrow> u32 list \<Rightarrow> kind_reader \<Rightarrow> byte_reader \<Rightarrow> object_id
     \<Rightarrow> (object_id list \<times> u32 list) ores" where
  "expand_bitmap H m position_by_lexical kind_of read_object i =
     ebind (lexical_position m position_by_lexical i) (\<lambda>p.
     ebind (ok_or p MissingObject) (\<lambda>p.
     ebind (ok_or (kind_of i) MissingObject) (\<lambda>kind.
       case kind of
         Blob \<Rightarrow> Inr ([], [p])
       | Tree \<Rightarrow>
           ebind (ok_or (read_object i) MissingObject) (\<lambda>data.
           ebind (parse_tree H data) (\<lambda>es.
             Inr (map entry_id (filter (\<lambda>e. mode e \<noteq> GITLINK_MODE) es), [p])))
       | _ \<Rightarrow>
           ebind (ok_or (read_object i) MissingObject) (\<lambda>data.
           ebind (referenced_ids H kind data) (\<lambda>ids. Inr (ids, [p]))))))"

fun commit_bitmaps ::
  "hash_alg \<Rightarrow> multi_pack_index \<Rightarrow> u32 list \<Rightarrow> kind_reader \<Rightarrow> byte_reader \<Rightarrow> object_id list
     \<Rightarrow> (u32 \<times> ewah_bitmap) list \<Rightarrow> (u32 \<times> ewah_bitmap) list ores option" where
  "commit_bitmaps H m pbl kind_of read_object [] acc = Some (Inr acc)"
| "commit_bitmaps H m pbl kind_of read_object (commit # cs) acc =
     (case object_position m commit of
        None \<Rightarrow> Some (fail_with MissingObject)
      | Some p \<Rightarrow>
          (case walk {} (expand_bitmap H m pbl kind_of read_object) {} [] [commit] of
             None \<Rightarrow> None
           | Some (Inl e) \<Rightarrow> Some (Inl e)
           | Some (Inr (_, ps)) \<Rightarrow>
               commit_bitmaps H m pbl kind_of read_object cs (acc @ [(word_of_nat p, from_set_bits ps)])))"

definition build_reachability_bitmaps ::
  "hash_alg \<Rightarrow> multi_pack_index \<Rightarrow> object_id list \<Rightarrow> kind_reader \<Rightarrow> byte_reader \<Rightarrow> reachability_bitmaps ores option" where
  "build_reachability_bitmaps H m selected_commits kind_of read_object =
     (case reverse_index m of
        None \<Rightarrow> Some (fail_with MalformedMultiPackIndex)
      | Some r \<Rightarrow>
          (case invert_order r 0 (replicate (length r) 0) of
             Inl e \<Rightarrow> Some (Inl e)
           | Inr pbl \<Rightarrow>
               (case bucket_kinds kind_of pbl (midx_ids m) 0 [[], [], [], []] of
                  Inl e \<Rightarrow> Some (Inl e)
                | Inr by_kind \<Rightarrow>
                    (case commit_bitmaps H m pbl kind_of read_object selected_commits [] of
                       None \<Rightarrow> None
                     | Some (Inl e) \<Rightarrow> Some (Inl e)
                     | Some (Inr commits) \<Rightarrow>
                         Some (Inr \<lparr>rb_types = (from_set_bits (by_kind ! 0), from_set_bits (by_kind ! 1),
                                             from_set_bits (by_kind ! 2), from_set_bits (by_kind ! 3)),
                                   rb_commits = commits\<rparr>)))))"

end
