(* ===== verification/Git_Bitmap_Correct.thy ===== *)
theory Git_Bitmap_Correct
  imports Git_Bitmap
begin

text \<open>
  The reachability bitmaps of \<open>gitana-object/src/bitmap.rs\<close> are correct: a written file reads
  back, and a query of a file built from the object graph answers with the objects reachable in it.
\<close>

section \<open>XOR\<close>

lemma length_ewah_xor: "length (words (ewah_xor a b)) = max (length (words a)) (length (words b))"
  by (simp add: ewah_xor_def from_words_def)

lemma bit_word_or_zero: "bit (word_or_zero ws (p div 64)) (p mod 64) \<longleftrightarrow> p \<in> word_positions ws"
  by (simp add: word_or_zero_def word_positions_def)

lemma positions_xor: "positions (ewah_xor a b) = (positions a - positions b) \<union> (positions b - positions a)"
proof (rule set_eqI)
  fix p
  show "p \<in> positions (ewah_xor a b) \<longleftrightarrow> p \<in> (positions a - positions b) \<union> (positions b - positions a)"
  proof (cases "p div 64 < length (words (ewah_xor a b))")
    case True
    then show ?thesis
      by (auto simp: ewah_xor_def from_words_def word_positions_def [of "map _ _"] bit_xor_iff bit_word_or_zero)
  next
    case False
    then show ?thesis
      by (auto simp: length_ewah_xor) (auto simp: word_positions_def length_ewah_xor)
  qed
qed

section \<open>A written file reads back\<close>

lemma take_ewah_at:
  assumes "ewah_fits bm" "bs = p @ encode_ewah bm @ r" "length p = c"
  shows "take_ewah bs c = Inr (bm, c + length (encode_ewah bm))"
proof -
  have "get_range bs c (length bs) = Some (encode_ewah bm @ r)"
    using assms(2,3) by (simp add: get_range_def)
  then show ?thesis
    using decode_encode_ewah [OF assms(1)] by (simp add: take_ewah_def)
qed

definition entry_map :: "nat \<Rightarrow> (u32 \<times> ewah_bitmap) list \<Rightarrow> u32 \<rightharpoonup> nat" where
  "entry_map i es = map_of (rev (zip (map fst es) [i..<i + length es]))"

lemma entry_map_Cons: "m ++ entry_map i (e # es) = m(fst e \<mapsto> i) ++ entry_map (Suc i) es"
proof -
  have "[i..<i + length (e # es)] = i # [Suc i..<Suc i + length es]"
    using upt_conv_Cons [of i "i + length (e # es)"] by simp
  then show ?thesis
    by (simp add: entry_map_def map_add_assoc)
qed

lemma entry_map_Some:
  "entry_map 0 es p = Some j \<Longrightarrow> j < length es \<and> fst (es ! j) = p"
  by (auto simp: entry_map_def dest!: map_of_SomeD simp: in_set_zip)

lemma entry_map_None: "entry_map 0 es p = None \<longleftrightarrow> p \<notin> fst ` set es"
  by (simp add: entry_map_def map_of_eq_None_iff image_set del: set_map flip: map_map)

lemma read_entries_written:
  "list_all (\<lambda>e. ewah_fits (snd e)) es \<Longrightarrow> length p = cursor \<Longrightarrow>
   read_bitmap_entries (p @ concat (map bitmap_entry es) @ r) i (length es) cursor acc m
     = Inr (acc @ map snd es, m ++ entry_map i es)"
proof (induction es arbitrary: p cursor i acc m)
  case Nil
  then show ?case
    by (simp add: entry_map_def)
next
  case (Cons e es)
  obtain pos bm where e: "e = (pos, bm)"
    by (cases e)
  have be: "bitmap_entry e = to_be32 pos @ [0, 0] @ encode_ewah bm"
    by (simp add: e bitmap_entry_def)
  let ?rest = "concat (map bitmap_entry es) @ r"
  let ?bs = "p @ concat (map bitmap_entry (e # es)) @ r"
  have bs: "?bs = p @ (to_be32 pos @ [0, 0]) @ encode_ewah bm @ ?rest"
    by (simp add: be)
  have h: "get_range ?bs cursor (cursor + ENTRY_HEADER_LEN) = Some (to_be32 pos @ [0, 0])"
    unfolding bs ENTRY_HEADER_LEN_def using Cons.prems(2) by (intro get_range_append) simp_all
  have "take_ewah ?bs (cursor + ENTRY_HEADER_LEN) = Inr (bm, cursor + ENTRY_HEADER_LEN + length (encode_ewah bm))"
    using Cons.prems by (intro take_ewah_at [where p = "p @ to_be32 pos @ [0, 0]" and r = ?rest])
      (simp_all add: e be [unfolded e] ENTRY_HEADER_LEN_def)
  moreover have "(to_be32 pos @ [0, 0]) ! 4 = 0"
    by (simp add: nth_append)
  moreover have "read_bitmap_entries ?bs (i + 1) (length es) (cursor + ENTRY_HEADER_LEN + length (encode_ewah bm))
      (acc @ [bm]) m' = Inr ((acc @ [bm]) @ map snd es, m' ++ entry_map (i + 1) es)" for m'
    using Cons.IH [of "p @ bitmap_entry e" _ "i + 1" "acc @ [bm]" m'] Cons.prems
    by (simp add: be ENTRY_HEADER_LEN_def add.assoc)
  ultimately show ?case
    using h entry_map_Cons [of m i e es] by (simp add: e del: map_add_upd)
qed

fun types_fit :: "type_bitmaps \<Rightarrow> bool" where
  "types_fit (c, t, b, g) \<longleftrightarrow> ewah_fits c \<and> ewah_fits t \<and> ewah_fits b \<and> ewah_fits g"

fun decoded_bitmap :: "bytes \<Rightarrow> type_bitmaps \<Rightarrow> (u32 \<times> ewah_bitmap) list \<Rightarrow> bitmap_index" where
  "decoded_bitmap chk (c, t, b, g) es =
     \<lparr>bi_commits = c, bi_trees = t, bi_blobs = b, bi_tags = g, bi_reachability = map snd es,
      bi_by_position = entry_map 0 es, bi_midx_checksum = chk\<rparr>"

lemma encode_decode_bitmap:
  assumes "length chk = raw_len H" "types_fit types" "list_all (\<lambda>e. ewah_fits (snd e)) es" "length es < 2 ^ 32"
  shows "\<exists>file. encode_midx_bitmap H chk types es = Inr file \<and> decode_midx_bitmap H file = Inr (decoded_bitmap chk types es)"
proof -
  obtain c t b g where ty: "types = (c, t, b, g)"
    by (cases types)
  have fits: "ewah_fits c" "ewah_fits t" "ewah_fits b" "ewah_fits g"
    using assms(2) by (simp_all add: ty)
  let ?n = "to_be32 (word_of_nat (length es))"
  define h where "h = BITMAP_SIGNATURE @ be_bytes 2 BITMAP_VERSION @ be_bytes 2 FLAG_FULL_DAG @ ?n"
  let ?ents = "concat (map bitmap_entry es)"
  define out where "out = h @ chk @ encode_ewah c @ encode_ewah t @ encode_ewah b @ encode_ewah g @ ?ents"
  let ?bs = "out @ digest H out"
  have sig: "length BITMAP_SIGNATURE = 4"
    by (simp add: BITMAP_SIGNATURE_def)
  have lh: "length h = 12"
    by (simp add: h_def sig)
  have enc: "encode_midx_bitmap H chk types es = Inr ?bs"
    using assms(1) by (simp add: encode_midx_bitmap_def ty h_def out_def)
  have hd: "get_range ?bs 0 (12 + raw_len H) = Some (h @ chk)"
    using assms(1) lh get_range_append [of "[]" 0 "h @ chk" "12 + raw_len H"] by (simp add: out_def)
  have parts: "take 4 (h @ chk) = BITMAP_SIGNATURE" "take 2 (drop 4 (h @ chk)) = be_bytes 2 BITMAP_VERSION"
    "take 2 (drop 6 (h @ chk)) = be_bytes 2 FLAG_FULL_DAG" "take 4 (drop 8 (h @ chk)) = ?n" "drop 12 (h @ chk) = chk"
    using lh by (simp_all add: h_def sig)
  have cnt: "unat (word_of_nat (length es) :: u32) = length es"
    using assms(4) by (simp add: unat_of_nat)
  have ver: "be_val (be_bytes 2 BITMAP_VERSION) = BITMAP_VERSION" "be_val (be_bytes 2 FLAG_FULL_DAG) AND FLAG_LOOKUP_TABLE = 0"
    by (simp_all add: be_val_be_bytes BITMAP_VERSION_def FLAG_FULL_DAG_def FLAG_LOOKUP_TABLE_def)
  let ?a = "12 + raw_len H"
  let ?b = "?a + length (encode_ewah c)"
  let ?c = "?b + length (encode_ewah t)"
  let ?d = "?c + length (encode_ewah b)"
  let ?e = "?d + length (encode_ewah g)"
  have t1: "take_ewah ?bs ?a = Inr (c, ?b)"
    using lh assms(1) by (intro take_ewah_at [OF fits(1), where p = "h @ chk"]) (auto simp: out_def)
  have t2: "take_ewah ?bs ?b = Inr (t, ?c)"
    using lh assms(1) by (intro take_ewah_at [OF fits(2), where p = "h @ chk @ encode_ewah c"]) (auto simp: out_def)
  have t3: "take_ewah ?bs ?c = Inr (b, ?d)"
    using lh assms(1)
    by (intro take_ewah_at [OF fits(3), where p = "h @ chk @ encode_ewah c @ encode_ewah t"]) (auto simp: out_def)
  have t4: "take_ewah ?bs ?d = Inr (g, ?e)"
    using lh assms(1)
    by (intro take_ewah_at [OF fits(4), where p = "h @ chk @ encode_ewah c @ encode_ewah t @ encode_ewah b"])
       (auto simp: out_def)
  have ents: "read_bitmap_entries ?bs 0 (length es) ?e [] Map.empty = Inr (map snd es, entry_map 0 es)"
    using read_entries_written [OF assms(3), of "h @ chk @ encode_ewah c @ encode_ewah t @ encode_ewah b @ encode_ewah g" ?e
        "digest H out" 0 "[]" Map.empty] lh assms(1)
    by (simp add: out_def)
  have "decode_midx_bitmap H ?bs = Inr (decoded_bitmap chk types es)"
    unfolding decode_midx_bitmap_def hd ok_or_simps ebind_simps Let_def parts
    using ver t1 t2 t3 t4 ents by (simp add: cnt ty)
  with enc show ?thesis
    by blast
qed

section \<open>Positions\<close>

lemma set_bits_from: "set_bits (from_set_bits ps) = sorted_list_of_set (set ps)"
  by (rule set_bits_of_set) (simp_all only: length_from_set_bits positions_from_set_bits finite_set)

lemma length_set_bit_in_bound: "length ws \<le> k \<Longrightarrow> unat p div 64 < k \<Longrightarrow> length (set_bit_in ws p) \<le> k"
  by (simp add: set_bit_in_def BITS_PER_WORD_def Let_def)

lemma length_foldl_set_bit: "\<forall>p \<in> set ps. unat p div 64 < k \<Longrightarrow> length ws \<le> k \<Longrightarrow> length (foldl set_bit_in ws ps) \<le> k"
  by (induction ps arbitrary: ws) (simp_all add: length_set_bit_in_bound)

lemma from_set_bits_fits:
  assumes "\<forall>p \<in> set ps. unat p < n" "n \<le> 2 ^ 32 - 64"
  shows "ewah_fits (from_set_bits ps)"
proof -
  have "\<forall>p \<in> set ps. unat p div 64 < 2 ^ 26 - 1"
  proof
    fix p assume "p \<in> set ps"
    then have "unat p < 2 ^ 32 - 64"
      using assms by fastforce
    then show "unat p div 64 < 2 ^ 26 - 1"
      by simp
  qed
  then have "length (words (from_set_bits ps)) \<le> 2 ^ 26 - 1"
    using length_foldl_set_bit [of ps "2 ^ 26 - 1" "[]"] by (simp add: from_set_bits_def)
  then show ?thesis
    by (simp add: ewah_fits_def)
qed

text \<open>The positions of a well-formed index with a reverse index.\<close>

lemma lexical_position_facts:
  assumes "midx_wf H m" "reverse_index m = Some r" "invert_order r 0 (replicate (length r) 0) = Inr pbl"
  shows "i \<notin> set (midx_ids m) \<Longrightarrow> lexical_position m pbl i = Inr None"
    and "i \<in> set (midx_ids m) \<Longrightarrow> \<exists>p. lexical_position m pbl i = Inr (Some p) \<and> unat p < length (midx_ids m)
      \<and> object_at_bitmap_position m (unat p) = Some i"
proof -
  let ?n = "length (midx_ids m)"
  note t = midx_wf_table [OF assms(1)]
  show "i \<notin> set (midx_ids m) \<Longrightarrow> lexical_position m pbl i = Inr None"
    using object_position_None [OF t, of i] by (simp add: lexical_position_def)
  assume i: "i \<in> set (midx_ids m)"
  then obtain k where p: "object_position m i = Some k"
    using object_position_None [OF t, of i] by (cases "object_position m i") auto
  then have k: "k < ?n" "midx_ids m ! k = i"
    using object_position_Some [OF t, of i k] by auto
  have r: "length r = ?n" "?n < 2 ^ 32"
    using assms(1,2) by (auto simp: midx_wf_def)
  have f: "length pbl = ?n" "\<forall>j < ?n. pbl ! unat (r ! j) = word_of_nat j" "unat ` set r = {..<?n}"
    using reverse_index_inverse [OF assms(1,2)] assms(3) by auto
  obtain j where j: "j < ?n" "unat (r ! j) = k"
    using f(3) k(1) r(1) by (metis imageE in_set_conv_nth lessThan_iff)
  then have "pbl ! k = word_of_nat j" "unat (word_of_nat j :: u32) = j"
    using f(2) r(2) by (auto simp: unat_of_nat)
  then show "\<exists>p. lexical_position m pbl i = Inr (Some p) \<and> unat p < ?n \<and> object_at_bitmap_position m (unat p) = Some i"
    using p k j f(1) r(1) assms(2) by (simp add: lexical_position_def object_at_bitmap_position_def)
qed

section \<open>The closure walk\<close>

text \<open>The object graph the builder walks: the objects of the index, blobs with no body.\<close>

definition bitmap_reader :: "multi_pack_index \<Rightarrow> kind_reader \<Rightarrow> byte_reader \<Rightarrow> reader" where
  "bitmap_reader m kind_of read_object i =
     (if i \<notin> set (midx_ids m) then Inr None
      else
        (case kind_of i of
           None \<Rightarrow> Inr None
         | Some kind \<Rightarrow>
             if kind = Blob then Inr (Some (Blob, []))
             else Inr (map_option (Pair kind) (read_object i))))"

text \<open>Present in the index, of known kind, readable and well-formed.\<close>

definition complete :: "hash_alg \<Rightarrow> reader \<Rightarrow> object_id \<Rightarrow> bool" where
  "complete H read i \<longleftrightarrow> (\<exists>k d ids. read i = Inr (Some (k, d)) \<and> referenced_ids H k d = Inr ids)"

lemma expand_bitmap_Inr:
  assumes "midx_wf H m" "reverse_index m = Some r" "invert_order r 0 (replicate (length r) 0) = Inr pbl"
  shows "expand_bitmap H m pbl kind_of read_object i = Inr (ids, o1) \<longleftrightarrow>
    (\<exists>p k d. lexical_position m pbl i = Inr (Some p) \<and> o1 = [p]
       \<and> bitmap_reader m kind_of read_object i = Inr (Some (k, d)) \<and> referenced_ids H k d = Inr ids)"
proof (cases "i \<in> set (midx_ids m)")
  case False
  then show ?thesis
    using lexical_position_facts(1) [OF assms] by (simp add: expand_bitmap_def)
next
  case True
  then obtain p where p: "lexical_position m pbl i = Inr (Some p)"
    using lexical_position_facts(2) [OF assms] by blast
  show ?thesis
  proof (cases "kind_of i")
    case None
    then show ?thesis
      using p by (simp add: expand_bitmap_def bitmap_reader_def)
  next
    case (Some kind)
    then show ?thesis
      using p True
      by (cases kind; cases "read_object i") (auto simp: expand_bitmap_def bitmap_reader_def ebind_eq_Inr)
  qed
qed

lemma expand_bitmap_referenced:
  assumes "expand_bitmap H m pbl kind_of read_object i = Inr (ids, o1)"
  shows "\<exists>k d. referenced_ids H k d = Inr ids"
proof -
  obtain p kind where "lexical_position m pbl i = Inr (Some p)" "kind_of i = Some kind"
    using assms by (auto simp: expand_bitmap_def ebind_eq_Inr)
  note unf = assms [unfolded expand_bitmap_def this ok_or_simps ebind_simps]
  show ?thesis
  proof (cases kind)
    case Blob
    then show ?thesis
      using unf by (intro exI [of _ Blob]) simp
  next
    case Tree
    then obtain d where "referenced_ids H Tree d = Inr ids"
      using unf by (auto simp: ebind_eq_Inr)
    then show ?thesis
      by blast
  next
    case Commit
    then obtain d where "referenced_ids H Commit d = Inr ids"
      using unf by (cases "read_object i") (auto simp: ebind_assoc ebind_eq_Inr simp del: referenced_ids.simps)
    then show ?thesis
      by blast
  next
    case Tag
    then obtain d where "referenced_ids H Tag d = Inr ids"
      using unf by (cases "read_object i") (auto simp: ebind_assoc ebind_eq_Inr simp del: referenced_ids.simps)
    then show ?thesis
      by blast
  qed
qed

interpretation bitmaps: graph_walk "expand_bitmap H m pbl kind_of read_object" "ids_of H" for H m pbl kind_of read_object
proof
  show "expand_bitmap H m pbl kind_of read_object i = Inr (ids, o1) \<Longrightarrow> set ids \<subseteq> ids_of H" for i ids o1
    using referenced_ids_ok [of H] by (auto simp: ids_of_def dest: expand_bitmap_referenced)
qed (rule finite_ids)

lemma expand_bitmap_refers:
  assumes "midx_wf H m" "reverse_index m = Some r" "invert_order r 0 (replicate (length r) 0) = Inr pbl"
  shows "(\<exists>ids o1. expand_bitmap H m pbl kind_of read_object i = Inr (ids, o1) \<and> j \<in> set ids)
    \<longleftrightarrow> refers H (bitmap_reader m kind_of read_object) i j"
  and "(\<exists>p. expand_bitmap H m pbl kind_of read_object i = Inr p) \<longleftrightarrow> complete H (bitmap_reader m kind_of read_object) i"
proof -
  have "\<exists>p. lexical_position m pbl i = Inr (Some p)" if "bitmap_reader m kind_of read_object i = Inr (Some x)" for x
    using that lexical_position_facts(2) [OF assms, of i] by (auto simp: bitmap_reader_def split: if_splits)
  then show "(\<exists>ids o1. expand_bitmap H m pbl kind_of read_object i = Inr (ids, o1) \<and> j \<in> set ids)
      \<longleftrightarrow> refers H (bitmap_reader m kind_of read_object) i j"
    "(\<exists>p. expand_bitmap H m pbl kind_of read_object i = Inr p) \<longleftrightarrow> complete H (bitmap_reader m kind_of read_object) i"
    unfolding split_paired_Ex expand_bitmap_Inr [OF assms] refers_def complete_def by blast+
qed

section \<open>The builder\<close>

definition pos_of :: "multi_pack_index \<Rightarrow> u32 list \<Rightarrow> object_id \<Rightarrow> u32" where
  "pos_of m pbl i = the (projr (lexical_position m pbl i))"

lemma pos_of:
  assumes "midx_wf H m" "reverse_index m = Some r" "invert_order r 0 (replicate (length r) 0) = Inr pbl"
    and "i \<in> set (midx_ids m)"
  shows "lexical_position m pbl i = Inr (Some (pos_of m pbl i))" "unat (pos_of m pbl i) < length (midx_ids m)"
    "object_at_bitmap_position m (unat (pos_of m pbl i)) = Some i"
  using lexical_position_facts(2) [OF assms(1-3), of i] assms(4) by (auto simp: pos_of_def)

lemma complete_in_index: "complete H (bitmap_reader m kind_of read_object) i \<Longrightarrow> i \<in> set (midx_ids m)"
  by (auto simp: complete_def bitmap_reader_def split: if_splits)

lemma self_reachable: "c \<in> reachable_from H read [c]"
  by (auto simp: reachable_from_def)

text \<open>How the walk over the objects of a commit fails: an object is not indexed, unknown or absent, or does
  not parse.\<close>

definition closure_failure :: "hash_alg \<Rightarrow> reader \<Rightarrow> object_id \<Rightarrow> object_error fail \<Rightarrow> bool" where
  "closure_failure H read c e \<longleftrightarrow>
     e = Err MissingObject \<or> (\<exists>i \<in> reachable_from H read [c]. fails_with H read i e)"

lemma expand_bitmap_Inl:
  assumes "midx_wf H m" "reverse_index m = Some r" "invert_order r 0 (replicate (length r) 0) = Inr pbl"
    and "expand_bitmap H m pbl kind_of read_object i = Inl e"
  shows "e = Err MissingObject \<or> fails_with H (bitmap_reader m kind_of read_object) i e"
proof (cases "i \<in> set (midx_ids m)")
  case False
  then show ?thesis
    using assms(4) lexical_position_facts(1) [OF assms(1-3) False] by (simp add: expand_bitmap_def)
next
  case True
  then obtain p where "lexical_position m pbl i = Inr (Some p)"
    using lexical_position_facts(2) [OF assms(1-3)] by blast
  then show ?thesis
    using assms(4) True
    by (auto simp: expand_bitmap_def bitmap_reader_def fails_with_def ok_or_def ebind_eq_Inl
        split: option.splits object_kind.splits)
qed

lemma commit_walk:
  assumes "midx_wf H m" "reverse_index m = Some r" "invert_order r 0 (replicate (length r) 0) = Inr pbl"
    and "R = reachable_from H (bitmap_reader m kind_of read_object) [c]"
  shows "if \<forall>i \<in> R. complete H (bitmap_reader m kind_of read_object) i
    then \<exists>V ps. walk {} (expand_bitmap H m pbl kind_of read_object) {} [] [c] = Some (Inr (V, ps)) \<and> set ps = pos_of m pbl ` R
    else \<exists>e. walk {} (expand_bitmap H m pbl kind_of read_object) {} [] [c] = Some (Inl e)
      \<and> closure_failure H (bitmap_reader m kind_of read_object) c e"
proof -
  let ?x = "expand_bitmap H m pbl kind_of read_object"
  have R: "Collect (reach ?x {} (set [c])) = R"
    using reach_refers [of ?x H "bitmap_reader m kind_of read_object" "[c]", OF expand_bitmap_refers(1) [OF assms(1-3)]] assms(4)
    by auto
  note w = bitmaps.walk_reaches [of H m pbl kind_of read_object "{}" "[c]", unfolded R expand_bitmap_refers(2) [OF assms(1-3)]]
  show ?thesis
  proof (cases "\<forall>i \<in> R. complete H (bitmap_reader m kind_of read_object) i")
    case True
    then obtain vs where vs: "set vs = R"
      "walk {} ?x {} [] [c] = Some (Inr (R, concat (map (\<lambda>i. snd (projr (?x i))) vs)))"
      using w by auto
    have "snd (projr (?x i)) = [pos_of m pbl i]" if i: "i \<in> R" for i
    proof -
      obtain ids o1 where e: "?x i = Inr (ids, o1)"
        using True i expand_bitmap_refers(2) [OF assms(1-3), of kind_of read_object i] by (metis surj_pair)
      then obtain p where "lexical_position m pbl i = Inr (Some p)" "o1 = [p]"
        using expand_bitmap_Inr [OF assms(1-3), of kind_of read_object i ids o1] by blast
      with e show ?thesis
        by (simp add: pos_of_def)
    qed
    then have "set (concat (map (\<lambda>i. snd (projr (?x i))) vs)) = pos_of m pbl ` R"
      using vs(1) by auto
    then show ?thesis
      using True vs(2) by auto
  next
    case False
    show ?thesis
      unfolding if_not_P [OF False] closure_failure_def
      using w [unfolded if_not_P [OF False]] expand_bitmap_Inl [OF assms(1-3)] assms(4) by blast
  qed
qed

definition commit_bitmap_ok ::
  "hash_alg \<Rightarrow> multi_pack_index \<Rightarrow> u32 list \<Rightarrow> reader \<Rightarrow> object_id \<Rightarrow> u32 \<times> ewah_bitmap \<Rightarrow> bool" where
  "commit_bitmap_ok H m pbl read c e \<longleftrightarrow>
     (\<exists>k ps. object_position m c = Some k \<and> e = (word_of_nat k, from_set_bits ps)
        \<and> set ps = pos_of m pbl ` reachable_from H read [c])"

lemma commit_bitmaps_result:
  assumes "midx_wf H m" "reverse_index m = Some r" "invert_order r 0 (replicate (length r) 0) = Inr pbl"
    and "rd = bitmap_reader m kind_of read_object"
  shows "if \<forall>c \<in> set cs. \<forall>i \<in> reachable_from H rd [c]. complete H rd i
    then \<exists>out. commit_bitmaps H m pbl kind_of read_object cs acc = Some (Inr (acc @ out))
      \<and> list_all2 (commit_bitmap_ok H m pbl rd) cs out
    else \<exists>e. commit_bitmaps H m pbl kind_of read_object cs acc = Some (Inl e) \<and> (\<exists>c \<in> set cs. closure_failure H rd c e)"
proof (induction cs arbitrary: acc)
  case (Cons c cs)
  let ?R = "reachable_from H rd [c]"
  note w = commit_walk [OF assms(1-3) refl, of kind_of read_object c, folded assms(4)]
  show ?case
  proof (cases "\<forall>i \<in> ?R. complete H rd i")
    case False
    then obtain e where "walk {} (expand_bitmap H m pbl kind_of read_object) {} [] [c] = Some (Inl e)"
      "closure_failure H rd c e"
      using w [unfolded if_not_P [OF False]] by blast
    then have "\<exists>e. commit_bitmaps H m pbl kind_of read_object (c # cs) acc = Some (Inl e)
        \<and> (\<exists>c \<in> set (c # cs). closure_failure H rd c e)"
      by (cases "object_position m c") (auto simp: closure_failure_def)
    moreover have "\<not> (\<forall>c \<in> set (c # cs). \<forall>i \<in> reachable_from H rd [c]. complete H rd i)"
      using False by simp
    ultimately show ?thesis
      by (simp only: if_False)
  next
    case True
    then have "c \<in> set (midx_ids m)"
      using self_reachable complete_in_index assms(4) by blast
    then obtain k where k: "object_position m c = Some k"
      using object_position_None [OF midx_wf_table [OF assms(1)], of c] by (cases "object_position m c") auto
    obtain V ps where ps: "walk {} (expand_bitmap H m pbl kind_of read_object) {} [] [c] = Some (Inr (V, ps))"
      "set ps = pos_of m pbl ` ?R"
      using w True by auto
    let ?e = "(word_of_nat k, from_set_bits ps)"
    have step: "commit_bitmaps H m pbl kind_of read_object (c # cs) acc
        = commit_bitmaps H m pbl kind_of read_object cs (acc @ [?e])"
      using k ps(1) by simp
    have ok: "commit_bitmap_ok H m pbl rd c ?e"
      using k ps(2) by (auto simp: commit_bitmap_ok_def)
    show ?thesis
    proof (cases "\<forall>c \<in> set cs. \<forall>i \<in> reachable_from H rd [c]. complete H rd i")
      case cs: True
      then obtain out where "commit_bitmaps H m pbl kind_of read_object cs (acc @ [?e]) = Some (Inr ((acc @ [?e]) @ out))"
        "list_all2 (commit_bitmap_ok H m pbl rd) cs out"
        using Cons.IH [of "acc @ [?e]"] by auto
      then have "commit_bitmaps H m pbl kind_of read_object (c # cs) acc = Some (Inr (acc @ ?e # out))
          \<and> list_all2 (commit_bitmap_ok H m pbl rd) (c # cs) (?e # out)"
        using step ok by simp
      then show ?thesis
        using True cs by auto
    next
      case cs: False
      then have "\<not> (\<forall>c \<in> set (c # cs). \<forall>i \<in> reachable_from H rd [c]. complete H rd i)"
        by simp
      then show ?thesis
        using Cons.IH [of "acc @ [?e]", unfolded if_not_P [OF cs]] step
        by (simp only: if_False list.set_intros(2)) (meson list.set_intros(2))
    qed
  qed
qed simp

lemma bucket_kinds_result:
  assumes "lexical + length ids = length pbl" "length by_kind = 4"
  shows "if \<forall>i \<in> set ids. kind_of i \<noteq> None
    then \<exists>out. bucket_kinds kind_of pbl ids lexical by_kind = Inr out \<and> length out = 4
      \<and> (\<forall>k. set (out ! type_slot k) = set (by_kind ! type_slot k)
            \<union> {p. \<exists>j < length ids. kind_of (ids ! j) = Some k \<and> p = pbl ! (lexical + j)})
    else bucket_kinds kind_of pbl ids lexical by_kind = fail_with MissingObject"
  using assms
proof (induction ids arbitrary: lexical by_kind)
  case (Cons i ids)
  show ?case
  proof (cases "kind_of i")
    case (Some kind)
    have slot: "type_slot k < 4" for k
      by (cases k) simp_all
    have inj: "type_slot a = type_slot b \<longleftrightarrow> a = b" for a b
      by (cases a; cases b) simp_all
    let ?b = "by_kind[type_slot kind := by_kind ! type_slot kind @ [pbl ! lexical]]"
    have step: "bucket_kinds kind_of pbl (i # ids) lexical by_kind = bucket_kinds kind_of pbl ids (lexical + 1) ?b"
      using Some Cons.prems by simp
    have b: "set (?b ! type_slot k) = set (by_kind ! type_slot k) \<union> (if k = kind then {pbl ! lexical} else {})" for k
      using Cons.prems(2) slot by (auto simp: nth_list_update inj)
    have ex: "(\<exists>j < length (i # ids). kind_of ((i # ids) ! j) = Some k \<and> p = pbl ! (lexical + j))
        \<longleftrightarrow> (k = kind \<and> p = pbl ! lexical) \<or> (\<exists>j < length ids. kind_of (ids ! j) = Some k \<and> p = pbl ! (lexical + 1 + j))" for k p
      using Some by (auto simp: less_Suc_eq_0_disj)
    have all: "(\<forall>x \<in> set (i # ids). kind_of x \<noteq> None) \<longleftrightarrow> (\<forall>x \<in> set ids. kind_of x \<noteq> None)"
      using Some by simp
    have "lexical + 1 + length ids = length pbl" "length ?b = 4"
      using Cons.prems by simp_all
    note IH = Cons.IH [OF this]
    show ?thesis
    proof (cases "\<forall>x \<in> set ids. kind_of x \<noteq> None")
      case True
      then obtain out where out: "bucket_kinds kind_of pbl ids (lexical + 1) ?b = Inr out" "length out = 4"
        "\<forall>k. set (out ! type_slot k) = set (?b ! type_slot k)
            \<union> {p. \<exists>j < length ids. kind_of (ids ! j) = Some k \<and> p = pbl ! (lexical + 1 + j)}"
        using IH by auto
      have "set (out ! type_slot k) = set (by_kind ! type_slot k)
          \<union> {p. \<exists>j < length (i # ids). kind_of ((i # ids) ! j) = Some k \<and> p = pbl ! (lexical + j)}" for k
        unfolding ex using out(3) b [of k] by auto
      then show ?thesis
        unfolding all step using True out(1,2) by simp
    next
      case False
      show ?thesis
        unfolding all step if_not_P [OF False] using IH [unfolded if_not_P [OF False]] by simp
    qed
  qed simp
qed simp

text \<open>The objects a bitmap marks.\<close>

definition objects_of :: "multi_pack_index \<Rightarrow> ewah_bitmap \<Rightarrow> object_id set" where
  "objects_of m bm = {i. \<exists>p \<in> set (set_bits bm). object_at_bitmap_position m (unat p) = Some i}"

lemma objects_of_positions:
  assumes "midx_wf H m" "reverse_index m = Some r" "invert_order r 0 (replicate (length r) 0) = Inr pbl"
    and "set ps = pos_of m pbl ` S" "S \<subseteq> set (midx_ids m)"
  shows "objects_of m (from_set_bits ps) = S" "\<forall>p \<in> set ps. unat p < length (midx_ids m)"
    "\<exists>ids. collect_all (\<lambda>p. object_at_bitmap_position m (unat p)) (set_bits (from_set_bits ps)) = Some ids
       \<and> distinct ids \<and> set ids = S"
proof -
  have at: "object_at_bitmap_position m (unat (pos_of m pbl i)) = Some i" "unat (pos_of m pbl i) < length (midx_ids m)"
    if "i \<in> S" for i
    using pos_of(2,3) [OF assms(1-3), of i] assms(5) that by auto
  show "objects_of m (from_set_bits ps) = S" "\<forall>p \<in> set ps. unat p < length (midx_ids m)"
    using at by (auto simp: objects_of_def set_bits_from assms(4))
  have "\<exists>ids. collect_all (\<lambda>p. object_at_bitmap_position m (unat p)) qs = Some ids \<and> distinct ids
      \<and> pos_of m pbl ` set ids = set qs \<and> set ids \<subseteq> S" if "distinct qs" "set qs \<subseteq> pos_of m pbl ` S" for qs
    using that
  proof (induction qs)
    case (Cons q qs)
    then obtain ids i where i: "collect_all (\<lambda>p. object_at_bitmap_position m (unat p)) qs = Some ids" "distinct ids"
      "pos_of m pbl ` set ids = set qs" "set ids \<subseteq> S" "i \<in> S" "q = pos_of m pbl i"
      by auto
    then have "i \<notin> set ids"
      using Cons.prems(1) by (metis distinct.simps(2) imageI)
    then show ?case
      using i at(1) by (intro exI [of _ "i # ids"]) simp
  qed simp
  from this [of "set_bits (from_set_bits ps)"] obtain ids where ids:
    "collect_all (\<lambda>p. object_at_bitmap_position m (unat p)) (set_bits (from_set_bits ps)) = Some ids"
    "distinct ids" "pos_of m pbl ` set ids = set ps" "set ids \<subseteq> S"
    by (auto simp: set_bits_from assms(4))
  have "S \<subseteq> set ids"
  proof
    fix i assume i: "i \<in> S"
    then obtain j where j: "j \<in> set ids" "pos_of m pbl i = pos_of m pbl j"
      using ids(3) assms(4) by (metis imageE imageI)
    then have "i = j"
      using at(1) [OF i] at(1) [of j] ids(4) by auto
    with j show "i \<in> set ids"
      by simp
  qed
  with ids show "\<exists>ids. collect_all (\<lambda>p. object_at_bitmap_position m (unat p)) (set_bits (from_set_bits ps)) = Some ids
       \<and> distinct ids \<and> set ids = S"
    by blast
qed

lemma reachable_in_index:
  "\<forall>i \<in> R. complete H (bitmap_reader m kind_of read_object) i \<Longrightarrow> R \<subseteq> set (midx_ids m)"
  using complete_in_index by blast

definition kinds_ok :: "multi_pack_index \<Rightarrow> u32 list \<Rightarrow> kind_reader \<Rightarrow> reachability_bitmaps \<Rightarrow> bool" where
  "kinds_ok m pbl kind_of rb \<longleftrightarrow>
     (\<exists>c t b g. rb_types rb = (from_set_bits c, from_set_bits t, from_set_bits b, from_set_bits g)
        \<and> set c = pos_of m pbl ` {i \<in> set (midx_ids m). kind_of i = Some Commit}
        \<and> set t = pos_of m pbl ` {i \<in> set (midx_ids m). kind_of i = Some Tree}
        \<and> set b = pos_of m pbl ` {i \<in> set (midx_ids m). kind_of i = Some Blob}
        \<and> set g = pos_of m pbl ` {i \<in> set (midx_ids m). kind_of i = Some Tag})"

lemma build_result:
  assumes wf: "midx_wf H m" "reverse_index m = Some r" "invert_order r 0 (replicate (length r) 0) = Inr pbl"
    and rd: "rd = bitmap_reader m kind_of read_object"
  shows "if (\<forall>i \<in> set (midx_ids m). kind_of i \<noteq> None) \<and> (\<forall>c \<in> set cs. \<forall>i \<in> reachable_from H rd [c]. complete H rd i)
    then \<exists>rb. build_reachability_bitmaps H m cs kind_of read_object = Some (Inr rb)
      \<and> kinds_ok m pbl kind_of rb \<and> list_all2 (commit_bitmap_ok H m pbl rd) cs (rb_commits rb)
    else \<exists>e. build_reachability_bitmaps H m cs kind_of read_object = Some (Inl e)
      \<and> (e = Err MissingObject \<or> (\<exists>c \<in> set cs. \<exists>i \<in> reachable_from H rd [c]. fails_with H rd i e))"
proof -
  have len: "0 + length (midx_ids m) = length pbl" "length [[], [], [], [] :: u32 list] = 4"
    by (rule reverse_index_inverse [OF wf(1,2)], use wf(3) in simp) simp
  note b = bucket_kinds_result [OF len, of kind_of]
  note c = commit_bitmaps_result [OF assms, of cs "[]"]
  show ?thesis
  proof (cases "\<forall>i \<in> set (midx_ids m). kind_of i \<noteq> None")
    case False
    then have "build_reachability_bitmaps H m cs kind_of read_object = Some (Inl (Err MissingObject))"
      using b [unfolded if_not_P [OF False]] wf by (simp add: build_reachability_bitmaps_def)
    then show ?thesis
      using False by auto
  next
    case kinds: True
    then obtain by_kind where k: "bucket_kinds kind_of pbl (midx_ids m) 0 [[], [], [], []] = Inr by_kind"
      "\<forall>k. set (by_kind ! type_slot k) = set ([[], [], [], []] ! type_slot k)
          \<union> {p. \<exists>j < length (midx_ids m). kind_of (midx_ids m ! j) = Some k \<and> p = pbl ! (0 + j)}"
      using b by auto
    have pos: "pos_of m pbl (midx_ids m ! j) = pbl ! j" if "j < length (midx_ids m)" for j
    proof -
      have "object_position m (midx_ids m ! j) = Some j"
        using object_position_Some [OF midx_wf_table [OF wf(1)]] that by blast
      then show ?thesis
        using len that by (simp add: pos_of_def lexical_position_def)
    qed
    have bk: "set (by_kind ! type_slot k) = pos_of m pbl ` {i \<in> set (midx_ids m). kind_of i = Some k}" for k
    proof -
      have "[[], [], [], [] :: u32 list] ! type_slot k = []"
        by (cases k) simp_all
      then have "set (by_kind ! type_slot k) = {p. \<exists>j < length (midx_ids m). kind_of (midx_ids m ! j) = Some k \<and> p = pbl ! j}"
        using k(2) by simp
      also have "\<dots> = pos_of m pbl ` {midx_ids m ! j | j. j < length (midx_ids m) \<and> kind_of (midx_ids m ! j) = Some k}"
        by (simp add: setcompr_eq_image image_image pos cong: image_cong conj_cong) (auto simp: image_iff pos)
      also have "{midx_ids m ! j | j. j < length (midx_ids m) \<and> kind_of (midx_ids m ! j) = Some k}
          = {i \<in> set (midx_ids m). kind_of i = Some k}"
        by (auto simp: in_set_conv_nth)
      finally show ?thesis .
    qed
    show ?thesis
    proof (cases "\<forall>c \<in> set cs. \<forall>i \<in> reachable_from H rd [c]. complete H rd i")
      case True
      then obtain out where out: "commit_bitmaps H m pbl kind_of read_object cs [] = Some (Inr out)"
        "list_all2 (commit_bitmap_ok H m pbl rd) cs out"
        using c by auto
      let ?rb = "\<lparr>rb_types = (from_set_bits (by_kind ! 0), from_set_bits (by_kind ! 1),
          from_set_bits (by_kind ! 2), from_set_bits (by_kind ! 3)), rb_commits = out\<rparr>"
      have "build_reachability_bitmaps H m cs kind_of read_object = Some (Inr ?rb)"
        using wf k(1) out(1) by (simp add: build_reachability_bitmaps_def)
      moreover have "kinds_ok m pbl kind_of ?rb"
        using bk [of Commit] bk [of Tree] bk [of Blob] bk [of Tag] by (auto simp: kinds_ok_def)
      ultimately show ?thesis
        using True kinds out(2) by (auto simp del: split_paired_Ex)
    next
      case False
      then obtain e c where "commit_bitmaps H m pbl kind_of read_object cs [] = Some (Inl e)" "c \<in> set cs" "closure_failure H rd c e"
        using c [unfolded if_not_P [OF False]] by blast
      then have "build_reachability_bitmaps H m cs kind_of read_object = Some (Inl e)
          \<and> (e = Err MissingObject \<or> (\<exists>c \<in> set cs. \<exists>i \<in> reachable_from H rd [c]. fails_with H rd i e))"
        using wf k(1) unfolding closure_failure_def by (auto simp: build_reachability_bitmaps_def)
      then show ?thesis
        using False by (simp only: if_False simp_thms) blast
    qed
  qed
qed

lemma reachability_written:
  assumes wf: "midx_wf H m"
    and ok: "list_all2 (commit_bitmap_ok H m pbl rd) cs es"
    and bi: "bi = decoded_bitmap (midx_checksum m) types es" and c: "object_position m c = Some k"
  shows "if c \<in> set cs
    then \<exists>ps. commit_reachability bi (word_of_nat k) = Inr (Some (from_set_bits ps))
      \<and> set ps = pos_of m pbl ` reachable_from H rd [c]
    else commit_reachability bi (word_of_nat k) = Inr None"
proof -
  have n: "length (midx_ids m) < 2 ^ 32" and t: "table_wf m"
    using wf midx_wf_table by (auto simp: midx_wf_def)
  have len: "length cs = length es"
    using ok by (rule list_all2_lengthD)
  obtain x y z w where ty: "types = (x, y, z, w)"
    by (cases types)
  have b: "bi_reachability bi = map snd es" "bi_by_position bi = entry_map 0 es"
    by (simp_all add: bi ty)
  have nth: "\<exists>k ps. object_position m (cs ! j) = Some k \<and> es ! j = (word_of_nat k, from_set_bits ps)
      \<and> set ps = pos_of m pbl ` reachable_from H rd [cs ! j]" if "j < length es" for j
    using list_all2_nthD2 [OF ok that] by (auto simp: commit_bitmap_ok_def)
  have same: "cs ! j = c" if hyp: "j < length es" "fst (es ! j) = word_of_nat k" for j
  proof -
    obtain k' where k': "object_position m (cs ! j) = Some k'" "es ! j = (word_of_nat k', snd (es ! j))"
      using nth [OF hyp(1)] by auto
    then have "(word_of_nat k' :: u32) = word_of_nat k"
      using hyp(2) by (metis fst_conv)
    moreover have "k < length (midx_ids m)" "k' < length (midx_ids m)" "midx_ids m ! k = c" "midx_ids m ! k' = cs ! j"
      using object_position_Some [OF t] c k'(1) by blast+
    ultimately show ?thesis
      using n by (simp add: word_unat_eq_iff unat_of_nat)
  qed
  show ?thesis
  proof (cases "c \<in> set cs")
    case True
    then obtain t where t: "t < length es" "cs ! t = c"
      using len by (auto simp: in_set_conv_nth)
    then have "fst (es ! t) = word_of_nat k"
      using nth [OF t(1)] c by auto
    then have "word_of_nat k \<in> fst ` set es"
      using t(1) by (metis image_eqI nth_mem)
    then obtain j where j: "entry_map 0 es (word_of_nat k) = Some j"
      using entry_map_None [of es "word_of_nat k"] by blast
    note jj = entry_map_Some [OF j]
    then have "cs ! j = c"
      using same by blast
    then obtain ps where ps: "snd (es ! j) = from_set_bits ps" "set ps = pos_of m pbl ` reachable_from H rd [c]"
      using nth [of j] jj by auto
    then have "commit_reachability bi (word_of_nat k) = Inr (Some (from_set_bits ps))"
      using j jj b by (simp add: commit_reachability_def)
    then show ?thesis
      using True ps(2) by auto
  next
    case False
    have "entry_map 0 es (word_of_nat k) = None"
    proof (rule ccontr)
      assume "entry_map 0 es (word_of_nat k) \<noteq> None"
      then obtain j where "entry_map 0 es (word_of_nat k) = Some j"
        by blast
      note jj = entry_map_Some [OF this]
      then have "cs ! j = c"
        using same by blast
      then show False
        using False jj len by (metis nth_mem)
    qed
    then show ?thesis
      using False b by (simp add: commit_reachability_def)
  qed
qed

lemma query_written:
  assumes wf: "midx_wf H m" "reverse_index m = Some r" "invert_order r 0 (replicate (length r) 0) = Inr pbl"
    and rd: "rd = bitmap_reader m kind_of read_object"
    and ok: "list_all2 (commit_bitmap_ok H m pbl rd) cs es"
    and complete: "\<forall>c \<in> set cs. \<forall>i \<in> reachable_from H rd [c]. complete H rd i"
    and bi: "bi = decoded_bitmap (midx_checksum m) types es"
  shows "if c \<in> set cs
    then \<exists>ids. bitmap_reachable_from bi c m = Inr (Some ids) \<and> distinct ids \<and> set ids = reachable_from H rd [c]
    else bitmap_reachable_from bi c m = Inr None"
proof (cases "object_position m c")
  case None
  moreover have "c \<notin> set cs"
    using None ok by (auto simp: list_all2_conv_all_nth commit_bitmap_ok_def in_set_conv_nth)
  ultimately show ?thesis
    by (simp add: bitmap_reachable_from_def)
next
  case (Some k)
  note q = reachability_written [OF wf(1) ok bi Some]
  have b: "bi_midx_checksum bi = midx_checksum m"
    by (cases types) (simp add: bi)
  show ?thesis
  proof (cases "c \<in> set cs")
    case True
    then obtain ps where ps: "commit_reachability bi (word_of_nat k) = Inr (Some (from_set_bits ps))"
      "set ps = pos_of m pbl ` reachable_from H rd [c]"
      using q by auto
    have "reachable_from H rd [c] \<subseteq> set (midx_ids m)"
      using reachable_in_index complete True rd by blast
    from objects_of_positions(3) [OF wf ps(2) this] obtain ids where
      "collect_all (\<lambda>p. object_at_bitmap_position m (unat p)) (set_bits (from_set_bits ps)) = Some ids"
      "distinct ids" "set ids = reachable_from H rd [c]"
      by blast
    then have "\<exists>ids. bitmap_reachable_from bi c m = Inr (Some ids) \<and> distinct ids \<and> set ids = reachable_from H rd [c]"
      using Some ps(1) b by (simp add: bitmap_reachable_from_def reachable_object_ids_def)
    then show ?thesis
      using True by simp
  next
    case False
    then show ?thesis
      using q Some b by (simp add: bitmap_reachable_from_def reachable_object_ids_def)
  qed
qed

lemma written_fits:
  assumes wf: "midx_wf H m" "reverse_index m = Some r" "invert_order r 0 (replicate (length r) 0) = Inr pbl"
    and rd: "rd = bitmap_reader m kind_of read_object" and n: "length (midx_ids m) \<le> 2 ^ 32 - 64"
  shows "list_all2 (commit_bitmap_ok H m pbl rd) cs es \<Longrightarrow> \<forall>c \<in> set cs. \<forall>i \<in> reachable_from H rd [c]. complete H rd i \<Longrightarrow>
      list_all (\<lambda>e. ewah_fits (snd e)) es"
    and "kinds_ok m pbl kind_of rb \<Longrightarrow> types_fit (rb_types rb)"
proof -
  have fits: "ewah_fits (from_set_bits ps)" if "set ps = pos_of m pbl ` S" "S \<subseteq> set (midx_ids m)" for ps S
    using objects_of_positions(2) [OF wf that] n by (rule from_set_bits_fits)
  show "list_all (\<lambda>e. ewah_fits (snd e)) es"
    if ok: "list_all2 (commit_bitmap_ok H m pbl rd) cs es" "\<forall>c \<in> set cs. \<forall>i \<in> reachable_from H rd [c]. complete H rd i"
    unfolding list_all_length
  proof (intro allI impI)
    fix j assume j: "j < length es"
    then obtain ps where "snd (es ! j) = from_set_bits ps" "set ps = pos_of m pbl ` reachable_from H rd [cs ! j]"
      using list_all2_nthD2 [OF ok(1) j] by (auto simp: commit_bitmap_ok_def)
    moreover have "cs ! j \<in> set cs"
      using j list_all2_lengthD [OF ok(1)] by simp
    ultimately show "ewah_fits (snd (es ! j))"
      using fits reachable_in_index ok(2) rd by metis
  qed
  show "types_fit (rb_types rb)" if "kinds_ok m pbl kind_of rb"
    using that fits by (auto simp: kinds_ok_def)
qed

lemma type_objects:
  assumes wf: "midx_wf H m" "reverse_index m = Some r" "invert_order r 0 (replicate (length r) 0) = Inr pbl"
    and ok: "kinds_ok m pbl kind_of rb"
  shows "objects_of m (type_bitmap (decoded_bitmap chk (rb_types rb) es) k) = {i \<in> set (midx_ids m). kind_of i = Some k}"
proof -
  have o: "objects_of m (from_set_bits ps) = {i \<in> set (midx_ids m). kind_of i = Some k}"
    if "set ps = pos_of m pbl ` {i \<in> set (midx_ids m). kind_of i = Some k}" for ps k
    using objects_of_positions(1) [OF wf that] by auto
  show ?thesis
    using ok o by (cases k) (auto simp: kinds_ok_def)
qed

section \<open>Safety of the reader\<close>

lemma no_panic_take_ewah [simp]: "no_panic (take_ewah bs c)"
  unfolding take_ewah_def by (intro no_panic_intros) (auto simp: no_panic_decode_ewah)

lemma no_panic_read_bitmap_entries: "no_panic (read_bitmap_entries bs i n c acc m)"
proof (induction n arbitrary: i c acc m)
  case (Suc n)
  then show ?case
    unfolding read_bitmap_entries.simps Let_def by (intro no_panic_intros) auto
qed simp

lemma no_panic_decode_bitmap: "no_panic (decode_midx_bitmap H bs)"
  unfolding decode_midx_bitmap_def Let_def by (intro no_panic_intros) (auto simp: no_panic_read_bitmap_entries)

lemma read_entries_range:
  "read_bitmap_entries bs i n c acc m = Inr (acc', m') \<Longrightarrow> length acc = i \<Longrightarrow> \<forall>p j. m p = Some j \<longrightarrow> j < i \<Longrightarrow>
   length acc' = i + n \<and> (\<forall>p j. m' p = Some j \<longrightarrow> j < i + n)"
proof (induction n arbitrary: i c acc m)
  case (Suc n)
  obtain head stored c1 actual where
    "read_bitmap_entries bs (i + 1) n c1 (acc @ [actual]) (m(from_be32 (take 4 head) \<mapsto> i)) = Inr (acc', m')"
    using Suc.prems(1) by (auto simp: ebind_eq_Inr Let_def)
  from Suc.IH [OF this] show ?case
    using Suc.prems(2,3) by (auto simp: less_Suc_eq split: if_splits)
qed auto

lemma decoded_range:
  assumes "decode_midx_bitmap H bs = Inr bi" "bi_by_position bi p = Some j"
  shows "j < length (bi_reachability bi)"
proof -
  obtain n c where "read_bitmap_entries bs 0 n c [] Map.empty = Inr (bi_reachability bi, bi_by_position bi)"
    using assms(1) by (auto simp: decode_midx_bitmap_def Let_def ebind_eq_Inr split: if_splits)
  from read_entries_range [OF this] show ?thesis
    using assms(2) by simp
qed

section \<open>Properties\<close>

text \<open>C9: Reachability bitmaps end to end: for a well-formed multi-pack index with a reverse index, the
  builder always returns, and when every indexed object has a kind and every object reachable from the
  selected commits is indexed and readable, the written \<open>.bitmap\<close> file decodes to an index whose
  type bitmaps mark exactly the objects of each kind and whose query answers, for each selected commit,
  exactly the objects reachable from it, each once, and nothing for other commits. Otherwise the builder
  fails: with \<open>MissingObject\<close>, or as the parser fails on an object reachable from a selected commit (an
  error, or a panic if it panics).\<close>

theorem bitmap_file_answers:
  fixes m cs kind_of read_object
  defines "rd \<equiv> bitmap_reader m kind_of read_object"
  assumes "midx_wf H m" "reverse_index m = Some r" "length (midx_checksum m) = raw_len H"
    and "length (midx_ids m) \<le> 2 ^ 32 - 64" "length cs < 2 ^ 32"
  shows "if (\<forall>i \<in> set (midx_ids m). kind_of i \<noteq> None) \<and> (\<forall>c \<in> set cs. \<forall>i \<in> reachable_from H rd [c]. complete H rd i)
    then \<exists>rb dat bi. build_reachability_bitmaps H m cs kind_of read_object = Some (Inr rb)
      \<and> rb_encode H rb (midx_checksum m) = Inr dat \<and> decode_midx_bitmap H dat = Inr bi
      \<and> (\<forall>k. objects_of m (type_bitmap bi k) = {i \<in> set (midx_ids m). kind_of i = Some k})
      \<and> (\<forall>c. if c \<in> set cs
            then \<exists>ids. bitmap_reachable_from bi c m = Inr (Some ids) \<and> distinct ids \<and> set ids = reachable_from H rd [c]
            else bitmap_reachable_from bi c m = Inr None)
    else \<exists>e. build_reachability_bitmaps H m cs kind_of read_object = Some (Inl e)
      \<and> (e = Err MissingObject \<or> (\<exists>c \<in> set cs. \<exists>i \<in> reachable_from H rd [c]. fails_with H rd i e))"
proof -
  obtain pbl where pbl: "invert_order r 0 (replicate (length r) 0) = Inr pbl"
    by (rule reverse_index_inverse [OF assms(2,3)])
  note wf = assms(2,3) pbl
  have rd: "rd = bitmap_reader m kind_of read_object"
    by (simp add: rd_def)
  note b = build_result [OF wf rd, of cs]
  show ?thesis
  proof (cases "(\<forall>i \<in> set (midx_ids m). kind_of i \<noteq> None) \<and> (\<forall>c \<in> set cs. \<forall>i \<in> reachable_from H rd [c]. complete H rd i)")
    case False
    show ?thesis
      unfolding if_not_P [OF False] using b [unfolded if_not_P [OF False]] .
  next
    case True
    then obtain rb where rb: "build_reachability_bitmaps H m cs kind_of read_object = Some (Inr rb)"
      "kinds_ok m pbl kind_of rb" "list_all2 (commit_bitmap_ok H m pbl rd) cs (rb_commits rb)"
      using b by auto
    have fits: "list_all (\<lambda>e. ewah_fits (snd e)) (rb_commits rb)" "types_fit (rb_types rb)"
      using written_fits [OF wf rd assms(5)] rb(2,3) True by blast+
    have "length (rb_commits rb) < 2 ^ 32"
      using list_all2_lengthD [OF rb(3)] assms(6) by simp
    from encode_decode_bitmap [OF assms(4) fits(2,1) this] obtain dat where
      enc: "rb_encode H rb (midx_checksum m) = Inr dat"
      "decode_midx_bitmap H dat = Inr (decoded_bitmap (midx_checksum m) (rb_types rb) (rb_commits rb))"
      by (auto simp: rb_encode_def)
    show ?thesis
      unfolding if_P [OF True]
      using rb(1) enc type_objects [OF wf rb(2)] query_written [OF wf rd rb(3) conjunct2 [OF True] refl] by blast
  qed
qed

definition tiny_index :: multi_pack_index where
  "tiny_index = \<lparr>pack_names = [ascii ''a''], midx_ids = [example_blob], locations = [(0, 12)],
     reverse_index = Some [0], midx_checksum = replicate 20 0\<rparr>"

theorem bitmap_file_answers_witness:
  "\<exists>rb dat bi ids. build_reachability_bitmaps (sha1 (sum_digest 20)) tiny_index [example_blob] (\<lambda>_. Some Blob) (\<lambda>_. None)
        = Some (Inr rb)
    \<and> rb_encode (sha1 (sum_digest 20)) rb (replicate 20 0) = Inr dat \<and> decode_midx_bitmap (sha1 (sum_digest 20)) dat = Inr bi
    \<and> bitmap_reachable_from bi example_blob tiny_index = Inr (Some ids) \<and> example_blob \<in> set ids"
proof -
  let ?H = "sha1 (sum_digest 20)" and ?rd = "bitmap_reader tiny_index (\<lambda>_. Some Blob) (\<lambda>_. None)"
  have wf: "midx_wf ?H tiny_index" "reverse_index tiny_index = Some [0]" "length (midx_checksum tiny_index) = raw_len ?H"
    "length (midx_ids tiny_index) \<le> 2 ^ 32 - 64" "length [example_blob] < 2 ^ 32"
    by (simp_all add: midx_wf_def tiny_index_def sha1_def id_ok_def example_blob_def)
  have "\<not> refers ?H ?rd i j" for i j
    by (auto simp: refers_def bitmap_reader_def split: if_splits)
  then have "reachable_from ?H ?rd [example_blob] = {example_blob}"
    by (auto simp: reachable_from_def elim: converse_rtranclpE)
  moreover have "complete ?H ?rd example_blob"
    by (simp add: complete_def bitmap_reader_def tiny_index_def)
  ultimately have "(\<forall>i \<in> set (midx_ids tiny_index). (\<lambda>_. Some Blob) i \<noteq> None)
      \<and> (\<forall>c \<in> set [example_blob]. \<forall>i \<in> reachable_from ?H ?rd [c]. complete ?H ?rd i)"
    by simp
  from bitmap_file_answers [OF wf, of "\<lambda>_. Some Blob" "\<lambda>_. None", unfolded if_P [OF this]] obtain rb dat bi where
    r: "build_reachability_bitmaps ?H tiny_index [example_blob] (\<lambda>_. Some Blob) (\<lambda>_. None) = Some (Inr rb)"
    "rb_encode ?H rb (midx_checksum tiny_index) = Inr dat" "decode_midx_bitmap ?H dat = Inr bi"
    and q: "\<forall>c. if c \<in> set [example_blob]
            then \<exists>ids. bitmap_reachable_from bi c tiny_index = Inr (Some ids) \<and> distinct ids \<and> set ids = reachable_from ?H ?rd [c]
            else bitmap_reachable_from bi c tiny_index = Inr None"
    by blast
  from q [rule_format, of example_blob] obtain ids where "bitmap_reachable_from bi example_blob tiny_index = Inr (Some ids)"
    "set ids = reachable_from ?H ?rd [example_blob]"
    by auto
  moreover have "midx_checksum tiny_index = replicate 20 0"
    by (simp add: tiny_index_def)
  ultimately show ?thesis
    using r self_reachable by metis
qed

text \<open>Reading any \<open>.bitmap\<close> file is safe: the decoder never panics, the queries on what it
  accepted never panic, they answer nothing for an index with another checksum, and a bitmap stored as an
  XOR marks the symmetric difference.\<close>

lemma decode_bitmap_safe:
  "no_panic (decode_midx_bitmap H bs)
   \<and> (decode_midx_bitmap H bs = Inr bi \<longrightarrow>
        no_panic (commit_reachability bi p) \<and> no_panic (bitmap_reachable_from bi c m)
        \<and> no_panic (commit_reachability_ewah bi c m)
        \<and> (bi_midx_checksum bi \<noteq> midx_checksum m \<longrightarrow>
             bitmap_reachable_from bi c m = Inr None \<and> commit_reachability_ewah bi c m = Inr None))
   \<and> (get_bit (ewah_xor a b) p \<longleftrightarrow> get_bit a p \<noteq> get_bit b p)"
proof -
  have "no_panic (commit_reachability bi p)" if "decode_midx_bitmap H bs = Inr bi" for p
    using decoded_range [OF that] by (cases "bi_by_position bi p") (auto simp: commit_reachability_def)
  then show ?thesis
    by (auto simp: no_panic_decode_bitmap get_bit_positions positions_xor bitmap_reachable_from_def
        reachable_object_ids_def commit_reachability_ewah_def split: option.splits intro!: no_panic_ebind)
qed

lemma decode_bitmap_safe_instance:
  "\<exists>dat bi. decode_midx_bitmap (sha1 (sum_digest 20)) dat = Inr bi
     \<and> bitmap_reachable_from bi example_blob tiny_index = Inr None"
proof -
  let ?H = "sha1 (sum_digest 20)" and ?e = "from_words []"
  obtain dat where "decode_midx_bitmap ?H dat = Inr (decoded_bitmap (replicate 20 1) (?e, ?e, ?e, ?e) [])"
    using encode_decode_bitmap [of "replicate 20 1" ?H "(?e, ?e, ?e, ?e)" "[]"]
    by (auto simp: ewah_fits_def from_words_def sha1_def)
  moreover have "replicate 20 (1 :: byte) \<noteq> replicate 20 0"
    by simp
  ultimately show ?thesis
    using decode_bitmap_safe [of ?H dat "decoded_bitmap (replicate 20 1) (?e, ?e, ?e, ?e) []" 0 example_blob tiny_index ?e ?e]
    by (auto simp: tiny_index_def)
qed

end
