(* ===== verification/Git_Diff.thy ===== *)
theory Git_Diff
  imports Git_Prelude
begin

text \<open>
  The line diff, \<open>gitana-diff/src/myers.rs\<close>: the greedy search of Myers over the frontier vector
  \<open>v\<close>, the saved frontiers and the walk backwards that recovers the edit script. The proof is the one
  of the paper: the frontier holds the furthest point each diagonal reaches with \<open>d\<close> edits, so
  the first depth that reaches the end is the edit distance, and the walk finds a script of that cost.
  \<open>isize\<close> values are integers; a cast to \<open>usize\<close> wraps.
\<close>

section \<open>The search\<close>

datatype edit = Equal nat nat | Delete nat | Insert nat

type_synonym 'a can_panic = "(unit, 'a) res"

definition as_usize :: "int \<Rightarrow> nat" where
  "as_usize z = nat (z mod 2 ^ 64)"

definition at :: "'a list \<Rightarrow> int \<Rightarrow> 'a can_panic" where
  "at xs i = index xs (as_usize i)"

function snake :: "'a list \<Rightarrow> 'a list \<Rightarrow> int \<Rightarrow> int \<Rightarrow> (int \<times> int) can_panic" where
  "snake a b x y =
     (if x < int (length a) \<and> y < int (length b) then
        ebind (at a x) (\<lambda>p. ebind (at b y) (\<lambda>q.
          if p = q then snake a b (x + 1) (y + 1) else Inr (x, y)))
      else Inr (x, y))"
  by pat_completeness auto
termination
  by (relation "measure (\<lambda>(a, _, x, _). nat (int (length a) - x))") auto

declare snake.simps [simp del]

text \<open>\<open>k == -d || (k != d && v[k - 1 + offset] < v[k + 1 + offset])\<close>.\<close>

definition go_down :: "int list \<Rightarrow> int \<Rightarrow> int \<Rightarrow> int \<Rightarrow> bool can_panic" where
  "go_down v off d k =
     (if k = - d then Inr True
      else if k = d then Inr False
      else ebind (at v (k - 1 + off)) (\<lambda>l. ebind (at v (k + 1 + off)) (\<lambda>r. Inr (l < r))))"

definition furthest :: "'a list \<Rightarrow> 'a list \<Rightarrow> int list \<Rightarrow> int \<Rightarrow> int \<Rightarrow> int \<Rightarrow> (int \<times> int) can_panic" where
  "furthest a b v off d k =
     ebind (go_down v off d k) (\<lambda>dn.
     ebind (if dn then at v (k + 1 + off) else ebind (at v (k - 1 + off)) (\<lambda>x. Inr (x + 1))) (\<lambda>x.
       snake a b x (x - k)))"

function scan_diagonals ::
  "'a list \<Rightarrow> 'a list \<Rightarrow> int \<Rightarrow> int \<Rightarrow> int \<Rightarrow> int list \<Rightarrow> (bool \<times> int list) can_panic" where
  "scan_diagonals a b off d k v =
     (if k \<le> d then
        ebind (furthest a b v off d k) (\<lambda>(x, y).
        ebind (at v (k + off)) (\<lambda>_.
          let v = v[as_usize (k + off) := x] in
          if int (length a) \<le> x \<and> int (length b) \<le> y then Inr (True, v)
          else scan_diagonals a b off d (k + 2) v))
      else Inr (False, v))"
  by pat_completeness auto
termination
  by (relation "measure (\<lambda>(_, _, _, d, k, _). nat (d + 1 - k))") auto

declare scan_diagonals.simps [simp del]

text \<open>The outer loop; \<open>depth\<close> stays 0 when the search does not break.\<close>

function search ::
  "'a list \<Rightarrow> 'a list \<Rightarrow> int \<Rightarrow> nat \<Rightarrow> nat \<Rightarrow> int list \<Rightarrow> int list list \<Rightarrow> (int list list \<times> nat) can_panic" where
  "search a b off max_d d v trace =
     (if d \<le> max_d then
        ebind (scan_diagonals a b off (int d) (- int d) v) (\<lambda>(found, v').
          if found then Inr (trace @ [v], d)
          else search a b off max_d (d + 1) v' (trace @ [v]))
      else Inr (trace, 0))"
  by pat_completeness auto
termination
  by (relation "measure (\<lambda>(_, _, _, max_d, d, _, _). max_d + 1 - d)") auto

declare search.simps [simp del]

function undo_snake :: "int \<Rightarrow> int \<Rightarrow> int \<Rightarrow> int \<Rightarrow> edit list \<Rightarrow> int \<times> int \<times> edit list" where
  "undo_snake x y prev_x prev_y edits =
     (if prev_x < x \<and> prev_y < y then
        undo_snake (x - 1) (y - 1) prev_x prev_y (edits @ [Equal (as_usize (x - 1)) (as_usize (y - 1))])
      else (x, y, edits))"
  by pat_completeness auto
termination
  by (relation "measure (\<lambda>(x, _, prev_x, _, _). nat (x - prev_x))") auto

declare undo_snake.simps [simp del]

text \<open>\<open>for d in (0..=depth).rev()\<close>: the argument is the number of turns left.\<close>

fun backtrack :: "int list list \<Rightarrow> int \<Rightarrow> nat \<Rightarrow> int \<Rightarrow> int \<Rightarrow> edit list \<Rightarrow> edit list can_panic" where
  "backtrack trace off 0 x y edits = Inr (rev edits)"
| "backtrack trace off (Suc d) x y edits =
     ebind (index trace d) (\<lambda>v.
       let k = x - y in
       ebind (go_down v off (int d) k) (\<lambda>dn.
         let prev_k = (if dn then k + 1 else k - 1) in
         ebind (at v (prev_k + off)) (\<lambda>prev_x.
           let prev_y = prev_x - prev_k;
               (x, y, edits) = undo_snake x y prev_x prev_y edits;
               edits = (if 0 < d then
                          edits @ [if x = prev_x then Insert (as_usize prev_y) else Delete (as_usize prev_x)]
                        else edits)
           in backtrack trace off d prev_x prev_y edits)))"

definition diff :: "'a list \<Rightarrow> 'a list \<Rightarrow> edit list can_panic" where
  "diff a b =
     (if a = [] \<and> b = [] then Inr []
      else
        let max_d = length a + length b; off = int max_d in
        ebind (search a b off max_d 0 (replicate (2 * max_d + 1) 0) []) (\<lambda>(trace, depth).
          backtrack trace off (depth + 1) (int (length a)) (int (length b)) []))"

section \<open>Edit scripts\<close>

text \<open>A script in order: it visits every line of both sides once, in order, and keeps equal lines only.\<close>

fun aligns :: "'a list \<Rightarrow> 'a list \<Rightarrow> nat \<Rightarrow> nat \<Rightarrow> edit list \<Rightarrow> bool" where
  "aligns a b i j [] \<longleftrightarrow> i = length a \<and> j = length b"
| "aligns a b i j (Equal x y # es) \<longleftrightarrow>
     x = i \<and> y = j \<and> i < length a \<and> j < length b \<and> a ! i = b ! j \<and> aligns a b (i + 1) (j + 1) es"
| "aligns a b i j (Delete x # es) \<longleftrightarrow> x = i \<and> i < length a \<and> aligns a b (i + 1) j es"
| "aligns a b i j (Insert y # es) \<longleftrightarrow> y = j \<and> j < length b \<and> aligns a b i (j + 1) es"

fun edit_cost :: "edit list \<Rightarrow> nat" where
  "edit_cost [] = 0"
| "edit_cost (Equal x y # es) = edit_cost es"
| "edit_cost (e # es) = Suc (edit_cost es)"

text \<open>Applying a script: equal lines come from the old side, inserted lines from the new one.\<close>

fun patch :: "'a list \<Rightarrow> 'a list \<Rightarrow> edit list \<Rightarrow> 'a list" where
  "patch a b [] = []"
| "patch a b (Equal x y # es) = a ! x # patch a b es"
| "patch a b (Delete x # es) = patch a b es"
| "patch a b (Insert y # es) = b ! y # patch a b es"

lemma aligns_patch: "aligns a b i j es \<Longrightarrow> patch a b es = drop j b"
  by (induction a b i j es rule: aligns.induct) (simp_all add: Cons_nth_drop_Suc)

section \<open>Edit paths\<close>

text \<open>A point reached with \<open>d\<close> edits; a path may leave the grid, a diagonal step may not.\<close>

inductive wpath :: "'a list \<Rightarrow> 'a list \<Rightarrow> nat \<Rightarrow> int \<Rightarrow> int \<Rightarrow> bool" for a b where
  wstart: "wpath a b 0 0 0"
| wdiag: "wpath a b d x y \<Longrightarrow> x < int (length a) \<Longrightarrow> y < int (length b) \<Longrightarrow> a ! nat x = b ! nat y \<Longrightarrow>
    wpath a b d (x + 1) (y + 1)"
| wright: "wpath a b d x y \<Longrightarrow> wpath a b (Suc d) (x + 1) y"
| wdown: "wpath a b d x y \<Longrightarrow> wpath a b (Suc d) x (y + 1)"

lemma wpath_nonneg: "wpath a b d x y \<Longrightarrow> 0 \<le> x \<and> 0 \<le> y"
  by (induction rule: wpath.induct) auto

text \<open>Diagonals in reach of depth \<open>d\<close>, and the furthest point on each.\<close>

definition diagonal :: "nat \<Rightarrow> int \<Rightarrow> bool" where
  "diagonal d k \<longleftrightarrow> \<bar>k\<bar> \<le> int d \<and> even (int d + k)"

function ext :: "'a list \<Rightarrow> 'a list \<Rightarrow> int \<Rightarrow> int \<Rightarrow> int" where
  "ext a b k x =
     (if x < int (length a) \<and> x - k < int (length b) \<and> a ! nat x = b ! nat (x - k) then ext a b k (x + 1) else x)"
  by pat_completeness auto
termination
  by (relation "measure (\<lambda>(a, _, _, x). nat (int (length a) - x))") auto

declare ext.simps [simp del]

fun frontier :: "'a list \<Rightarrow> 'a list \<Rightarrow> nat \<Rightarrow> int \<Rightarrow> int" where
  "frontier a b 0 k = ext a b k 0"
| "frontier a b (Suc d) k =
     ext a b k
       (if k = - int (Suc d) \<or> (k \<noteq> int (Suc d) \<and> frontier a b d (k - 1) < frontier a b d (k + 1))
        then frontier a b d (k + 1) else frontier a b d (k - 1) + 1)"

abbreviation matching :: "'a list \<Rightarrow> 'a list \<Rightarrow> int \<Rightarrow> int \<Rightarrow> bool" where
  "matching a b k x \<equiv> x < int (length a) \<and> x - k < int (length b) \<and> a ! nat x = b ! nat (x - k)"

lemma ext_step: "matching a b k x \<Longrightarrow> ext a b k x = ext a b k (x + 1)"
  by (subst ext.simps) simp

lemma ext_stop: "\<not> matching a b k x \<Longrightarrow> ext a b k x = x"
  by (subst ext.simps) (simp only: if_False)

lemma ext_ge: "x \<le> ext a b k x"
  by (induction a b k x rule: ext.induct) (subst ext.simps, auto)

lemma ext_stops: "\<not> matching a b k (ext a b k x)"
proof (induction a b k x rule: ext.induct)
  case (1 a b k x)
  then show ?case
    using ext_step [of x a k b] ext_stop [of x a k b] by (cases "matching a b k x") auto
qed

lemma ext_diag:
  "x \<le> i \<Longrightarrow> i < ext a b k x \<Longrightarrow> i < int (length a) \<and> i - k < int (length b) \<and> a ! nat i = b ! nat (i - k)"
proof (induction a b k x rule: ext.induct)
  case (1 a b k x)
  show ?case
  proof (cases "x < int (length a) \<and> x - k < int (length b) \<and> a ! nat x = b ! nat (x - k)")
    case True
    then have "ext a b k x = ext a b k (x + 1)"
      by (rule ext_step)
    then show ?thesis
      using 1 True by (cases "i = x") auto
  next
    case False
    then have "ext a b k x = x"
      by (rule ext_stop)
    then show ?thesis
      using "1.prems" by simp
  qed
qed

lemma wpath_ext: "wpath a b d x (x - k) \<Longrightarrow> wpath a b d (ext a b k x) (ext a b k x - k)"
proof (induction a b k x rule: ext.induct)
  case (1 a b k x)
  show ?case
  proof (cases "x < int (length a) \<and> x - k < int (length b) \<and> a ! nat x = b ! nat (x - k)")
    case True
    then have "wpath a b d (x + 1) (x - k + 1)"
      using 1(2) by (intro wdiag) auto
    then have "wpath a b d (ext a b k (x + 1)) (ext a b k (x + 1) - k)"
      using "1.IH" [OF True] by (simp add: algebra_simps)
    then show ?thesis
      using True by (subst (1 2) ext.simps) simp
  next
    case False
    then have "ext a b k x = x"
      by (rule ext_stop)
    then show ?thesis
      using 1(2) by simp
  qed
qed

lemma diagonal_Suc:
  assumes "diagonal (Suc d) k"
  shows "k \<noteq> - int (Suc d) \<Longrightarrow> diagonal d (k - 1)" "k \<noteq> int (Suc d) \<Longrightarrow> diagonal d (k + 1)"
  using assms by (auto simp: diagonal_def abs_le_iff) presburger+

lemma frontier_wpath: "diagonal d k \<Longrightarrow> wpath a b d (frontier a b d k) (frontier a b d k - k)"
proof (induction d arbitrary: k)
  case 0
  then have "k = 0"
    by (simp add: diagonal_def)
  then show ?case
    using wpath_ext [of a b 0 0 0] by (simp add: wstart)
next
  case (Suc d)
  let ?dn = "k = - int (Suc d) \<or> (k \<noteq> int (Suc d) \<and> frontier a b d (k - 1) < frontier a b d (k + 1))"
  show ?case
  proof (cases ?dn)
    case True
    then have "diagonal d (k + 1)"
      using diagonal_Suc(2) [OF Suc.prems] by auto
    from wdown [OF Suc.IH [OF this]] have "wpath a b (Suc d) (frontier a b d (k + 1)) (frontier a b d (k + 1) - k)"
      by (simp add: algebra_simps)
    from wpath_ext [OF this] show ?thesis
      using True by (simp only: frontier.simps if_True)
  next
    case False
    then have "diagonal d (k - 1)"
      using diagonal_Suc(1) [OF Suc.prems] by auto
    from wright [OF Suc.IH [OF this]] have "wpath a b (Suc d) (frontier a b d (k - 1) + 1) (frontier a b d (k - 1) + 1 - k)"
      by (simp add: algebra_simps)
    from wpath_ext [OF this] show ?thesis
      using False by (simp only: frontier.simps if_False)
  qed
qed

lemma wpath_diagonal: "wpath a b d x y \<Longrightarrow> diagonal d (x - y)"
  by (induction rule: wpath.induct) (auto simp: diagonal_def abs_le_iff)

lemma frontier_ext: "\<exists>z. frontier a b d k = ext a b k z"
  by (cases d) (auto simp only: frontier.simps)

lemma frontier_furthest: "wpath a b d x y \<Longrightarrow> x \<le> frontier a b d (x - y)"
proof (induction rule: wpath.induct)
  case wstart
  then show ?case
    using ext_ge [of 0 a b 0] by simp
next
  case (wdiag d x y)
  let ?F = "frontier a b d (x - y)"
  have "\<not> matching a b (x - y) ?F"
    using frontier_ext [of a b d "x - y"] ext_stops by metis
  moreover have "matching a b (x - y) x"
    using wdiag by simp
  ultimately have "x \<noteq> ?F"
    by metis
  then show ?case
    using wdiag.IH by simp
next
  case (wright d x y)
  let ?k = "x + 1 - y"
  have k: "- int d \<le> x - y" "x - y \<le> int d"
    using wpath_diagonal [OF wright.hyps] by (auto simp: diagonal_def)
  have "x \<le> frontier a b d (?k - 1)"
    using wright.IH by simp
  then have "x + 1 \<le> (if ?k = - int (Suc d) \<or> (?k \<noteq> int (Suc d) \<and> frontier a b d (?k - 1) < frontier a b d (?k + 1))
        then frontier a b d (?k + 1) else frontier a b d (?k - 1) + 1)"
    using k by auto
  also have "\<dots> \<le> frontier a b (Suc d) ?k"
    unfolding frontier.simps by (rule ext_ge)
  finally show ?case .
next
  case (wdown d x y)
  let ?k = "x - (y + 1)"
  have k: "- int d \<le> x - y" "x - y \<le> int d"
    using wpath_diagonal [OF wdown.hyps] by (auto simp: diagonal_def)
  have "x \<le> frontier a b d (?k + 1)"
    using wdown.IH by simp
  then have "x \<le> (if ?k = - int (Suc d) \<or> (?k \<noteq> int (Suc d) \<and> frontier a b d (?k - 1) < frontier a b d (?k + 1))
        then frontier a b d (?k + 1) else frontier a b d (?k - 1) + 1)"
    using k by auto
  also have "\<dots> \<le> frontier a b (Suc d) ?k"
    unfolding frontier.simps by (rule ext_ge)
  finally show ?case .
qed

text \<open>Cutting a path back to the grid saves the edits made outside.\<close>

lemma wpath_clamp:
  "wpath a b d x y \<Longrightarrow> nat (x - int (length a)) + nat (y - int (length b)) \<le> d
    \<and> wpath a b (d - (nat (x - int (length a)) + nat (y - int (length b)))) (min x (int (length a))) (min y (int (length b)))"
proof (induction rule: wpath.induct)
  case wstart
  then show ?case
    by (simp add: wpath.wstart)
next
  case (wdiag d x y)
  then have "wpath a b d x y"
    by simp
  then show ?case
    using wdiag wpath.wdiag [of a b d x y] by (simp add: min_def)
next
  case (wright d x y)
  show ?case
  proof (cases "x < int (length a)")
    case True
    then show ?thesis
      using wright.IH wpath.wright [of a b "d - nat (y - int (length b))" x "min y (int (length b))"]
      by (simp add: min_def Suc_diff_le)
  next
    case False
    then have "nat (x + 1 - int (length a)) = Suc (nat (x - int (length a)))"
      "min (x + 1) (int (length a)) = min x (int (length a))"
      by simp_all
    then show ?thesis
      using wright.IH by (simp only: add_Suc add_Suc_right diff_Suc_Suc Suc_le_mono)
  qed
next
  case (wdown d x y)
  show ?case
  proof (cases "y < int (length b)")
    case True
    then show ?thesis
      using wdown.IH wpath.wdown [of a b "d - nat (x - int (length a))" "min x (int (length a))" y]
      by (simp add: min_def Suc_diff_le)
  next
    case False
    then have "nat (y + 1 - int (length b)) = Suc (nat (y - int (length b)))"
      "min (y + 1) (int (length b)) = min y (int (length b))"
      by simp_all
    then show ?thesis
      using wdown.IH by (simp only: add_Suc add_Suc_right diff_Suc_Suc Suc_le_mono)
  qed
qed

lemma wpath_rights: "wpath a b (d + i) (int i) 0 \<Longrightarrow> wpath a b (d + i + j) (int i) (int j)"
  by (induction j) (auto dest: wdown simp: algebra_simps)

lemma wpath_end: "wpath a b (length a + length b) (int (length a)) (int (length b))"
proof -
  have "wpath a b i (int i) 0" for i
  proof (induction i)
    case (Suc i)
    from wright [OF Suc] show ?case
      by (simp add: algebra_simps)
  qed (simp add: wstart)
  then show ?thesis
    using wpath_rights [of a b 0 "length a" "length b"] by simp
qed

section \<open>The first depth that reaches the end\<close>

definition hit :: "'a list \<Rightarrow> 'a list \<Rightarrow> nat \<Rightarrow> int \<Rightarrow> bool" where
  "hit a b d k \<longleftrightarrow> int (length a) \<le> frontier a b d k \<and> int (length b) \<le> frontier a b d k - k"

definition distance :: "'a list \<Rightarrow> 'a list \<Rightarrow> nat" where
  "distance a b = (LEAST d. \<exists>k. diagonal d k \<and> hit a b d k)"

lemma wpath_hit:
  assumes "wpath a b d (int (length a)) (int (length b))"
  shows "diagonal d (int (length a) - int (length b)) \<and> hit a b d (int (length a) - int (length b))"
  using wpath_diagonal [OF assms] frontier_furthest [OF assms] by (simp add: hit_def)

lemma distance_le: "wpath a b d (int (length a)) (int (length b)) \<Longrightarrow> distance a b \<le> d"
  unfolding distance_def by (rule Least_le) (use wpath_hit in blast)

lemma distance_hit: "\<exists>k. diagonal (distance a b) k \<and> hit a b (distance a b) k"
  unfolding distance_def by (rule LeastI_ex) (use wpath_hit [OF wpath_end] in blast)

lemma distance_first: "d < distance a b \<Longrightarrow> diagonal d k \<Longrightarrow> \<not> hit a b d k"
  unfolding distance_def using not_less_Least by blast

lemma distance_max: "distance a b \<le> length a + length b"
  by (rule distance_le [OF wpath_end])

lemma distance_exact:
  assumes "diagonal (distance a b) k" "hit a b (distance a b) k"
  shows "k = int (length a) - int (length b)" "frontier a b (distance a b) k = int (length a)"
proof -
  let ?d = "distance a b" and ?x = "frontier a b (distance a b) k"
  let ?s = "nat (?x - int (length a)) + nat (?x - k - int (length b))"
  have c: "?s \<le> ?d" "wpath a b (?d - ?s) (min ?x (int (length a))) (min (?x - k) (int (length b)))"
    using wpath_clamp [OF frontier_wpath [OF assms(1)]] by blast+
  have "min ?x (int (length a)) = int (length a)" "min (?x - k) (int (length b)) = int (length b)"
    using assms(2) by (simp_all add: hit_def min_def)
  then have "?d \<le> ?d - ?s"
    using c(2) by (intro distance_le) simp
  then have "?s = 0"
    using c(1) by linarith
  then show "k = int (length a) - int (length b)" "?x = int (length a)"
    using assms(2) by (simp_all add: hit_def)
qed

lemma distance_end:
  "diagonal (distance a b) (int (length a) - int (length b))"
  "frontier a b (distance a b) (int (length a) - int (length b)) = int (length a)"
  using distance_hit [of a b] distance_exact [of a b] by blast+

text \<open>No script is cheaper.\<close>

lemma aligns_wpath:
  "aligns a b i j es \<Longrightarrow> wpath a b d (int i) (int j) \<Longrightarrow> wpath a b (d + edit_cost es) (int (length a)) (int (length b))"
proof (induction a b i j es arbitrary: d rule: aligns.induct)
  case (2 a b i j x y es)
  then show ?case
    using wdiag [of a b d "int i" "int j"] by (simp add: algebra_simps)
next
  case (3 a b i j x es)
  then show ?case
    using wright [of a b d "int i" "int j"] "3.IH" [of "Suc d"] by (simp add: algebra_simps)
next
  case (4 a b i j y es)
  then show ?case
    using wdown [of a b d "int i" "int j"] "4.IH" [of "Suc d"] by (simp add: algebra_simps)
qed simp

lemma distance_minimal: "aligns a b 0 0 es \<Longrightarrow> distance a b \<le> edit_cost es"
  using aligns_wpath [of a b 0 0 es 0] wstart [of a b] by (intro distance_le) simp

section \<open>The search computes the frontier\<close>

text \<open>The two sides fit a machine word with room for the frontier vector.\<close>

definition diffable :: "'a list \<Rightarrow> 'a list \<Rightarrow> bool" where
  "diffable a b \<longleftrightarrow> 2 * (length a + length b) + 1 < 2 ^ 63"

lemma as_usize_nat: "0 \<le> i \<Longrightarrow> i < 2 ^ 64 \<Longrightarrow> as_usize i = nat i"
  by (simp add: as_usize_def)

lemma at_ok: "0 \<le> i \<Longrightarrow> i < int (length xs) \<Longrightarrow> length xs < 2 ^ 63 \<Longrightarrow> at xs i = Inr (xs ! nat i)"
  by (simp add: at_def as_usize_nat nat_less_iff)

lemma snake_ext:
  "diffable a b \<Longrightarrow> 0 \<le> x \<Longrightarrow> 0 \<le> x - k \<Longrightarrow> snake a b x (x - k) = Inr (ext a b k x, ext a b k x - k)"
proof (induction a b k x rule: ext.induct)
  case (1 a b k x)
  show ?case
  proof (cases "x < int (length a) \<and> x - k < int (length b)")
    case True
    then have at: "at a x = Inr (a ! nat x)" "at b (x - k) = Inr (b ! nat (x - k))"
      using "1.prems" by (auto intro!: at_ok simp: diffable_def)
    show ?thesis
    proof (cases "a ! nat x = b ! nat (x - k)")
      case eq: True
      then have "snake a b x (x - k) = snake a b (x + 1) (x + 1 - k)"
        using True at by (subst snake.simps) (simp add: algebra_simps)
      then show ?thesis
        using 1 True eq ext_step [of x a k b] by simp
    next
      case False
      then show ?thesis
        using True at ext_stop [of x a k b] by (subst snake.simps) simp
    qed
  next
    case False
    then show ?thesis
      using ext_stop [of x a k b] by (subst snake.simps) auto
  qed
qed

definition before :: "'a list \<Rightarrow> 'a list \<Rightarrow> nat \<Rightarrow> int list \<Rightarrow> bool" where
  "before a b d v \<longleftrightarrow> length v = 2 * (length a + length b) + 1
     \<and> (case d of 0 \<Rightarrow> v ! nat (1 + int (length a + length b)) = 0
        | Suc d' \<Rightarrow> \<forall>k. diagonal d' k \<longrightarrow> v ! nat (k + int (length a + length b)) = frontier a b d' k)"

lemma choice:
  assumes "diffable a b" "before a b d v" "diagonal d k" "d \<le> length a + length b" "0 < length a + length b"
    and off: "off = int (length a + length b)"
  shows "\<exists>dn p. go_down v off (int d) k = Inr dn \<and> at v ((if dn then k + 1 else k - 1) + off) = Inr p
    \<and> frontier a b d k = ext a b k (if dn then p else p + 1)
    \<and> (d = 0 \<longrightarrow> dn \<and> p = 0)
    \<and> (\<forall>d'. d = Suc d' \<longrightarrow> diagonal d' (if dn then k + 1 else k - 1) \<and> p = frontier a b d' (if dn then k + 1 else k - 1))"
proof -
  have len: "length v = 2 * (length a + length b) + 1" "length v < 2 ^ 63"
    using assms(1,2) by (simp_all add: before_def diffable_def)
  have k: "\<bar>k\<bar> \<le> int d"
    using assms(3) by (simp add: diagonal_def)
  show ?thesis
  proof (cases d)
    case 0
    then have k0: "k = 0"
      using k by simp
    have "0 < off"
      using assms(5) off by linarith
    moreover have "int (length v) = 2 * off + 1"
      using len(1) off by simp
    ultimately have "at v (1 + off) = Inr (v ! nat (1 + off))"
      using len(2) by (intro at_ok) linarith+
    moreover have "v ! nat (1 + off) = 0"
      using assms(2) 0 off by (simp add: before_def)
    ultimately show ?thesis
      using 0 k0 by (intro exI [of _ True] exI [of _ 0]) (simp add: go_down_def)
  next
    case (Suc d')
    have v: "at v (j + off) = Inr (frontier a b d' j)" if "diagonal d' j" for j
    proof -
      have "\<bar>j\<bar> \<le> int d'"
        using that by (simp add: diagonal_def)
      then have "at v (j + off) = Inr (v ! nat (j + off))"
        using len assms(4) off Suc by (intro at_ok) auto
      then show ?thesis
        using assms(2) that off Suc by (simp add: before_def)
    qed
    let ?dn = "k = - int d \<or> (k \<noteq> int d \<and> frontier a b d' (k - 1) < frontier a b d' (k + 1))"
    note dg = diagonal_Suc [OF assms(3) [unfolded Suc], folded Suc]
    have "go_down v off (int d) k = Inr ?dn"
      using v [of "k - 1"] v [of "k + 1"] dg by (auto simp: go_down_def)
    moreover have "diagonal d' (if ?dn then k + 1 else k - 1)"
      using dg Suc by auto
    moreover from this have "at v ((if ?dn then k + 1 else k - 1) + off) = Inr (frontier a b d' (if ?dn then k + 1 else k - 1))"
      by (rule v)
    moreover have "frontier a b d k = ext a b k (if ?dn then frontier a b d' (if ?dn then k + 1 else k - 1)
        else frontier a b d' (if ?dn then k + 1 else k - 1) + 1)"
      unfolding Suc by simp
    ultimately show ?thesis
      using Suc by (intro exI [of _ ?dn]) simp
  qed
qed

lemma furthest_frontier:
  assumes "diffable a b" "before a b d v" "diagonal d k" "d \<le> length a + length b" "0 < length a + length b"
    and off: "off = int (length a + length b)"
  shows "furthest a b v off (int d) k = Inr (frontier a b d k, frontier a b d k - k)"
proof -
  obtain dn p where c: "go_down v off (int d) k = Inr dn" "at v ((if dn then k + 1 else k - 1) + off) = Inr p"
    "frontier a b d k = ext a b k (if dn then p else p + 1)" "d = 0 \<longrightarrow> dn \<and> p = 0"
    "\<forall>d'. d = Suc d' \<longrightarrow> diagonal d' (if dn then k + 1 else k - 1) \<and> p = frontier a b d' (if dn then k + 1 else k - 1)"
    using choice [OF assms] by blast
  let ?s = "if dn then p else p + 1"
  have "0 \<le> ?s \<and> 0 \<le> ?s - k"
  proof (cases d)
    case 0
    then show ?thesis
      using c(4) assms(3) by (simp add: diagonal_def)
  next
    case (Suc d')
    then have "wpath a b d' p (p - (if dn then k + 1 else k - 1))"
      using c(5) frontier_wpath by metis
    then show ?thesis
      using wpath_nonneg by fastforce
  qed
  then have "snake a b ?s (?s - k) = Inr (frontier a b d k, frontier a b d k - k)"
    unfolding c(3) using snake_ext [OF assms(1)] by blast
  then show ?thesis
    using c(1,2) by (cases dn) (simp_all add: furthest_def)
qed

lemma before_update:
  assumes "before a b d v" "diagonal d k" "d \<le> length a + length b" "0 < length a + length b"
  shows "before a b d (v[nat (k + int (length a + length b)) := x])"
proof (cases d)
  case 0
  then show ?thesis
    using assms by (simp add: before_def diagonal_def)
next
  case (Suc d')
  let ?n = "int (length a + length b)"
  have ne: "nat (j + ?n) \<noteq> nat (k + ?n)" if "diagonal d' j" for j
  proof -
    have "j \<noteq> k"
      using that assms(2) Suc by (auto simp: diagonal_def)
    moreover have "0 \<le> j + ?n" "0 \<le> k + ?n"
      using that assms(2,3) Suc by (auto simp: diagonal_def)
    ultimately show ?thesis
      by linarith
  qed
  have "v[nat (k + ?n) := x] ! nat (j + ?n) = frontier a b d' j" if "diagonal d' j" for j
    using assms(1) that Suc unfolding nth_list_update_neq [OF ne [OF that, symmetric]]
    by (simp add: before_def)
  then show ?thesis
    using assms(1) unfolding before_def Suc by simp
qed

lemma scan_diagonals_frontier:
  assumes "diffable a b" "d \<le> length a + length b" "0 < length a + length b"
    and off: "off = int (length a + length b)"
  shows "before a b d v \<Longrightarrow> - int d \<le> k \<Longrightarrow> even (int d + k)
    \<Longrightarrow> \<forall>j. diagonal d j \<longrightarrow> j < k \<longrightarrow> v ! nat (j + off) = frontier a b d j
    \<Longrightarrow> if \<exists>j \<ge> k. diagonal d j \<and> hit a b d j then \<exists>v'. scan_diagonals a b off (int d) k v = Inr (True, v')
      else \<exists>v'. scan_diagonals a b off (int d) k v = Inr (False, v') \<and> before a b (Suc d) v'"
proof (induction "nat (int d + 1 - k)" arbitrary: k v rule: less_induct)
  case less
  show ?case
  proof (cases "k \<le> int d")
    case False
    then have "\<not> (\<exists>j \<ge> k. diagonal d j \<and> hit a b d j)"
      by (auto simp: diagonal_def)
    moreover have "v ! nat (j + off) = frontier a b d j" if "diagonal d j" for j
    proof -
      have "j < k"
        using that False by (auto simp: diagonal_def)
      then show ?thesis
        using less.prems(4) that by blast
    qed
    then have "before a b (Suc d) v"
      using less.prems(1) off by (simp add: before_def)
    ultimately show ?thesis
      using False by (simp add: scan_diagonals.simps)
  next
    case True
    have dk: "diagonal d k"
      using less.prems(2,3) True by (simp add: diagonal_def)
    have len: "length v = 2 * (length a + length b) + 1"
      using less.prems(1) by (simp add: before_def)
    have kr: "0 \<le> k + off" "k + off < int (length v)"
      using less.prems(2) True assms(2) off len by simp_all
    have us: "as_usize (k + off) = nat (k + off)"
      using kr len assms(1) by (intro as_usize_nat) (simp_all add: diffable_def)
    let ?x = "frontier a b d k"
    let ?v = "v[nat (k + off) := ?x]"
    have step: "scan_diagonals a b off (int d) k v
        = (if hit a b d k then Inr (True, ?v) else scan_diagonals a b off (int d) (k + 2) ?v)"
      using True furthest_frontier [OF assms(1) less.prems(1) dk assms(2,3) off] at_ok [OF kr] us len assms(1)
      by (subst scan_diagonals.simps) (simp add: hit_def diffable_def Let_def)
    show ?thesis
    proof (cases "hit a b d k")
      case hk: True
      then have "\<exists>j \<ge> k. diagonal d j \<and> hit a b d j"
        using dk by blast
      then show ?thesis
        using step hk by simp
    next
      case hk: False
      have ex: "(\<exists>j \<ge> k. diagonal d j \<and> hit a b d j) \<longleftrightarrow> (\<exists>j \<ge> k + 2. diagonal d j \<and> hit a b d j)"
      proof -
        have "k + 2 \<le> j" if "k \<le> j" "diagonal d j" "j \<noteq> k" for j
          using that less.prems(3) unfolding diagonal_def by presburger
        then show ?thesis
          using hk by (metis add_increasing2 zero_le_numeral order_trans le_add_same_cancel1)
      qed
      have "\<forall>j. diagonal d j \<longrightarrow> j < k + 2 \<longrightarrow> ?v ! nat (j + off) = frontier a b d j"
      proof (intro allI impI)
        fix j assume j: "diagonal d j" "j < k + 2"
        show "?v ! nat (j + off) = frontier a b d j"
        proof (cases "j = k")
          case True
          then show ?thesis
            using kr by (simp add: nat_less_iff)
        next
          case False
          have "j < k"
            using j False less.prems(3) unfolding diagonal_def by presburger
          moreover have "nat (j + off) \<noteq> nat (k + off)"
            using False j(1) assms(2) off kr by (auto simp: diagonal_def)
          ultimately show ?thesis
            using less.prems(4) j(1) by simp
        qed
      qed
      moreover have "before a b d ?v"
        using before_update [OF less.prems(1) dk assms(2,3)] off by simp
      ultimately show ?thesis
        unfolding ex step if_not_P [OF hk]
        using True less.prems(2,3) by (intro less.hyps) auto
    qed
  qed
qed

lemma search_frontier:
  assumes "diffable a b" "0 < length a + length b" and off: "off = int (length a + length b)"
  shows "d \<le> distance a b \<Longrightarrow> before a b d v \<Longrightarrow> length trace = d \<Longrightarrow> \<forall>i < d. before a b i (trace ! i)
    \<Longrightarrow> \<exists>tr. search a b off (length a + length b) d v trace = Inr (tr, distance a b)
      \<and> length tr = distance a b + 1 \<and> (\<forall>i \<le> distance a b. before a b i (tr ! i))"
proof (induction "distance a b - d" arbitrary: d v trace)
  case 0
  then have d: "d = distance a b" "d \<le> length a + length b"
    using distance_max by auto
  obtain k where k: "diagonal d k" "hit a b d k"
    using distance_hit [of a b] d(1) by blast
  then have "- int d \<le> k"
    by (simp add: diagonal_def abs_le_iff)
  with k have "\<exists>j \<ge> - int d. diagonal d j \<and> hit a b d j"
    by blast
  moreover have "even (int d + - int d)" "\<forall>j. diagonal d j \<longrightarrow> j < - int d \<longrightarrow> v ! nat (j + off) = frontier a b d j"
    by (auto simp: diagonal_def abs_le_iff)
  ultimately have "\<exists>v'. scan_diagonals a b off (int d) (- int d) v = Inr (True, v')"
    using scan_diagonals_frontier [OF assms(1) d(2) assms(2) off 0(3), of "- int d"] unfolding if_P by simp
  then obtain v' where v': "scan_diagonals a b off (int d) (- int d) v = Inr (True, v')" ..
  then show ?case
    using d 0 by (intro exI [of _ "trace @ [v]"]) (subst search.simps, auto simp: nth_append le_less less_Suc_eq)
next
  case (Suc n)
  then have d: "d < distance a b" "d \<le> length a + length b"
    using distance_max [of a b] by auto
  have "\<not> (\<exists>j \<ge> - int d. diagonal d j \<and> hit a b d j)"
    using distance_first [OF d(1)] by blast
  moreover have "even (int d + - int d)" "\<forall>j. diagonal d j \<longrightarrow> j < - int d \<longrightarrow> v ! nat (j + off) = frontier a b d j"
    by (auto simp: diagonal_def abs_le_iff)
  ultimately have "\<exists>v'. scan_diagonals a b off (int d) (- int d) v = Inr (False, v') \<and> before a b (Suc d) v'"
    using scan_diagonals_frontier [OF assms(1) d(2) assms(2) off Suc(4), of "- int d"] unfolding if_not_P by simp
  then obtain v' where v': "scan_diagonals a b off (int d) (- int d) v = Inr (False, v')" "before a b (Suc d) v'"
    by blast
  have "\<exists>tr. search a b off (length a + length b) (Suc d) v' (trace @ [v]) = Inr (tr, distance a b)
      \<and> length tr = distance a b + 1 \<and> (\<forall>i \<le> distance a b. before a b i (tr ! i))"
    using Suc d v'(2) by (intro Suc.hyps(1)) (auto simp: nth_append less_Suc_eq)
  then show ?case
    using v'(1) d by (subst search.simps) simp
qed

section \<open>The walk backwards\<close>

lemma aligns_diagonal:
  assumes "aligns a b (nat x) (nat (x - k)) es" "0 \<le> x" "0 \<le> x - k" "matching a b k (x - 1)" "1 \<le> x" "1 \<le> x - k"
  shows "aligns a b (nat (x - 1)) (nat (x - 1 - k)) (Equal (nat (x - 1)) (nat (x - 1 - k)) # es)"
proof -
  have "nat x = Suc (nat (x - 1))" "nat (x - k) = Suc (nat (x - 1 - k))"
    using assms(5,6) by linarith+
  then show ?thesis
    using assms by (auto simp: nat_less_iff)
qed

text \<open>Undoing a run of equal lines from \<open>x\<close> back to \<open>s\<close> on one diagonal; the loop stops at the
  point the step came from.\<close>

lemma undo_snake_run:
  assumes "diffable a b" "0 \<le> s" "0 \<le> s - k" "px \<le> s" "py \<le> s - k" "px = s \<or> py = s - k"
  shows "s \<le> x \<Longrightarrow> x \<le> int (length a) \<Longrightarrow> x - k \<le> int (length b) \<Longrightarrow> \<forall>i. s \<le> i \<longrightarrow> i < x \<longrightarrow> matching a b k i
    \<Longrightarrow> aligns a b (nat x) (nat (x - k)) (rev es)
    \<Longrightarrow> \<exists>es'. undo_snake x (x - k) px py es = (s, s - k, es') \<and> aligns a b (nat s) (nat (s - k)) (rev es')
      \<and> edit_cost (rev es') = edit_cost (rev es)"
proof (induction "nat (x - s)" arbitrary: x es)
  case 0
  then have "x = s"
    by simp
  then show ?case
    using 0 assms by (subst undo_snake.simps) auto
next
  case (Suc n)
  then have sx: "s \<le> x - 1"
    by simp
  then have m: "matching a b k (x - 1)"
    using Suc.prems(4) by simp
  let ?e = "Equal (nat (x - 1)) (nat (x - 1 - k))"
  have us: "as_usize (x - 1) = nat (x - 1)" "as_usize (x - k - 1) = nat (x - 1 - k)"
    using Suc.prems(2,3) sx assms(1-3) by (auto simp: as_usize_def diffable_def algebra_simps)
  have "aligns a b (nat (x - 1)) (nat (x - 1 - k)) (rev (es @ [?e]))"
    using aligns_diagonal [OF Suc.prems(5) _ _ m] sx assms(2,3) by simp
  moreover have "undo_snake x (x - k) px py es = undo_snake (x - 1) (x - 1 - k) px py (es @ [?e])"
    using sx assms(4-6) us by (subst undo_snake.simps) (simp add: algebra_simps)
  moreover have "n = nat (x - 1 - s)"
    using Suc.hyps(2) by simp
  ultimately show ?case
    using Suc.hyps(1) [of "x - 1" "es @ [?e]"] Suc.prems(1-4) sx by simp
qed

text \<open>The point on the frontier of depth \<open>d\<close> that lies in the grid: the remaining turns prepend a
  script of cost \<open>d\<close>.\<close>

lemma backtrack_aligns:
  assumes "diffable a b" "0 < length a + length b" and off: "off = int (length a + length b)"
  shows "diagonal d k \<Longrightarrow> d \<le> length a + length b \<Longrightarrow> \<forall>i \<le> d. before a b i (tr ! i) \<Longrightarrow> d < length tr
    \<Longrightarrow> frontier a b d k \<le> int (length a) \<Longrightarrow> frontier a b d k - k \<le> int (length b)
    \<Longrightarrow> aligns a b (nat (frontier a b d k)) (nat (frontier a b d k - k)) (rev es)
    \<Longrightarrow> \<exists>res. backtrack tr off (Suc d) (frontier a b d k) (frontier a b d k - k) es = Inr res
      \<and> aligns a b 0 0 res \<and> edit_cost res = d + edit_cost (rev es)"
proof (induction d arbitrary: k es)
  case 0
  then have k: "k = 0"
    by (simp add: diagonal_def)
  let ?x = "frontier a b 0 0"
  obtain dn p where c: "go_down (tr ! 0) off (int 0) 0 = Inr dn" "at (tr ! 0) ((if dn then 0 + 1 else 0 - 1) + off) = Inr p"
    "(0::nat) = 0 \<longrightarrow> dn \<and> p = 0"
    using choice [OF assms(1) _ 0(1,2) assms(2) off, of "tr ! 0"] 0(3) unfolding k by blast
  obtain es' where "undo_snake ?x (?x - 0) 0 (- 1) es = (0, 0 - 0, es')" "aligns a b (nat 0) (nat (0 - 0)) (rev es')"
      "edit_cost (rev es') = edit_cost (rev es)"
    using undo_snake_run [OF assms(1), of 0 0 0 "- 1" ?x es] 0(5-7) ext_ge [of 0 a b 0] ext_diag [of 0 _ a b 0]
    unfolding k by auto
  then show ?case
    using c 0(4) unfolding k by (simp add: Let_def)
next
  case (Suc d)
  let ?x = "frontier a b (Suc d) k"
  obtain dn p where c: "go_down (tr ! Suc d) off (int (Suc d)) k = Inr dn"
    "at (tr ! Suc d) ((if dn then k + 1 else k - 1) + off) = Inr p"
    "?x = ext a b k (if dn then p else p + 1)"
    "diagonal d (if dn then k + 1 else k - 1)" "p = frontier a b d (if dn then k + 1 else k - 1)"
    using choice [OF assms(1) _ Suc.prems(1,2) assms(2) off, of "tr ! Suc d"] Suc.prems(3) by blast
  define k' where "k' = (if dn then k + 1 else k - 1)"
  define s where "s = (if dn then p else p + 1)"
  have p: "0 \<le> p" "0 \<le> p - k'"
    using wpath_nonneg [OF frontier_wpath [OF c(4)]] unfolding c(5) k'_def by blast+
  have s: "0 \<le> s" "0 \<le> s - k" "p \<le> s" "p - k' \<le> s - k" "p = s \<or> p - k' = s - k"
    using p by (auto simp: s_def k'_def split: if_splits)
  have x: "s \<le> ?x" "\<forall>i. s \<le> i \<longrightarrow> i < ?x \<longrightarrow> matching a b k i"
    unfolding c(3) s_def [symmetric] using ext_ge ext_diag by blast+
  obtain es' where u: "undo_snake ?x (?x - k) p (p - k') es = (s, s - k, es')"
      "aligns a b (nat s) (nat (s - k)) (rev es')" "edit_cost (rev es') = edit_cost (rev es)"
    using undo_snake_run [OF assms(1) s x(1) Suc.prems(5,6) x(2) Suc.prems(7)] by blast
  let ?e = "if s = p then Insert (as_usize (p - k')) else Delete (as_usize p)"
  have lim: "s \<le> int (length a)" "s - k \<le> int (length b)"
    using x(1) Suc.prems(5,6) by linarith+
  have us: "as_usize p = nat p" "as_usize (p - k') = nat (p - k')"
    using p s(3,4) lim assms(1) by (auto intro!: as_usize_nat simp: diffable_def)
  have "aligns a b (nat p) (nat (p - k')) (rev (es' @ [?e]))"
  proof (cases dn)
    case True
    then have "s = p" "nat (s - k) = Suc (nat (p - k'))" "p - k' < int (length b)"
      using p lim by (auto simp: s_def k'_def)
    then show ?thesis
      using u(2) us p by (simp add: nat_less_iff)
  next
    case False
    then have "s = p + 1" "nat s = Suc (nat p)" "s - k = p - k'" "p < int (length a)"
      using p lim by (auto simp: s_def k'_def)
    then show ?thesis
      using u(2) us p unfolding \<open>s - k = p - k'\<close> by (simp add: nat_less_iff)
  qed
  then have "\<exists>res. backtrack tr off (Suc d) p (p - k') (es' @ [?e]) = Inr res
      \<and> aligns a b 0 0 res \<and> edit_cost res = d + edit_cost (rev (es' @ [?e]))"
    using Suc.IH [OF c(4), of "es' @ [?e]"] Suc.prems(2-4) s lim unfolding c(5) k'_def by simp
  moreover have "backtrack tr off (Suc (Suc d)) ?x (?x - k) es = backtrack tr off (Suc d) p (p - k') (es' @ [?e])"
    using c(1,2) Suc.prems(4) u(1) unfolding backtrack.simps(2) [of tr off "Suc d"] k'_def
    by (simp add: Let_def del: backtrack.simps frontier.simps)
  moreover have "edit_cost (rev (es' @ [?e])) = Suc (edit_cost (rev es))"
    using u(3) by simp
  ultimately show ?case
    by simp
qed

lemma middle_bound: "0 < n \<Longrightarrow> nat (1 + int n) < 2 * n + 1"
  by simp

lemma diff_shortest:
  assumes "diffable a b"
  shows "\<exists>es. diff a b = Inr es \<and> aligns a b 0 0 es \<and> edit_cost es = distance a b"
proof (cases "a = [] \<and> b = []")
  case True
  then have "distance a b = 0"
    using distance_max [of a b] by simp
  then show ?thesis
    using True by (simp add: diff_def)
next
  case False
  then have ne: "0 < length a + length b"
    by auto
  let ?off = "int (length a + length b)" and ?v = "replicate (2 * (length a + length b) + 1) (0::int)"
  let ?k = "int (length a) - int (length b)"
  have "nat (1 + int (length a + length b)) < 2 * (length a + length b) + 1"
    using ne by (rule middle_bound)
  then have "before a b 0 ?v"
    unfolding before_def by (simp only: nth_replicate length_replicate nat.case)
  then obtain tr where tr: "search a b ?off (length a + length b) 0 ?v [] = Inr (tr, distance a b)"
      "length tr = distance a b + 1" "\<forall>i \<le> distance a b. before a b i (tr ! i)"
    using search_frontier [OF assms ne refl, of 0 ?v "[]"] by auto
  have "\<exists>res. backtrack tr ?off (Suc (distance a b)) (frontier a b (distance a b) ?k) (frontier a b (distance a b) ?k - ?k) []
      = Inr res \<and> aligns a b 0 0 res \<and> edit_cost res = distance a b + edit_cost (rev [])"
    by (rule backtrack_aligns [OF assms ne refl distance_end(1) distance_max tr(3)]) (use tr(2) distance_end(2) [of a b] in simp_all)
  then show ?thesis
    using tr(1) unfolding diff_def if_not_P [OF False] distance_end(2) by (simp add: Let_def del: backtrack.simps replicate.simps)
qed

text \<open>C2: when both sides fit memory, the line diff ends without a panic; its edit script visits every
  line of both sides once and in order, keeps only equal lines, rebuilds the new side, and no script
  deletes and inserts fewer lines.\<close>

theorem diff_correct:
  assumes "diffable a b"
  shows "\<exists>es. diff a b = Inr es \<and> aligns a b 0 0 es \<and> patch a b es = b
    \<and> (\<forall>es'. aligns a b 0 0 es' \<longrightarrow> edit_cost es \<le> edit_cost es')"
  using diff_shortest [OF assms] aligns_patch [of a b 0 0] distance_minimal [of a b] by fastforce

theorem diff_correct_witness:
  "\<exists>es. diff ''abcab'' ''cabba'' = Inr es \<and> aligns ''abcab'' ''cabba'' 0 0 es \<and> patch ''abcab'' ''cabba'' es = ''cabba''
    \<and> (\<forall>es'. aligns ''abcab'' ''cabba'' 0 0 es' \<longrightarrow> edit_cost es \<le> edit_cost es')"
  by (rule diff_correct) (simp add: diffable_def)

end
