(* ===== verification/Git_Merge.thy ===== *)
theory Git_Merge
  imports Git_Diff "HOL-Library.Product_Lexorder"
begin

text \<open>
  The three-way line merge, \<open>gitana-diff/src/merge.rs\<close>. The base lines that both diffs keep cut the three
  files into regions; each region is resolved on its own. The specification is the list of these chunks,
  read back as any of the three files.
\<close>

section \<open>Lines\<close>

record merge_outcome =
  content :: bytes
  conflicted :: bool

fun split_loop :: "bytes \<Rightarrow> (nat \<times> byte) list \<Rightarrow> nat \<Rightarrow> bytes list \<Rightarrow> (bytes list \<times> nat) can_panic" where
  "split_loop data [] start lines = Inr (lines, start)"
| "split_loop data ((i, byte) # rest) start lines =
     (if byte = 10 then ebind (slice data start (i + 1)) (\<lambda>l. split_loop data rest (i + 1) (lines @ [l]))
      else split_loop data rest start lines)"

definition split_lines :: "bytes \<Rightarrow> bytes list can_panic" where
  "split_lines data =
     ebind (split_loop data (enumerate 0 data) 0 []) (\<lambda>(lines, start).
       if start < length data then ebind (slice data start (length data)) (\<lambda>l. Inr (lines @ [l]))
       else Inr lines)"

definition push_lines :: "bytes \<Rightarrow> bytes list \<Rightarrow> bytes" where
  "push_lines out lines = foldl (@) out lines"

definition push_marker :: "bytes \<Rightarrow> bytes \<Rightarrow> bytes \<Rightarrow> bytes" where
  "push_marker out marker label =
     (let out = (if out \<noteq> [] \<and> last out \<noteq> 10 then out @ [10] else out);
          out = out @ marker;
          out = (if label \<noteq> [] then (out @ [32]) @ label else out)
      in out @ [10])"

definition is_binary :: "bytes \<Rightarrow> bool" where
  "is_binary data = list_ex (\<lambda>byte. byte = 0) (take 8000 data)"

definition equal_pairs :: "edit list \<Rightarrow> (nat \<times> nat) list" where
  "equal_pairs edits = List.map_filter (\<lambda>e. case e of Equal a b \<Rightarrow> Some (a, b) | _ \<Rightarrow> None) edits"

section \<open>The merge\<close>

text \<open>\<open>HashMap::collect\<close> keeps the last pair of a key.\<close>

definition sync_points :: "edit list \<Rightarrow> edit list \<Rightarrow> (nat \<times> nat \<times> nat) list" where
  "sync_points to_ours to_theirs =
     (let m = map_of (rev (equal_pairs to_theirs)) in
      sort (List.map_filter (\<lambda>(i, j). map_option (\<lambda>k. (i, j, k)) (m i)) (equal_pairs to_ours)))"

definition merge_region ::
  "bytes \<Rightarrow> bytes \<Rightarrow> bytes \<times> bool \<Rightarrow> bytes list \<Rightarrow> bytes list \<Rightarrow> bytes list \<Rightarrow> bytes \<times> bool" where
  "merge_region ours_label theirs_label = (\<lambda>(out, cf) base ours theirs.
     if ours = base then (push_lines out theirs, cf)
     else if theirs = base then (push_lines out ours, cf)
     else if ours = theirs then (push_lines out ours, cf)
     else
       (push_marker (push_lines (push_marker (push_lines (push_marker out (ascii ''<<<<<<<'') ours_label) ours)
          (ascii ''======='') []) theirs) (ascii ''>>>>>>>'') theirs_label, True))"

fun merge_loop ::
  "bytes list \<Rightarrow> bytes list \<Rightarrow> bytes list \<Rightarrow> bytes \<Rightarrow> bytes \<Rightarrow> (nat \<times> nat \<times> nat) list \<Rightarrow> nat \<Rightarrow> nat \<Rightarrow> nat
    \<Rightarrow> bytes \<times> bool \<Rightarrow> (bytes \<times> bool) can_panic" where
  "merge_loop b u t lu lt [] pb pu pt st = Inr st"
| "merge_loop b u t lu lt ((sb, su, s) # syncs) pb pu pt st =
     ebind (slice b pb sb) (\<lambda>base_region.
     ebind (slice u pu su) (\<lambda>ours_region.
     ebind (slice t pt s) (\<lambda>theirs_region.
       let (out, cf) = merge_region lu lt st base_region ours_region theirs_region in
       ebind (if sb < length b then ebind (index b sb) (\<lambda>l. Inr (out @ l)) else Inr out) (\<lambda>out.
         merge_loop b u t lu lt syncs (sb + 1) (su + 1) (s + 1) (out, cf)))))"

definition merge_files :: "bytes \<Rightarrow> bytes \<Rightarrow> bytes \<Rightarrow> bytes \<Rightarrow> bytes \<Rightarrow> merge_outcome can_panic" where
  "merge_files base ours theirs ours_label theirs_label =
     ebind (split_lines base) (\<lambda>b. ebind (split_lines ours) (\<lambda>u. ebind (split_lines theirs) (\<lambda>t.
     ebind (diff b t) (\<lambda>to_theirs.
     ebind (diff b u) (\<lambda>to_ours.
     ebind (merge_loop b u t ours_label theirs_label
              (sync_points to_ours to_theirs @ [(length b, length u, length t)]) 0 0 0 ([], False)) (\<lambda>(out, cf).
       Inr \<lparr>content = out, conflicted = cf\<rparr>))))))"

section \<open>Splitting\<close>

lemma split_loop_lines:
  assumes "data = pre @ suf" "start \<le> length pre" "10 \<notin> set (drop start pre)"
  shows "ebind (split_loop data (enumerate (length pre) suf) start lines) (\<lambda>(lines, start).
       if start < length data then ebind (slice data start (length data)) (\<lambda>l. Inr (lines @ [l])) else Inr lines)
     = Inr (lines @ split_inclusive 10 (drop start pre @ suf))"
  using assms
proof (induction suf arbitrary: pre start lines)
  case Nil
  then show ?case
    by (auto simp: slice_ok split_inclusive_free)
next
  case (Cons x suf)
  show ?case
  proof (cases "x = 10")
    case True
    then have "slice data start (length pre + 1) = (Inr (drop start pre @ [10]) :: bytes can_panic)"
      using Cons.prems by (simp add: slice_ok)
    moreover have "split_inclusive 10 (drop start pre @ x # suf) = (drop start pre @ [10]) # split_inclusive 10 suf"
      using True Cons.prems(3) by (simp add: split_inclusive_line)
    ultimately show ?thesis
      using True Cons.IH [of "pre @ [x]" "length pre + 1" "lines @ [drop start pre @ [10]]"] Cons.prems by simp
  next
    case False
    then show ?thesis
      using Cons.IH [of "pre @ [x]" start lines] Cons.prems by auto
  qed
qed

lemma split_lines_inclusive: "split_lines data = Inr (split_inclusive 10 data)"
  using split_loop_lines [of data "[]" data 0 "[]"] by (simp add: split_lines_def)

section \<open>Chunks\<close>

datatype chunk = Stable bytes | Region "bytes list" "bytes list" "bytes list"

fun base_side :: "chunk \<Rightarrow> bytes list" where
  "base_side (Stable l) = [l]"
| "base_side (Region b u t) = b"

fun our_side :: "chunk \<Rightarrow> bytes list" where
  "our_side (Stable l) = [l]"
| "our_side (Region b u t) = u"

fun their_side :: "chunk \<Rightarrow> bytes list" where
  "their_side (Stable l) = [l]"
| "their_side (Region b u t) = t"

text \<open>
  What a region stands for: the change of the side that made one, once if both made the same; and if the
  two changes differ a conflict. A conflict is written as the two versions between marker lines; a version,
  or the text before it, that does not end a line is ended first.
\<close>

datatype resolution = Clean "bytes list" | Conflict "bytes list" "bytes list"

definition resolve :: "bytes list \<Rightarrow> bytes list \<Rightarrow> bytes list \<Rightarrow> resolution" where
  "resolve b u t =
     (if u = t then Clean u
      else if t = b then Clean u
      else if u = b then Clean t
      else Conflict u t)"

definition line_end :: "bytes \<Rightarrow> bytes" where
  "line_end text = (if text = [] \<or> last text = 10 then [] else [10])"

definition marker_line :: "string \<Rightarrow> bytes \<Rightarrow> bytes" where
  "marker_line marker label = ascii marker @ (if label = [] then [] else 32 # label) @ [10]"

fun resolution_text :: "bytes \<Rightarrow> bytes \<Rightarrow> bytes \<Rightarrow> resolution \<Rightarrow> bytes" where
  "resolution_text lu lt before_it (Clean ls) = concat ls"
| "resolution_text lu lt before_it (Conflict u t) =
     line_end before_it @ marker_line ''<<<<<<<'' lu
     @ concat u @ line_end (concat u) @ marker_line ''======='' []
     @ concat t @ line_end (concat t) @ marker_line ''>>>>>>>'' lt"

fun chunk_text :: "bytes \<Rightarrow> bytes \<Rightarrow> bytes \<Rightarrow> chunk \<Rightarrow> bytes" where
  "chunk_text lu lt before_it (Stable l) = l"
| "chunk_text lu lt before_it (Region b u t) = resolution_text lu lt before_it (resolve b u t)"

fun in_conflict :: "chunk \<Rightarrow> bool" where
  "in_conflict (Stable l) \<longleftrightarrow> False"
| "in_conflict (Region b u t) \<longleftrightarrow> u \<noteq> b \<and> t \<noteq> b \<and> u \<noteq> t"

definition render :: "bytes \<Rightarrow> bytes \<Rightarrow> bytes \<times> bool \<Rightarrow> chunk \<Rightarrow> bytes \<times> bool" where
  "render lu lt st c = (fst st @ chunk_text lu lt (fst st) c, snd st \<or> in_conflict c)"

lemma push_lines_concat: "push_lines out ls = out @ concat ls"
  by (induction ls arbitrary: out) (simp_all add: push_lines_def)

lemma push_marker_line: "push_marker out (ascii marker) label = out @ line_end out @ marker_line marker label"
  by (simp add: push_marker_def line_end_def marker_line_def Let_def)

lemma line_end_skip: "b \<noteq> [] \<Longrightarrow> line_end (a @ b) = line_end b"
  by (simp add: line_end_def)

lemma line_end_marker: "marker_line marker label \<noteq> []" "line_end (marker_line marker label @ text) = line_end text"
  by (simp_all add: line_end_def marker_line_def)

lemma conflict_text:
  "push_marker (push_lines (push_marker (push_lines (push_marker out (ascii ''<<<<<<<'') lu) u)
      (ascii ''======='') []) t) (ascii ''>>>>>>>'') lt
    = out @ resolution_text lu lt out (Conflict u t)"
  by (simp add: push_marker_line push_lines_concat line_end_skip line_end_marker del: ascii_Cons)

lemma render_simps [simp]:
  "render lu lt st (Stable l) = (fst st @ l, snd st)"
  "render lu lt st (Region b u t) = merge_region lu lt st b u t"
proof -
  show "render lu lt st (Stable l) = (fst st @ l, snd st)"
    by (simp add: render_def)
  show "render lu lt st (Region b u t) = merge_region lu lt st b u t"
    unfolding merge_region_def conflict_text by (cases st) (auto simp: render_def resolve_def push_lines_concat)
qed

lemma foldl_render:
  "foldl (render lu lt) (out, cf) cs
    = (foldl (\<lambda>out c. out @ chunk_text lu lt out c) out cs, cf \<or> (\<exists>c \<in> set cs. in_conflict c))"
  by (induction cs arbitrary: out cf) (auto simp: render_def)

text \<open>The cut of the three files at the synchronisation points.\<close>

fun chunks :: "bytes list \<Rightarrow> bytes list \<Rightarrow> bytes list \<Rightarrow> nat \<Rightarrow> nat \<Rightarrow> nat \<Rightarrow> (nat \<times> nat \<times> nat) list \<Rightarrow> chunk list" where
  "chunks b u t pb pu pt [] = [Region (drop pb b) (drop pu u) (drop pt t)]"
| "chunks b u t pb pu pt ((i, j, k) # s) =
     Region (take (i - pb) (drop pb b)) (take (j - pu) (drop pu u)) (take (k - pt) (drop pt t))
     # Stable (b ! i) # chunks b u t (i + 1) (j + 1) (k + 1) s"

fun synced :: "bytes list \<Rightarrow> bytes list \<Rightarrow> bytes list \<Rightarrow> nat \<Rightarrow> nat \<Rightarrow> nat \<Rightarrow> (nat \<times> nat \<times> nat) list \<Rightarrow> bool" where
  "synced b u t pb pu pt [] \<longleftrightarrow> pb \<le> length b \<and> pu \<le> length u \<and> pt \<le> length t"
| "synced b u t pb pu pt ((i, j, k) # s) \<longleftrightarrow>
     pb \<le> i \<and> pu \<le> j \<and> pt \<le> k \<and> i < length b \<and> j < length u \<and> k < length t \<and> u ! j = b ! i \<and> t ! k = b ! i
     \<and> synced b u t (i + 1) (j + 1) (k + 1) s"

lemma take_nth_drop: "p \<le> i \<Longrightarrow> i < length xs \<Longrightarrow> take (i - p) (drop p xs) @ xs ! i # drop (Suc i) xs = drop p xs"
  using append_take_drop_id [of "i - p" "drop p xs"] by (simp add: Cons_nth_drop_Suc)

lemma chunks_sides:
  "synced b u t pb pu pt s \<Longrightarrow> concat (map base_side (chunks b u t pb pu pt s)) = drop pb b
    \<and> concat (map our_side (chunks b u t pb pu pt s)) = drop pu u
    \<and> concat (map their_side (chunks b u t pb pu pt s)) = drop pt t"
proof (induction b u t pb pu pt s rule: synced.induct)
  case (2 b u t pb pu pt i j k s)
  then show ?case
    using take_nth_drop [of pb i b] take_nth_drop [of pu j u] take_nth_drop [of pt k t] by simp
qed simp

lemma merge_loop_chunks:
  "synced b u t pb pu pt s \<Longrightarrow> merge_loop b u t lu lt (s @ [(length b, length u, length t)]) pb pu pt st
    = Inr (foldl (render lu lt) st (chunks b u t pb pu pt s))"
proof (induction b u t pb pu pt s arbitrary: st rule: synced.induct)
  case (1 b u t pb pu pt)
  then show ?case
    by (simp add: slice_ok split: prod.split)
next
  case (2 b u t pb pu pt i j k s)
  then show ?case
    by (simp add: slice_ok split: prod.split)
qed

section \<open>Synchronisation points\<close>

abbreviation increasing :: "(nat \<times> nat) list \<Rightarrow> bool" where
  "increasing \<equiv> sorted_wrt (\<lambda>p q. fst p < fst q \<and> snd p < snd q)"

lemma equal_pairs_simps [simp]:
  "equal_pairs [] = []"
  "equal_pairs (Equal x y # es) = (x, y) # equal_pairs es"
  "equal_pairs (Delete x # es) = equal_pairs es"
  "equal_pairs (Insert y # es) = equal_pairs es"
  by (simp_all add: equal_pairs_def List.map_filter_simps)

lemma equal_pairs_set: "(x, y) \<in> set (equal_pairs es) \<longleftrightarrow> Equal x y \<in> set es"
  by (induction es rule: edit_cost.induct) auto

lemma equal_pairs_aligned:
  "aligns a b i j es \<Longrightarrow> increasing (equal_pairs es)
    \<and> (\<forall>(x, y) \<in> set (equal_pairs es). i \<le> x \<and> x < length a \<and> j \<le> y \<and> y < length b \<and> a ! x = b ! y)"
  by (induction a b i j es rule: aligns.induct) force+

lemma increasing_distinct: "increasing ps \<Longrightarrow> distinct (map fst ps)"
  by (induction ps) auto

lemma set_map_filter: "y \<in> set (List.map_filter f xs) \<longleftrightarrow> (\<exists>x \<in> set xs. f x = Some y)"
  by (induction xs) (auto simp: List.map_filter_simps split: option.splits)

lemma sync_points_filter:
  assumes "increasing (equal_pairs eu)" "increasing (equal_pairs et)"
  shows "sorted_wrt (\<lambda>(i, j, k) (i', j', k'). i < i' \<and> j < j' \<and> k < k') (sync_points eu et)"
    and "set (sync_points eu et) = {(i, j, k). Equal i j \<in> set eu \<and> Equal i k \<in> set et}"
proof -
  let ?m = "map_of (rev (equal_pairs et))"
  let ?f = "\<lambda>(i, j). map_option (\<lambda>k. (i, j, k)) (?m i)"
  let ?s = "List.map_filter ?f (equal_pairs eu)"
  have d: "distinct (map fst (rev (equal_pairs et)))"
    using increasing_distinct [OF assms(2)] by (simp add: rev_map [symmetric])
  have m: "?m i = Some k \<longleftrightarrow> (i, k) \<in> set (equal_pairs et)" for i k
    using map_of_eq_Some_iff [OF d] by simp
  have up: "k < k'" if "?m i = Some k" "?m i' = Some k'" "i < i'" for i i' k k'
  proof -
    have "(i, k) \<in> set (equal_pairs et)" "(i', k') \<in> set (equal_pairs et)"
      using that m by blast+
    then obtain p q where pq: "equal_pairs et ! p = (i, k)" "equal_pairs et ! q = (i', k')"
        "p < length (equal_pairs et)" "q < length (equal_pairs et)"
      by (metis in_set_conv_nth)
    have "\<not> q \<le> p"
      using sorted_wrt_nth_less [OF assms(2), of q p] pq that(3) by (cases "p = q") auto
    then show ?thesis
      using sorted_wrt_nth_less [OF assms(2), of p q] pq by simp
  qed
  have sw: "sorted_wrt (\<lambda>(i, j, k) (i', j', k'). i < i' \<and> j < j' \<and> k < k') (List.map_filter ?f ps)" if "increasing ps" for ps
    using that
  proof (induction ps)
    case (Cons p ps)
    then show ?case
      using up by (auto simp: List.map_filter_simps map_filter_def split: option.splits prod.splits)
  qed (simp add: List.map_filter_simps)
  have "sorted ?s"
    by (rule sorted_wrt_mono_rel [OF _ sw [OF assms(1)]]) (auto simp: less_eq_prod_def)
  then have s: "sync_points eu et = ?s"
    by (simp add: sync_points_def sorted_sort_id)
  show "sorted_wrt (\<lambda>(i, j, k) (i', j', k'). i < i' \<and> j < j' \<and> k < k') (sync_points eu et)"
    unfolding s using sw assms(1) .
  show "set (sync_points eu et) = {(i, j, k). Equal i j \<in> set eu \<and> Equal i k \<in> set et}"
    unfolding s using m by (auto simp: set_map_filter equal_pairs_set intro!: bexI [of _ "(_, _)"])
qed

lemma synced_points:
  "sorted_wrt (\<lambda>(i, j, k) (i', j', k'). i < i' \<and> j < j' \<and> k < k') s
    \<Longrightarrow> \<forall>(i, j, k) \<in> set s. pb \<le> i \<and> pu \<le> j \<and> pt \<le> k \<and> i < length b \<and> j < length u \<and> k < length t \<and> u ! j = b ! i \<and> t ! k = b ! i
    \<Longrightarrow> pb \<le> length b \<Longrightarrow> pu \<le> length u \<Longrightarrow> pt \<le> length t \<Longrightarrow> synced b u t pb pu pt s"
proof (induction s arbitrary: pb pu pt)
  case (Cons p s)
  obtain i j k where p: "p = (i, j, k)"
    by (cases p)
  have "synced b u t (i + 1) (j + 1) (k + 1) s"
    using Cons.prems by (intro Cons.IH) (auto simp: p Suc_le_eq)
  then show ?case
    using Cons.prems by (simp add: p)
qed simp

text \<open>Everything the merge computes, in one statement.\<close>

definition mergeable :: "bytes \<Rightarrow> bytes \<Rightarrow> bytes \<Rightarrow> bool" where
  "mergeable base ours theirs \<longleftrightarrow> 2 * (length base + length ours + length theirs) + 1 < 2 ^ 63"

lemma fewer_lines: "2 * (x + y) + 1 < N" if "2 * (l + m + n) + 1 < N" "x + y \<le> l + m + n" for N :: nat
  using that by presburger

lemma mergeable_diffable:
  assumes "mergeable base ours theirs"
  shows "diffable (split_inclusive 10 base) (split_inclusive 10 ours)"
    and "diffable (split_inclusive 10 base) (split_inclusive 10 theirs)"
proof -
  note le = length_split_inclusive [of 10 base] length_split_inclusive [of 10 ours] length_split_inclusive [of 10 theirs]
  show "diffable (split_inclusive 10 base) (split_inclusive 10 ours)"
    unfolding diffable_def using le by (intro fewer_lines [OF assms [unfolded mergeable_def]]) linarith+
  show "diffable (split_inclusive 10 base) (split_inclusive 10 theirs)"
    unfolding diffable_def using le by (intro fewer_lines [OF assms [unfolded mergeable_def]]) linarith+
qed

lemma merge_files_chunks:
  assumes "mergeable base ours theirs"
  defines "b \<equiv> split_inclusive 10 base" and "u \<equiv> split_inclusive 10 ours" and "t \<equiv> split_inclusive 10 theirs"
  shows "\<exists>eu et. diff b u = Inr eu \<and> diff b t = Inr et \<and> synced b u t 0 0 0 (sync_points eu et)
    \<and> set (sync_points eu et) = {(i, j, k). Equal i j \<in> set eu \<and> Equal i k \<in> set et}
    \<and> merge_files base ours theirs lu lt =
        (let r = foldl (render lu lt) ([], False) (chunks b u t 0 0 0 (sync_points eu et))
         in Inr \<lparr>content = fst r, conflicted = snd r\<rparr>)"
proof -
  obtain eu et where e: "diff b u = Inr eu" "aligns b u 0 0 eu" "diff b t = Inr et" "aligns b t 0 0 et"
    using diff_shortest mergeable_diffable [OF assms(1)] unfolding b_def u_def t_def by metis
  note pu = equal_pairs_aligned [OF e(2)] and pt = equal_pairs_aligned [OF e(4)]
  note s = sync_points_filter [OF conjunct1 [OF pu] conjunct1 [OF pt]]
  have "synced b u t 0 0 0 (sync_points eu et)"
    by (rule synced_points [OF s(1)]) (use pu pt in \<open>fastforce simp: s(2) equal_pairs_set [symmetric]\<close>)+
  then show ?thesis
    using e s(2) merge_loop_chunks [of b u t 0 0 0 "sync_points eu et" lu lt "([], False)"]
    by (intro exI [of _ eu] exI [of _ et])
      (simp add: merge_files_def split_lines_inclusive b_def u_def t_def Let_def split: prod.split)
qed

section \<open>One-sided changes\<close>

text \<open>A side that every region resolves to is the result.\<close>

lemma render_side:
  "\<forall>c \<in> set cs. \<forall>st. render lu lt st c = (fst st @ concat (side c), snd st)
    \<Longrightarrow> foldl (render lu lt) st cs = (fst st @ concat (concat (map side cs)), snd st)"
  by (induction cs arbitrary: st) auto

lemma chunks_agree_ours:
  "\<forall>(i, j, k) \<in> set s. i = j \<Longrightarrow> Region x y z \<in> set (chunks b b t p p pt s) \<Longrightarrow> y = x"
proof (induction s arbitrary: p pt)
  case (Cons a s)
  then show ?case
    by (cases a) auto
qed simp

lemma chunks_agree_theirs:
  "\<forall>(i, j, k) \<in> set s. i = k \<Longrightarrow> Region x y z \<in> set (chunks b u b p pu p s) \<Longrightarrow> z = x"
proof (induction s arbitrary: p pu)
  case (Cons a s)
  then show ?case
    by (cases a) auto
qed simp

lemma chunks_agree_both:
  "\<forall>(i, j, k) \<in> set s. j = k \<Longrightarrow> Region x y z \<in> set (chunks b u u p pu pu s) \<Longrightarrow> z = y"
proof (induction s arbitrary: p pu)
  case (Cons a s)
  then show ?case
    by (cases a) auto
qed simp

lemma render_agree:
  assumes "\<forall>x y z. Region x y z \<in> set cs \<longrightarrow> y = x"
  shows "foldl (render lu lt) st cs = (fst st @ concat (concat (map their_side cs)), snd st)"
proof (rule render_side, intro ballI allI)
  fix c st assume c: "c \<in> set cs"
  show "render lu lt st c = (fst st @ concat (their_side c), snd st)"
    by (cases c; cases st) (use c assms in \<open>auto simp: merge_region_def push_lines_concat\<close>)
qed

lemma render_agree_ours:
  assumes "\<forall>x y z. Region x y z \<in> set cs \<longrightarrow> z = x \<or> z = y"
  shows "foldl (render lu lt) st cs = (fst st @ concat (concat (map our_side cs)), snd st)"
proof (rule render_side, intro ballI allI)
  fix c st assume c: "c \<in> set cs"
  show "render lu lt st c = (fst st @ concat (our_side c), snd st)"
    by (cases c; cases st) (use c assms in \<open>auto simp: merge_region_def push_lines_concat\<close>)
qed

text \<open>A file differs from itself in nothing.\<close>

lemma aligns_identity: "i \<le> length a \<Longrightarrow> aligns a a i i (map (\<lambda>x. Equal x x) [i..<length a])"
proof (induction "length a - i" arbitrary: i)
  case (Suc n)
  then show ?case
    by (simp add: upt_conv_Cons)
qed simp

lemma edit_cost_identity: "edit_cost (map (\<lambda>x. Equal x x) xs) = 0"
  by (induction xs) simp_all

lemma free_script_diagonal:
  "aligns a b i j es \<Longrightarrow> edit_cost es = 0 \<Longrightarrow> Equal x y \<in> set es \<Longrightarrow> x + j = y + i"
  by (induction a b i j es rule: aligns.induct) auto

lemma diff_self:
  assumes "diffable a a" "diff a a = Inr es" "Equal x y \<in> set es"
  shows "x = y"
proof -
  have "distance a a = 0"
    using distance_minimal [OF aligns_identity [of 0 a]] by (simp add: edit_cost_identity)
  then show ?thesis
    using diff_shortest [OF assms(1)] assms(2,3) free_script_diagonal [of a a 0 0 es x y] by auto
qed

lemma merge_one_sided_cases:
  assumes "mergeable base ours theirs"
  shows "ours = base \<Longrightarrow> merge_files base ours theirs lu lt = Inr \<lparr>content = theirs, conflicted = False\<rparr>" (is "_ \<Longrightarrow> ?A")
    and "theirs = base \<or> ours = theirs \<Longrightarrow> merge_files base ours theirs lu lt = Inr \<lparr>content = ours, conflicted = False\<rparr>"
      (is "_ \<Longrightarrow> ?B")
proof -
  let ?b = "split_inclusive 10 base" and ?u = "split_inclusive 10 ours" and ?t = "split_inclusive 10 theirs"
  obtain eu et where e: "diff ?b ?u = Inr eu" "diff ?b ?t = Inr et" "synced ?b ?u ?t 0 0 0 (sync_points eu et)"
    "set (sync_points eu et) = {(i, j, k). Equal i j \<in> set eu \<and> Equal i k \<in> set et}"
    "merge_files base ours theirs lu lt = (let r = foldl (render lu lt) ([], False) (chunks ?b ?u ?t 0 0 0 (sync_points eu et))
         in Inr \<lparr>content = fst r, conflicted = snd r\<rparr>)"
    using merge_files_chunks [OF assms] by blast
  let ?cs = "chunks ?b ?u ?t 0 0 0 (sync_points eu et)"
  have sides: "concat (concat (map our_side ?cs)) = ours" "concat (concat (map their_side ?cs)) = theirs"
    using chunks_sides [OF e(3)] by simp_all
  show ?A if "ours = base"
  proof -
    have "\<forall>(i, j, k) \<in> set (sync_points eu et). i = j"
      using diff_self mergeable_diffable(1) [OF assms] e(1,4) that by auto
    then have "\<forall>x y z. Region x y z \<in> set ?cs \<longrightarrow> y = x"
      using chunks_agree_ours that by blast
    then show ?thesis
      unfolding e(5) Let_def using render_agree sides(2) by simp
  qed
  show ?B if "theirs = base \<or> ours = theirs"
  proof -
    have "\<forall>x y z. Region x y z \<in> set ?cs \<longrightarrow> z = x \<or> z = y"
    proof (cases "theirs = base")
      case True
      then have "\<forall>(i, j, k) \<in> set (sync_points eu et). i = k"
        using diff_self mergeable_diffable(2) [OF assms] e(2,4) by auto
      then show ?thesis
        using chunks_agree_theirs True by blast
    next
      case False
      then have "eu = et" "ours = theirs"
        using e(1,2) that by simp_all
      moreover have "increasing (equal_pairs et)"
        using diff_shortest [OF mergeable_diffable(2) [OF assms]] e(2) equal_pairs_aligned by fastforce
      ultimately have "\<forall>(i, j, k) \<in> set (sync_points eu et). j = k"
        unfolding e(4) using eq_key_imp_eq_value [OF increasing_distinct] by (auto simp: equal_pairs_set [symmetric])
      then show ?thesis
        using chunks_agree_both \<open>ours = theirs\<close> by blast
    qed
    then show ?thesis
      unfolding e(5) Let_def using render_agree_ours sides(1) by simp
  qed
qed

section \<open>Exchanging the sides\<close>

fun swap_chunk :: "chunk \<Rightarrow> chunk" where
  "swap_chunk (Stable l) = Stable l"
| "swap_chunk (Region b u t) = Region b t u"

abbreviation swap_sync :: "nat \<times> nat \<times> nat \<Rightarrow> nat \<times> nat \<times> nat" where
  "swap_sync \<equiv> \<lambda>(i, j, k). (i, k, j)"

lemma chunks_swap: "chunks b t u pb pt pu (map swap_sync s) = map swap_chunk (chunks b u t pb pu pt s)"
  by (induction b u t pb pu pt s rule: chunks.induct) simp_all

lemma sync_points_swap:
  assumes "increasing (equal_pairs eu)" "increasing (equal_pairs et)"
  shows "sync_points et eu = map swap_sync (sync_points eu et)"
proof (rule strict_sorted_equal [symmetric])
  note s = sync_points_filter [OF assms] and s' = sync_points_filter [OF assms(2,1)]
  show "sorted_wrt (<) (sync_points et eu)"
    by (rule sorted_wrt_mono_rel [OF _ s'(1)]) (auto simp: less_prod_def)
  show "sorted_wrt (<) (map swap_sync (sync_points eu et))"
    unfolding sorted_wrt_map by (rule sorted_wrt_mono_rel [OF _ s(1)]) (auto simp: less_prod_def)
  show "set (map swap_sync (sync_points eu et)) = set (sync_points et eu)"
    unfolding set_map s(2) s'(2) by force
qed

text \<open>Equal as long as no conflict was met, and meeting one together.\<close>

definition in_step :: "bytes \<times> bool \<Rightarrow> bytes \<times> bool \<Rightarrow> bool" where
  "in_step r r' \<longleftrightarrow> snd r = snd r' \<and> (\<not> snd r \<longrightarrow> fst r = fst r')"

lemma render_swap: "in_step r r' \<Longrightarrow> in_step (render lu lt r c) (render mu mt r' (swap_chunk c))"
  by (cases c; cases r; cases r') (auto simp: in_step_def merge_region_def)

lemma foldl_render_swap:
  "in_step r r' \<Longrightarrow> in_step (foldl (render lu lt) r cs) (foldl (render mu mt) r' (map swap_chunk cs))"
  by (induction cs arbitrary: r r') (simp_all add: render_swap)

section \<open>Properties\<close>

text \<open>C5: the three-way merge never panics. The files are cut at exactly the base lines that both shortest
  edit scripts keep, into chunks that in order are each of the three files. The merged file is the text of
  the chunks: a region changed on one side, or in the same way on both, gives that change; a region changed
  differently gives both versions between marker lines with the labels, each started on a line of its own.
  The merge is reported as conflicted exactly when there is such a region.\<close>

theorem merge_is_diff3:
  assumes "mergeable base ours theirs"
  shows "\<exists>eu et s. diff (split_inclusive 10 base) (split_inclusive 10 ours) = Inr eu
    \<and> diff (split_inclusive 10 base) (split_inclusive 10 theirs) = Inr et
    \<and> set s = {(i, j, k). Equal i j \<in> set eu \<and> Equal i k \<in> set et}
    \<and> (let cs = chunks (split_inclusive 10 base) (split_inclusive 10 ours) (split_inclusive 10 theirs) 0 0 0 s
       in concat (concat (map base_side cs)) = base
        \<and> concat (concat (map our_side cs)) = ours
        \<and> concat (concat (map their_side cs)) = theirs
        \<and> merge_files base ours theirs lu lt =
             Inr \<lparr>content = foldl (\<lambda>out c. out @ chunk_text lu lt out c) [] cs,
                  conflicted = (\<exists>c \<in> set cs. in_conflict c)\<rparr>)"
proof -
  let ?b = "split_inclusive 10 base" and ?u = "split_inclusive 10 ours" and ?t = "split_inclusive 10 theirs"
  obtain eu et where e: "diff ?b ?u = Inr eu" "diff ?b ?t = Inr et" "synced ?b ?u ?t 0 0 0 (sync_points eu et)"
    "set (sync_points eu et) = {(i, j, k). Equal i j \<in> set eu \<and> Equal i k \<in> set et}"
    "merge_files base ours theirs lu lt = (let r = foldl (render lu lt) ([], False) (chunks ?b ?u ?t 0 0 0 (sync_points eu et))
         in Inr \<lparr>content = fst r, conflicted = snd r\<rparr>)"
    using merge_files_chunks [OF assms] by blast
  show ?thesis
    by (intro exI [of _ eu] exI [of _ et] exI [of _ "sync_points eu et"] conjI e(1) e(2) e(4))
      (simp add: e(5) Let_def foldl_render chunks_sides [OF e(3)])
qed

lemma conflict_example:
  "merge_files [97, 10] [98, 10] [99] [111] [116]
    = Inr \<lparr>content = ascii ''<<<<<<< o'' @ [10, 98, 10] @ ascii ''======='' @ [10, 99, 10] @ ascii ''>>>>>>> t'' @ [10],
           conflicted = True\<rparr>"
  by code_simp

theorem merge_is_diff3_witness:
  "\<exists>cs. concat (concat (map base_side cs)) = [97, 10]
    \<and> concat (concat (map our_side cs)) = [98, 10] \<and> concat (concat (map their_side cs)) = [99]
    \<and> foldl (\<lambda>out c. out @ chunk_text [111] [116] out c) [] cs
        = ascii ''<<<<<<< o'' @ [10, 98, 10] @ ascii ''======='' @ [10, 99, 10] @ ascii ''>>>>>>> t'' @ [10]
    \<and> (\<exists>c \<in> set cs. in_conflict c)"
proof -
  have "mergeable [97, 10] [98, 10] [99]"
    by (simp add: mergeable_def)
  from merge_is_diff3 [OF this, of "[111]" "[116]"] show ?thesis
    unfolding conflict_example Let_def by (auto simp del: ascii_Cons)
qed

text \<open>C18: a file changed on one side only merges to that side, and the same change on both sides is taken
  once, without a conflict.\<close>

theorem merge_one_sided:
  assumes "mergeable base ours theirs"
  shows "(ours = base \<longrightarrow> merge_files base ours theirs lu lt = Inr \<lparr>content = theirs, conflicted = False\<rparr>)
    \<and> (theirs = base \<longrightarrow> merge_files base ours theirs lu lt = Inr \<lparr>content = ours, conflicted = False\<rparr>)
    \<and> (ours = theirs \<longrightarrow> merge_files base ours theirs lu lt = Inr \<lparr>content = ours, conflicted = False\<rparr>)"
  using merge_one_sided_cases [OF assms, of lu lt] by blast

theorem merge_one_sided_witness:
  "merge_files [97, 10, 98, 10] [97, 10, 98, 10] [97, 10, 99, 10] [] [] = Inr \<lparr>content = [97, 10, 99, 10], conflicted = False\<rparr>"
  using merge_one_sided [of "[97, 10, 98, 10]" "[97, 10, 98, 10]" "[97, 10, 99, 10]" "[]" "[]"]
  by (simp add: mergeable_def)

text \<open>Exchanging the two sides, with whatever labels, changes neither whether the merge conflicts nor,
  when it does not, the merged file.\<close>

lemma merge_symmetric:
  assumes "mergeable base ours theirs"
  shows "\<exists>r r'. merge_files base ours theirs lu lt = Inr r \<and> merge_files base theirs ours mu mt = Inr r'
    \<and> conflicted r = conflicted r' \<and> (\<not> conflicted r \<longrightarrow> r = r')"
proof -
  let ?b = "split_inclusive 10 base" and ?u = "split_inclusive 10 ours" and ?t = "split_inclusive 10 theirs"
  have "mergeable base theirs ours"
    using assms by (simp add: mergeable_def add.commute add.left_commute)
  from merge_files_chunks [OF this, of mu mt] merge_files_chunks [OF assms, of lu lt]
  obtain eu et where e: "diff ?b ?u = Inr eu" "diff ?b ?t = Inr et"
    and m: "merge_files base ours theirs lu lt = (let r = foldl (render lu lt) ([], False) (chunks ?b ?u ?t 0 0 0 (sync_points eu et))
         in Inr \<lparr>content = fst r, conflicted = snd r\<rparr>)"
      "merge_files base theirs ours mu mt = (let r = foldl (render mu mt) ([], False) (chunks ?b ?t ?u 0 0 0 (sync_points et eu))
         in Inr \<lparr>content = fst r, conflicted = snd r\<rparr>)"
    by auto
  have inc: "increasing (equal_pairs eu)" "increasing (equal_pairs et)"
    using diff_shortest [OF mergeable_diffable(1) [OF assms]] diff_shortest [OF mergeable_diffable(2) [OF assms]] e
      equal_pairs_aligned by fastforce+
  have "in_step (foldl (render lu lt) ([], False) (chunks ?b ?u ?t 0 0 0 (sync_points eu et)))
      (foldl (render mu mt) ([], False) (chunks ?b ?t ?u 0 0 0 (sync_points et eu)))"
    unfolding sync_points_swap [OF inc] chunks_swap by (rule foldl_render_swap) (simp add: in_step_def)
  then show ?thesis
    unfolding m in_step_def Let_def by simp
qed

lemma merge_symmetric_instance:
  "\<exists>r r'. merge_files [97, 10] [98, 10] [99, 10] [111] [116] = Inr r \<and> merge_files [97, 10] [99, 10] [98, 10] [116] [111] = Inr r'
    \<and> conflicted r = conflicted r' \<and> (\<not> conflicted r \<longrightarrow> r = r')"
  by (rule merge_symmetric) (simp add: mergeable_def)

end
