(* ===== verification/Git_Path.thy ===== *)
theory Git_Path
  imports Git_Prelude "HOL-Library.Sublist"
begin

text \<open>
  Repository paths, \<open>gitana-path/src/git_path.rs\<close> and \<open>git_path_component.rs\<close>, with the quoting of
  \<open>lib.rs\<close>. The byte strings the code keeps are shown to be lists of components, and every operation
  to be the list operation it stands for.
\<close>

section \<open>Paths and components\<close>

datatype path_error = PathNul | PathEmptyComponent | PathTraversal | PathNotComponent

datatype git_path = GitPath (path_bytes: bytes)

datatype git_component = GitPathComponent (component_bytes: bytes)

abbreviation SLASH :: byte where "SLASH \<equiv> 0x2F"

fun check_components :: "bytes list \<Rightarrow> (path_error, unit) res" where
  "check_components [] = Inr ()"
| "check_components (c # cs) =
     (if c = [] then Inl (Err PathEmptyComponent)
      else if c = [0x2E] \<or> c = [0x2E, 0x2E] then Inl (Err PathTraversal)
      else check_components cs)"

definition validate_path :: "bytes \<Rightarrow> (path_error, unit) res" where
  "validate_path bs =
     (if 0 \<in> set bs then Inl (Err PathNul)
      else if bs = [] then Inr ()
      else if hd bs = SLASH \<or> last bs = SLASH then Inl (Err PathEmptyComponent)
      else check_components (split_on SLASH bs))"

definition path_from_bytes :: "bytes \<Rightarrow> (path_error, git_path) res" where
  "path_from_bytes bs = ebind (validate_path bs) (\<lambda>_. Inr (GitPath bs))"

definition component_from_bytes :: "bytes \<Rightarrow> (path_error, git_component) res" where
  "component_from_bytes bs =
     (if 0 \<in> set bs then Inl (Err PathNul)
      else if bs = [] \<or> SLASH \<in> set bs then Inl (Err PathNotComponent)
      else if bs = [0x2E] \<or> bs = [0x2E, 0x2E] then Inl (Err PathTraversal)
      else Inr (GitPathComponent bs))"

definition root_path :: git_path where "root_path = GitPath []"

definition is_root :: "git_path \<Rightarrow> bool" where "is_root p \<longleftrightarrow> path_bytes p = []"

definition path_join :: "git_path \<Rightarrow> git_component \<Rightarrow> git_path" where
  "path_join p c =
     (let bytes = path_bytes p; bytes = (if bytes \<noteq> [] then bytes @ [SLASH] else bytes)
      in GitPath (bytes @ component_bytes c))"

definition join_path :: "git_path \<Rightarrow> git_path \<Rightarrow> git_path" where
  "join_path p tail =
     (if is_root p then tail
      else if is_root tail then p
      else GitPath ((path_bytes p @ [SLASH]) @ path_bytes tail))"

definition path_of_component :: "git_component \<Rightarrow> git_path" where
  "path_of_component c = GitPath (component_bytes c)"

definition is_at_or_below :: "git_path \<Rightarrow> git_path \<Rightarrow> bool" where
  "is_at_or_below p base \<longleftrightarrow>
     is_root base \<or> p = base
     \<or> (length (path_bytes base) < length (path_bytes p) \<and> starts_with (path_bytes base) (path_bytes p)
        \<and> path_bytes p ! length (path_bytes base) = SLASH)"

definition is_below :: "git_path \<Rightarrow> git_path \<Rightarrow> bool" where
  "is_below p base \<longleftrightarrow> p \<noteq> base \<and> is_at_or_below p base"

definition to_ascii_lowercase :: "byte \<Rightarrow> byte" where
  "to_ascii_lowercase b = (if 0x41 \<le> b \<and> b \<le> 0x5A then b + 0x20 else b)"

definition eq_ignore_ascii_case :: "bytes \<Rightarrow> bytes \<Rightarrow> bool" where
  "eq_ignore_ascii_case a b \<longleftrightarrow> map to_ascii_lowercase a = map to_ascii_lowercase b"

definition is_below_with_ascii_case :: "git_path \<Rightarrow> git_path \<Rightarrow> bool \<Rightarrow> bool" where
  "is_below_with_ascii_case p base fold_case =
     (if is_root base then \<not> is_root p
      else length (path_bytes base) < length (path_bytes p)
        \<and> path_bytes p ! length (path_bytes base) = SLASH
        \<and> (if fold_case then eq_ignore_ascii_case (take (length (path_bytes base)) (path_bytes p)) (path_bytes base)
           else starts_with (path_bytes base) (path_bytes p)))"

definition relative_to :: "git_path \<Rightarrow> git_path \<Rightarrow> git_path option" where
  "relative_to p base =
     (if p = base then Some root_path
      else if is_root base then Some p
      else if is_below p base then Some (GitPath (drop (length (path_bytes base) + 1) (path_bytes p)))
      else None)"

definition ascii_folded :: "git_path \<Rightarrow> bytes" where
  "ascii_folded p = map to_ascii_lowercase (path_bytes p)"

definition eq_with_ascii_case :: "git_path \<Rightarrow> git_path \<Rightarrow> bool \<Rightarrow> bool" where
  "eq_with_ascii_case p q fold_case =
     (if fold_case then eq_ignore_ascii_case (path_bytes p) (path_bytes q) else p = q)"

definition path_parent :: "git_path \<Rightarrow> git_path option" where
  "path_parent p =
     (if path_bytes p = [] then None
      else Some (GitPath (case rfind SLASH (path_bytes p) of None \<Rightarrow> [] | Some s \<Rightarrow> take s (path_bytes p))))"

definition file_name :: "git_path \<Rightarrow> git_component option" where
  "file_name p =
     (if path_bytes p = [] then None
      else let start = (case rfind SLASH (path_bytes p) of None \<Rightarrow> 0 | Some s \<Rightarrow> s + 1)
           in Some (GitPathComponent (drop start (path_bytes p))))"

definition components :: "git_path \<Rightarrow> bytes list" where
  "components p = filter (\<lambda>part. part \<noteq> []) (split_on SLASH (path_bytes p))"

definition strict_ancestors :: "git_path \<Rightarrow> git_path list" where
  "strict_ancestors p =
     map (\<lambda>(separator, _). GitPath (take separator (path_bytes p)))
       (filter (\<lambda>(_, byte). byte = SLASH) (enumerate 0 (path_bytes p)))"

section \<open>Quoting\<close>

definition octal3 :: "byte \<Rightarrow> bytes" where
  "octal3 b = [0x5C, 0x30 + (b div 64), 0x30 + (b div 8) mod 8, 0x30 + b mod 8]"

definition needs_escape :: "bool \<Rightarrow> byte \<Rightarrow> bool" where
  "needs_escape q b \<longleftrightarrow> b \<le> 0x1F \<or> b = 0x7F \<or> b = 0x22 \<or> b = 0x5C \<or> (q \<and> \<not> b < 0x80)"

definition quote_byte :: "bool \<Rightarrow> byte \<Rightarrow> bytes" where
  "quote_byte q b =
     (if b = 0x07 then [0x5C, 0x61] else if b = 0x08 then [0x5C, 0x62] else if b = 0x09 then [0x5C, 0x74]
      else if b = 0x0A then [0x5C, 0x6E] else if b = 0x0B then [0x5C, 0x76] else if b = 0x0C then [0x5C, 0x66]
      else if b = 0x0D then [0x5C, 0x72] else if b = 0x22 then [0x5C, 0x22] else if b = 0x5C then [0x5C, 0x5C]
      else if b \<le> 0x1F \<or> b = 0x7F then octal3 b
      else if 0x80 \<le> b \<and> q then octal3 b
      else [b])"

definition render_bytes :: "bytes \<Rightarrow> bool \<Rightarrow> bytes" where
  "render_bytes bs q =
     (if \<not> list_ex (needs_escape q) bs then bs
      else [0x22] @ concat (map (quote_byte q) bs) @ [0x22])"

text \<open>\<open>String::from_utf8(..).expect(..)\<close>.\<close>

definition expect_utf8 :: "bytes \<Rightarrow> (path_error, bytes) res" where
  "expect_utf8 bs = (if utf8_valid bs then Inr bs else Inl Panic)"

definition quote_bytes :: "bytes \<Rightarrow> (path_error, bytes) res" where
  "quote_bytes bs = expect_utf8 (render_bytes bs True)"

definition render_with_affixes :: "git_path \<Rightarrow> bytes \<Rightarrow> bytes \<Rightarrow> bool \<Rightarrow> bytes" where
  "render_with_affixes p before after q = render_bytes (before @ path_bytes p @ after) q"

definition quote_with_affixes :: "git_path \<Rightarrow> bytes \<Rightarrow> bytes \<Rightarrow> (path_error, bytes) res" where
  "quote_with_affixes p before after = expect_utf8 (render_with_affixes p before after True)"

section \<open>Paths as lists of components\<close>

definition component_ok :: "bytes \<Rightarrow> bool" where
  "component_ok c \<longleftrightarrow> c \<noteq> [] \<and> 0 \<notin> set c \<and> SLASH \<notin> set c \<and> c \<noteq> [0x2E] \<and> c \<noteq> [0x2E, 0x2E]"

fun path_of :: "bytes list \<Rightarrow> bytes" where
  "path_of [] = []"
| "path_of [c] = c"
| "path_of (c # cs) = c @ SLASH # path_of cs"

definition path_ok :: "git_path \<Rightarrow> bool" where
  "path_ok p \<longleftrightarrow> path_from_bytes (path_bytes p) = Inr p"

lemma path_of_split: "path_of (split_on SLASH bs) = bs"
proof (induction bs)
  case (Cons b bs)
  obtain y ys where "split_on SLASH bs = y # ys"
    by (cases "split_on SLASH bs") auto
  then show ?case
    using Cons by (cases ys) auto
qed simp

lemma path_of_Cons: "cs \<noteq> [] \<Longrightarrow> path_of (c # cs) = c @ SLASH # path_of cs"
  by (cases cs) simp_all

lemma split_path_append:
  "\<forall>c \<in> set cs. SLASH \<notin> set c \<Longrightarrow> cs \<noteq> [] \<Longrightarrow> split_on SLASH (path_of cs @ SLASH # r) = cs @ split_on SLASH r"
proof (induction cs)
  case (Cons c cs)
  then show ?case
    by (cases "cs = []") (simp_all add: split_on_append path_of_Cons)
qed simp

lemma split_path_of: "\<forall>c \<in> set cs. SLASH \<notin> set c \<Longrightarrow> cs \<noteq> [] \<Longrightarrow> split_on SLASH (path_of cs) = cs"
proof (induction cs)
  case (Cons c cs)
  then show ?case
    by (cases "cs = []") (simp_all add: split_on_append split_on_free path_of_Cons)
qed simp

lemma path_of_append: "cs \<noteq> [] \<Longrightarrow> ds \<noteq> [] \<Longrightarrow> path_of (cs @ ds) = path_of cs @ SLASH # path_of ds"
proof (induction cs)
  case (Cons c cs)
  then show ?case
    by (cases "cs = []") (simp_all add: path_of_Cons)
qed simp

lemma path_of_Nil: "\<forall>c \<in> set cs. c \<noteq> [] \<Longrightarrow> path_of cs = [] \<longleftrightarrow> cs = []"
  by (cases cs rule: path_of.cases) auto

lemma check_components_ok: "check_components cs = Inr () \<longleftrightarrow> (\<forall>c \<in> set cs. c \<noteq> [] \<and> c \<noteq> [0x2E] \<and> c \<noteq> [0x2E, 0x2E])"
  by (induction cs) auto

lemma set_path_of: "b \<in> set (path_of cs) \<Longrightarrow> b = SLASH \<or> (\<exists>c \<in> set cs. b \<in> set c)"
  by (induction cs rule: path_of.induct) auto

lemma set_split: "c \<in> set (split_on d bs) \<Longrightarrow> set c \<subseteq> set bs"
proof (induction bs arbitrary: c)
  case (Cons b bs)
  then show ?case
    by (cases "split_on d bs") (fastforce split: if_splits)+
qed simp

lemma ends_of_path:
  assumes "\<forall>c \<in> set cs. component_ok c" "cs \<noteq> []"
  shows "hd (path_of cs) \<noteq> SLASH" "last (path_of cs) \<noteq> SLASH"
proof -
  show "hd (path_of cs) \<noteq> SLASH"
  proof (cases cs)
    case (Cons c ds)
    then have "c \<noteq> []" "SLASH \<notin> set c"
      using assms(1) by (simp_all add: component_ok_def)
    moreover have "hd (path_of cs) = hd c"
      using Cons \<open>c \<noteq> []\<close> by (cases ds) simp_all
    ultimately show ?thesis
      using hd_in_set [of c] by metis
  qed (use assms(2) in simp)
  obtain ds d where cs: "cs = ds @ [d]"
    using assms(2) by (meson rev_exhaust)
  then have d: "d \<noteq> []" "SLASH \<notin> set d"
    using assms(1) by (simp_all add: component_ok_def)
  have "last (path_of cs) = last d"
    using cs d(1) by (cases "ds = []") (simp_all add: path_of_append)
  then show "last (path_of cs) \<noteq> SLASH"
    using d last_in_set [of d] by metis
qed

lemma no_panic_validate_path: "no_panic (validate_path bs)"
proof -
  have "no_panic (check_components cs)" for cs
    by (induction cs rule: check_components.induct) auto
  then show ?thesis
    by (auto simp: validate_path_def)
qed

lemma validate_path_iff: "validate_path bs = Inr () \<longleftrightarrow> (\<exists>cs. (\<forall>c \<in> set cs. component_ok c) \<and> bs = path_of cs)"
proof
  assume v: "validate_path bs = Inr ()"
  show "\<exists>cs. (\<forall>c \<in> set cs. component_ok c) \<and> bs = path_of cs"
  proof (cases "bs = []")
    case True
    then show ?thesis
      by (intro exI [of _ "[]"]) simp
  next
    case False
    then have "\<forall>c \<in> set (split_on SLASH bs). component_ok c"
      using v split_on_pieces_free [of _ SLASH bs] set_split [of _ SLASH bs]
      by (auto simp: validate_path_def check_components_ok component_ok_def split: if_splits)
    then show ?thesis
      using path_of_split [of bs] by metis
  qed
next
  assume "\<exists>cs. (\<forall>c \<in> set cs. component_ok c) \<and> bs = path_of cs"
  then obtain cs where cs: "\<forall>c \<in> set cs. component_ok c" "bs = path_of cs"
    by blast
  show "validate_path bs = Inr ()"
  proof (cases "cs = []")
    case True
    then show ?thesis
      by (simp add: cs(2) validate_path_def)
  next
    case False
    have "0 \<notin> set bs"
      using cs set_path_of [of 0 cs] by (auto simp: component_ok_def)
    then show ?thesis
      using ends_of_path [OF cs(1) False] split_path_of [of cs] cs False
      by (auto simp: validate_path_def check_components_ok component_ok_def)
  qed
qed

lemma path_ok_of: "\<forall>c \<in> set cs. component_ok c \<Longrightarrow> path_ok (GitPath (path_of cs))"
  using validate_path_iff [of "path_of cs"] by (auto simp: path_ok_def path_from_bytes_def)

lemma components_of: "\<forall>c \<in> set cs. component_ok c \<Longrightarrow> components (GitPath (path_of cs)) = cs"
  by (cases "cs = []") (auto simp: components_def split_path_of component_ok_def filter_id_conv)

lemma path_okD:
  assumes "path_ok p"
  shows "\<forall>c \<in> set (components p). component_ok c" "p = GitPath (path_of (components p))"
proof -
  have "validate_path (path_bytes p) = Inr ()"
    using assms by (auto simp: path_ok_def path_from_bytes_def ebind_eq_Inr)
  then obtain cs where "\<forall>c \<in> set cs. component_ok c" "path_bytes p = path_of cs"
    unfolding validate_path_iff by blast
  then have "p = GitPath (path_of cs)" "components p = cs" "\<forall>c \<in> set cs. component_ok c"
    using components_of [of cs] by (metis git_path.collapse)+
  then show "\<forall>c \<in> set (components p). component_ok c" "p = GitPath (path_of (components p))"
    by simp_all
qed

lemma component_from_bytes_ok: "component_from_bytes bs = Inr c \<longleftrightarrow> component_ok bs \<and> c = GitPathComponent bs"
  by (auto simp: component_from_bytes_def component_ok_def)

lemma path_from_bytes_exact:
  "if \<exists>cs. (\<forall>c \<in> set cs. component_ok c) \<and> xs = path_of cs
   then path_from_bytes xs = Inr (GitPath xs) else \<exists>e. path_from_bytes xs = Inl (Err e)"
proof (cases "validate_path xs")
  case (Inr u)
  then show ?thesis
    using validate_path_iff [of xs] by (simp add: path_from_bytes_def)
next
  case (Inl e)
  moreover have "no_panic (validate_path xs)"
    by (rule no_panic_validate_path)
  ultimately show ?thesis
    using validate_path_iff [of xs] by (cases e) (auto simp: path_from_bytes_def)
qed

lemma component_from_bytes_exact:
  "if component_ok x then component_from_bytes x = Inr (GitPathComponent x) else \<exists>e. component_from_bytes x = Inl (Err e)"
  by (auto simp: component_from_bytes_def component_ok_def)

lemma path_of_empty: "\<forall>c \<in> set cs. component_ok c \<Longrightarrow> path_of cs = [] \<longleftrightarrow> cs = []"
  by (rule path_of_Nil) (auto simp: component_ok_def)

lemma path_of_inj:
  "\<forall>c \<in> set cs. component_ok c \<Longrightarrow> \<forall>c \<in> set ds. component_ok c \<Longrightarrow> path_of cs = path_of ds \<longleftrightarrow> cs = ds"
  using components_of by metis

lemma path_join_of:
  "\<forall>c \<in> set cs. component_ok c \<Longrightarrow> path_join (GitPath (path_of cs)) (GitPathComponent c) = GitPath (path_of (cs @ [c]))"
  by (cases "cs = []") (simp_all add: path_join_def path_of_append path_of_empty)

lemma join_path_of:
  "\<forall>c \<in> set cs. component_ok c \<Longrightarrow> \<forall>c \<in> set ds. component_ok c \<Longrightarrow>
    join_path (GitPath (path_of cs)) (GitPath (path_of ds)) = GitPath (path_of (cs @ ds))"
  by (auto simp: join_path_def is_root_def path_of_append path_of_empty)

lemma slash_split:
  assumes "\<forall>c \<in> set cs. component_ok c" "\<forall>c \<in> set ds. component_ok c" "ds \<noteq> []"
  shows "(\<exists>r. path_of cs = path_of ds @ SLASH # r) \<longleftrightarrow> (\<exists>es. es \<noteq> [] \<and> cs = ds @ es)"
proof
  assume "\<exists>r. path_of cs = path_of ds @ SLASH # r"
  then obtain r where r: "path_of cs = path_of ds @ SLASH # r"
    by blast
  then have "cs \<noteq> []"
    by auto
  moreover have "\<forall>c \<in> set cs. SLASH \<notin> set c" "\<forall>c \<in> set ds. SLASH \<notin> set c"
    using assms(1,2) unfolding component_ok_def by blast+
  ultimately have "cs = ds @ split_on SLASH r"
    using r split_path_of [of cs] split_path_append [of ds r] assms(3) by metis
  then show "\<exists>es. es \<noteq> [] \<and> cs = ds @ es"
    using split_on_nonempty [of SLASH r] by metis
next
  assume "\<exists>es. es \<noteq> [] \<and> cs = ds @ es"
  then show "\<exists>r. path_of cs = path_of ds @ SLASH # r"
    using path_of_append assms(3) by blast
qed

lemma slash_after: "length b < length p \<and> starts_with b p \<and> p ! length b = s \<longleftrightarrow> (\<exists>r. p = b @ s # r)"
proof
  assume a: "length b < length p \<and> starts_with b p \<and> p ! length b = s"
  then obtain r where "p = b @ r"
    by (auto simp: starts_with_iff)
  then show "\<exists>r. p = b @ s # r"
    using a by (cases r) auto
qed (auto simp: starts_with_iff)

lemma is_at_or_below_of:
  assumes "\<forall>c \<in> set cs. component_ok c" "\<forall>c \<in> set ds. component_ok c"
  shows "is_at_or_below (GitPath (path_of cs)) (GitPath (path_of ds)) \<longleftrightarrow> prefix ds cs"
proof (cases "ds = []")
  case True
  then show ?thesis
    by (simp add: is_at_or_below_def is_root_def)
next
  case False
  then show ?thesis
    unfolding is_at_or_below_def slash_after git_path.sel slash_split [OF assms False] git_path.inject path_of_inj [OF assms]
    using path_of_empty [OF assms(2)] by (auto simp: is_root_def prefix_def)
qed

lemma is_below_of:
  assumes "\<forall>c \<in> set cs. component_ok c" "\<forall>c \<in> set ds. component_ok c"
  shows "is_below (GitPath (path_of cs)) (GitPath (path_of ds)) \<longleftrightarrow> strict_prefix ds cs"
  unfolding is_below_def is_at_or_below_of [OF assms] git_path.inject path_of_inj [OF assms] strict_prefix_def by blast

lemma relative_to_of:
  assumes "\<forall>c \<in> set cs. component_ok c" "\<forall>c \<in> set ds. component_ok c"
  shows "relative_to (GitPath (path_of cs)) (GitPath (path_of ds))
    = (if prefix ds cs then Some (GitPath (path_of (drop (length ds) cs))) else None)"
proof (cases "strict_prefix ds cs \<and> ds \<noteq> []")
  case True
  then obtain es where "es \<noteq> []" "cs = ds @ es"
    by (auto simp: strict_prefix_def prefix_def)
  then show ?thesis
    using True is_below_of [OF assms] path_of_inj [OF assms] path_of_empty [OF assms(2)]
    by (simp add: relative_to_def is_root_def path_of_append)
next
  case False
  then show ?thesis
    using is_below_of [OF assms] path_of_inj [OF assms] path_of_empty [OF assms(2)]
    by (auto simp: relative_to_def is_root_def root_path_def strict_prefix_def)
qed

lemma rfind_path_of:
  assumes "\<forall>c \<in> set cs. component_ok c" "component_ok c"
  shows "rfind SLASH (path_of (cs @ [c])) = (if cs = [] then None else Some (length (path_of cs)))"
proof (cases "cs = []")
  case True
  have "SLASH \<notin> set (rev c)"
    using assms(2) by (simp add: component_ok_def)
  then have "position (\<lambda>b. b = SLASH) (rev c) = None"
    unfolding position_None by metis
  then show ?thesis
    using True by (simp add: rfind_def)
next
  case False
  then show ?thesis
    using rfind_append [of SLASH c "path_of cs"] assms(2) by (simp add: path_of_append component_ok_def)
qed

lemma path_parent_of:
  assumes "\<forall>c \<in> set cs. component_ok c" "component_ok c"
  shows "path_parent (GitPath (path_of (cs @ [c]))) = Some (GitPath (path_of cs))"
    and "file_name (GitPath (path_of (cs @ [c]))) = Some (GitPathComponent c)"
  using rfind_path_of [OF assms] path_of_empty [of "cs @ [c]"] assms
  by (auto simp: path_parent_def file_name_def path_of_append component_ok_def)

lemma strict_ancestors_of:
  assumes "\<forall>c \<in> set cs. component_ok c"
  shows "strict_ancestors (GitPath (path_of cs)) = map (\<lambda>i. GitPath (path_of (take i cs))) [1..<length cs]"
  using assms
proof (induction cs rule: rev_induct)
  case Nil
  then show ?case
    by (simp add: strict_ancestors_def)
next
  case (snoc c cs)
  let ?slashes = "\<lambda>n bs. filter (\<lambda>(_, byte). byte = SLASH) (enumerate n bs)"
  have none: "?slashes n c = []" for n
  proof -
    have "byte \<noteq> SLASH" if "(i, byte) \<in> set (enumerate n c)" for i byte
      using that snoc.prems set_zip_rightD [of i byte "[n..<n + length c]" c] by (auto simp: enumerate_eq_zip component_ok_def)
    then show ?thesis
      by (fastforce simp: filter_empty_conv)
  qed
  show ?case
  proof (cases "cs = []")
    case True
    then show ?thesis
      using none by (simp add: strict_ancestors_def)
  next
    case False
    let ?p = "path_of cs"
    have cut: "take i (?p @ SLASH # c) = take i ?p" if "(i, b) \<in> set (?slashes 0 ?p)" for i b
      using that by (auto simp: in_set_enumerate_eq)
    have "strict_ancestors (GitPath (path_of (cs @ [c])))
        = map (\<lambda>(separator, _). GitPath (take separator (?p @ SLASH # c))) (?slashes 0 ?p @ [(length ?p, SLASH)])"
      using False none by (simp add: strict_ancestors_def path_of_append enumerate_append_eq)
    also have "\<dots> = strict_ancestors (GitPath ?p) @ [GitPath ?p]"
      using cut by (auto simp: strict_ancestors_def)
    also have "strict_ancestors (GitPath ?p) = map (\<lambda>i. GitPath (path_of (take i cs))) [1..<length cs]"
      using snoc by simp
    also have "map (\<lambda>i. GitPath (path_of (take i cs))) [1..<length cs] @ [GitPath ?p]
        = map (\<lambda>i. GitPath (path_of (take i (cs @ [c])))) [1..<length (cs @ [c])]"
      using False by (auto simp: Suc_le_eq)
    finally show ?thesis .
  qed
qed

section \<open>Case folding\<close>

lemma lower_below: "n < 0x41 \<Longrightarrow> to_ascii_lowercase b = n \<longleftrightarrow> b = n"
  by (auto simp: to_ascii_lowercase_def word_less_nat_alt word_le_nat_alt unat_word_ariths split: if_splits)

lemma component_ok_lower: "component_ok c \<Longrightarrow> component_ok (map to_ascii_lowercase c)"
  using lower_below [of 0] lower_below [of SLASH] lower_below [of "0x2E"]
  by (auto simp: component_ok_def map_eq_Cons_conv)

lemma path_of_lower: "map to_ascii_lowercase (path_of cs) = path_of (map (map to_ascii_lowercase) cs)"
  by (induction cs rule: path_of.induct) (simp_all add: lower_below)

lemma starts_with_take: "length b \<le> length p \<Longrightarrow> starts_with b p \<longleftrightarrow> take (length b) p = b"
  by (auto simp: starts_with_iff) (metis append_take_drop_id)

lemma strict_prefix_split: "strict_prefix ds cs \<longleftrightarrow> (\<exists>es. es \<noteq> [] \<and> cs = ds @ es)"
  by (auto simp: strict_prefix_def prefix_def)

lemma is_below_folded:
  assumes "\<forall>c \<in> set cs. component_ok c" "\<forall>c \<in> set ds. component_ok c"
  shows "is_below_with_ascii_case (GitPath (path_of cs)) (GitPath (path_of ds)) True
    \<longleftrightarrow> strict_prefix (map (map to_ascii_lowercase) ds) (map (map to_ascii_lowercase) cs)"
proof (cases "ds = []")
  case True
  then show ?thesis
    using path_of_empty [OF assms(1)] by (auto simp: is_below_with_ascii_case_def is_root_def strict_prefix_def)
next
  case False
  let ?l = "map to_ascii_lowercase" and ?p = "path_of cs" and ?b = "path_of ds"
  have ok: "\<forall>c \<in> set (map ?l cs). component_ok c" "\<forall>c \<in> set (map ?l ds). component_ok c" "map ?l ds \<noteq> []"
    using assms False component_ok_lower by auto
  have "is_below_with_ascii_case (GitPath ?p) (GitPath ?b) True
      \<longleftrightarrow> length (?l ?b) < length (?l ?p) \<and> starts_with (?l ?b) (?l ?p) \<and> ?l ?p ! length (?l ?b) = SLASH"
  proof (cases "length ?b < length ?p")
    case True
    then have "?l ?p ! length (?l ?b) = SLASH \<longleftrightarrow> ?p ! length ?b = SLASH"
      by (simp add: lower_below)
    moreover have "starts_with (?l ?b) (?l ?p) \<longleftrightarrow> ?l (take (length ?b) ?p) = ?l ?b"
      using True starts_with_take [of "?l ?b" "?l ?p"] by (simp add: take_map)
    moreover have "is_below_with_ascii_case (GitPath ?p) (GitPath ?b) True
        \<longleftrightarrow> ?p ! length ?b = SLASH \<and> ?l (take (length ?b) ?p) = ?l ?b"
      using True False path_of_empty [OF assms(2)]
      by (simp add: is_below_with_ascii_case_def is_root_def eq_ignore_ascii_case_def)
    ultimately show ?thesis
      using True length_map by metis
  qed (simp add: is_below_with_ascii_case_def is_root_def False path_of_empty [OF assms(2)])
  then show ?thesis
    unfolding slash_after path_of_lower slash_split [OF ok] strict_prefix_split .
qed

lemma is_below_exact:
  assumes "\<forall>c \<in> set cs. component_ok c" "\<forall>c \<in> set ds. component_ok c"
  shows "is_below_with_ascii_case (GitPath (path_of cs)) (GitPath (path_of ds)) False \<longleftrightarrow> strict_prefix ds cs"
proof (cases "ds = []")
  case True
  then show ?thesis
    using path_of_empty [OF assms(1)] by (auto simp: is_below_with_ascii_case_def is_root_def strict_prefix_def)
next
  case False
  then have "is_below_with_ascii_case (GitPath (path_of cs)) (GitPath (path_of ds)) False
      \<longleftrightarrow> (\<exists>r. path_of cs = path_of ds @ SLASH # r)"
    unfolding slash_after [symmetric] using path_of_empty [OF assms(2)]
    by (auto simp: is_below_with_ascii_case_def is_root_def)
  then show ?thesis
    unfolding slash_split [OF assms False] strict_prefix_split .
qed

section \<open>Reading quoted bytes back\<close>

definition escapes :: "(byte \<times> byte) list" where
  "escapes = [(0x61, 0x07), (0x62, 0x08), (0x74, 0x09), (0x6E, 0x0A), (0x76, 0x0B), (0x66, 0x0C), (0x72, 0x0D),
     (0x22, 0x22), (0x5C, 0x5C)]"

fun unescape :: "bytes \<Rightarrow> bytes option" where
  "unescape [] = Some []"
| "unescape (b # r) =
     (if b \<noteq> 0x5C then map_option ((#) b) (unescape r)
      else case r of
        [] \<Rightarrow> None
      | e # r1 \<Rightarrow>
          (case map_of escapes e of
             Some x \<Rightarrow> map_option ((#) x) (unescape r1)
           | None \<Rightarrow>
               (case r1 of
                  d # f # r2 \<Rightarrow> map_option ((#) ((e - 0x30) * 64 + (d - 0x30) * 8 + (f - 0x30))) (unescape r2)
                | _ \<Rightarrow> None)))"

definition unquote :: "bytes \<Rightarrow> bytes option" where
  "unquote s =
     (if s = [] \<or> hd s \<noteq> 0x22 then Some s
      else if 2 \<le> length s \<and> last s = 0x22 then unescape (butlast (tl s))
      else None)"

lemma octal_value: "(b div 64) * 64 + (b div 8 mod 8) * 8 + b mod 8 = (b :: byte)"
proof -
  define x where "x = unat b"
  have "x div 64 = x div 8 div 8"
    by (simp add: div_mult2_eq [symmetric])
  moreover have "x div 8 div 8 * 8 + x div 8 mod 8 = x div 8" "x div 8 * 8 + x mod 8 = x"
    by (rule div_mult_mod_eq)+
  ultimately have "unat b div 64 * 64 + unat b div 8 mod 8 * 8 + unat b mod 8 = unat b"
    unfolding x_def by linarith
  moreover have "unat b < 256"
    using unat_bound [of b] by simp
  ultimately show ?thesis
    by (simp add: word_unat_eq_iff unat_word_ariths unat_div unat_mod)
qed

lemma octal_not_escape: "map_of escapes (0x30 + b div 64) = None"
proof -
  have "0x30 \<le> unat (0x30 + b div 64)" "unat (0x30 + b div 64) \<le> 0x33"
    using unat_bound [of b] by (simp_all add: unat_word_ariths unat_div)
  then show ?thesis
    by (auto simp: escapes_def word_unat_eq_iff split: if_splits)
qed

lemma unescape_octal: "unescape (octal3 b @ r) = map_option ((#) b) (unescape r)"
  using octal_not_escape [of b] octal_value [of b] by (simp add: octal3_def)

lemma unescape_quote: "unescape (quote_byte q b @ r) = map_option ((#) b) (unescape r)"
  by (simp add: quote_byte_def unescape_octal escapes_def)

lemma unescape_concat: "unescape (concat (map (quote_byte q) bs)) = Some bs"
  by (induction bs) (simp_all add: unescape_quote)

lemma unquote_render: "unquote (render_bytes bs q) = Some bs"
proof (cases "list_ex (needs_escape q) bs")
  case True
  then show ?thesis
    by (simp add: render_bytes_def unquote_def unescape_concat)
next
  case False
  then have "0x22 \<notin> set bs"
    by (auto simp: list_ex_iff needs_escape_def)
  then have "bs = [] \<or> hd bs \<noteq> 0x22"
    using hd_in_set [of bs] by metis
  then show ?thesis
    using False by (simp add: render_bytes_def unquote_def)
qed

lemma ascii_octal: "ascii_only (octal3 b)"
proof -
  have "unat (0x30 + b div 64) < 128" "unat (0x30 + b div 8 mod 8) < 128" "unat (0x30 + b mod 8) < 128"
    using unat_bound [of b] by (simp_all add: unat_word_ariths unat_div unat_mod)
  then show ?thesis
    by (simp add: octal3_def ascii_only_def word_less_nat_alt)
qed

lemma ascii_quote_byte: "ascii_only (quote_byte True b)"
  by (auto simp: quote_byte_def ascii_octal not_le)

lemma ascii_render: "ascii_only (render_bytes bs True)"
proof -
  have "ascii_only (concat (map (quote_byte True) bs))"
    using ascii_quote_byte by (auto simp: ascii_only_def)
  then show ?thesis
    by (auto simp: render_bytes_def list_ex_iff needs_escape_def ascii_only_def)
qed

section \<open>Properties\<close>



text \<open>C39: the C-style quoting of paths loses nothing: reading the rendered bytes back gives the
  original bytes, whatever they are and in both modes, and the safe mode is ASCII, so \<open>quote_bytes\<close>
  and \<open>quote_with_affixes\<close> never panic on the conversion to a string.\<close>

theorem quoting_round_trip:
  "unquote (render_bytes bs q) = Some bs
    \<and> (\<exists>r. quote_bytes bs = Inr r \<and> unquote r = Some bs)
    \<and> (\<exists>r. quote_with_affixes p before after = Inr r \<and> unquote r = Some (before @ path_bytes p @ after))"
  using utf8_valid_ascii [OF ascii_render]
  by (simp add: unquote_render quote_bytes_def quote_with_affixes_def render_with_affixes_def expect_utf8_def)

end
