(* ===== verification/Git_Index.thy ===== *)
theory Git_Index
  imports Git_Path Git_Ewah Git_Pack_Round_Trip
begin

text \<open>
  The staging area, \<open>gitana-worktree/src/index.rs\<close>: the DIRC file (versions 2 to 4 read, version 4
  written), the \<open>link\<close> extension of a split index and its merge, and the operations on the entries.
  Entries are kept sorted by their serialized name and stage. Arithmetic on \<open>usize\<close> in the path
  varint wraps, as in a release build.
\<close>

section \<open>Entries\<close>

record stat_data =
  ctime_sec :: u32
  ctime_nsec :: u32
  mtime_sec :: u32
  mtime_nsec :: u32
  st_dev :: u32
  st_ino :: u32
  st_uid :: u32
  st_gid :: u32
  st_size :: u32

record index_entry =
  ie_stat :: stat_data
  ie_mode :: u32
  ie_oid :: object_id
  ie_stage :: byte
  assume_valid :: bool
  skip_worktree :: bool
  intent_to_add :: bool
  ie_path :: git_path

record git_index =
  index_entries :: "index_entry list"

datatype index_error = MalformedIndex | IndexChecksumMismatch

type_synonym 'a ires = "(index_error, 'a) res"

record split_index_link =
  shared_oid :: object_id
  bitmaps_raw :: bytes

definition stat_default :: stat_data where
  "stat_default = \<lparr>ctime_sec = 0, ctime_nsec = 0, mtime_sec = 0, mtime_nsec = 0, st_dev = 0, st_ino = 0,
     st_uid = 0, st_gid = 0, st_size = 0\<rparr>"

abbreviation is_tree_mode :: "u32 \<Rightarrow> bool" where
  "is_tree_mode m \<equiv> m AND 0xF000 = 0x4000"

definition serialized_name :: "index_entry \<Rightarrow> bytes" where
  "serialized_name e = path_bytes (ie_path e) @ (if is_tree_mode (ie_mode e) then [SLASH] else [])"

text \<open>\<open>entry_cmp\<close> as the key it compares.\<close>

definition entry_key :: "index_entry \<Rightarrow> bytes \<times> byte" where
  "entry_key e = (serialized_name e, ie_stage e)"

definition is_null_oid :: "object_id \<Rightarrow> bool" where
  "is_null_oid i = list_all (\<lambda>b. b = 0) (id_bytes i)"

datatype file_mode = FmDirectory | FmExecutable | FmSymlink | FmGitlink | FmRegular

definition file_mode_of :: "u32 \<Rightarrow> file_mode" where
  "file_mode_of m =
     (if m = 0x4000 then FmDirectory else if m = 0x81ED then FmExecutable else if m = 0xA000 then FmSymlink
      else if m = 0xE000 then FmGitlink else FmRegular)"

section \<open>Operations on the entries\<close>

text \<open>\<open>partition_point\<close> of the standard library, a binary search on the predicate.\<close>

function partition_loop :: "('a \<Rightarrow> bool) \<Rightarrow> 'a list \<Rightarrow> nat \<Rightarrow> nat \<Rightarrow> nat" where
  "partition_loop p xs base n =
     (if n \<le> 1 then base
      else let half = n div 2; mid = base + half
           in partition_loop p xs (if \<not> p (xs ! mid) then base else mid) (n - half))"
  by pat_completeness auto
termination
  by (relation "measure (\<lambda>(_, _, _, n). n)") auto

declare partition_loop.simps [simp del]

definition partition_point :: "('a \<Rightarrow> bool) \<Rightarrow> 'a list \<Rightarrow> nat" where
  "partition_point p xs =
     (if xs = [] then 0
      else let i = partition_loop p xs 0 (length xs) in if p (xs ! i) then i + 1 else i)"

definition index_entry_of :: "git_index \<Rightarrow> git_path \<Rightarrow> index_entry option" where
  "index_entry_of idx p = find (\<lambda>e. ie_path e = p \<and> ie_stage e = 0) (index_entries idx)"

definition is_sparse :: "git_index \<Rightarrow> git_path \<Rightarrow> bool" where
  "is_sparse idx p = (case index_entry_of idx p of None \<Rightarrow> False | Some e \<Rightarrow> skip_worktree e)"

definition tree_entries :: "git_index \<Rightarrow> (git_path \<times> file_mode \<times> object_id) list" where
  "tree_entries idx =
     map (\<lambda>e. (ie_path e, file_mode_of (ie_mode e), ie_oid e)) (filter (\<lambda>e. ie_stage e = 0) (index_entries idx))"

definition insert_sorted :: "index_entry \<Rightarrow> git_index \<Rightarrow> git_index" where
  "insert_sorted e idx =
     (let es = index_entries idx; position = partition_point (\<lambda>existing. entry_key existing < entry_key e) es
      in \<lparr>index_entries = take position es @ e # drop position es\<rparr>)"

definition index_remove :: "git_path \<Rightarrow> git_index \<Rightarrow> git_index" where
  "index_remove p idx = \<lparr>index_entries = filter (\<lambda>e. ie_path e \<noteq> p) (index_entries idx)\<rparr>"

definition upsert :: "index_entry \<Rightarrow> git_index \<Rightarrow> git_index" where
  "upsert e idx = insert_sorted e (index_remove (ie_path e) idx)"

type_synonym merge_side = "(u32 \<times> object_id) option"

definition stage_entry :: "git_path \<Rightarrow> byte \<Rightarrow> u32 \<times> object_id \<Rightarrow> index_entry" where
  "stage_entry p stage = (\<lambda>(mode, oid).
     \<lparr>ie_stat = stat_default, ie_mode = mode, ie_oid = oid, ie_stage = stage, assume_valid = False,
      skip_worktree = False, intent_to_add = False, ie_path = p\<rparr>)"

definition record_conflict :: "git_path \<Rightarrow> merge_side \<Rightarrow> merge_side \<Rightarrow> merge_side \<Rightarrow> git_index \<Rightarrow> git_index" where
  "record_conflict p base ours theirs idx =
     foldl (\<lambda>idx (stage, side). case side of None \<Rightarrow> idx | Some s \<Rightarrow> insert_sorted (stage_entry p stage s) idx)
       (index_remove p idx) [(1, base), (2, ours), (3, theirs)]"

record index_conflict =
  conflict_base :: "index_entry option"
  conflict_ours :: "index_entry option"
  conflict_theirs :: "index_entry option"

definition find_stage :: "git_index \<Rightarrow> git_path \<Rightarrow> byte \<Rightarrow> index_entry option" where
  "find_stage idx p stage = find (\<lambda>e. ie_path e = p \<and> ie_stage e = stage) (index_entries idx)"

definition conflict_of :: "git_index \<Rightarrow> git_path \<Rightarrow> index_conflict option" where
  "conflict_of idx p =
     (let c = \<lparr>conflict_base = find_stage idx p 1, conflict_ours = find_stage idx p 2, conflict_theirs = find_stage idx p 3\<rparr>
      in if conflict_base c = None \<and> conflict_ours c = None \<and> conflict_theirs c = None then None else Some c)"

definition is_unmerged :: "git_index \<Rightarrow> git_path \<Rightarrow> bool" where
  "is_unmerged idx p = list_ex (\<lambda>e. ie_path e = p \<and> ie_stage e \<noteq> 0) (index_entries idx)"

definition has_conflicts :: "git_index \<Rightarrow> bool" where
  "has_conflicts idx = list_ex (\<lambda>e. ie_stage e \<noteq> 0) (index_entries idx)"

fun skip_same :: "git_path option \<Rightarrow> index_entry list \<Rightarrow> git_path list" where
  "skip_same seen [] = []"
| "skip_same seen (e # es) =
     (if seen = Some (ie_path e) then skip_same seen es else ie_path e # skip_same (Some (ie_path e)) es)"

definition unmerged_paths :: "git_index \<Rightarrow> git_path list" where
  "unmerged_paths idx = skip_same None (filter (\<lambda>e. ie_stage e \<noteq> 0) (index_entries idx))"

text \<open>The loop over the components but the last; \<open>expect\<close> panics.\<close>

fun remove_ancestors :: "git_path \<Rightarrow> bytes list \<Rightarrow> git_index \<Rightarrow> (path_error, git_index) res" where
  "remove_ancestors ancestor [] idx = Inr idx"
| "remove_ancestors ancestor [c] idx = Inr idx"
| "remove_ancestors ancestor (c # cs) idx =
     (case component_from_bytes c of
        Inl _ \<Rightarrow> Inl Panic
      | Inr component \<Rightarrow>
          let ancestor = path_join ancestor component
          in remove_ancestors ancestor cs (index_remove ancestor idx))"

definition remove_type_conflicts :: "git_path \<Rightarrow> git_index \<Rightarrow> (path_error, git_index) res" where
  "remove_type_conflicts p idx =
     ebind (remove_ancestors root_path (components p) idx) (\<lambda>idx.
       let dir_prefix = path_bytes p @ [SLASH]
       in Inr \<lparr>index_entries = filter (\<lambda>e. \<not> starts_with dir_prefix (path_bytes (ie_path e))) (index_entries idx)\<rparr>)"

section \<open>Reading\<close>

definition to_be16 :: "16 word \<Rightarrow> bytes" where "to_be16 w = be_bytes 2 (unat w)"

definition from_be16 :: "bytes \<Rightarrow> 16 word" where "from_be16 bs = word_of_nat (be_val bs)"

definition read_u32 :: "bytes \<Rightarrow> nat \<Rightarrow> (u32 \<times> nat) ires" where
  "read_u32 bs cursor = ebind (ok_or (get_range bs cursor (cursor + 4)) MalformedIndex) (\<lambda>s. Inr (from_be32 s, cursor + 4))"

definition read_u16 :: "bytes \<Rightarrow> nat \<Rightarrow> (16 word \<times> nat) ires" where
  "read_u16 bs cursor = ebind (ok_or (get_range bs cursor (cursor + 2)) MalformedIndex) (\<lambda>s. Inr (from_be16 s, cursor + 2))"

definition read_oid :: "hash_alg \<Rightarrow> bytes \<Rightarrow> nat \<Rightarrow> (object_id \<times> nat) ires" where
  "read_oid H bs cursor =
     ebind (ok_or (get_range bs cursor (cursor + raw_len H)) MalformedIndex) (\<lambda>s.
     ebind (map_err MalformedIndex (from_bytes H s)) (\<lambda>i. Inr (i, cursor + raw_len H)))"

definition read_until_nul :: "bytes \<Rightarrow> nat \<Rightarrow> (bytes \<times> nat) ires" where
  "read_until_nul bs cursor =
     ebind (slice bs cursor (length bs)) (\<lambda>rest.
     ebind (ok_or (map_option (\<lambda>i. cursor + i) (position (\<lambda>b. b = 0) rest)) MalformedIndex) (\<lambda>nul.
     ebind (slice bs cursor nul) (\<lambda>name. Inr (name, nul + 1))))"

definition index_byte :: "bytes \<Rightarrow> nat \<Rightarrow> byte ires" where
  "index_byte bs cursor = (if cursor < length bs then Inr (bs ! cursor) else Inl (Err MalformedIndex))"

function varint_rest :: "bytes \<Rightarrow> byte \<Rightarrow> nat \<Rightarrow> u64 \<Rightarrow> (nat \<times> nat) ires" where
  "varint_rest bs byte cursor val =
     (if byte AND 0x80 = 0 then Inr (unat val, cursor)
      else
        ebind (index_byte bs cursor) (\<lambda>byte.
          varint_rest bs byte (cursor + 1) (push_bit 7 (val + 1) + ucast (byte AND 0x7f))))"
  by pat_completeness auto
termination
  by (relation "measure (\<lambda>(bs, _, cursor, _). length bs - cursor)") (auto simp: index_byte_def split: if_splits)

declare varint_rest.simps [simp del]

definition decode_varint :: "bytes \<Rightarrow> nat \<Rightarrow> (nat \<times> nat) ires" where
  "decode_varint bs cursor =
     ebind (index_byte bs cursor) (\<lambda>byte. varint_rest bs byte (cursor + 1) (ucast (byte AND 0x7f)))"

text \<open>The loop is that of the pack writer's base offsets.\<close>

definition encode_varint :: "nat \<Rightarrow> bytes" where
  "encode_varint val = rev (word_of_nat (val AND 0x7f) # offset_groups (drop_bit 7 val))"

definition read_stat :: "bytes \<Rightarrow> nat \<Rightarrow> (stat_data \<times> u32 \<times> nat) ires" where
  "read_stat bs cursor =
     ebind (read_u32 bs cursor) (\<lambda>(cs, cursor). ebind (read_u32 bs cursor) (\<lambda>(cn, cursor).
     ebind (read_u32 bs cursor) (\<lambda>(ms, cursor). ebind (read_u32 bs cursor) (\<lambda>(mn, cursor).
     ebind (read_u32 bs cursor) (\<lambda>(dev, cursor). ebind (read_u32 bs cursor) (\<lambda>(ino, cursor).
     ebind (read_u32 bs cursor) (\<lambda>(mode, cursor). ebind (read_u32 bs cursor) (\<lambda>(uid, cursor).
     ebind (read_u32 bs cursor) (\<lambda>(gid, cursor). ebind (read_u32 bs cursor) (\<lambda>(sz, cursor).
       Inr (\<lparr>ctime_sec = cs, ctime_nsec = cn, mtime_sec = ms, mtime_nsec = mn, st_dev = dev, st_ino = ino,
             st_uid = uid, st_gid = gid, st_size = sz\<rparr>, mode, cursor)))))))))))"

text \<open>The pathname: prefix-compressed in version 4, padded to a multiple of 8 before.\<close>

definition read_path :: "bytes \<Rightarrow> u32 \<Rightarrow> nat \<Rightarrow> nat \<Rightarrow> bytes \<Rightarrow> (bytes \<times> nat) ires" where
  "read_path bs version entry_start cursor prev =
     (if version = 4 then
        ebind (decode_varint bs cursor) (\<lambda>(strip, cursor).
        ebind (read_until_nul bs cursor) (\<lambda>(suffix, cursor).
        ebind (ok_or (checked_sub (length prev) strip) MalformedIndex) (\<lambda>keep.
        ebind (slice prev 0 keep) (\<lambda>path. Inr (path @ suffix, cursor)))))
      else
        ebind (read_until_nul bs cursor) (\<lambda>(name, cursor).
          let unpadded = cursor - entry_start; pad = (8 - unpadded mod 8) mod 8
          in Inr (name, cursor + pad)))"

definition canonical_name :: "u32 \<Rightarrow> bytes \<Rightarrow> bytes" where
  "canonical_name m path =
     (if is_tree_mode m \<and> path \<noteq> [] \<and> last path = SLASH then butlast path else path)"

definition read_flags :: "bytes \<Rightarrow> u32 \<Rightarrow> nat \<Rightarrow> (bool \<times> byte \<times> bool \<times> bool \<times> nat) ires" where
  "read_flags bs version cursor =
     ebind (read_u16 bs cursor) (\<lambda>(flags, cursor).
       let assume = (flags AND 0x8000 \<noteq> 0); stage = ucast (drop_bit 12 flags AND 0x3)
       in if flags AND 0x4000 \<noteq> 0 then
            if version < 3 then Inl (Err MalformedIndex)
            else ebind (read_u16 bs cursor) (\<lambda>(extended, cursor).
              Inr (assume, stage, extended AND 0x4000 \<noteq> 0, extended AND 0x2000 \<noteq> 0, cursor))
          else Inr (assume, stage, False, False, cursor))"

definition read_index_entry :: "hash_alg \<Rightarrow> bytes \<Rightarrow> u32 \<Rightarrow> nat \<Rightarrow> bytes \<Rightarrow> (index_entry \<times> bytes \<times> nat) ires" where
  "read_index_entry H bs version entry_start prev =
     ebind (read_stat bs entry_start) (\<lambda>(stat, mode, cursor).
     ebind (read_oid H bs cursor) (\<lambda>(oid, cursor).
     ebind (read_flags bs version cursor) (\<lambda>(assume, stage, skip, ita, cursor).
     ebind (read_path bs version entry_start cursor prev) (\<lambda>(path, cursor).
     ebind (map_err MalformedIndex (path_from_bytes (canonical_name mode path))) (\<lambda>p.
       Inr (\<lparr>ie_stat = stat, ie_mode = mode, ie_oid = oid, ie_stage = stage, assume_valid = assume,
             skip_worktree = skip, intent_to_add = ita, ie_path = p\<rparr>, path, cursor))))))"

fun read_index_entries ::
  "hash_alg \<Rightarrow> bytes \<Rightarrow> u32 \<Rightarrow> nat \<Rightarrow> nat \<Rightarrow> bytes \<Rightarrow> index_entry list \<Rightarrow> (index_entry list \<times> nat) ires" where
  "read_index_entries H bs version 0 cursor prev es = Inr (es, cursor)"
| "read_index_entries H bs version (Suc n) cursor prev es =
     ebind (read_index_entry H bs version cursor prev) (\<lambda>(e, path, cursor).
       read_index_entries H bs version n cursor path (es @ [e]))"

definition parse_link_extension :: "hash_alg \<Rightarrow> bytes \<Rightarrow> split_index_link ires" where
  "parse_link_extension H payload =
     ebind (ok_or (get_range payload 0 (raw_len H)) MalformedIndex) (\<lambda>raw.
     ebind (map_err MalformedIndex (from_bytes H raw)) (\<lambda>oid.
     ebind (slice payload (raw_len H) (length payload)) (\<lambda>rest.
       Inr \<lparr>shared_oid = oid, bitmaps_raw = rest\<rparr>)))"

function read_extensions ::
  "hash_alg \<Rightarrow> bytes \<Rightarrow> nat \<Rightarrow> nat \<Rightarrow> split_index_link option \<Rightarrow> split_index_link option ires" where
  "read_extensions H bs body_end cursor link =
     (if cursor + 8 \<le> body_end then
        ebind (slice bs cursor (cursor + 4)) (\<lambda>sig.
        ebind (slice bs (cursor + 4) (cursor + 8)) (\<lambda>sz.
          let payload_start = cursor + 8; payload_end = payload_start + unat (from_be32 sz)
          in if payload_end \<le> body_end then
               ebind (if sig = ascii ''link'' then
                        ebind (slice bs payload_start payload_end) (\<lambda>payload.
                        ebind (parse_link_extension H payload) (\<lambda>l. Inr (Some l)))
                      else Inr link) (\<lambda>link.
                 read_extensions H bs body_end payload_end link)
             else Inl (Err MalformedIndex)))
      else Inr link)"
  by pat_completeness auto
termination
  by (relation "measure (\<lambda>(_, _, body_end, cursor, _). body_end - cursor)") auto

declare read_extensions.simps [simp del]

definition parse_with_link :: "hash_alg \<Rightarrow> bytes \<Rightarrow> (git_index \<times> split_index_link option) ires" where
  "parse_with_link H bs =
     (if length bs < 12 + raw_len H \<or> take 4 bs \<noteq> ascii ''DIRC'' then Inl (Err MalformedIndex)
      else
        ebind (slice bs 4 8) (\<lambda>v. ebind (slice bs 8 12) (\<lambda>c.
          let version = from_be32 v; count = unat (from_be32 c); body_end = length bs - raw_len H
          in if \<not> (2 \<le> version \<and> version \<le> 4) then Inl (Err MalformedIndex)
             else if digest H (take body_end bs) \<noteq> drop body_end bs then Inl (Err IndexChecksumMismatch)
             else
               ebind (read_index_entries H bs version count 12 [] []) (\<lambda>(es, cursor).
               ebind (read_extensions H bs body_end cursor None) (\<lambda>link.
                 Inr (\<lparr>index_entries = es\<rparr>, link))))))"

definition parse_index :: "hash_alg \<Rightarrow> bytes \<Rightarrow> git_index ires" where
  "parse_index H bs = ebind (parse_with_link H bs) (\<lambda>(idx, _). Inr idx)"

section \<open>Writing\<close>

definition common_prefix :: "bytes \<Rightarrow> bytes \<Rightarrow> nat" where
  "common_prefix a b = length (takeWhile (\<lambda>(x, y). x = y) (zip a b))"

definition stat_fields :: "index_entry \<Rightarrow> u32 list" where
  "stat_fields e = (let s = ie_stat e in
     [ctime_sec s, ctime_nsec s, mtime_sec s, mtime_nsec s, st_dev s, st_ino s, ie_mode e, st_uid s, st_gid s, st_size s])"

definition entry_flags :: "index_entry \<Rightarrow> nat \<Rightarrow> 16 word" where
  "entry_flags e path_len =
     (let name_len = word_of_nat (min path_len 0xFFF);
          flags = name_len OR push_bit 12 (ucast (ie_stage e));
          flags = (if assume_valid e then flags OR 0x8000 else flags)
      in if skip_worktree e \<or> intent_to_add e then flags OR 0x4000 else flags)"

definition extended_flags :: "index_entry \<Rightarrow> bytes" where
  "extended_flags e =
     (if skip_worktree e \<or> intent_to_add e
      then to_be16 ((if skip_worktree e then 0x4000 else 0) OR (if intent_to_add e then 0x2000 else 0))
      else [])"

definition write_index_entry :: "bytes \<Rightarrow> index_entry \<Rightarrow> bytes" where
  "write_index_entry prev e =
     (let path = serialized_name e; common = common_prefix prev path
      in concat (map to_be32 (stat_fields e)) @ id_bytes (ie_oid e) @ to_be16 (entry_flags e (length path))
         @ extended_flags e @ encode_varint (length prev - common) @ drop common path @ [0])"

fun write_index_entries :: "bytes \<Rightarrow> index_entry list \<Rightarrow> bytes" where
  "write_index_entries prev [] = []"
| "write_index_entries prev (e # es) = write_index_entry prev e @ write_index_entries (serialized_name e) es"

definition write_v4 :: "hash_alg \<Rightarrow> git_index \<Rightarrow> bytes" where
  "write_v4 H idx =
     (let es = sort_key entry_key (index_entries idx);
          out = ascii ''DIRC'' @ to_be32 4 @ to_be32 (word_of_nat (length es)) @ write_index_entries [] es
      in out @ digest H out)"

section \<open>Split indexes\<close>

text \<open>Replacements: the \<open>k\<close>-th set bit is filled by the \<open>k\<close>-th split entry.\<close>

fun replace_entries :: "index_entry list \<Rightarrow> (nat \<times> u32) list \<Rightarrow> index_entry list \<Rightarrow> index_entry list ires" where
  "replace_entries split [] base = Inr base"
| "replace_entries split ((k, pos) # ps) base =
     ebind (if unat pos < length base then Inr (base ! unat pos) else Inl (Err MalformedIndex)) (\<lambda>b.
     ebind (index split k) (\<lambda>s.
       let name = (if path_bytes (ie_path s) = [] then ie_path b else ie_path s)
       in replace_entries split ps (base[unat pos := s\<lparr>ie_path := name\<rparr>])))"

fun mark_deleted :: "u32 list \<Rightarrow> bool list \<Rightarrow> bool list ires" where
  "mark_deleted [] deleted = Inr deleted"
| "mark_deleted (pos # ps) deleted =
     (if unat pos < length deleted then mark_deleted ps (deleted[unat pos := True]) else Inl (Err MalformedIndex))"

definition merge_split_index :: "git_index \<Rightarrow> git_index \<Rightarrow> split_index_link \<Rightarrow> git_index ires" where
  "merge_split_index base split link =
     (let base_entries = index_entries base; max_bits = length base_entries in
      ebind (map_err MalformedIndex (decode_ewah_bounded (bitmaps_raw link) max_bits)) (\<lambda>(delete_bits, consumed).
      ebind (slice (bitmaps_raw link) consumed (length (bitmaps_raw link))) (\<lambda>rest.
      ebind (map_err MalformedIndex (decode_ewah_bounded rest max_bits)) (\<lambda>(replace_bits, _).
        let replace_positions = set_bits replace_bits in
        if length (index_entries split) < length replace_positions then Inl (Err MalformedIndex)
        else
          ebind (replace_entries (index_entries split) (enumerate 0 replace_positions) base_entries) (\<lambda>base_entries.
          ebind (mark_deleted (set_bits delete_bits) (replicate (length base_entries) False)) (\<lambda>deleted.
            let kept = map fst (filter (\<lambda>(_, dead). \<not> dead) (zip base_entries deleted));
                es = kept @ drop (length replace_positions) (index_entries split)
            in Inr \<lparr>index_entries = sort_key entry_key es\<rparr>))))))"

end
