(* ===== verification/Git_Index_Correct.thy ===== *)
theory Git_Index_Correct
  imports Git_Index
begin

text \<open>
  What the staging area of \<open>gitana-worktree/src/index.rs\<close> promises in memory: its operations keep the
  entries strictly sorted and touch exactly the paths and stages they are given.
\<close>

section \<open>Sorted entries\<close>

lemma partition_loop_finds:
  assumes "\<forall>y \<in> set ys. p y" "\<forall>z \<in> set zs. \<not> p z"
  shows "0 < n \<Longrightarrow> base + n \<le> length (ys @ zs) \<Longrightarrow> base \<le> length ys \<Longrightarrow> length ys \<le> base + n
    \<Longrightarrow> partition_loop p (ys @ zs) base n < length (ys @ zs)
      \<and> partition_loop p (ys @ zs) base n \<le> length ys \<and> length ys \<le> partition_loop p (ys @ zs) base n + 1"
proof (induction n arbitrary: base rule: less_induct)
  case (less n)
  show ?case
  proof (cases "n \<le> 1")
    case True
    then show ?thesis
      using less.prems by (subst (1 2 3) partition_loop.simps) auto
  next
    case False
    define mid where "mid = base + n div 2"
    have mid: "mid < length (ys @ zs)" "n - n div 2 < n" "0 < n - n div 2"
      using False less.prems(1,2) unfolding mid_def by linarith+
    have p: "\<not> p ((ys @ zs) ! mid) \<longleftrightarrow> length ys \<le> mid"
      using assms mid(1) nth_mem [of mid ys] nth_mem [of "mid - length ys" zs] by (auto simp: nth_append)
    have "partition_loop p (ys @ zs) base n
        = partition_loop p (ys @ zs) (if length ys \<le> mid then base else mid) (n - n div 2)"
      using False p by (subst partition_loop.simps) (simp add: mid_def Let_def)
    then show ?thesis
      using less.IH [OF mid(2), of "if length ys \<le> mid then base else mid"] mid less.prems
      unfolding mid_def by (simp split: if_splits)
  qed
qed

lemma partition_point_split:
  assumes "\<forall>y \<in> set ys. p y" "\<forall>z \<in> set zs. \<not> p z"
  shows "partition_point p (ys @ zs) = length ys"
proof (cases "ys @ zs = []")
  case False
  let ?i = "partition_loop p (ys @ zs) 0 (length (ys @ zs))"
  have i: "?i < length (ys @ zs)" "?i \<le> length ys" "length ys \<le> ?i + 1"
    using partition_loop_finds [OF assms, of "length (ys @ zs)" 0] False by simp_all
  have "p ((ys @ zs) ! ?i) \<longleftrightarrow> ?i < length ys"
    using assms i(1) nth_mem [of ?i ys] nth_mem [of "?i - length ys" zs] by (auto simp: nth_append)
  then show ?thesis
    using False i unfolding partition_point_def Let_def if_not_P [OF False] by simp
qed (simp add: partition_point_def)

definition index_sorted :: "git_index \<Rightarrow> bool" where
  "index_sorted idx \<longleftrightarrow> sorted_wrt (\<lambda>e f. entry_key e < entry_key f) (index_entries idx)"

definition index_wf :: "git_index \<Rightarrow> bool" where
  "index_wf idx \<longleftrightarrow> index_sorted idx \<and> (\<forall>e \<in> set (index_entries idx). path_ok (ie_path e))
     \<and> inj_on (\<lambda>e. (ie_path e, ie_stage e)) (set (index_entries idx))"

lemma path_ok_no_slash:
  assumes "path_ok p"
  shows "path_bytes p \<noteq> q @ [SLASH]" "0 \<notin> set (path_bytes p)"
proof -
  note cs = path_okD [OF assms]
  have b: "path_bytes p = path_of (components p)"
    using cs(2) by (metis git_path.sel)
  show "path_bytes p \<noteq> q @ [SLASH]"
    using ends_of_path(2) [OF cs(1)] unfolding b by (cases "components p = []") auto
  show "0 \<notin> set (path_bytes p)"
    using set_path_of [of 0 "components p"] cs(1) unfolding b by (auto simp: component_ok_def)
qed

lemma serialized_name_inj:
  assumes "path_ok (ie_path e)" "path_ok (ie_path f)" "serialized_name e = serialized_name f"
  shows "ie_path e = ie_path f"
  using assms(3) path_ok_no_slash(1) [OF assms(1)] path_ok_no_slash(1) [OF assms(2), symmetric]
  by (auto simp: serialized_name_def git_path.expand split: if_splits)

lemma insert_sorted_wf:
  assumes "index_wf idx" "path_ok (ie_path e)" "\<forall>f \<in> set (index_entries idx). ie_path f = ie_path e \<longrightarrow> ie_stage f \<noteq> ie_stage e"
  shows "index_wf (insert_sorted e idx)" "set (index_entries (insert_sorted e idx)) = insert e (set (index_entries idx))"
proof -
  let ?es = "index_entries idx" and ?p = "\<lambda>f. entry_key f < entry_key e"
  have sorted: "sorted_wrt (\<lambda>e f. entry_key e < entry_key f) ?es"
    using assms(1) by (simp add: index_wf_def index_sorted_def)
  have ne: "entry_key f \<noteq> entry_key e" if "f \<in> set ?es" for f
    using that assms serialized_name_inj [of f e] by (auto simp: index_wf_def entry_key_def)
  define ys zs where "ys = takeWhile ?p ?es" and "zs = dropWhile ?p ?es"
  have es: "?es = ys @ zs"
    by (simp add: ys_def zs_def)
  have ys: "\<forall>y \<in> set ys. ?p y"
    by (auto simp: ys_def dest: set_takeWhileD)
  have zs: "\<forall>z \<in> set zs. entry_key e < entry_key z"
  proof (cases zs)
    case (Cons z rest)
    then have "\<not> ?p z"
      using hd_dropWhile [of ?p ?es] by (simp add: zs_def)
    moreover have "z \<in> set ?es"
      by (simp add: es Cons)
    ultimately have "entry_key e < entry_key z"
      using ne [of z] by (simp add: not_less le_less)
    moreover have "\<forall>x \<in> set rest. entry_key z < entry_key x"
      using sorted by (simp add: es Cons sorted_wrt_append)
    ultimately show ?thesis
      using Cons by (auto intro: less_trans)
  qed simp
  have "partition_point ?p ?es = length ys"
    unfolding es by (rule partition_point_split) (use ys zs in \<open>auto dest: less_not_sym\<close>)
  then have ins: "index_entries (insert_sorted e idx) = ys @ e # zs"
    by (simp add: insert_sorted_def Let_def) (simp add: es)
  have "sorted_wrt (\<lambda>e f. entry_key e < entry_key f) (ys @ e # zs)"
    using sorted ys zs by (auto simp: es sorted_wrt_append)
  then show "index_wf (insert_sorted e idx)"
    using assms by (auto simp: index_wf_def index_sorted_def ins es inj_on_def)
  show "set (index_entries (insert_sorted e idx)) = insert e (set ?es)"
    by (auto simp: ins es)
qed

lemma index_remove_wf:
  assumes "index_wf idx"
  shows "index_wf (index_remove p idx)" "set (index_entries (index_remove p idx)) = {e \<in> set (index_entries idx). ie_path e \<noteq> p}"
  using assms by (auto simp: index_wf_def index_sorted_def index_remove_def sorted_wrt_filter inj_on_def)

lemma upsert_wf:
  assumes "index_wf idx" "path_ok (ie_path e)"
  shows "index_wf (upsert e idx)"
    "set (index_entries (upsert e idx)) = insert e {f \<in> set (index_entries idx). ie_path f \<noteq> ie_path e}"
  using insert_sorted_wf [OF index_remove_wf(1) [OF assms(1)] assms(2)] index_remove_wf(2) [OF assms(1)]
  unfolding upsert_def by auto

text \<open>A well-formed index is a finite map from paths and stages.\<close>

lemma find_unique:
  assumes "\<And>x y. x \<in> set xs \<Longrightarrow> y \<in> set xs \<Longrightarrow> P x \<Longrightarrow> P y \<Longrightarrow> x = y"
  shows "find P xs = Some x \<longleftrightarrow> x \<in> set xs \<and> P x"
  using assms by (metis find_None_iff find_Some_iff nth_mem option.exhaust)

lemma find_stage_Some:
  assumes "index_wf idx"
  shows "find_stage idx p s = Some e \<longleftrightarrow> e \<in> set (index_entries idx) \<and> ie_path e = p \<and> ie_stage e = s"
  unfolding find_stage_def
  by (rule find_unique [THEN trans]) (use assms in \<open>auto simp: index_wf_def inj_on_def\<close>)

lemma find_stage_eq:
  assumes "index_wf idx" "index_wf idx'"
    and "\<And>e. ie_path e = p \<Longrightarrow> ie_stage e = s \<Longrightarrow> e \<in> set (index_entries idx) \<longleftrightarrow> e \<in> set (index_entries idx')"
  shows "find_stage idx p s = find_stage idx' p s"
proof -
  note f = find_stage_Some [OF assms(1), of p s] find_stage_Some [OF assms(2), of p s]
  show ?thesis
  proof (cases "find_stage idx p s")
    case (Some e)
    then have "find_stage idx' p s = Some e"
      using f(1) [of e] f(2) [of e] assms(3) [of e] by simp
    then show ?thesis
      using Some by simp
  next
    case None
    then have "find_stage idx' p s \<noteq> Some e" for e
      using f(1) [of e] f(2) [of e] assms(3) [of e] by auto
    then show ?thesis
      using None by (cases "find_stage idx' p s") auto
  qed
qed

lemma find_stage_None: "index_wf idx \<Longrightarrow> find_stage idx p s = None \<longleftrightarrow> (\<forall>e \<in> set (index_entries idx). ie_path e = p \<longrightarrow> ie_stage e \<noteq> s)"
  by (auto simp: find_stage_def find_None_iff)

lemma find_stage_insert:
  assumes "index_wf idx" "path_ok (ie_path e)" "find_stage idx (ie_path e) (ie_stage e) = None"
  shows "index_wf (insert_sorted e idx)"
    "find_stage (insert_sorted e idx) q s = (if q = ie_path e \<and> s = ie_stage e then Some e else find_stage idx q s)"
proof -
  have free: "\<forall>f \<in> set (index_entries idx). ie_path f = ie_path e \<longrightarrow> ie_stage f \<noteq> ie_stage e"
    using assms(3) find_stage_None [OF assms(1)] by blast
  note w = insert_sorted_wf [OF assms(1,2) free]
  show "index_wf (insert_sorted e idx)"
    by (rule w(1))
  show "find_stage (insert_sorted e idx) q s = (if q = ie_path e \<and> s = ie_stage e then Some e else find_stage idx q s)"
  proof (cases "q = ie_path e \<and> s = ie_stage e")
    case True
    then show ?thesis
      using find_stage_Some [OF w(1)] w(2) by simp
  next
    case False
    then have "find_stage (insert_sorted e idx) q s = find_stage idx q s"
      by (intro find_stage_eq [OF w(1) assms(1)]) (auto simp: w(2))
    then show ?thesis
      unfolding if_not_P [OF False] .
  qed
qed

lemma find_stage_remove:
  assumes "index_wf idx"
  shows "find_stage (index_remove p idx) q s = (if q = p then None else find_stage idx q s)"
proof (cases "q = p")
  case True
  then show ?thesis
    using index_remove_wf [OF assms] by (simp add: find_stage_None)
next
  case False
  then show ?thesis
    using index_remove_wf(2) [OF assms] find_stage_eq [OF index_remove_wf(1) [OF assms] assms] by auto
qed

lemma find_stage_upsert:
  assumes "index_wf idx" "path_ok (ie_path e)"
  shows "index_wf (upsert e idx)"
    "find_stage (upsert e idx) q s = (if q = ie_path e then if s = ie_stage e then Some e else None else find_stage idx q s)"
  using find_stage_insert [OF index_remove_wf(1) [OF assms(1)] assms(2)] find_stage_remove [OF assms(1)]
  unfolding upsert_def by simp_all

definition conflict_side :: "merge_side \<Rightarrow> merge_side \<Rightarrow> merge_side \<Rightarrow> byte \<Rightarrow> merge_side" where
  "conflict_side b u t s = (if s = 1 then b else if s = 2 then u else if s = 3 then t else None)"

lemma stage_entry_sel [simp]: "ie_path (stage_entry p s x) = p" "ie_stage (stage_entry p s x) = s"
  by (simp_all add: stage_entry_def split: prod.split)

lemma find_stage_conflict:
  assumes "index_wf idx" "path_ok p"
  shows "index_wf (record_conflict p b u t idx)"
    "find_stage (record_conflict p b u t idx) q s =
      (if q = p then map_option (stage_entry p s) (conflict_side b u t s) else find_stage idx q s)"
proof -
  define ins where "ins idx s side = (case side of None \<Rightarrow> idx | Some x \<Rightarrow> insert_sorted (stage_entry p s x) idx)" for idx s side
  have step: "index_wf (ins i k side)"
    "find_stage (ins i k side) q s = (if q = p \<and> s = k then map_option (stage_entry p s) side else find_stage i q s)"
    if "index_wf i" "find_stage i p k = None" for i k side q s
    using that find_stage_insert [of i "stage_entry p k (the side)"] assms(2)
    by (cases side; auto simp: ins_def)+
  let ?i = "index_remove p idx"
  have 0: "index_wf ?i" "find_stage ?i q s = (if q = p then None else find_stage idx q s)" for q s
    using index_remove_wf(1) [OF assms(1)] find_stage_remove [OF assms(1)] by auto
  have 1: "index_wf (ins ?i 1 b)" "find_stage (ins ?i 1 b) q s = (if q = p then if s = 1 then map_option (stage_entry p s) b else None
      else find_stage idx q s)" for q s
    using step [OF 0(1), of 1 b] 0(2) by auto
  have 2: "index_wf (ins (ins ?i 1 b) 2 u)" "find_stage (ins (ins ?i 1 b) 2 u) q s
      = (if q = p then if s = 1 then map_option (stage_entry p s) b else if s = 2 then map_option (stage_entry p s) u else None
         else find_stage idx q s)" for q s
    using step [OF 1(1), of 2 u] 1(2) by auto
  have r: "record_conflict p b u t idx = ins (ins (ins ?i 1 b) 2 u) 3 t"
    by (simp add: record_conflict_def ins_def)
  show "index_wf (record_conflict p b u t idx)"
    "find_stage (record_conflict p b u t idx) q s =
      (if q = p then map_option (stage_entry p s) (conflict_side b u t s) else find_stage idx q s)"
    unfolding r using step [OF 2(1), of 3 t] 2(2) by (auto simp: conflict_side_def)
qed

lemma find_stage_filter:
  assumes "index_wf idx"
  shows "index_wf \<lparr>index_entries = filter (\<lambda>e. P (ie_path e)) (index_entries idx)\<rparr>" (is "index_wf ?idx")
    "find_stage \<lparr>index_entries = filter (\<lambda>e. P (ie_path e)) (index_entries idx)\<rparr> q s = (if P q then find_stage idx q s else None)"
proof -
  show w: "index_wf ?idx"
    using assms by (auto simp: index_wf_def index_sorted_def sorted_wrt_filter inj_on_def)
  show "find_stage ?idx q s = (if P q then find_stage idx q s else None)"
  proof (cases "P q")
    case True
    then show ?thesis
      using find_stage_eq [OF w assms] by auto
  next
    case False
    then show ?thesis
      unfolding if_not_P [OF False] find_stage_None [OF w] by auto
  qed
qed

lemma remove_ancestors_filter:
  "\<forall>c \<in> set (as @ cs). component_ok c \<Longrightarrow> \<exists>idx'. remove_ancestors (GitPath (path_of as)) cs idx = Inr idx'
    \<and> index_entries idx' = filter (\<lambda>e. \<forall>i. 0 < i \<longrightarrow> i < length cs \<longrightarrow> ie_path e \<noteq> GitPath (path_of (as @ take i cs))) (index_entries idx)"
proof (induction cs arbitrary: as idx)
  case (Cons c cs)
  show ?case
  proof (cases cs)
    case Nil
    then show ?thesis
      by simp
  next
    case (Cons c' cs')
    let ?a = "GitPath (path_of (as @ [c]))"
    have ok: "\<forall>c \<in> set as. component_ok c" "component_ok c" "\<forall>x \<in> set ((as @ [c]) @ cs). component_ok x"
      using Cons.prems by auto
    have "component_from_bytes c = Inr (GitPathComponent c)"
      using ok(2) by (simp add: component_from_bytes_ok)
    then have step: "remove_ancestors (GitPath (path_of as)) (c # cs) idx = remove_ancestors ?a cs (index_remove ?a idx)"
      using path_join_of [OF ok(1)] by (simp add: Cons Let_def)
    obtain idx' where idx': "remove_ancestors ?a cs (index_remove ?a idx) = Inr idx'"
      "index_entries idx' = filter (\<lambda>e. \<forall>i. 0 < i \<longrightarrow> i < length cs \<longrightarrow> ie_path e \<noteq> GitPath (path_of ((as @ [c]) @ take i cs)))
        (index_entries (index_remove ?a idx))"
      using Cons.IH [OF ok(3)] by blast
    have "(\<forall>i. 0 < i \<longrightarrow> i < length (c # cs) \<longrightarrow> q \<noteq> GitPath (path_of (as @ take i (c # cs))))
        \<longleftrightarrow> q \<noteq> ?a \<and> (\<forall>i. 0 < i \<longrightarrow> i < length cs \<longrightarrow> q \<noteq> GitPath (path_of ((as @ [c]) @ take i cs)))" (is "?l \<longleftrightarrow> ?r") for q
    proof
      assume l: ?l
      have "q \<noteq> ?a"
        using l [rule_format, of 1] Cons by simp
      moreover have "q \<noteq> GitPath (path_of ((as @ [c]) @ take i cs))" if "0 < i" "i < length cs" for i
        using l [rule_format, of "Suc i"] that by simp
      ultimately show ?r
        by blast
    next
      assume r: ?r
      show ?l
      proof (intro allI impI)
        fix i assume "0 < i" "i < length (c # cs)"
        then show "q \<noteq> GitPath (path_of (as @ take i (c # cs)))"
          using r by (cases i; cases "i - 1 = 0") auto
      qed
    qed
    then show ?thesis
      unfolding step using idx' by (auto simp: index_remove_def intro!: filter_cong)
  qed
qed simp

text \<open>Paths that cannot both be files.\<close>

definition clashes :: "git_path \<Rightarrow> git_path \<Rightarrow> bool" where
  "clashes p q \<longleftrightarrow> (is_below p q \<and> \<not> is_root q) \<or> is_below q p"

lemma find_stage_type_conflicts:
  assumes "index_wf idx" "path_ok p" "\<not> is_root p"
  shows "\<exists>idx'. remove_type_conflicts p idx = Inr idx' \<and> index_wf idx'
    \<and> (\<forall>q s. find_stage idx' q s = (if clashes p q then None else find_stage idx q s))"
proof -
  note cs = path_okD [OF assms(2)]
  let ?cs = "components p"
  have ne: "?cs \<noteq> []"
    using cs assms(3) path_of_empty by (metis git_path.sel is_root_def path_of.simps(1))
  obtain idx1 where 1: "remove_ancestors root_path ?cs idx = Inr idx1"
    "index_entries idx1 = filter (\<lambda>e. \<forall>i. 0 < i \<longrightarrow> i < length ?cs \<longrightarrow> ie_path e \<noteq> GitPath (path_of (take i ?cs))) (index_entries idx)"
    using remove_ancestors_filter [of "[]" ?cs idx] cs(1) by (auto simp: root_path_def)
  let ?P = "\<lambda>q. (\<forall>i. 0 < i \<longrightarrow> i < length ?cs \<longrightarrow> q \<noteq> GitPath (path_of (take i ?cs)))
      \<and> \<not> starts_with (path_bytes p @ [SLASH]) (path_bytes q)"
  let ?idx = "\<lparr>index_entries = filter (\<lambda>e. ?P (ie_path e)) (index_entries idx)\<rparr>"
  have "remove_type_conflicts p idx = Inr ?idx"
    unfolding remove_type_conflicts_def 1(1) ebind_simps Let_def 1(2) filter_filter by (simp only: conj_commute)
  moreover have P: "?P q \<longleftrightarrow> \<not> clashes p q" if q: "path_ok q" for q
  proof -
    note ds = path_okD [OF q]
    let ?ds = "components q"
    have "starts_with (path_bytes p @ [SLASH]) (path_bytes q) \<longleftrightarrow> (\<exists>r. path_of ?ds = path_of ?cs @ SLASH # r)"
      using arg_cong [OF cs(2), of path_bytes] arg_cong [OF ds(2), of path_bytes] by (simp add: starts_with_iff)
    also have "\<dots> \<longleftrightarrow> strict_prefix ?cs ?ds"
      unfolding slash_split [OF ds(1) cs(1) ne] strict_prefix_split ..
    also have "\<dots> \<longleftrightarrow> is_below q p"
      using is_below_of [OF ds(1) cs(1)] cs(2) ds(2) by simp
    finally have below: "starts_with (path_bytes p @ [SLASH]) (path_bytes q) \<longleftrightarrow> is_below q p" .
    have "(\<exists>i. 0 < i \<and> i < length ?cs \<and> q = GitPath (path_of (take i ?cs))) \<longleftrightarrow> strict_prefix ?ds ?cs \<and> ?ds \<noteq> []"
    proof
      assume "\<exists>i. 0 < i \<and> i < length ?cs \<and> q = GitPath (path_of (take i ?cs))"
      then obtain i where i: "0 < i" "i < length ?cs" "q = GitPath (path_of (take i ?cs))"
        by blast
      then have "?ds = take i ?cs"
        using components_of [of "take i ?cs"] cs(1) by (auto dest: in_set_takeD)
      then show "strict_prefix ?ds ?cs \<and> ?ds \<noteq> []"
        using i by (auto simp: strict_prefix_def take_is_prefix)
    next
      assume a: "strict_prefix ?ds ?cs \<and> ?ds \<noteq> []"
      then have "?ds = take (length ?ds) ?cs" "length ?ds < length ?cs"
        by (auto simp: strict_prefix_split)
      then show "\<exists>i. 0 < i \<and> i < length ?cs \<and> q = GitPath (path_of (take i ?cs))"
        using a ds(2) by (intro exI [of _ "length ?ds"]) simp
    qed
    also have "\<dots> \<longleftrightarrow> is_below p q \<and> \<not> is_root q"
      using is_below_of [OF cs(1) ds(1)] cs(2) ds(2) path_of_empty [OF ds(1)] by (metis git_path.sel is_root_def)
    finally show ?thesis
      unfolding clashes_def using below by blast
  qed
  moreover have "find_stage ?idx q s = (if clashes p q then None else find_stage idx q s)" for q s
  proof (cases "path_ok q")
    case True
    then show ?thesis
      using find_stage_filter(2) [OF assms(1), of ?P q s] P [OF True] by simp
  next
    case False
    then have "find_stage idx q s = None"
      using assms(1) by (auto simp: find_stage_None index_wf_def)
    then show ?thesis
      using find_stage_filter(2) [OF assms(1), of ?P q s] by simp
  qed
  ultimately show ?thesis
    using find_stage_filter(1) [OF assms(1), of ?P] by blast
qed

lemma skip_same_set: "set (skip_same seen es) \<union> set_option seen = ie_path ` set es \<union> set_option seen"
  by (induction seen es rule: skip_same.induct) auto

lemma index_queries:
  assumes "index_wf idx"
  shows "index_entry_of idx q = find_stage idx q 0"
    "is_unmerged idx q \<longleftrightarrow> (\<exists>s. s \<noteq> 0 \<and> find_stage idx q s \<noteq> None)"
    "has_conflicts idx \<longleftrightarrow> (\<exists>q. is_unmerged idx q)"
    "q \<in> set (unmerged_paths idx) \<longleftrightarrow> is_unmerged idx q"
  using skip_same_set [of None]
  by (auto simp: index_entry_of_def find_stage_def is_unmerged_def has_conflicts_def unmerged_paths_def list_ex_iff find_None_iff)

lemma conflict_of_stages:
  "conflict_of idx q = (if find_stage idx q 1 = None \<and> find_stage idx q 2 = None \<and> find_stage idx q 3 = None then None
     else Some \<lparr>conflict_base = find_stage idx q 1, conflict_ours = find_stage idx q 2, conflict_theirs = find_stage idx q 3\<rparr>)"
  by (simp add: conflict_of_def Let_def)

section \<open>Properties\<close>



end
