(* ===== verification/Git_Index_File.thy ===== *)
theory Git_Index_File
  imports Git_Index_Correct
begin

text \<open>
  The index file: what \<open>write_v4\<close> writes is read back field by field. A reader at position \<open>c\<close> is
  described by what lies from \<open>c\<close> on, so the fields of an entry chain.
\<close>

section \<open>Fields\<close>

lemma get_range_at:
  assumes "drop c bs = m @ r" "length m = n" "0 < n"
  shows "get_range bs c (c + n) = Some m" "drop (c + n) bs = r"
proof -
  have "c < length bs"
    using assms by (cases "c < length bs") auto
  then have bs: "bs = take c bs @ m @ r" "length (take c bs) = c"
    using append_take_drop_id [of c bs] assms(1) by simp_all
  show "get_range bs c (c + n) = Some m"
    using get_range_append [OF bs(2) assms(2), of r] bs(1) by simp
  show "drop (c + n) bs = r"
    using assms(1,2) drop_drop [of n c bs] by (simp add: add.commute)
qed

lemma read_u32_at:
  assumes "drop c bs = to_be32 w @ r"
  shows "read_u32 bs c = Inr (w, c + 4)" "drop (c + 4) bs = r"
  using get_range_at [OF assms] by (simp_all add: read_u32_def)

lemma length_to_be16 [simp]: "length (to_be16 w) = 2"
  by (simp add: to_be16_def)

lemma from_to_be16 [simp]: "from_be16 (to_be16 w) = w"
  using unat_bound [of w] by (simp add: from_be16_def to_be16_def be_val_be_bytes)

lemma read_u16_at:
  assumes "drop c bs = to_be16 w @ r"
  shows "read_u16 bs c = Inr (w, c + 2)" "drop (c + 2) bs = r"
  using get_range_at [OF assms] by (simp_all add: read_u16_def)

lemma read_oid_at:
  assumes "drop c bs = id_bytes i @ r" "id_ok H i" "hash_ok H"
  shows "read_oid H bs c = Inr (i, c + raw_len H)" "drop (c + raw_len H) bs = r"
  using get_range_at [OF assms(1), of "raw_len H"] hash_ok_pos [OF assms(3)] assms(2)
  by (simp_all add: read_oid_def id_ok_def)

lemma read_until_nul_at:
  assumes "drop c bs = nm @ 0 # r" "0 \<notin> set nm"
  shows "read_until_nul bs c = Inr (nm, c + length nm + 1)" "drop (c + length nm + 1) bs = r"
proof -
  have c: "c + length nm < length bs"
    using arg_cong [OF assms(1), of length] by simp
  have p: "position (\<lambda>b. b = 0) (nm @ 0 # r) = Some (length nm)"
    by (rule position_append_first) (use assms(2) in auto)
  have len: "length bs - c = length nm + Suc (length r)"
    using arg_cong [OF assms(1), of length] by simp
  have s: "slice bs c (length bs) = (Inr (nm @ 0 # r) :: bytes ires)"
    using c len assms(1) by (simp add: slice_ok)
  have "slice bs c (c + length nm) = (Inr nm :: bytes ires)"
    using c assms(1) by (simp add: slice_ok)
  then show "read_until_nul bs c = Inr (nm, c + length nm + 1)"
    using s p by (simp add: read_until_nul_def)
  show "drop (c + length nm + 1) bs = r"
    using assms(1) drop_drop [of "length nm + 1" c bs] by (simp add: add.commute add.left_commute)
qed

text \<open>The path varint is the pack's base offset, in wrapping arithmetic.\<close>

lemma push_mod: "push_bit 7 x mod 2 ^ 64 = push_bit 7 (x mod 2 ^ 57)" for x :: nat
  by (simp add: push_bit_eq_mult mult_mod_left)

lemma varint_rest_offset:
  "offset_rest bs b c off = Inr (v, e) \<Longrightarrow> varint_rest bs b c (word_of_nat off) = Inr (v mod 2 ^ 64, e)"
proof (induction bs b c off rule: offset_rest.induct)
  case (1 bs b c off)
  show ?case
  proof (cases "b AND 0x80 = 0")
    case True
    then show ?thesis
      using "1.prems" by (subst varint_rest.simps) (simp add: offset_rest.simps [of bs b c off] unat_of_nat)
  next
    case False
    note prem = "1.prems" [unfolded offset_rest.simps [of bs b c off] if_not_P [OF False]]
    have c: "c < length bs"
      using prem by (auto simp: pack_next_def split: if_splits)
    let ?b = "bs ! c" and ?n = "push_bit 7 (off + 1) mod usize_lim"
    have s: "Option.bind (checked_add off 1) (\<lambda>n. checked_shl n 7) = Some ?n"
      using prem c by (auto simp: pack_next_def ebind_eq_Inr checked_shl_def bind_eq_Some_conv)
    have r: "offset_rest bs ?b (c + 1) (?n OR unat (?b AND 0x7f)) = Inr (v, e)"
      using prem c by (auto simp: pack_next_def ebind_eq_Inr checked_shl_def bind_eq_Some_conv)
    have ih: "varint_rest bs ?b (c + 1) (word_of_nat (?n OR unat (?b AND 0x7f))) = Inr (v mod 2 ^ 64, e)"
      by (rule "1.IH" [OF False _ refl _ r]) (use c s in \<open>simp_all add: pack_next_def\<close>)
    have "(word_of_nat (?n OR unat (?b AND 0x7f)) :: u64) = push_bit 7 (word_of_nat off + 1) + ucast (?b AND 0x7f)"
    proof -
      have "push_bit 7 (off + 1) mod 2 ^ 64 = push_bit 7 ((off + 1) mod 2 ^ 57)"
        by (rule push_mod)
      then have "?n OR unat (?b AND 0x7f) = ?n + unat (?b AND 0x7f)"
        using push_or_take [of "(off + 1) mod 2 ^ 57" "unat ?b"]
        by (simp add: byte_and_7f unsigned_take_bit_eq usize_lim_def push_bit_eq_mult)
      moreover have "(word_of_nat ?n :: u64) = word_of_nat (push_bit 7 (off + 1))"
        by (simp add: word_of_nat_eq_iff take_bit_eq_mod usize_lim_def)
      ultimately show ?thesis
        by (simp add: push_bit_eq_mult)
    qed
    then show ?thesis
      using ih False c by (subst varint_rest.simps) (simp add: index_byte_def)
  qed
qed

lemma decode_varint_at:
  assumes "drop c bs = encode_varint v @ r" "v < usize_lim"
  shows "decode_varint bs c = Inr (v, c + length (encode_varint v))" "drop (c + length (encode_varint v)) bs = r"
proof -
  have e: "encode_varint v = offset_bytes v" "encode_varint v \<noteq> []"
    by (simp_all add: encode_varint_def offset_bytes_def write_offset_def)
  then have c: "c < length bs"
    using assms(1) by (cases "c < length bs") auto
  then have bs: "bs = take c bs @ offset_bytes v @ r" "length (take c bs) = c"
    using append_take_drop_id [of c bs] assms(1) e(1) by simp_all
  have "read_offset bs c = Inr (v, c + length (encode_varint v))"
    using read_offset_bytes [OF assms(2), of "take c bs" r] bs e(1) by simp
  then have "offset_rest bs (bs ! c) (c + 1) (unat (bs ! c AND 0x7f)) = Inr (v, c + length (encode_varint v))"
    using c by (simp add: read_offset_def pack_next_def)
  then have "varint_rest bs (bs ! c) (c + 1) (ucast (bs ! c AND 0x7f)) = Inr (v, c + length (encode_varint v))"
    using varint_rest_offset assms(2) by (fastforce simp: usize_lim_def)
  then show "decode_varint bs c = Inr (v, c + length (encode_varint v))"
    using c by (simp add: decode_varint_def index_byte_def)
  show "drop (c + length (encode_varint v)) bs = r"
    using assms(1) drop_drop [of "length (encode_varint v)" c bs] by (simp add: add.commute)
qed

lemma read_stat_at:
  assumes "drop c bs = concat (map to_be32 (stat_fields e)) @ r"
  shows "read_stat bs c = Inr (ie_stat e, ie_mode e, c + 40)" "drop (c + 40) bs = r"
proof -
  let ?s = "ie_stat e"
  note 0 = assms [unfolded stat_fields_def Let_def list.map concat.simps append_assoc append_Nil]
  note 1 = read_u32_at [OF 0]
  note 2 = read_u32_at [OF 1(2)]
  note 3 = read_u32_at [OF 2(2)]
  note 4 = read_u32_at [OF 3(2)]
  note 5 = read_u32_at [OF 4(2)]
  note 6 = read_u32_at [OF 5(2)]
  note 7 = read_u32_at [OF 6(2)]
  note 8 = read_u32_at [OF 7(2)]
  note 9 = read_u32_at [OF 8(2)]
  note 10 = read_u32_at [OF 9(2)]
  show "read_stat bs c = Inr (ie_stat e, ie_mode e, c + 40)"
    unfolding read_stat_def
    by (simp only: 1(1) 2(1) 3(1) 4(1) 5(1) 6(1) 7(1) 8(1) 9(1) 10(1) ebind_simps prod.case) simp
  show "drop (c + 40) bs = r"
    using 10(2) by (simp add: add.commute)
qed

lemma flag_bits:
  fixes w :: "16 word"
  shows "w AND 0x8000 \<noteq> 0 \<longleftrightarrow> bit w 15" "w AND 0x4000 \<noteq> 0 \<longleftrightarrow> bit w 14" "w AND 0x2000 \<noteq> 0 \<longleftrightarrow> bit w 13"
  using bit_iff_and_push_bit_not_eq_0 [of w 15] bit_iff_and_push_bit_not_eq_0 [of w 14] bit_iff_and_push_bit_not_eq_0 [of w 13]
  by simp_all

lemma entry_flag_bits:
  assumes "unat (ie_stage e) \<le> 3"
  shows "entry_flags e n AND 0x8000 \<noteq> 0 \<longleftrightarrow> assume_valid e"
    "entry_flags e n AND 0x4000 \<noteq> 0 \<longleftrightarrow> skip_worktree e \<or> intent_to_add e"
    "ucast (drop_bit 12 (entry_flags e n) AND 0x3) = ie_stage e"
proof -
  define l where "l = (word_of_nat (min n 0xFFF) :: 16 word)"
  have l: "\<not> bit l k" if "12 \<le> k" for k
  proof -
    have "unat l \<le> 0xFFF"
      by (simp add: l_def unat_of_nat)
    then have "take_bit 12 l = l"
      by (simp add: word_unat_eq_iff unsigned_take_bit_eq take_bit_nat_eq_self)
    then show ?thesis
      using that by (metis bit_take_bit_iff not_less)
  qed
  have st: "\<not> bit (ie_stage e) k" if "2 \<le> k" for k
  proof -
    have "take_bit 2 (ie_stage e) = ie_stage e"
      using assms by (simp add: word_unat_eq_iff unsigned_take_bit_eq take_bit_nat_eq_self)
    then show ?thesis
      using that by (metis bit_take_bit_iff not_less)
  qed
  have bits: "bit (entry_flags e n) k \<longleftrightarrow> bit l k \<or> (12 \<le> k \<and> bit (ie_stage e) (k - 12)) \<or> (k = 15 \<and> assume_valid e)
      \<or> (k = 14 \<and> (skip_worktree e \<or> intent_to_add e))" if "k < 16" for k
  proof -
    have c: "bit (0x8000 :: 16 word) k \<longleftrightarrow> k = 15" "bit (0x4000 :: 16 word) k \<longleftrightarrow> k = 14"
      using bit_exp_iff [of 15 k, where ?'a = "16 word"] bit_exp_iff [of 14 k, where ?'a = "16 word"] that by auto
    have u: "bit (push_bit 12 (ucast (ie_stage e) :: 16 word)) k \<longleftrightarrow> 12 \<le> k \<and> bit (ie_stage e) (k - 12)"
      using that st [of "k - 12"] by (auto simp: bit_push_bit_iff bit_ucast_iff)
    show ?thesis
      unfolding entry_flags_def Let_def l_def [symmetric]
      by (cases "assume_valid e"; cases "skip_worktree e \<or> intent_to_add e")
        (simp_all only: if_True if_False bit_or_iff c u, auto)
  qed
  show "entry_flags e n AND 0x8000 \<noteq> 0 \<longleftrightarrow> assume_valid e"
    "entry_flags e n AND 0x4000 \<noteq> 0 \<longleftrightarrow> skip_worktree e \<or> intent_to_add e"
    using l st by (simp_all add: flag_bits bits)
  show "ucast (drop_bit 12 (entry_flags e n) AND 0x3) = ie_stage e"
  proof (rule bit_word_eqI)
    fix k assume k: "k < LENGTH(8)"
    have three: "bit (3 :: 16 word) k \<longleftrightarrow> k < 2"
      using bit_mask_iff [of 2 k, where ?'a = "16 word"] k by (auto simp: mask_numeral)
    have "bit (ucast (drop_bit 12 (entry_flags e n) AND 0x3) :: byte) k \<longleftrightarrow> bit (entry_flags e n) (12 + k) \<and> k < 2"
      using k three by (auto simp: bit_ucast_iff bit_and_iff bit_drop_bit_eq)
    also have "\<dots> \<longleftrightarrow> bit (ie_stage e) k"
    proof (cases "k < 2")
      case True
      then have "12 + k < 16" "12 + k \<noteq> 15" "12 + k \<noteq> 14"
        by linarith+
      then show ?thesis
        unfolding bits [OF \<open>12 + k < 16\<close>] using l [of "12 + k"] True by simp
    next
      case False
      then have "\<not> bit (ie_stage e) k"
        by (intro st) linarith
      then show ?thesis
        using False by blast
    qed
    finally show "bit (ucast (drop_bit 12 (entry_flags e n) AND 0x3) :: byte) k \<longleftrightarrow> bit (ie_stage e) k" .
  qed
qed

lemma extended_flag_bits:
  "((if a then 0x4000 else 0) OR (if b then 0x2000 else 0)) AND 0x4000 \<noteq> (0 :: 16 word) \<longleftrightarrow> a"
  "((if a then 0x4000 else 0) OR (if b then 0x2000 else 0)) AND 0x2000 \<noteq> (0 :: 16 word) \<longleftrightarrow> b"
  by (cases a; cases b; simp)+

lemma read_flags_at:
  assumes "drop c bs = to_be16 (entry_flags e n) @ extended_flags e @ r" "unat (ie_stage e) \<le> 3"
  shows "read_flags bs 4 c = Inr (assume_valid e, ie_stage e, skip_worktree e, intent_to_add e, c + 2 + length (extended_flags e))"
    "drop (c + 2 + length (extended_flags e)) bs = r"
proof -
  note 1 = read_u16_at [OF assms(1)] and f = entry_flag_bits [OF assms(2), of n]
  have "read_flags bs 4 c = Inr (assume_valid e, ie_stage e, skip_worktree e, intent_to_add e, c + 2 + length (extended_flags e))
    \<and> drop (c + 2 + length (extended_flags e)) bs = r"
  proof (cases "skip_worktree e \<or> intent_to_add e")
    case True
    note 2 = read_u16_at [OF 1(2) [unfolded extended_flags_def if_P [OF True]]]
    show ?thesis
      unfolding read_flags_def 1(1) using True 2
      by (simp only: ebind_simps prod.case Let_def f extended_flag_bits if_True extended_flags_def length_to_be16) simp
  next
    case False
    then show ?thesis
      unfolding read_flags_def 1(1) using 1(2)
      by (simp only: ebind_simps prod.case Let_def f if_False extended_flags_def) simp
  qed
  then show "read_flags bs 4 c = Inr (assume_valid e, ie_stage e, skip_worktree e, intent_to_add e, c + 2 + length (extended_flags e))"
    "drop (c + 2 + length (extended_flags e)) bs = r"
    by blast+
qed

lemma common_prefix_take:
  "take (common_prefix a b) a = take (common_prefix a b) b" "common_prefix a b \<le> length a" "common_prefix a b \<le> length b"
proof -
  have le: "common_prefix a b \<le> min (length a) (length b)"
    using length_takeWhile_le [of "\<lambda>(x, y). x = y" "zip a b"] by (simp add: common_prefix_def)
  then show "common_prefix a b \<le> length a" "common_prefix a b \<le> length b"
    by simp_all
  show "take (common_prefix a b) a = take (common_prefix a b) b"
  proof (rule nth_equalityI)
    fix i assume "i < length (take (common_prefix a b) a)"
    then have i: "i < common_prefix a b"
      by simp
    then have "(\<lambda>(x, y). x = y) (zip a b ! i)"
      using nth_mem [of i "takeWhile (\<lambda>(x, y). x = y) (zip a b)"] takeWhile_nth [of i "\<lambda>(x, y). x = y" "zip a b"]
      by (metis common_prefix_def set_takeWhileD)
    then show "take (common_prefix a b) a ! i = take (common_prefix a b) b ! i"
      using i le by simp
  qed (use le in simp)
qed

lemma read_path_at:
  assumes "drop c bs = encode_varint (length prev - common_prefix prev nm) @ drop (common_prefix prev nm) nm @ 0 # r"
    "0 \<notin> set nm" "length prev < usize_lim"
  defines "c' \<equiv> c + length (encode_varint (length prev - common_prefix prev nm)) + length (drop (common_prefix prev nm) nm) + 1"
  shows "read_path bs 4 s c prev = Inr (nm, c')" "drop c' bs = r"
proof -
  let ?k = "common_prefix prev nm"
  note k = common_prefix_take [of prev nm]
  have "length prev - ?k < usize_lim"
    using assms(3) by simp
  note 1 = decode_varint_at [OF assms(1) this]
  have "0 \<notin> set (drop ?k nm)"
    using assms(2) by (auto dest: in_set_dropD)
  note 2 = read_until_nul_at [OF 1(2) this]
  have "ok_or (checked_sub (length prev) (length prev - ?k)) MalformedIndex = (Inr ?k :: nat ires)"
    using k(2) by (simp add: checked_sub_def)
  moreover have "slice prev 0 ?k = (Inr (take ?k nm) :: bytes ires)"
    using k(1,2) by (simp add: slice_ok)
  ultimately show "read_path bs 4 s c prev = Inr (nm, c')"
    unfolding read_path_def c'_def if_P [OF refl] 1(1) ebind_simps prod.case 2(1)
    by (simp only: ebind_simps k(1) append_take_drop_id)
  show "drop c' bs = r"
    unfolding c'_def by (rule 2(2))
qed

section \<open>The file\<close>

definition entry_ok :: "hash_alg \<Rightarrow> index_entry \<Rightarrow> bool" where
  "entry_ok H e \<longleftrightarrow> path_ok (ie_path e) \<and> id_ok H (ie_oid e) \<and> unat (ie_stage e) \<le> 3 \<and> length (serialized_name e) < usize_lim"

lemma serialized_name_free: "path_ok (ie_path e) \<Longrightarrow> 0 \<notin> set (serialized_name e)"
  using path_ok_no_slash(2) [of "ie_path e"] by (simp add: serialized_name_def)

lemma canonical_serialized:
  assumes "path_ok (ie_path e)"
  shows "path_from_bytes (canonical_name (ie_mode e) (serialized_name e)) = Inr (ie_path e)"
proof -
  have "canonical_name (ie_mode e) (serialized_name e) = path_bytes (ie_path e)"
    by (simp add: canonical_name_def serialized_name_def)
  then show ?thesis
    using assms by (simp add: path_ok_def)
qed

lemma read_index_entry_at:
  assumes "drop c bs = write_index_entry prev e @ r" "entry_ok H e" "hash_ok H" "length prev < usize_lim"
  shows "read_index_entry H bs 4 c prev = Inr (e, serialized_name e, c + length (write_index_entry prev e))"
    "drop (c + length (write_index_entry prev e)) bs = r"
proof -
  have ok: "path_ok (ie_path e)" "id_ok H (ie_oid e)" "unat (ie_stage e) \<le> 3"
    using assms(2) by (simp_all add: entry_ok_def)
  note 0 = assms(1) [unfolded write_index_entry_def Let_def append_assoc append_Cons append_Nil]
  note 1 = read_stat_at [OF 0]
  note 2 = read_oid_at [OF 1(2) ok(2) assms(3)]
  note 3 = read_flags_at [OF 2(2) ok(3)]
  note 4 = read_path_at [OF 3(2) serialized_name_free [OF ok(1)] assms(4)]
  have len: "length (write_index_entry prev e) = 40 + raw_len H + 2 + length (extended_flags e)
      + length (encode_varint (length prev - common_prefix prev (serialized_name e)))
      + length (drop (common_prefix prev (serialized_name e)) (serialized_name e)) + 1"
    using ok(2) by (simp add: write_index_entry_def Let_def stat_fields_def id_ok_def)
  show "read_index_entry H bs 4 c prev = Inr (e, serialized_name e, c + length (write_index_entry prev e))"
    unfolding read_index_entry_def len
    by (simp only: 1(1) 2(1) 3(1) 4(1) ebind_simps prod.case canonical_serialized [OF ok(1)] map_err.simps)
      (simp add: add.assoc del: length_drop)
  show "drop (c + length (write_index_entry prev e)) bs = r"
    using 4(2) unfolding len by (simp add: ac_simps)
qed

lemma read_index_entries_at:
  "drop c bs = write_index_entries prev es @ r \<Longrightarrow> \<forall>e \<in> set es. entry_ok H e \<Longrightarrow> hash_ok H \<Longrightarrow> length prev < usize_lim
    \<Longrightarrow> read_index_entries H bs 4 (length es) c prev acc = Inr (acc @ es, c + length (write_index_entries prev es))"
proof (induction es arbitrary: c prev acc)
  case (Cons e es)
  have e: "entry_ok H e" "length (serialized_name e) < usize_lim"
    using Cons.prems(2) by (simp_all add: entry_ok_def)
  have "drop c bs = write_index_entry prev e @ write_index_entries (serialized_name e) es @ r"
    using Cons.prems(1) by simp
  note 1 = read_index_entry_at [OF this e(1) Cons.prems(3,4)]
  show ?case
    using 1(1) Cons.IH [OF 1(2) _ Cons.prems(3) e(2), of "acc @ [e]"] Cons.prems(2) by (simp add: add.assoc)
qed simp

lemma parse_with_link_parts:
  assumes "length bs = l + raw_len H" "12 \<le> l" "take 4 bs = ascii ''DIRC''" "slice bs 4 8 = (Inr (to_be32 4) :: bytes ires)"
    "slice bs 8 12 = (Inr (to_be32 w) :: bytes ires)" "digest H (take l bs) = drop l bs"
    "read_index_entries H bs 4 (unat w) 12 [] [] = Inr (es, cur)" "read_extensions H bs l cur None = Inr link"
  shows "parse_with_link H bs = Inr (\<lparr>index_entries = es\<rparr>, link)"
proof -
  have "\<not> (length bs < 12 + raw_len H \<or> take 4 bs \<noteq> ascii ''DIRC'')" "length bs - raw_len H = l"
    using assms(1-3) by auto
  then show ?thesis
    unfolding parse_with_link_def
    by (simp only: if_False assms(4,5) ebind_simps Let_def from_to_be32) (simp add: assms(6-8))
qed

lemma parse_written:
  assumes "hash_ok H" "\<forall>e \<in> set (index_entries idx). entry_ok H e" "length (index_entries idx) < 2 ^ 32"
  shows "parse_with_link H (write_v4 H idx) = Inr (\<lparr>index_entries = sort_key entry_key (index_entries idx)\<rparr>, None)"
proof -
  let ?es = "sort_key entry_key (index_entries idx)"
  let ?w = "write_index_entries [] ?es"
  let ?h = "ascii ''DIRC'' @ to_be32 4 @ to_be32 (word_of_nat (length ?es))"
  let ?out = "?h @ ?w"
  let ?bs = "?out @ digest H ?out"
  have bs: "write_v4 H idx = ?bs"
    by (simp only: write_v4_def Let_def append_assoc)
  have len: "length (digest H ?out) = raw_len H" "length ?h = 12"
    using hash_ok_length [OF assms(1), of ?out] by simp_all
  have v: "slice ?bs 4 8 = (Inr (to_be32 4) :: bytes ires)"
    using slice_append [of "ascii ''DIRC''" 4 "to_be32 4" 8 "to_be32 (word_of_nat (length ?es)) @ ?w @ digest H ?out"] by simp
  have c: "slice ?bs 8 12 = (Inr (to_be32 (word_of_nat (length ?es))) :: bytes ires)"
    using slice_append [of "ascii ''DIRC'' @ to_be32 4" 8 "to_be32 (word_of_nat (length ?es))" 12 "?w @ digest H ?out"] by simp
  have n: "unat (word_of_nat (length ?es) :: u32) = length ?es"
    using assms(3) by (simp add: unat_of_nat)
  have "drop 12 ?bs = ?w @ digest H ?out"
    using len(2) by (simp del: ascii_Cons)
  then have es: "read_index_entries H ?bs 4 (length ?es) 12 [] [] = Inr ([] @ ?es, 12 + length ?w)"
    by (rule read_index_entries_at) (use assms in \<open>simp_all add: usize_lim_def\<close>)
  have l: "length ?out = 12 + length ?w"
    using len(2) by simp
  show ?thesis
    unfolding bs
  proof (rule parse_with_link_parts)
    show "length ?bs = length ?out + raw_len H" "12 \<le> length ?out"
      using len by simp_all
    show "take 4 ?bs = ascii ''DIRC''"
      by simp
    show "digest H (take (length ?out) ?bs) = drop (length ?out) ?bs"
      using append_eq_conv_conj [THEN iffD1, OF refl, of ?out "digest H ?out"] by metis
    show "read_index_entries H ?bs 4 (unat (word_of_nat (length ?es) :: u32)) 12 [] [] = Inr (?es, 12 + length ?w)"
      using es unfolding n by simp
    show "read_extensions H ?bs (length ?out) (12 + length ?w) None = Inr None"
      by (subst read_extensions.simps) (simp add: l)
  qed (rule v c)+
qed

lemma sort_key_index_sorted:
  assumes "index_sorted idx"
  shows "sort_key entry_key (index_entries idx) = index_entries idx"
proof (rule sort_key_id_if_sorted)
  show "sorted (map entry_key (index_entries idx))"
    unfolding sorted_map by (rule sorted_wrt_mono_rel [OF _ assms [unfolded index_sorted_def]]) auto
qed

section \<open>Reading is safe\<close>

lemma no_panic_read_u32 [simp]: "no_panic (read_u32 bs c)"
  by (auto simp: read_u32_def)

lemma no_panic_read_u16 [simp]: "no_panic (read_u16 bs c)"
  by (auto simp: read_u16_def)

lemma no_panic_read_oid [simp]: "no_panic (read_oid H bs c)"
  unfolding read_oid_def by (intro no_panic_intros) simp_all

lemma read_oid_ok: "read_oid H bs c = Inr (i, c') \<Longrightarrow> id_ok H i"
  by (auto simp: read_oid_def ebind_eq_Inr from_bytes_Inr id_ok_def)

lemma read_u16_cursor: "read_u16 bs c = Inr (w, c') \<Longrightarrow> c' \<le> length bs"
  by (auto simp: read_u16_def ebind_eq_Inr get_range_eq_Some)

lemma no_panic_read_until_nul: "c \<le> length bs \<Longrightarrow> no_panic (read_until_nul bs c)"
  unfolding read_until_nul_def
  by (intro no_panic_intros) (auto simp: slice_ok dest: position_less)

lemma no_panic_varint_rest: "no_panic (varint_rest bs b c v)"
proof (induction bs b c v rule: varint_rest.induct)
  case (1 bs b c v)
  then show ?case
    by (subst varint_rest.simps) (auto simp: index_byte_def)
qed

lemma varint_rest_cursor: "varint_rest bs b c v = Inr (x, c') \<Longrightarrow> c \<le> length bs \<Longrightarrow> c' \<le> length bs"
proof (induction bs b c v rule: varint_rest.induct)
  case (1 bs b c v)
  then show ?case
    by (subst (asm) (2) varint_rest.simps) (auto simp: index_byte_def split: if_splits)
qed

lemma no_panic_decode_varint [simp]: "no_panic (decode_varint bs c)"
  using no_panic_varint_rest by (auto simp: decode_varint_def index_byte_def)

lemma decode_varint_cursor: "decode_varint bs c = Inr (x, c') \<Longrightarrow> c' \<le> length bs"
  using varint_rest_cursor by (fastforce simp: decode_varint_def index_byte_def split: if_splits)

lemma no_panic_read_stat [simp]: "no_panic (read_stat bs c)"
  unfolding read_stat_def by (intro no_panic_intros) simp_all

lemma no_panic_read_flags [simp]: "no_panic (read_flags bs v c)"
  unfolding read_flags_def by (intro no_panic_intros) simp_all

lemma read_flags_cursor:
  assumes "read_flags bs v c = Inr (a, st, sk, ita, c')"
  shows "c' \<le> length bs" "unat st \<le> 3"
proof -
  have "unat (ucast (drop_bit 12 w AND 3) :: byte) \<le> 3" for w :: "16 word"
  proof -
    have "unat (drop_bit 12 w AND 3) \<le> 3"
      using word_and_le1 [of "drop_bit 12 w" 3] by (simp add: word_le_nat_alt)
    then show ?thesis
      by (simp add: unsigned_ucast_eq take_bit_nat_eq_self le_less_trans)
  qed
  then show "c' \<le> length bs" "unat st \<le> 3"
    using assms by (auto simp: read_flags_def ebind_eq_Inr Let_def dest!: read_u16_cursor split: if_splits)
qed

lemma no_panic_read_path: "c \<le> length bs \<Longrightarrow> no_panic (read_path bs v s c prev)"
  unfolding read_path_def
  by (intro no_panic_intros no_panic_decode_varint no_panic_ok_or no_panic_read_until_nul)
    (auto dest: decode_varint_cursor simp: slice_ok)

lemma no_panic_path_from_bytes [simp]: "no_panic (path_from_bytes bs)"
proof -
  have "no_panic (check_components cs)" for cs
    by (induction cs) simp_all
  then show ?thesis
    by (auto simp: path_from_bytes_def validate_path_def)
qed

lemma path_from_bytes_ok: "path_from_bytes bs = Inr p \<Longrightarrow> path_ok p"
  by (auto simp: path_ok_def path_from_bytes_def ebind_eq_Inr)

lemma no_panic_read_index_entry: "no_panic (read_index_entry H bs v c prev)"
  unfolding read_index_entry_def
  by (intro no_panic_intros) (auto intro: no_panic_read_path dest: read_flags_cursor)

definition entry_typed :: "hash_alg \<Rightarrow> index_entry \<Rightarrow> bool" where
  "entry_typed H e \<longleftrightarrow> path_ok (ie_path e) \<and> id_ok H (ie_oid e) \<and> unat (ie_stage e) \<le> 3"

lemma read_index_entry_typed: "read_index_entry H bs v c prev = Inr (e, path, c') \<Longrightarrow> entry_typed H e"
  by (auto simp: read_index_entry_def ebind_eq_Inr entry_typed_def dest: path_from_bytes_ok read_oid_ok read_flags_cursor)

lemma no_panic_read_index_entries: "no_panic (read_index_entries H bs v n c prev es)"
  by (induction n arbitrary: c prev es) (auto intro!: no_panic_intros no_panic_read_index_entry)

lemma read_index_entries_typed:
  "read_index_entries H bs v n c prev acc = Inr (es, c') \<Longrightarrow> \<forall>e \<in> set acc. entry_typed H e
    \<Longrightarrow> length es = length acc + n \<and> (\<forall>e \<in> set es. entry_typed H e)"
proof (induction n arbitrary: c prev acc)
  case (Suc n)
  obtain e path c2 where e: "read_index_entry H bs v c prev = Inr (e, path, c2)"
    "read_index_entries H bs v n c2 path (acc @ [e]) = Inr (es, c')"
    using Suc.prems(1) by (auto simp: ebind_eq_Inr)
  have "\<forall>e \<in> set (acc @ [e]). entry_typed H e"
    using Suc.prems(2) read_index_entry_typed [OF e(1)] by (simp only: set_append list.set ball_Un ball_simps simp_thms)
  from Suc.IH [OF e(2) this] show ?case
    by simp
qed auto

lemma no_panic_parse_link [simp]: "no_panic (parse_link_extension H payload)"
  unfolding parse_link_extension_def
  by (intro no_panic_intros) (auto simp: get_range_eq_Some slice_ok)

lemma parse_link_ok: "parse_link_extension H payload = Inr l \<Longrightarrow> id_ok H (shared_oid l)"
  by (auto simp: parse_link_extension_def ebind_eq_Inr from_bytes_Inr id_ok_def)

lemma no_panic_read_extensions: "l \<le> length bs \<Longrightarrow> no_panic (read_extensions H bs l c link)"
proof (induction H bs l c link rule: read_extensions.induct)
  case (1 H bs l c link)
  show ?case
  proof (cases "c + 8 \<le> l")
    case True
    have sl: "no_panic (slice bs c (c + 4) :: bytes ires)" "no_panic (slice bs (c + 4) (c + 8) :: bytes ires)"
      using True "1.prems" by (simp_all add: slice_ok)
    have pl: "no_panic (slice bs (c + 8) (c + 8 + n) :: bytes ires)" if "c + 8 + n \<le> l" for n
      using that "1.prems" by (simp add: slice_ok)
    show ?thesis
      unfolding read_extensions.simps [of H bs l c link] if_P [OF True] Let_def
      by (intro no_panic_ebind no_panic_if sl pl no_panic_parse_link no_panic_simps)
        (use "1.IH" [OF True _ _ refl refl] "1.prems" in \<open>simp_all\<close>)
  next
    case False
    then show ?thesis
      by (simp add: read_extensions.simps)
  qed
qed

lemma read_extensions_ok:
  "read_extensions H bs l c link = Inr link' \<Longrightarrow> \<forall>x. link = Some x \<longrightarrow> id_ok H (shared_oid x) \<Longrightarrow> link' = Some y \<Longrightarrow> id_ok H (shared_oid y)"
proof (induction H bs l c link rule: read_extensions.induct)
  case (1 H bs l c link)
  show ?case
  proof (cases "c + 8 \<le> l")
    case True
    note r = "1.prems"(1) [unfolded read_extensions.simps [of H bs l c link] if_P [OF True] Let_def]
    then show ?thesis
      using "1.IH" [OF True] "1.prems"(2,3) parse_link_ok
      by (fastforce simp: ebind_eq_Inr Let_def split: if_splits)
  next
    case False
    then show ?thesis
      using "1.prems" by (subst (asm) (1) read_extensions.simps) simp
  qed
qed

lemma parse_with_link_inv:
  assumes "parse_with_link H bs = Inr (idx, link)"
  shows "raw_len H \<le> length bs" "digest H (take (length bs - raw_len H) bs) = drop (length bs - raw_len H) bs"
    "\<exists>c. read_index_entries H bs (from_be32 (take 4 (drop 4 bs))) (unat (from_be32 (take 4 (drop 8 bs)))) 12 [] [] = Inr (index_entries idx, c)
      \<and> read_extensions H bs (length bs - raw_len H) c None = Inr link"
  using assms by (auto simp: parse_with_link_def ebind_eq_Inr Let_def slice_eq_Inr split: if_splits)

lemma no_panic_parse_with_link: "no_panic (parse_with_link H bs)"
  unfolding parse_with_link_def Let_def
  by (intro no_panic_if no_panic_ebind no_panic_case_prod no_panic_simps no_panic_read_index_entries no_panic_read_extensions)
    (auto simp: slice_ok)

section \<open>Split indexes\<close>

lemma replace_entries_at:
  assumes "length ps \<le> length split" "\<forall>p \<in> set ps. unat p < length base" "distinct ps"
  defines "m i \<equiv> (split ! i)\<lparr>ie_path := if path_bytes (ie_path (split ! i)) = [] then ie_path (base ! unat (ps ! i)) else ie_path (split ! i)\<rparr>"
  shows "\<exists>es. replace_entries split (enumerate 0 ps) base = Inr es \<and> length es = length base
    \<and> (\<forall>i < length ps. es ! unat (ps ! i) = m i) \<and> (\<forall>k. k \<notin> unat ` set ps \<longrightarrow> es ! k = base ! k)"
proof -
  have "\<exists>es. replace_entries split (enumerate k qs) cur = Inr es \<and> length es = length base
      \<and> (\<forall>i < length qs. es ! unat (qs ! i) = m (k + i)) \<and> (\<forall>j. j \<notin> unat ` set qs \<longrightarrow> es ! j = cur ! j)"
    if "ps = pre @ qs" "k = length pre" "length cur = length base" "\<forall>p \<in> set qs. cur ! unat p = base ! unat p" for pre qs k cur
    using that
  proof (induction qs arbitrary: pre k cur)
    case (Cons q qs)
    have q: "unat q < length cur" "k < length split" "ps ! k = q" "q \<notin> set qs"
      using Cons.prems assms(1-3) by auto
    let ?cur = "cur[unat q := m k]"
    have "replace_entries split (enumerate k (q # qs)) cur = replace_entries split (enumerate (Suc k) qs) ?cur"
      using q Cons.prems(4) by (simp add: m_def)
    moreover have "\<forall>p \<in> set qs. ?cur ! unat p = base ! unat p"
      using q(4) Cons.prems(4) by (metis list.set_intros(2) nth_list_update_neq word_unat_eq_iff)
    then have "\<exists>es. replace_entries split (enumerate (Suc k) qs) ?cur = Inr es \<and> length es = length base
      \<and> (\<forall>i < length qs. es ! unat (qs ! i) = m (Suc k + i)) \<and> (\<forall>j. j \<notin> unat ` set qs \<longrightarrow> es ! j = ?cur ! j)"
      using Cons.prems by (intro Cons.IH [of "pre @ [q]"]) simp_all
    then obtain es where es: "replace_entries split (enumerate (Suc k) qs) ?cur = Inr es" "length es = length base"
      "\<forall>i < length qs. es ! unat (qs ! i) = m (Suc k + i)" "\<forall>j. j \<notin> unat ` set qs \<longrightarrow> es ! j = ?cur ! j"
      by blast
    have "unat q \<notin> unat ` set qs"
      using q(4) by (metis imageE word_unat_eq_iff)
    then have "es ! unat q = m k"
      using es(4) q(1) by simp
    then have "\<forall>i < length (q # qs). es ! unat ((q # qs) ! i) = m (k + i)"
      using es(3) by (auto simp: nth_Cons split: nat.split)
    ultimately show ?case
      using es by (intro exI [of _ es]) auto
  qed (auto)
  from this [of "[]" ps 0 base] show ?thesis
    by simp
qed

lemma mark_deleted_at:
  "\<forall>p \<in> set ps. unat p < length ds \<Longrightarrow> \<exists>ds'. mark_deleted ps ds = Inr ds' \<and> length ds' = length ds
    \<and> (\<forall>k < length ds. ds' ! k \<longleftrightarrow> ds ! k \<or> k \<in> unat ` set ps)"
proof (induction ps arbitrary: ds)
  case (Cons p ps)
  obtain ds' where "mark_deleted ps (ds[unat p := True]) = Inr ds'" "length ds' = length ds"
      "\<forall>k < length ds. ds' ! k \<longleftrightarrow> (ds[unat p := True]) ! k \<or> k \<in> unat ` set ps"
    using Cons.IH [of "ds[unat p := True]"] Cons.prems by auto
  then show ?case
    using Cons.prems by (intro exI [of _ ds']) (auto simp: nth_list_update)
qed simp

lemma no_panic_replace_entries: "\<forall>(k, p) \<in> set ps. k < length split \<Longrightarrow> no_panic (replace_entries split ps base)"
  by (induction split ps base rule: replace_entries.induct) (auto simp: Let_def)

lemma no_panic_mark_deleted: "no_panic (mark_deleted ps ds)"
  by (induction ps ds rule: mark_deleted.induct) auto

lemma bounded_positions:
  assumes "decode_ewah_bounded bs limit = Inr (bm, n)"
  shows "n \<le> length bs" "\<forall>p \<in> set (set_bits bm). unat p < limit" "distinct (set_bits bm)"
    "unat ` set (set_bits bm) = positions bm"
proof -
  have d: "decode_ewah bs = Inr (bm, n)" and l: "unat (from_be32 (take 4 bs)) \<le> limit"
    using assms by (auto simp: decode_ewah_bounded_def decode_ewah_def ebind_eq_Inr get_range_eq_Some split: if_splits)
  note a = decode_ewah_accepts [OF d]
  then show "n \<le> length bs"
    by blast
  have "length (words bm) \<le> 2 ^ 26"
    using a unat_bound [of "from_be32 (take 4 bs)"] by simp
  note s = set_bits_sorted_list [OF this]
  have fin: "finite (positions bm)"
    using positions_bound finite_subset by blast
  show p: "unat ` set (set_bits bm) = positions bm"
    using arg_cong [OF s, of set] fin by simp
  show "\<forall>p \<in> set (set_bits bm). unat p < limit"
    using p a l by (metis imageI less_le_trans)
  have "distinct (map unat (set_bits bm))"
    unfolding s by simp
  then show "distinct (set_bits bm)"
    by (simp add: distinct_map)
qed

lemma kept_entries:
  "length ds = length es \<Longrightarrow> map fst (filter (\<lambda>(_, dead). \<not> dead) (zip es ds)) = map ((!) es) (filter (\<lambda>k. \<not> ds ! k) [0..<length es])"
proof -
  assume l: "length ds = length es"
  have "zip es ds = map (\<lambda>k. (es ! k, ds ! k)) [0..<length es]"
    using l by (intro nth_equalityI) simp_all
  then show ?thesis
    by (simp add: filter_map o_def)
qed

text \<open>One position in a bitmap of one word, for a concrete link.\<close>

lemma single_positions: "positions (from_words [2 ^ k]) = {k}" if "k < 64"
proof -
  have b: "bit (2 ^ k :: u64) n \<longleftrightarrow> n = k" for n
    unfolding bit_exp_iff using that by auto
  have "p div 64 < 1 \<and> bit ([2 ^ k :: u64] ! (p div 64)) (p mod 64) \<longleftrightarrow> p = k" for p
  proof (cases "p < 64")
    case True
    then have "p div 64 = 0" "p mod 64 = p"
      by simp_all
    then show ?thesis
      by (simp only: nth_Cons_0 b) simp
  next
    case False
    then have "\<not> p div 64 < 1"
      by linarith
    then show ?thesis
      using False that by auto
  qed
  then show ?thesis
    unfolding word_positions_def from_words_def by (simp only: ewah_bitmap.simps list.size One_nat_def [symmetric] add_0 set_eq_iff mem_Collect_eq singleton_iff simp_thms)
qed

lemma single_decodes:
  "k < 64 \<Longrightarrow> decode_ewah_bounded (encode_ewah (from_words [2 ^ k]) @ rest) 64 = Inr (from_words [2 ^ k], length (encode_ewah (from_words [2 ^ k])))"
proof -
  have "from_be32 (take 4 (encode_ewah (from_words [2 ^ k]) @ rest)) = 64"
    by (simp add: encode_ewah_def from_words_def BITS_PER_WORD_def split: prod.split)
  moreover have "decode_ewah (encode_ewah (from_words [2 ^ k]) @ rest) = Inr (from_words [2 ^ k], length (encode_ewah (from_words [2 ^ k])))"
    by (rule decode_encode_ewah) (simp add: ewah_fits_def from_words_def)
  moreover have "12 \<le> length (encode_ewah (from_words [2 ^ k]))"
    by (simp add: encode_ewah_def Let_def split: prod.split)
  ultimately show ?thesis
    by (simp add: decode_ewah_bounded_def get_range_def)
qed

lemma single_set_bits: "k < 64 \<Longrightarrow> set_bits (from_words [2 ^ k]) = [word_of_nat k]"
proof -
  assume k: "k < 64"
  have "map unat (set_bits (from_words [2 ^ k])) = [k]"
    using set_bits_sorted_list [of "from_words [2 ^ k]"] single_positions [OF k] by (simp add: from_words_def)
  then obtain x where "set_bits (from_words [2 ^ k]) = [x]" "unat x = k"
    by auto
  then show ?thesis
    by auto
qed

section \<open>Properties\<close>

text \<open>C7: an index written by \<open>write_v4\<close> parses back, with its checksum verified, to its entries in
  the order of their serialized names and stages, every field of every entry included (stat data, mode,
  id, flags, the path through the prefix compression), and without a split-index link; a sorted index
  comes back as it was.\<close>

theorem index_round_trip:
  assumes "hash_ok H" "\<forall>e \<in> set (index_entries idx). entry_ok H e" "length (index_entries idx) < 2 ^ 32"
  shows "parse_with_link H (write_v4 H idx) = Inr (\<lparr>index_entries = sort_key entry_key (index_entries idx)\<rparr>, None)
    \<and> (index_sorted idx \<longrightarrow> parse_index H (write_v4 H idx) = Inr idx)"
  using parse_written [OF assms] sort_key_index_sorted [of idx] by (simp add: parse_index_def)

theorem index_round_trip_witness:
  "parse_index (sha1 (sum_digest 20)) (write_v4 (sha1 (sum_digest 20)) \<lparr>index_entries =
      [stage_entry (GitPath [0x61, 0x2F, 0x62]) 2 (0x81A4, ObjectId (replicate 20 7))]\<rparr>)
    = Inr \<lparr>index_entries = [stage_entry (GitPath [0x61, 0x2F, 0x62]) 2 (0x81A4, ObjectId (replicate 20 7))]\<rparr>"
proof -
  let ?e = "stage_entry (GitPath [0x61, 0x2F, 0x62]) 2 (0x81A4, ObjectId (replicate 20 7))"
  have p: "path_ok (GitPath [0x61, 0x2F, 0x62])"
    by (simp add: path_ok_def path_from_bytes_def validate_path_def)
  have "entry_ok (sha1 (sum_digest 20)) ?e"
    using p by (simp add: entry_ok_def stage_entry_def id_ok_def sha1_def serialized_name_def usize_lim_def)
  then show ?thesis
    using index_round_trip [of "sha1 (sum_digest 20)" "\<lparr>index_entries = [?e]\<rparr>"] by (simp add: index_sorted_def)
qed

text \<open>C16: reading an index never panics, whatever the bytes and the version. An index it accepts carries
  the digest of its body, has as many entries as its header announces, and every entry is well typed: a
  valid repository path, an id of the hash's width, a stage from 0 to 3; the id of a split-index link is
  of the hash's width too.\<close>

theorem parse_index_typed:
  "no_panic (parse_with_link H bs)
    \<and> (parse_with_link H bs = Inr (idx, link) \<longrightarrow>
        digest H (take (length bs - raw_len H) bs) = drop (length bs - raw_len H) bs
        \<and> length (index_entries idx) = unat (from_be32 (take 4 (drop 8 bs)))
        \<and> (\<forall>e \<in> set (index_entries idx). entry_typed H e)
        \<and> (\<forall>l. link = Some l \<longrightarrow> id_ok H (shared_oid l)))"
proof (intro conjI impI allI)
  show "no_panic (parse_with_link H bs)"
    by (rule no_panic_parse_with_link)
next
  assume p: "parse_with_link H bs = Inr (idx, link)"
  then show "digest H (take (length bs - raw_len H) bs) = drop (length bs - raw_len H) bs"
    by (rule parse_with_link_inv)
  obtain c where c: "read_index_entries H bs (from_be32 (take 4 (drop 4 bs))) (unat (from_be32 (take 4 (drop 8 bs)))) 12 [] []
      = Inr (index_entries idx, c)" "read_extensions H bs (length bs - raw_len H) c None = Inr link"
    using parse_with_link_inv(3) [OF p] by blast
  show "length (index_entries idx) = unat (from_be32 (take 4 (drop 8 bs)))" "\<forall>e \<in> set (index_entries idx). entry_typed H e"
    using read_index_entries_typed [OF c(1)] by simp_all
  show "id_ok H (shared_oid l)" if "link = Some l" for l
    using read_extensions_ok [OF c(2) _ that] by simp
qed

theorem parse_index_typed_witness:
  "\<exists>idx. parse_with_link (sha1 (sum_digest 20)) (write_v4 (sha1 (sum_digest 20)) \<lparr>index_entries = []\<rparr>) = Inr (idx, None)
    \<and> length (index_entries idx) = unat (from_be32 (take 4 (drop 8 (write_v4 (sha1 (sum_digest 20)) \<lparr>index_entries = []\<rparr>))))"
proof -
  have p: "parse_with_link (sha1 (sum_digest 20)) (write_v4 (sha1 (sum_digest 20)) \<lparr>index_entries = []\<rparr>) = Inr (\<lparr>index_entries = []\<rparr>, None)"
    using parse_written [of "sha1 (sum_digest 20)" "\<lparr>index_entries = []\<rparr>"] by simp
  then show ?thesis
    using parse_index_typed [of "sha1 (sum_digest 20)" "write_v4 (sha1 (sum_digest 20)) \<lparr>index_entries = []\<rparr>" "\<lparr>index_entries = []\<rparr>" None]
    by blast
qed

text \<open>C13: merging a split index with its shared index never panics. When both bitmaps decode within the
  shared index and there are enough split entries, the \<open>k\<close>-th replaced position holds the \<open>k\<close>-th
  split entry (under the shared name when it has none), the positions of the delete bitmap are dropped,
  the other split entries are added, and the result is sorted; too few split entries are an error.\<close>

theorem split_index_merge:
  "no_panic (merge_split_index base split link)
    \<and> (decode_ewah_bounded (bitmaps_raw link) (length (index_entries base)) = Inr (D, n) \<longrightarrow>
       decode_ewah_bounded (drop n (bitmaps_raw link)) (length (index_entries base)) = Inr (R, n') \<longrightarrow>
        (if length (index_entries split) < length (set_bits R) then merge_split_index base split link = Inl (Err MalformedIndex)
         else \<exists>idx m. merge_split_index base split link = Inr idx
           \<and> length m = length (index_entries base)
           \<and> (\<forall>i < length (set_bits R). m ! unat (set_bits R ! i) = (index_entries split ! i)\<lparr>ie_path :=
                if path_bytes (ie_path (index_entries split ! i)) = [] then ie_path (index_entries base ! unat (set_bits R ! i))
                else ie_path (index_entries split ! i)\<rparr>)
           \<and> (\<forall>k < length m. k \<notin> positions R \<longrightarrow> m ! k = index_entries base ! k)
           \<and> sorted (map entry_key (index_entries idx))
           \<and> mset (index_entries idx) = mset (map ((!) m) (filter (\<lambda>k. k \<notin> positions D) [0..<length m]))
               + mset (drop (length (set_bits R)) (index_entries split))))"
proof (intro conjI impI)
  let ?bs = "index_entries base" and ?ss = "index_entries split" and ?raw = "bitmaps_raw link"
  have ew: "no_panic (map_err MalformedIndex (decode_ewah_bounded bs l) :: (ewah_bitmap \<times> nat) ires)" for bs l
    using no_panic_decode_ewah [of bs] by (auto simp: decode_ewah_bounded_def)
  show "no_panic (merge_split_index base split link)"
    unfolding merge_split_index_def Let_def
  proof (intro ew no_panic_ebind no_panic_case_prod no_panic_if no_panic_simps no_panic_mark_deleted)
    show "no_panic (slice ?raw n (length ?raw) :: bytes ires)"
      if "map_err MalformedIndex (decode_ewah_bounded ?raw (length ?bs)) = (Inr x :: (ewah_bitmap \<times> nat) ires)" "x = (D, n)" for x D n
      using that bounded_positions(1) by (simp add: slice_ok)
    show "no_panic (replace_entries ?ss (enumerate 0 ps) ?bs)" if "\<not> length ?ss < length ps" for ps
      using that by (intro no_panic_replace_entries) (auto simp: in_set_enumerate_eq)
  qed
next
  let ?bs = "index_entries base" and ?ss = "index_entries split" and ?raw = "bitmaps_raw link"
  assume D: "decode_ewah_bounded ?raw (length ?bs) = Inr (D, n)" and R: "decode_ewah_bounded (drop n ?raw) (length ?bs) = Inr (R, n')"
  note pD = bounded_positions [OF D] and pR = bounded_positions [OF R]
  have sl: "slice ?raw n (length ?raw) = (Inr (drop n ?raw) :: bytes ires)"
    using pD(1) by (simp add: slice_ok)
  show "if length ?ss < length (set_bits R) then merge_split_index base split link = Inl (Err MalformedIndex)
      else \<exists>idx m. merge_split_index base split link = Inr idx \<and> length m = length ?bs
        \<and> (\<forall>i < length (set_bits R). m ! unat (set_bits R ! i) = (?ss ! i)\<lparr>ie_path :=
             if path_bytes (ie_path (?ss ! i)) = [] then ie_path (?bs ! unat (set_bits R ! i)) else ie_path (?ss ! i)\<rparr>)
        \<and> (\<forall>k < length m. k \<notin> positions R \<longrightarrow> m ! k = ?bs ! k)
        \<and> sorted (map entry_key (index_entries idx))
        \<and> mset (index_entries idx) = mset (map ((!) m) (filter (\<lambda>k. k \<notin> positions D) [0..<length m]))
            + mset (drop (length (set_bits R)) ?ss)"
  proof (cases "length ?ss < length (set_bits R)")
    case True
    then show ?thesis
      by (simp add: merge_split_index_def Let_def D R sl)
  next
    case False
    obtain m where m: "replace_entries ?ss (enumerate 0 (set_bits R)) ?bs = Inr m" "length m = length ?bs"
      "\<forall>i < length (set_bits R). m ! unat (set_bits R ! i) = (?ss ! i)\<lparr>ie_path :=
             if path_bytes (ie_path (?ss ! i)) = [] then ie_path (?bs ! unat (set_bits R ! i)) else ie_path (?ss ! i)\<rparr>"
      "\<forall>k. k \<notin> positions R \<longrightarrow> m ! k = ?bs ! k"
      using replace_entries_at [of "set_bits R" ?ss ?bs] pR(2-4) False by auto
    have "\<forall>p \<in> set (set_bits D). unat p < length (replicate (length m) False)"
      using pD(2) m(2) by simp
    then obtain ds where ds: "mark_deleted (set_bits D) (replicate (length m) False) = Inr ds" "length ds = length m"
      "\<forall>k < length m. ds ! k \<longleftrightarrow> k \<in> positions D"
      using mark_deleted_at [of "set_bits D" "replicate (length m) False"] pD(4) by auto
    let ?kept = "map fst (filter (\<lambda>(_, dead). \<not> dead) (zip m ds))"
    let ?idx = "\<lparr>index_entries = sort_key entry_key (?kept @ drop (length (set_bits R)) ?ss)\<rparr>"
    have "merge_split_index base split link = Inr ?idx"
      using False by (simp add: merge_split_index_def Let_def D R sl m(1) ds(1))
    moreover have "?kept = map ((!) m) (filter (\<lambda>k. k \<notin> positions D) [0..<length m])"
      unfolding kept_entries [OF ds(2)] using ds(3) by (intro arg_cong [of _ _ "map ((!) m)"] filter_cong) auto
    ultimately show ?thesis
      unfolding if_not_P [OF False] using m by (intro exI [of _ ?idx] exI [of _ m]) simp
  qed
qed

theorem split_index_merge_witness:
  "\<exists>idx. merge_split_index
      \<lparr>index_entries = replicate 64 (stage_entry (GitPath [0x61]) 0 (0x81A4, ObjectId []))\<rparr>
      \<lparr>index_entries = [stage_entry (GitPath [0x62]) 0 (0x81A4, ObjectId [])]\<rparr>
      \<lparr>shared_oid = ObjectId [], bitmaps_raw = encode_ewah (from_words [2 ^ 5]) @ encode_ewah (from_words [2 ^ 3])\<rparr> = Inr idx
    \<and> length (index_entries idx) = 63"
proof -
  let ?b = "\<lparr>index_entries = replicate 64 (stage_entry (GitPath [0x61]) 0 (0x81A4, ObjectId []))\<rparr> :: git_index"
    and ?s = "\<lparr>index_entries = [stage_entry (GitPath [0x62]) 0 (0x81A4, ObjectId [])]\<rparr> :: git_index"
    and ?l = "\<lparr>shared_oid = ObjectId [], bitmaps_raw = encode_ewah (from_words [2 ^ 5]) @ encode_ewah (from_words [2 ^ 3])\<rparr>"
  have d: "decode_ewah_bounded (bitmaps_raw ?l) (length (index_entries ?b)) = Inr (from_words [2 ^ 5], length (encode_ewah (from_words [2 ^ 5])))"
    using single_decodes [of 5 "encode_ewah (from_words [2 ^ 3])"] by (simp only: split_index_link.simps git_index.simps length_replicate)
  have r: "decode_ewah_bounded (drop (length (encode_ewah (from_words [2 ^ 5]))) (bitmaps_raw ?l)) (length (index_entries ?b))
      = Inr (from_words [2 ^ 3], length (encode_ewah (from_words [2 ^ 3])))"
    using single_decodes [of 3 "[]"]
    by (simp only: split_index_link.simps git_index.simps length_replicate append_eq_conv_conj [THEN iffD1, OF refl, THEN conjunct2, symmetric] append_Nil2)
  have "set_bits (from_words [2 ^ 3]) = [word_of_nat 3]"
    by (rule single_set_bits) simp
  then have one: "length (set_bits (from_words [2 ^ 3])) = 1"
    by (simp only: list.size add_0 One_nat_def)
  have two: "positions (from_words [2 ^ 5]) = {5}"
    by (rule single_positions) simp
  obtain idx m where m: "merge_split_index ?b ?s ?l = Inr idx" "length m = length (index_entries ?b)"
    "mset (index_entries idx) = mset (map ((!) m) (filter (\<lambda>k. k \<notin> positions (from_words [2 ^ 5])) [0..<length m]))
       + mset (drop (length (set_bits (from_words [2 ^ 3]))) (index_entries ?s))"
    using split_index_merge [of ?b ?s ?l, THEN conjunct2, rule_format, OF d r] unfolding one by auto
  have "{k. k < 64 \<and> k \<noteq> 5} = {..<64} - {5 :: nat}"
    by auto
  then have "card {k. k < 64 \<and> k \<noteq> (5 :: nat)} = 63"
    by simp
  then have "length (index_entries idx) = 63"
    using arg_cong [OF m(3), of size] m(2) unfolding one two by simp
  then show ?thesis
    using m(1) by blast
qed

end
