(* ===== verification/Git_Revision.thy ===== *)
theory Git_Revision
  imports Git_Commit Git_Tag Git_Enumerate Git_Path "HOL-Library.Product_Lexorder"
begin

text \<open>
  Revisions of \<open>gitana-repository/src/revision.rs\<close>, with the shallow boundary of
  \<open>shallow.rs\<close>: peeling, the parents of a commit, the date-ordered walk of \<open>rev-list\<close> and the
  grammar of \<open>rev-parse\<close>. The repository is a record of its readers at one moment: the objects, the
  refs and the files of the git directory are storage behind asynchronous interfaces. Of the object
  store's errors, only the absence of an object is told apart. A loop that
  follows ids read from the store has an option as its value, \<open>None\<close> when it does not return.
\<close>

section \<open>The repository as it is read\<close>

datatype repo_error =
    ObjectError object_error
  | ObjectNotFound
  | StoreError
  | UnsupportedFormat
  | InvalidRef
  | InvalidRevisionEncoding bytes
  | InvalidTreePath bytes path_error
  | MissingTreePath git_path object_id
  | TreePathComponentNotDirectory git_path git_path
  | TreePathNotDirectory bytes
  | UnknownRevision bytes
  | AmbiguousRevision bytes
  | InvalidTree

type_synonym 'a rres = "(repo_error, 'a) res"

record repo =
  read_object :: "object_id \<Rightarrow> (object_kind \<times> bytes) rres"
  exists_object :: "object_id \<Rightarrow> bool rres"
  find_by_prefix :: "bytes \<Rightarrow> object_id list rres"
  resolve_head :: "object_id option rres"
  resolve_symbolic :: "bytes \<Rightarrow> object_id option rres"
  read_file :: "bytes \<Rightarrow> bytes option rres"
  list_prefix :: "bytes \<Rightarrow> bytes list rres"

text \<open>\<open>From<ObjectError>\<close> at a \<open>?\<close>; the sequencing of loops that may not return.\<close>

fun lift_err :: "'a ores \<Rightarrow> 'a rres" where
  "lift_err (Inr x) = Inr x"
| "lift_err (Inl (Err e)) = Inl (Err (ObjectError e))"
| "lift_err (Inl Panic) = Inl Panic"

definition tbind :: "('e, 'a) res option \<Rightarrow> ('a \<Rightarrow> ('e, 'b) res option) \<Rightarrow> ('e, 'b) res option" where
  "tbind r f = (case r of None \<Rightarrow> None | Some (Inl e) \<Rightarrow> Some (Inl e) | Some (Inr x) \<Rightarrow> f x)"

lemma lift_err_eq_Inr [simp]: "lift_err r = Inr x \<longleftrightarrow> r = Inr x"
  by (cases r rule: lift_err.cases) auto

lemma tbind_simps [simp]:
  "tbind None f = None"
  "tbind (Some (Inl e)) f = Some (Inl e)"
  "tbind (Some (Inr x)) f = f x"
  by (simp_all add: tbind_def)

section \<open>The shallow boundary\<close>

function trim_start :: "bytes \<Rightarrow> bytes" where
  "trim_start s =
     (case find (\<lambda>w. starts_with w s) white_space of
        Some w \<Rightarrow> trim_start (drop (length w) s)
      | None \<Rightarrow> s)"
  by pat_completeness auto
termination
proof (relation "measure length", goal_cases)
  case (2 s w)
  then have "w \<noteq> []" "starts_with w s"
    by (auto simp: white_space_not_Nil find_Some_iff)
  then show ?case
    by (cases s) (auto simp: starts_with_iff)
qed simp

declare trim_start.simps [simp del]

fun parse_oids :: "hash_alg \<Rightarrow> bytes list \<Rightarrow> object_id list rres" where
  "parse_oids H [] = Inr []"
| "parse_oids H (line # lines) =
     ebind (lift_err (from_hex H line)) (\<lambda>i. ebind (parse_oids H lines) (\<lambda>is. Inr (i # is)))"

text \<open>
  \<open>str::lines\<close> strips a carriage return and drops an empty last line: trimming and dropping the
  empty lines of the split does both.
\<close>

definition read_shallow :: "hash_alg \<Rightarrow> repo \<Rightarrow> object_id list rres" where
  "read_shallow H R =
     ebind (read_file R (ascii ''shallow'')) (\<lambda>file.
       case file of
         None \<Rightarrow> Inr []
       | Some bs \<Rightarrow>
           if \<not> utf8_valid bs then Inl (Err UnsupportedFormat)
           else parse_oids H (filter (\<lambda>l. l \<noteq> []) (map (\<lambda>l. trim_end (trim_start l)) (split_on 0x0A bs))))"

definition shallow_set :: "hash_alg \<Rightarrow> repo \<Rightarrow> object_id set rres" where
  "shallow_set H R = ebind (read_shallow H R) (\<lambda>is. Inr (set is))"

text \<open>\<open>write_shallow\<close>: the file is replaced, or deleted when no boundary is left.\<close>

definition write_shallow :: "repo \<Rightarrow> object_id list \<Rightarrow> repo" where
  "write_shallow R is =
     R\<lparr>read_file := (read_file R)(ascii ''shallow'' :=
        Inr (if is = [] then None else Some (concat (map (\<lambda>i. to_hex i @ [0x0A]) is))))\<rparr>"

lemma hex2_graphic: "\<forall>b \<in> set (hex2 x). 0x20 < b \<and> b < 0x80"
proof -
  have "0x20 < hex_digit n \<and> hex_digit n < 0x80" if "n < 16" for n
  proof -
    have "\<forall>n \<in> set [0..<16]. 0x20 < hex_digit n \<and> hex_digit n < 0x80"
      by (simp add: upt_rec hex_digit_def)
    then show ?thesis
      using that by simp
  qed
  then show ?thesis
    using byte_nibbles [of x] by (simp add: hex2_def)
qed

lemma ws_free_to_hex: "ws_free (to_hex i)"
  using hex2_graphic by (auto simp: ws_free_def to_hex_def)

lemma ws_last_byte: "w \<in> set white_space \<Longrightarrow> 0x20 < last w \<Longrightarrow> 0x80 \<le> last w"
  by (auto simp: white_space_def)

lemma trim_ws_free:
  assumes "ws_free s"
  shows "trim_end (trim_start s) = s"
proof (cases s)
  case Nil
  have "find (\<lambda>w. starts_with w []) white_space = None" "find (\<lambda>w. starts_with (rev w) []) white_space = None"
    by (simp_all add: white_space_def starts_with_def)
  then show ?thesis
    using Nil by (simp add: trim_start.simps [of "[]"] trim_end.simps [of "[]"])
next
  case (Cons b r)
  then have b: "0x20 < b" "b < 0x80" and "0x20 < last s" "last s < 0x80"
    using assms by (auto simp: ws_free_def)
  have "trim_start s = s"
    unfolding Cons by (subst trim_start.simps) (simp add: find_ws_free [OF b])
  moreover have "find (\<lambda>w. starts_with (rev w) (rev s)) white_space = None"
  proof (clarsimp simp: find_None_iff)
    fix w assume w: "w \<in> set white_space" "starts_with (rev w) (rev s)"
    then obtain t where "rev s = rev w @ t"
      by (auto simp: starts_with_iff)
    then have "s = rev t @ w"
      by (metis rev_append rev_rev_ident)
    moreover have "w \<noteq> []"
      using w(1) by (auto simp: white_space_def)
    ultimately have "last s = last w"
      by simp
    then show False
      using ws_last_byte [OF w(1)] \<open>0x20 < last s\<close> \<open>last s < 0x80\<close> by simp
  qed
  ultimately show ?thesis
    by (subst trim_end.simps) simp
qed

lemma split_hex_lines:
  "split_on 0x0A (concat (map (\<lambda>i. to_hex i @ [0x0A]) is)) = map to_hex is @ [[]]"
  by (induction "is") (simp_all add: split_on_append)

text \<open>What has been written is read back.\<close>

lemma shallow_round_trip:
  assumes "\<forall>i \<in> set is. id_ok H i" "0 < raw_len H"
  shows "read_shallow H (write_shallow R is) = Inr is"
proof (cases "is = []")
  case False
  let ?body = "concat (map (\<lambda>i. to_hex i @ [0x0A]) is)"
  have "ascii_only ?body"
    by (auto simp: ascii_only_def) (meson ascii_only_def ascii_to_hex)
  then have utf8: "utf8_valid ?body"
    by (rule utf8_valid_ascii)
  have "map (\<lambda>l. trim_end (trim_start l)) (map to_hex is @ [[]]) = map to_hex is @ [[]]"
    by (simp add: trim_ws_free [OF ws_free_to_hex] trim_ws_free [of "[]"] ws_free_def)
  moreover have "filter (\<lambda>l. l \<noteq> []) (map to_hex is @ [[]]) = map to_hex is"
    using assms by (auto simp: filter_id_conv id_ok_def simp flip: length_greater_0_conv)
  moreover have "parse_oids H (map to_hex is) = Inr is"
    using assms(1) by (induction "is") simp_all
  ultimately show ?thesis
    using False utf8 by (simp add: read_shallow_def write_shallow_def split_hex_lines del: map_append)
qed (simp add: read_shallow_def write_shallow_def)

section \<open>Commits and peeling\<close>

definition read_commit :: "hash_alg \<Rightarrow> repo \<Rightarrow> object_id \<Rightarrow> commit rres" where
  "read_commit H R i =
     ebind (read_object R i) (\<lambda>(kind, payload).
       if kind \<noteq> Commit then Inl (Err InvalidRef) else lift_err (parse_commit H payload))"

definition commit_parents :: "hash_alg \<Rightarrow> repo \<Rightarrow> object_id set \<Rightarrow> object_id \<Rightarrow> object_id list rres" where
  "commit_parents H R shallow i =
     (if i \<in> shallow then Inr [] else ebind (read_commit H R i) (\<lambda>c. Inr (parents c)))"

definition committer_seconds :: "hash_alg \<Rightarrow> repo \<Rightarrow> object_id \<Rightarrow> int rres" where
  "committer_seconds H R i =
     ebind (read_commit H R i) (\<lambda>c. ebind (lift_err (sig_parse (committer c))) (\<lambda>s. Inr (sig_seconds s)))"

partial_function (option) peel_to_commit :: "hash_alg \<Rightarrow> repo \<Rightarrow> object_id \<Rightarrow> object_id rres option" where
  "peel_to_commit H R i =
     (case read_object R i of
        Inl e \<Rightarrow> Some (Inl e)
      | Inr (kind, payload) \<Rightarrow>
          (case kind of
             Commit \<Rightarrow> Some (Inr i)
           | Tag \<Rightarrow> (case lift_err (parse_tag H payload) of
                Inl e \<Rightarrow> Some (Inl e)
              | Inr t \<Rightarrow> peel_to_commit H R (tag_object t))
           | _ \<Rightarrow> Some (Inl (Err InvalidRef))))"

partial_function (option) try_peel_to_commit ::
  "hash_alg \<Rightarrow> repo \<Rightarrow> object_id \<Rightarrow> object_id option rres option" where
  "try_peel_to_commit H R i =
     (case read_object R i of
        Inl e \<Rightarrow> Some (Inl e)
      | Inr (kind, payload) \<Rightarrow>
          (case kind of
             Commit \<Rightarrow> Some (Inr (Some i))
           | Tag \<Rightarrow> (case lift_err (parse_tag H payload) of
                Inl e \<Rightarrow> Some (Inl e)
              | Inr t \<Rightarrow> try_peel_to_commit H R (tag_object t))
           | _ \<Rightarrow> Some (Inr None)))"

partial_function (option) peel_to_tree :: "hash_alg \<Rightarrow> repo \<Rightarrow> object_id \<Rightarrow> object_id rres option" where
  "peel_to_tree H R i =
     (case read_object R i of
        Inl e \<Rightarrow> Some (Inl e)
      | Inr (kind, payload) \<Rightarrow>
          (case kind of
             Tree \<Rightarrow> Some (Inr i)
           | Commit \<Rightarrow> Some (ebind (lift_err (parse_commit H payload)) (\<lambda>c. Inr (tree c)))
           | Tag \<Rightarrow> (case lift_err (parse_tag H payload) of
                Inl e \<Rightarrow> Some (Inl e)
              | Inr t \<Rightarrow> peel_to_tree H R (tag_object t))
           | Blob \<Rightarrow> Some (Inl (Err InvalidRef))))"

partial_function (option) peel_tags :: "hash_alg \<Rightarrow> repo \<Rightarrow> object_id \<Rightarrow> object_id rres option" where
  "peel_tags H R i =
     (case read_object R i of
        Inl e \<Rightarrow> Some (Inl e)
      | Inr (kind, payload) \<Rightarrow>
          if kind = Tag then
            (case lift_err (parse_tag H payload) of
               Inl e \<Rightarrow> Some (Inl e)
             | Inr t \<Rightarrow> peel_tags H R (tag_object t))
          else Some (Inr i))"

section \<open>The walk of rev-list\<close>

text \<open>\<open>BinaryHeap<(i64, ObjectId)>\<close>: a bag of entries of which \<open>pop\<close> takes the greatest.\<close>

fun heap_pop :: "(int \<times> 'i::linorder) list \<Rightarrow> ((int \<times> 'i) \<times> (int \<times> 'i) list) option" where
  "heap_pop [] = None"
| "heap_pop (x # xs) = (let m = fold max xs x in Some (m, remove1 m (x # xs)))"

text \<open>The loop over a commit's parents: the unseen ones are marked and pushed with their dates.\<close>

fun push_new :: "('i \<Rightarrow> ('e, int) res) \<Rightarrow> 'i list \<Rightarrow> 'i set \<Rightarrow> (int \<times> 'i) list
    \<Rightarrow> ('e, 'i set \<times> (int \<times> 'i) list) res" where
  "push_new secs [] seen heap = Inr (seen, heap)"
| "push_new secs (i # is) seen heap =
     (if i \<in> seen then push_new secs is seen heap
      else ebind (secs i) (\<lambda>s. push_new secs is (insert i seen) ((s, i) # heap)))"

partial_function (option) date_walk ::
  "('i::linorder \<Rightarrow> ('e, 'i list) res) \<Rightarrow> ('i \<Rightarrow> ('e, int) res) \<Rightarrow> 'i set \<Rightarrow> (int \<times> 'i) list \<Rightarrow> 'i list
     \<Rightarrow> ('e, 'i list) res option" where
  "date_walk next secs seen heap out =
     (case heap_pop heap of
        None \<Rightarrow> Some (Inr out)
      | Some ((_, i), heap) \<Rightarrow>
          (case ebind (next i) (\<lambda>ps. push_new secs ps seen heap) of
             Inl e \<Rightarrow> Some (Inl e)
           | Inr (seen, heap) \<Rightarrow> date_walk next secs seen heap (out @ [i])))"

fun push_tips :: "hash_alg \<Rightarrow> repo \<Rightarrow> object_id list \<Rightarrow> object_id set \<Rightarrow> (int \<times> object_id) list
    \<Rightarrow> (object_id set \<times> (int \<times> object_id) list) rres option" where
  "push_tips H R [] seen heap = Some (Inr (seen, heap))"
| "push_tips H R (tip # tips) seen heap =
     tbind (peel_to_commit H R tip) (\<lambda>c.
       if c \<in> seen then push_tips H R tips seen heap
       else tbind (Some (committer_seconds H R c)) (\<lambda>s. push_tips H R tips (insert c seen) ((s, c) # heap)))"

definition rev_list :: "hash_alg \<Rightarrow> repo \<Rightarrow> object_id list \<Rightarrow> object_id list rres option" where
  "rev_list H R tips =
     tbind (Some (shallow_set H R)) (\<lambda>shallow.
       tbind (push_tips H R tips {} []) (\<lambda>(seen, heap).
         date_walk (commit_parents H R shallow) (committer_seconds H R) seen heap []))"

section \<open>Revision syntax\<close>

datatype rev_op = Parent nat | Ancestor nat | Peel bytes

text \<open>\<open>leading_number\<close>: the value as a \<open>u32\<close>, if it fits, and the number of digits.\<close>

definition leading_number :: "bytes \<Rightarrow> nat option \<times> nat" where
  "leading_number s =
     (let digits = takeWhile is_ascii_digit s in (parse_unsigned 10 (2 ^ 32) digits, length digits))"

definition unwrap_or :: "'a option \<Rightarrow> 'a \<Rightarrow> 'a" where
  "unwrap_or v d = (case v of None \<Rightarrow> d | Some x \<Rightarrow> x)"

abbreviation CARET :: byte where "CARET \<equiv> 0x5E"
abbreviation TILDE :: byte where "TILDE \<equiv> 0x7E"

text \<open>The loop of \<open>parse_spec\<close> over what follows the base.\<close>

function parse_ops :: "bytes \<Rightarrow> rev_op list \<Rightarrow> rev_op list rres" where
  "parse_ops [] ops = Inr ops"
| "parse_ops (first # s) ops =
     (if first = CARET \<and> starts_with [0x7B] s then
        (case position (\<lambda>b. b = 0x7D) (first # s) of
           None \<Rightarrow> Inl (Err InvalidRef)
         | Some e \<Rightarrow> parse_ops (drop (e + 1) (first # s)) (ops @ [Peel (drop 2 (take e (first # s)))]))
      else if first = CARET then
        (let (n, len) = leading_number s in parse_ops (drop len s) (ops @ [Parent (unwrap_or n 1)]))
      else if first = TILDE then
        (let (n, len) = leading_number s in parse_ops (drop len s) (ops @ [Ancestor (unwrap_or n 1)]))
      else Inl (Err InvalidRef))"
  by pat_completeness auto
termination
  by (relation "measure (\<lambda>(s, _). length s)") auto

definition parse_spec :: "bytes \<Rightarrow> (bytes \<times> rev_op list) rres" where
  "parse_spec spec =
     (let split = unwrap_or (position (\<lambda>b. b = TILDE \<or> b = CARET) spec) (length spec)
      in ebind (parse_ops (drop split spec) []) (\<lambda>ops. Inr (take split spec, ops)))"

definition is_hex :: "bytes \<Rightarrow> bool" where
  "is_hex s \<longleftrightarrow> s \<noteq> [] \<and> list_all (\<lambda>b. is_ascii_digit b \<or> 0x61 \<le> b \<and> b \<le> 0x66) s"

section \<open>Resolution\<close>

definition resolve_abbrev :: "repo \<Rightarrow> bytes \<Rightarrow> object_id rres" where
  "resolve_abbrev R hex =
     ebind (find_by_prefix R hex) (\<lambda>is.
       case is of
         [only] \<Rightarrow> Inr only
       | [] \<Rightarrow> Inl (Err (UnknownRevision hex))
       | _ \<Rightarrow> Inl (Err (AmbiguousRevision hex)))"

definition ref_candidates :: "bytes \<Rightarrow> bytes list" where
  "ref_candidates base =
     [base, ascii ''refs/'' @ base, ascii ''refs/tags/'' @ base, ascii ''refs/heads/'' @ base,
      ascii ''refs/remotes/'' @ base, ascii ''refs/remotes/'' @ base @ ascii ''/HEAD'']"

fun first_ref :: "repo \<Rightarrow> bytes list \<Rightarrow> object_id option rres" where
  "first_ref R [] = Inr None"
| "first_ref R (c # cs) =
     ebind (resolve_symbolic R c) (\<lambda>i. case i of Some i \<Rightarrow> Inr (Some i) | None \<Rightarrow> first_ref R cs)"

definition resolve_base :: "hash_alg \<Rightarrow> repo \<Rightarrow> bytes \<Rightarrow> object_id rres" where
  "resolve_base H R base =
     (if base = ascii ''HEAD'' \<or> base = ascii ''@'' then
        ebind (resolve_head R) (\<lambda>i. ok_or i (UnknownRevision (ascii ''HEAD (unborn branch)'')))
      else ebind (first_ref R (ref_candidates base)) (\<lambda>found.
        case found of
          Some i \<Rightarrow> Inr i
        | None \<Rightarrow>
            if is_hex base \<and> 4 \<le> length base \<and> length base \<le> raw_len H * 2 then
              (if length base = raw_len H * 2 then
                 ebind (map_err InvalidRef (from_hex H base)) (\<lambda>i.
                   ebind (exists_object R i) (\<lambda>b.
                     if b then Inr i else Inl (Err (UnknownRevision base))))
               else resolve_abbrev R base)
            else Inl (Err (UnknownRevision base))))"

definition nth_parent :: "hash_alg \<Rightarrow> repo \<Rightarrow> object_id \<Rightarrow> nat \<Rightarrow> object_id rres option" where
  "nth_parent H R i n =
     tbind (peel_to_commit H R i) (\<lambda>c.
       if n = 0 then Some (Inr c)
       else Some (ebind (shallow_set H R) (\<lambda>shallow.
         ebind (commit_parents H R shallow c) (\<lambda>ps.
           if n - 1 < length ps then Inr (ps ! (n - 1)) else Inl (Err InvalidRef)))))"

fun first_parents :: "hash_alg \<Rightarrow> repo \<Rightarrow> object_id set \<Rightarrow> object_id \<Rightarrow> nat \<Rightarrow> object_id rres" where
  "first_parents H R shallow c 0 = Inr c"
| "first_parents H R shallow c (Suc n) =
     ebind (commit_parents H R shallow c) (\<lambda>ps.
       case ps of [] \<Rightarrow> Inl (Err InvalidRef) | p # _ \<Rightarrow> first_parents H R shallow p n)"

definition first_parent_n :: "hash_alg \<Rightarrow> repo \<Rightarrow> object_id \<Rightarrow> nat \<Rightarrow> object_id rres option" where
  "first_parent_n H R i n =
     tbind (Some (shallow_set H R)) (\<lambda>shallow.
       tbind (peel_to_commit H R i) (\<lambda>c. Some (first_parents H R shallow c n)))"

definition peel_type :: "hash_alg \<Rightarrow> repo \<Rightarrow> object_id \<Rightarrow> bytes \<Rightarrow> object_id rres option" where
  "peel_type H R i kind =
     (if kind = [] then peel_tags H R i
      else if kind = ascii ''commit'' then peel_to_commit H R i
      else if kind = ascii ''tree'' then
        tbind (peel_to_commit H R i) (\<lambda>c. Some (ebind (read_commit H R c) (\<lambda>c. Inr (tree c))))
      else if kind = ascii ''blob'' \<or> kind = ascii ''tag'' then
        Some (ebind (read_object R i) (\<lambda>(k, _).
          let wanted = (if kind = ascii ''blob'' then Blob else Tag)
          in if k = wanted then Inr i else Inl (Err InvalidRef)))
      else Some (Inl (Err InvalidRef)))"

fun apply_ops :: "hash_alg \<Rightarrow> repo \<Rightarrow> object_id \<Rightarrow> rev_op list \<Rightarrow> object_id rres option" where
  "apply_ops H R i [] = Some (Inr i)"
| "apply_ops H R i (op # ops) =
     tbind (case op of
              Parent n \<Rightarrow> nth_parent H R i n
            | Ancestor n \<Rightarrow> first_parent_n H R i n
            | Peel kind \<Rightarrow> peel_type H R i kind)
       (\<lambda>i. apply_ops H R i ops)"

definition resolve_rev :: "hash_alg \<Rightarrow> repo \<Rightarrow> bytes \<Rightarrow> object_id rres option" where
  "resolve_rev H R spec =
     tbind (Some (parse_spec spec)) (\<lambda>(base, ops).
       tbind (Some (resolve_base H R base)) (\<lambda>i. apply_ops H R i ops))"

text \<open>The descent of \<open>object_at_path\<close>; \<open>walked\<close> are the components already passed.\<close>

definition join_slash :: "bytes list \<Rightarrow> bytes" where
  "join_slash cs = concat (map (\<lambda>(k, c). if k > 0 then SLASH # c else c) (List.enumerate 0 cs))"

fun tree_descent :: "hash_alg \<Rightarrow> repo \<Rightarrow> object_id \<Rightarrow> git_path \<Rightarrow> bytes \<Rightarrow> bool \<Rightarrow> bytes list \<Rightarrow> bytes list
    \<Rightarrow> object_id \<Rightarrow> object_id rres" where
  "tree_descent H R base path supplied require_dir walked [] t = Inl Panic"
| "tree_descent H R base path supplied require_dir walked (part # parts) t =
     ebind (read_object R t) (\<lambda>(kind, payload).
       if kind \<noteq> Tree then
         (case path_from_bytes (join_slash walked) of
            Inr parent \<Rightarrow> Inl (Err (TreePathComponentNotDirectory path parent))
          | Inl _ \<Rightarrow> Inl Panic)
       else ebind (lift_err (parse_tree H payload)) (\<lambda>es.
         case find (\<lambda>e. name e = part) es of
           None \<Rightarrow> Inl (Err (MissingTreePath path base))
         | Some e \<Rightarrow>
             if parts = [] then
               (if require_dir \<and> mode e \<noteq> ascii ''40000'' then Inl (Err (TreePathNotDirectory supplied))
                else Inr (entry_id e))
             else tree_descent H R base path supplied require_dir (walked @ [part]) parts (entry_id e)))"

definition object_at_path :: "hash_alg \<Rightarrow> repo \<Rightarrow> object_id \<Rightarrow> bytes \<Rightarrow> object_id rres option" where
  "object_at_path H R base supplied =
     tbind (peel_to_tree H R base) (\<lambda>t. Some (
       if 0 \<in> set supplied then Inl Panic
       else
         let require_dir = (supplied \<noteq> [] \<and> last supplied = SLASH);
             trimmed = rev (dropWhile (\<lambda>b. b = SLASH) (rev supplied))
         in case path_from_bytes trimmed of
              Inl (Err reason) \<Rightarrow> Inl (Err (InvalidTreePath supplied reason))
            | Inl Panic \<Rightarrow> Inl Panic
            | Inr path \<Rightarrow>
                if is_root path then Inr t
                else tree_descent H R base path supplied require_dir [] (components path) t))"

definition revision_text :: "bytes \<Rightarrow> bytes rres" where
  "revision_text spec =
     (if utf8_valid spec then Inr spec
      else if 0 \<in> set spec then Inl Panic
      else Inl (Err (InvalidRevisionEncoding spec)))"

definition rev_parse :: "hash_alg \<Rightarrow> repo \<Rightarrow> bytes \<Rightarrow> object_id rres option" where
  "rev_parse H R spec =
     (if 0 \<in> set spec then Some (Inl (Err InvalidRef))
      else case position (\<lambda>b. b = 0x3A) spec of
        Some colon \<Rightarrow>
          if colon > 0 then
            tbind (Some (revision_text (take colon spec))) (\<lambda>base.
              tbind (resolve_rev H R base) (\<lambda>base. object_at_path H R base (drop (colon + 1) spec)))
          else tbind (Some (revision_text spec)) (resolve_rev H R)
      | None \<Rightarrow> tbind (Some (revision_text spec)) (resolve_rev H R))"

section \<open>The walk lists the history\<close>

lemma heap_pop_None [simp]: "heap_pop h = None \<longleftrightarrow> h = []"
  by (cases h) (simp_all add: Let_def)

lemma fold_max_member: "fold max xs x \<in> set (x # xs)" for x :: "'a::linorder"
proof -
  have "Max (set (x # xs)) \<in> set (x # xs)"
    by (intro Max_in) simp_all
  then show ?thesis
    unfolding Max.set_eq_fold .
qed

lemma fold_max_greatest: "y \<in> set (x # xs) \<Longrightarrow> y \<le> fold max xs x" for x :: "'a::linorder"
  using Max_ge [of "set (x # xs)" y] unfolding Max.set_eq_fold by simp

lemma heap_pop_Some:
  assumes "heap_pop h = Some (m, h')"
  shows "m \<in> set h" "h' = remove1 m h" "\<forall>x \<in> set h. x \<le> m"
proof -
  obtain x xs where h: "h = x # xs"
    using assms by (cases h) auto
  then have m: "m = fold max xs x" and h': "h' = remove1 m h"
    using assms by (auto simp: Let_def)
  show "m \<in> set h" "h' = remove1 m h" "\<forall>x \<in> set h. x \<le> m"
    using fold_max_member [of xs x] fold_max_greatest [of _ x xs] h' unfolding h m by blast+
qed

lemma push_new_Inr:
  "push_new secs ps seen heap = Inr (seen', heap') \<Longrightarrow>
   seen' = seen \<union> set ps
   \<and> (\<exists>new. heap' = new @ heap \<and> distinct (map snd new) \<and> set (map snd new) = set ps - seen
        \<and> (\<forall>(s, i) \<in> set new. secs i = Inr s))"
proof (induction ps arbitrary: seen heap)
  case (Cons i ps)
  show ?case
  proof (cases "i \<in> seen")
    case True
    then show ?thesis
      using Cons by auto
  next
    case False
    then obtain s where s: "secs i = Inr s" "push_new secs ps (insert i seen) ((s, i) # heap) = Inr (seen', heap')"
      using Cons.prems by (auto simp: ebind_eq_Inr)
    then obtain new where "heap' = new @ (s, i) # heap" "distinct (map snd new)"
      "set (map snd new) = set ps - insert i seen" "\<forall>(s, i) \<in> set new. secs i = Inr s"
      "seen' = insert i seen \<union> set ps"
      using Cons.IH [OF s(2)] by blast
    then show ?thesis
      using False s(1) by (intro conjI exI [of _ "new @ [(s, i)]"]) auto
  qed
qed simp

lemma push_new_Inl: "push_new secs ps seen heap = Inl e \<Longrightarrow> \<exists>i \<in> set ps. secs i = Inl e"
  by (induction ps arbitrary: seen heap) (auto simp: ebind_eq_Inl split: if_splits)

definition edge :: "('i \<Rightarrow> ('e, 'i list) res) \<Rightarrow> 'i \<Rightarrow> 'i \<Rightarrow> bool" where
  "edge next i p \<longleftrightarrow> (\<exists>ps. next i = Inr ps \<and> p \<in> set ps)"

definition reachable :: "('i \<Rightarrow> ('e, 'i list) res) \<Rightarrow> 'i set \<Rightarrow> 'i set" where
  "reachable next S = {j. \<exists>i \<in> S. (edge next)\<^sup>*\<^sup>* i j}"

lemma reachable_tips: "S \<subseteq> reachable next S"
  by (auto simp: reachable_def)

lemma reachable_down: "i \<in> reachable next S \<Longrightarrow> next i = Inr ps \<Longrightarrow> set ps \<subseteq> reachable next S"
  unfolding reachable_def edge_def by (blast intro: rtranclp.rtrancl_into_rtrancl)

lemma reachable_least:
  assumes "S \<subseteq> V" "\<And>i p. i \<in> V \<Longrightarrow> edge next i p \<Longrightarrow> p \<in> V"
  shows "reachable next S \<subseteq> V"
proof -
  have "(edge next)\<^sup>*\<^sup>* i j \<Longrightarrow> i \<in> V \<Longrightarrow> j \<in> V" for i j
    by (induction rule: rtranclp_induct) (auto dest: assms(2))
  then show ?thesis
    using assms(1) by (auto simp: reachable_def)
qed

text \<open>
  The invariant of the walk: the seen commits are those listed and those waiting, once each; the
  parents of the listed ones have been seen; the waiting entries carry their dates. The order of the
  dates, when no parent is younger than its child.
\<close>

definition walk_inv :: "('i \<Rightarrow> ('e, 'i list) res) \<Rightarrow> ('i \<Rightarrow> ('e, int) res) \<Rightarrow> 'i set \<Rightarrow> (int \<times> 'i) list
    \<Rightarrow> 'i list \<Rightarrow> bool" where
  "walk_inv next secs seen heap out \<longleftrightarrow>
     distinct (out @ map snd heap) \<and> set (out @ map snd heap) = seen
     \<and> (\<forall>(s, i) \<in> set heap. secs i = Inr s) \<and> (\<forall>i \<in> set out. \<exists>s. secs i = Inr s)
     \<and> (\<forall>i \<in> set out. \<exists>ps. next i = Inr ps \<and> set ps \<subseteq> seen)"

definition dates_fall :: "('i \<Rightarrow> ('e, int) res) \<Rightarrow> (int \<times> 'i) list \<Rightarrow> 'i list \<Rightarrow> bool" where
  "dates_fall secs heap out \<longleftrightarrow>
     sorted_wrt (\<lambda>a b. projr (secs b) \<le> projr (secs a)) out
     \<and> (\<forall>a \<in> set out. \<forall>(s, i) \<in> set heap. s \<le> projr (secs a))"

definition falling :: "('i \<Rightarrow> ('e, 'i list) res) \<Rightarrow> ('i \<Rightarrow> ('e, int) res) \<Rightarrow> 'i set \<Rightarrow> bool" where
  "falling next secs V \<longleftrightarrow> (\<forall>i \<in> V. \<forall>p. edge next i p \<longrightarrow> projr (secs p) \<le> projr (secs i))"

text \<open>One turn of the loop.\<close>

lemma walk_inv_step:
  assumes inv: "walk_inv next secs seen heap out" and pop: "heap_pop heap = Some ((s, i), h)"
    and ps: "next i = Inr ps" and push: "push_new secs ps seen h = Inr (seen', heap')"
  shows "walk_inv next secs seen' heap' (out @ [i])" "seen' = seen \<union> set ps" "i \<in> seen"
    "length heap' + 1 = length heap + card (set ps - seen)"
    "dates_fall secs heap out \<Longrightarrow> falling next secs seen' \<Longrightarrow> dates_fall secs heap' (out @ [i])"
proof -
  note pop = heap_pop_Some [OF pop]
  obtain new where new: "heap' = new @ h" "distinct (map snd new)" "set (map snd new) = set ps - seen"
    "\<forall>(s, i) \<in> set new. secs i = Inr s" and seen': "seen' = seen \<union> set ps"
    using push_new_Inr [OF push] by blast
  obtain l r where lr: "heap = l @ (s, i) # r" "h = l @ r"
    using split_list_first [OF pop(1)] pop(2) by (auto simp: remove1_append)
  have secs: "secs i = Inr s"
    using inv lr by (auto simp: walk_inv_def)
  show "seen' = seen \<union> set ps" by (fact seen')
  show "i \<in> seen"
    using inv lr by (auto simp: walk_inv_def)
  have dist: "distinct (out @ map snd l @ i # map snd r)" and all: "seen = set out \<union> set (map snd l) \<union> insert i (set (map snd r))"
    and dates: "\<forall>(s, i) \<in> set heap. secs i = Inr s" "\<forall>i \<in> set out. \<exists>s. secs i = Inr s"
    and closed: "\<forall>i \<in> set out. \<exists>ps. next i = Inr ps \<and> set ps \<subseteq> seen"
    using inv unfolding walk_inv_def lr by auto
  have "distinct ((out @ [i]) @ map snd heap')"
    using dist new(2,3) unfolding all new(1) lr by (simp del: set_map) blast
  moreover have "set ((out @ [i]) @ map snd heap') = seen'"
    using new(3) unfolding all seen' new(1) lr by (simp del: set_map) blast
  moreover have "\<forall>(s, i) \<in> set heap'. secs i = Inr s"
    using dates(1) new(4) unfolding new(1) lr by auto
  moreover have "\<forall>j \<in> set (out @ [i]). \<exists>s. secs j = Inr s"
    using dates(2) secs by simp
  moreover have "\<forall>j \<in> set (out @ [i]). \<exists>ps. next j = Inr ps \<and> set ps \<subseteq> seen'"
    using closed ps unfolding seen' by fastforce
  ultimately show "walk_inv next secs seen' heap' (out @ [i])"
    unfolding walk_inv_def by blast
  have "length new = card (set ps - seen)"
    using distinct_card [OF new(2)] new(3) by simp
  then show "length heap' + 1 = length heap + card (set ps - seen)"
    by (simp add: new(1) lr)
  assume fall: "dates_fall secs heap out" and "falling next secs seen'"
  then have date_le: "projr (secs p) \<le> s" if "p \<in> set ps" for p
    using that ps secs \<open>i \<in> seen\<close> by (fastforce simp: falling_def edge_def seen')
  have le: "t \<le> s" if "(t, p) \<in> set new" for t p
  proof -
    have "p \<in> snd ` set new" "secs p = Inr t"
      using that new(4) by force+
    then show ?thesis
      using new(3) date_le [of p] by auto
  qed
  have heap_le: "t \<le> s" if "(t, p) \<in> set heap" for t p
    using pop(3) that by (auto simp: less_eq_prod_def)
  have out_le: "t \<le> projr (secs a)" if "(t, p) \<in> set heap" "a \<in> set out" for t p a
    using fall that by (auto simp: dates_fall_def)
  have s_le: "s \<le> projr (secs a)" if "a \<in> set out" for a
    using out_le [OF _ that] lr(1) by auto
  have "sorted_wrt (\<lambda>a b. projr (secs b) \<le> projr (secs a)) (out @ [i])"
    using fall s_le secs by (simp add: dates_fall_def sorted_wrt_append)
  moreover have "t \<le> projr (secs a)" if "(t, p) \<in> set heap'" "a \<in> set (out @ [i])" for t p a
  proof -
    have "t \<le> s"
      using that(1) le heap_le unfolding new(1) lr by auto
    moreover have "s \<le> projr (secs a)"
      using that(2) s_le secs by auto
    ultimately show ?thesis
      by simp
  qed
  ultimately show "dates_fall secs heap' (out @ [i])"
    unfolding dates_fall_def by blast
qed

locale history_graph =
  fixes "next" :: "'i::linorder \<Rightarrow> ('e, 'i list) res" and secs :: "'i \<Rightarrow> ('e, int) res" and U :: "'i set"
  assumes finite_universe: "finite U"
    and next_universe: "next i = Inr ps \<Longrightarrow> set ps \<subseteq> U"
begin

lemma finite_reachable: "finite S \<Longrightarrow> finite (reachable next S)"
proof (rule finite_subset)
  show "reachable next S \<subseteq> S \<union> U"
    using next_universe by (intro reachable_least) (auto simp: edge_def)
qed (simp add: finite_universe)

lemma date_walk_run:
  assumes "finite V" "\<And>i ps. i \<in> V \<Longrightarrow> next i = Inr ps \<Longrightarrow> set ps \<subseteq> V"
    and "walk_inv next secs seen heap out" "seen \<subseteq> V"
  shows "\<exists>r. date_walk next secs seen heap out = Some r
    \<and> (case r of
         Inr res \<Rightarrow> (\<exists>all. walk_inv next secs all [] res \<and> seen \<subseteq> all \<and> all \<subseteq> V
           \<and> (dates_fall secs heap out \<longrightarrow> falling next secs V \<longrightarrow> dates_fall secs [] res))
       | Inl e \<Rightarrow> \<exists>i \<in> V. next i = Inl e \<or> secs i = Inl e)"
  using assms(3,4)
proof (induction "card (V - seen) + length heap" arbitrary: seen heap out rule: less_induct)
  case less
  show ?case
  proof (cases "heap_pop heap")
    case None
    then show ?thesis
      using less.prems by (subst date_walk.simps) auto
  next
    case (Some p)
    then obtain s i h where pop: "heap_pop heap = Some ((s, i), h)"
      by (metis prod.collapse)
    have "(s, i) \<in> set heap" "set (out @ map snd heap) = seen"
      using heap_pop_Some(1) [OF pop] less.prems(1) unfolding walk_inv_def by auto
    then have "i \<in> seen"
      by force
    show ?thesis
    proof (cases "ebind (next i) (\<lambda>ps. push_new secs ps seen h)")
      case (Inl e)
      then have "date_walk next secs seen heap out = Some (Inl e)"
        by (subst date_walk.simps) (simp add: pop)
      moreover have "\<exists>i \<in> V. next i = Inl e \<or> secs i = Inl e"
        using Inl push_new_Inl [of secs _ seen h e] assms(2) \<open>i \<in> seen\<close> less.prems(2)
        by (fastforce simp: ebind_eq_Inl)
      ultimately show ?thesis
        by simp
    next
      case (Inr p')
      then obtain ps seen' heap' where ps: "next i = Inr ps" "push_new secs ps seen h = Inr (seen', heap')"
        by (cases p') (auto simp: ebind_eq_Inr)
      note step = walk_inv_step [OF less.prems(1) pop ps]
      have sub: "seen' \<subseteq> V"
        using step(2,3) less.prems(2) assms(2) [OF _ ps(1)] by auto
      have "V - seen = (V - seen') \<union> (set ps - seen)" "(V - seen') \<inter> (set ps - seen) = {}"
        using step(2) sub by auto
      then have "card (V - seen) = card (V - seen') + card (set ps - seen)"
        using assms(1) by (simp add: card_Un_disjoint)
      then have "card (V - seen') + length heap' < card (V - seen) + length heap"
        using step(4) by linarith
      moreover have "date_walk next secs seen heap out = date_walk next secs seen' heap' (out @ [i])"
        by (subst date_walk.simps) (simp add: pop ps)
      moreover have "falling next secs V \<Longrightarrow> falling next secs seen'"
        using sub by (auto simp: falling_def)
      ultimately show ?thesis
        using less.hyps [OF _ step(1) sub] step(2,5) by (fastforce split: sum.splits)
    qed
  qed
qed

lemma date_walk_lists:
  assumes "finite S" "walk_inv next secs S heap []"
  shows "\<exists>r. date_walk next secs S heap [] = Some r
    \<and> (case r of
         Inr out \<Rightarrow> distinct out \<and> set out = reachable next S
           \<and> (\<forall>i \<in> reachable next S. (\<exists>ps. next i = Inr ps) \<and> (\<exists>s. secs i = Inr s))
           \<and> (falling next secs (reachable next S) \<longrightarrow> sorted_wrt (\<lambda>a b. projr (secs b) \<le> projr (secs a)) out)
       | Inl e \<Rightarrow> \<exists>i \<in> reachable next S. next i = Inl e \<or> secs i = Inl e)"
proof -
  have step: "set ps \<subseteq> reachable next S" if "i \<in> reachable next S" "next i = Inr ps" for i ps
    using reachable_down that by metis
  obtain r where r: "date_walk next secs S heap [] = Some r"
    "case r of
         Inr res \<Rightarrow> (\<exists>all. walk_inv next secs all [] res \<and> S \<subseteq> all \<and> all \<subseteq> reachable next S
           \<and> (dates_fall secs heap [] \<longrightarrow> falling next secs (reachable next S) \<longrightarrow> dates_fall secs [] res))
       | Inl e \<Rightarrow> \<exists>i \<in> reachable next S. next i = Inl e \<or> secs i = Inl e"
    using date_walk_run [OF finite_reachable [OF assms(1)] _ assms(2) reachable_tips] step by blast
  have least: "reachable next S \<subseteq> all" if "walk_inv next secs all [] res" "S \<subseteq> all" for all res
    using that by (intro reachable_least) (fastforce simp: walk_inv_def edge_def)+
  show ?thesis
  proof (cases r)
    case (Inl e)
    then show ?thesis
      using r by simp
  next
    case (Inr res)
    then obtain all where all: "walk_inv next secs all [] res" "S \<subseteq> all" "all \<subseteq> reachable next S"
      "falling next secs (reachable next S) \<longrightarrow> dates_fall secs [] res"
      using r(2) by (auto simp: dates_fall_def)
    then have "distinct res" "set res = reachable next S"
      "\<forall>i \<in> set res. (\<exists>ps. next i = Inr ps) \<and> (\<exists>s. secs i = Inr s)"
      using least [OF all(1,2)] by (auto simp: walk_inv_def)
    then show ?thesis
      using all(4) r(1) Inr by (simp add: dates_fall_def)
  qed
qed

end

section \<open>Commit histories\<close>

text \<open>
  The commits reachable from some tips through parents up to the shallow boundary; a commit the walks
  can read: a commit object whose committer line has a date.
\<close>

definition commit_history :: "hash_alg \<Rightarrow> repo \<Rightarrow> object_id set \<Rightarrow> object_id set \<Rightarrow> object_id set" where
  "commit_history H R shallow S = reachable (commit_parents H R shallow) S"

definition commit_readable :: "hash_alg \<Rightarrow> repo \<Rightarrow> object_id \<Rightarrow> bool" where
  "commit_readable H R i \<longleftrightarrow> (\<exists>s. committer_seconds H R i = Inr s)"

definition commit_date :: "hash_alg \<Rightarrow> repo \<Rightarrow> object_id \<Rightarrow> int" where
  "commit_date H R i = projr (committer_seconds H R i)"

lemma readable_parents: "commit_readable H R i \<Longrightarrow> \<exists>ps. commit_parents H R shallow i = Inr ps"
  by (auto simp: commit_readable_def committer_seconds_def commit_parents_def ebind_eq_Inr)

lemma read_commit_ids: "read_commit H R i = Inr c \<Longrightarrow> set (parents c) \<subseteq> ids_of H"
  by (auto simp: read_commit_def ebind_eq_Inr ids_of_def split: if_splits dest: parse_commit_ids)

interpretation commits: history_graph "commit_parents H R shallow" "committer_seconds H R" "ids_of H"
  for H R shallow
proof
  show "finite (ids_of H)"
    by (rule finite_ids)
  show "commit_parents H R shallow i = Inr ps \<Longrightarrow> set ps \<subseteq> ids_of H" for i ps
    using read_commit_ids [of H R i] by (auto simp: commit_parents_def ebind_eq_Inr split: if_splits)
qed

abbreviation peels :: "hash_alg \<Rightarrow> repo \<Rightarrow> object_id \<Rightarrow> object_id \<Rightarrow> bool" where
  "peels H R t c \<equiv> peel_to_commit H R t = Some (Inr c)"

lemma push_tips_peeled:
  "list_all2 (peels H R) tips cs \<Longrightarrow>
   push_tips H R tips seen heap = Some (push_new (committer_seconds H R) cs seen heap)"
proof (induction tips cs arbitrary: seen heap rule: list_all2_induct)
  case (Cons t ts c cs)
  then show ?case
    by (cases "committer_seconds H R c") simp_all
qed simp

lemma rev_list_run:
  assumes "shallow_set H R = Inr shallow" "list_all2 (peels H R) tips cs"
  defines "V \<equiv> commit_history H R shallow (set cs)"
  shows "\<exists>r. rev_list H R tips = Some r
    \<and> (case r of
         Inr out \<Rightarrow> distinct out \<and> set out = V \<and> (\<forall>i \<in> V. commit_readable H R i)
           \<and> (falling (commit_parents H R shallow) (committer_seconds H R) V \<longrightarrow>
               sorted_wrt (\<lambda>a b. commit_date H R b \<le> commit_date H R a) out)
       | Inl e \<Rightarrow> \<exists>i \<in> V. \<not> commit_readable H R i)"
proof (cases "push_new (committer_seconds H R) cs {} []")
  case (Inl e)
  then obtain i where "i \<in> set cs" "committer_seconds H R i = Inl e"
    using push_new_Inl by blast
  then have "\<exists>i \<in> V. \<not> commit_readable H R i"
    unfolding V_def commit_history_def commit_readable_def using reachable_tips [of "set cs"] by force
  then show ?thesis
    using Inl by (simp add: rev_list_def assms(1) push_tips_peeled [OF assms(2)])
next
  case (Inr p)
  then obtain heap where heap: "push_new (committer_seconds H R) cs {} [] = Inr (set cs, heap)"
    "walk_inv (commit_parents H R shallow) (committer_seconds H R) (set cs) heap []"
    using push_new_Inr [of "committer_seconds H R" cs "{}" "[]" "fst p" "snd p"] by (cases p) (auto simp: walk_inv_def)
  obtain r where r: "date_walk (commit_parents H R shallow) (committer_seconds H R) (set cs) heap [] = Some r"
    "case r of
         Inr out \<Rightarrow> distinct out \<and> set out = V
           \<and> (\<forall>i \<in> V. (\<exists>ps. commit_parents H R shallow i = Inr ps) \<and> (\<exists>s. committer_seconds H R i = Inr s))
           \<and> (falling (commit_parents H R shallow) (committer_seconds H R) V \<longrightarrow>
               sorted_wrt (\<lambda>a b. projr (committer_seconds H R b) \<le> projr (committer_seconds H R a)) out)
       | Inl e \<Rightarrow> \<exists>i \<in> V. commit_parents H R shallow i = Inl e \<or> committer_seconds H R i = Inl e"
    using commits.date_walk_lists [OF finite_set heap(2)] unfolding V_def commit_history_def by blast
  have "rev_list H R tips = Some r"
    by (simp add: rev_list_def assms(1) push_tips_peeled [OF assms(2)] heap(1) r(1))
  moreover have "\<not> commit_readable H R i"
    if "commit_parents H R shallow i = Inl e \<or> committer_seconds H R i = Inl e" for i e
    using that readable_parents [of H R i shallow] by (auto simp: commit_readable_def)
  ultimately show ?thesis
    using r(2) by (cases r) (auto simp: commit_readable_def commit_date_def)
qed

section \<open>The grammar of suffixes\<close>

fun print_op :: "rev_op \<Rightarrow> bytes" where
  "print_op (Parent n) = CARET # dec_nat n"
| "print_op (Ancestor n) = TILDE # dec_nat n"
| "print_op (Peel kind) = CARET # 0x7B # kind @ [0x7D]"

fun stored_op :: "rev_op \<Rightarrow> rev_op" where
  "stored_op (Parent n) = Parent (if n < 2 ^ 32 then n else 1)"
| "stored_op (Ancestor n) = Ancestor (if n < 2 ^ 32 then n else 1)"
| "stored_op (Peel kind) = Peel kind"

lemma parse_digits_dec_nat_iff: "parse_digits 10 lim 0 (dec_nat n) = (if n < lim then Some n else None)"
proof (induction n rule: dec_nat.induct)
  case (1 n)
  show ?case
  proof (cases "n < 10")
    case True
    then show ?thesis
      by (subst dec_nat.simps) (simp add: digit_val_dec del: of_nat_add)
  next
    case False
    moreover have "n < lim \<Longrightarrow> n div 10 < lim"
      by linarith
    ultimately show ?thesis
      using 1 by (subst dec_nat.simps) (simp add: digit_val_dec parse_digits_append del: of_nat_add)
  qed
qed

lemma dec_nat_head: "\<exists>c r. dec_nat n = c # r \<and> is_ascii_digit c"
proof (cases "dec_nat n")
  case (Cons c r)
  then show ?thesis
    using dec_nat_mem [of c n] by (auto simp: is_ascii_digit_def word_le_nat_alt)
qed simp

lemma leading_number_dec_nat:
  assumes "s = [] \<or> \<not> is_ascii_digit (hd s)"
  shows "leading_number (dec_nat n @ s) = (if n < 2 ^ 32 then Some n else None, length (dec_nat n))"
proof -
  have "\<forall>c \<in> set (dec_nat n). is_ascii_digit c"
    using dec_nat_digits [of n] by (auto simp: is_ascii_digit_def word_le_nat_alt)
  moreover have "takeWhile is_ascii_digit s = []"
    using assms by (cases s) auto
  ultimately have "takeWhile is_ascii_digit (dec_nat n @ s) = dec_nat n"
    by (simp add: takeWhile_append)
  moreover obtain c r where c: "dec_nat n = c # r" "is_ascii_digit c"
    using dec_nat_head by blast
  then have "c \<noteq> 0x2B"
    by (auto simp: is_ascii_digit_def)
  then have "parse_unsigned 10 (2 ^ 32) (dec_nat n) = (if n < 2 ^ 32 then Some n else None)"
    using parse_digits_dec_nat_iff [of "2 ^ 32" n] c(1) by (simp add: parse_unsigned_def)
  ultimately show ?thesis
    by (simp add: leading_number_def)
qed

lemma parse_ops_print:
  assumes "s = [] \<or> hd s = CARET \<or> hd s = TILDE" "\<And>k. op = Peel k \<Longrightarrow> 0x7D \<notin> set k"
  shows "parse_ops (print_op op @ s) ops = parse_ops s (ops @ [stored_op op])"
proof -
  have s: "s = [] \<or> \<not> is_ascii_digit (hd s)"
    using assms(1) by (auto simp: is_ascii_digit_def)
  note number = leading_number_dec_nat [OF s]
  show ?thesis
  proof (cases op)
    case (Parent n)
    obtain c r where c: "dec_nat n = c # r" "is_ascii_digit c"
      using dec_nat_head by blast
    then have "\<not> starts_with [0x7B] (dec_nat n @ s)"
      by (auto simp: starts_with_def is_ascii_digit_def)
    then show ?thesis
      by (simp add: Parent number unwrap_or_def)
  next
    case (Ancestor n)
    then show ?thesis
      by (simp add: number unwrap_or_def)
  next
    case (Peel k)
    then have "position (\<lambda>b. b = 0x7D) (k @ 0x7D # s) = Some (length k)"
      using assms(2) by (intro position_append_first) auto
    then show ?thesis
      by (simp add: Peel starts_with_def)
  qed
qed

lemma parse_ops_all:
  assumes "\<forall>k. Peel k \<in> set todo \<longrightarrow> 0x7D \<notin> set k"
  shows "parse_ops (concat (map print_op todo)) ops = Inr (ops @ map stored_op todo)"
  using assms
proof (induction todo arbitrary: ops)
  case (Cons op todo)
  have "concat (map print_op todo) = [] \<or> hd (concat (map print_op todo)) \<in> {CARET, TILDE}"
  proof (cases todo)
    case (Cons op' todo')
    then show ?thesis
      by (cases op') simp_all
  qed simp
  then have "parse_ops (print_op op @ concat (map print_op todo)) ops
      = parse_ops (concat (map print_op todo)) (ops @ [stored_op op])"
    using Cons.prems by (intro parse_ops_print) auto
  then show ?case
    using Cons by simp
qed simp

lemma parse_spec_print:
  assumes "\<forall>b \<in> set base. b \<noteq> TILDE \<and> b \<noteq> CARET" "\<forall>k. Peel k \<in> set ops \<longrightarrow> 0x7D \<notin> set k"
  shows "parse_spec (base @ concat (map print_op ops)) = Inr (base, map stored_op ops)"
proof -
  let ?s = "concat (map print_op ops)"
  have "unwrap_or (position (\<lambda>b. b = TILDE \<or> b = CARET) (base @ ?s)) (length (base @ ?s)) = length base"
  proof (cases ops)
    case Nil
    then have "position (\<lambda>b. b = TILDE \<or> b = CARET) (base @ ?s) = None"
      using assms(1) by (auto simp: position_None)
    then show ?thesis
      by (simp add: unwrap_or_def Nil)
  next
    case (Cons op todo)
    then obtain b r where b: "?s = b # r" "b = TILDE \<or> b = CARET"
      by (cases op) auto
    have "position (\<lambda>b. b = TILDE \<or> b = CARET) (base @ b # r) = Some (length base)"
      using assms(1) b(2) by (intro position_append_first) auto
    then show ?thesis
      by (simp add: unwrap_or_def b(1))
  qed
  then show ?thesis
    by (simp add: parse_spec_def parse_ops_all [OF assms(2)])
qed

section \<open>Properties\<close>

text \<open>A small repository: the root 1, the commits 2 and 3 on it, two merges 4 and 5 of both, and the empty
  tree 9 that all of them have.\<close>

definition demo_id :: "byte \<Rightarrow> object_id" where
  "demo_id n = ObjectId (replicate 20 n)"

definition demo_parents :: "byte \<Rightarrow> byte list" where
  "demo_parents n = (if n = 1 then [] else if n = 2 \<or> n = 3 then [1] else [2, 3])"

definition demo_sig :: "byte \<Rightarrow> signature" where
  "demo_sig n = \<lparr>sig_name = ascii ''A'', sig_email = ascii ''a'', sig_seconds = uint n,
     sig_offset = \<lparr>negative = False, hours = 0, minutes = 0\<rparr>\<rparr>"

definition demo_commit :: "byte \<Rightarrow> commit" where
  "demo_commit n = \<lparr>tree = demo_id 9, parents = map demo_id (demo_parents n), author = sig_display (demo_sig n),
     committer = sig_display (demo_sig n), signature_block = None, extra_headers = [], message = []\<rparr>"

abbreviation "demo_alg \<equiv> sha1 (sum_digest 20)"

definition demo_repo :: repo where
  "demo_repo =
     \<lparr>read_object = (\<lambda>i. let n = hd (id_bytes i) in
        if i = demo_id n \<and> n \<in> {1, 2, 3, 4, 5} then Inr (Commit, encode_commit demo_alg (demo_commit n))
        else if i = demo_id 9 then Inr (Tree, [])
        else Inl (Err ObjectNotFound)),
      exists_object = (\<lambda>_. Inr False), find_by_prefix = (\<lambda>_. Inr []), resolve_head = Inr None,
      resolve_symbolic = (\<lambda>_. Inr None), read_file = (\<lambda>_. Inr None), list_prefix = (\<lambda>_. Inr [])\<rparr>"

lemma demo_sig_ok: "sig_ok (demo_sig n)"
proof -
  have "trim_end (ascii ''A'') = ascii ''A''"
    by (subst trim_end.simps) (simp add: white_space_def starts_with_def)
  moreover have "uint n < 256"
    using uint_lt2p [of n] by simp
  moreover have "- (2 ^ 63) \<le> uint n"
    by (rule order_trans [OF _ uint_ge_0]) simp
  ultimately show ?thesis
    by (simp add: sig_ok_def demo_sig_def del: ascii_Cons) (simp add: utf8_valid.simps)
qed

lemma demo_display: "sig_display (demo_sig n) = ascii ''A <a> '' @ dec_nat (unat n) @ ascii '' +0000''"
proof -
  have "pad_nat 2 0 = [0x30, 0x30]"
    by (simp add: pad_nat_def dec_nat.simps [of 0])
  then show ?thesis
    by (simp add: sig_display_def demo_sig_def dec_int_def tz_display_def)
qed

lemma demo_commit_ok: "commit_ok demo_alg (demo_commit n)"
proof -
  have "utf8_valid (sig_display (demo_sig n))"
    using dec_nat_ascii unfolding demo_display by (intro utf8_valid_ascii) (simp add: ascii_only_def)
  moreover have "0x0A \<notin> set (sig_display (demo_sig n))"
    using dec_nat_mem [of "0x0A" "unat n"] unfolding demo_display by auto
  ultimately have "text_line (sig_display (demo_sig n))"
    by (simp add: text_line_def)
  then show ?thesis
    by (auto simp: commit_ok_def demo_commit_def id_ok_def demo_id_def sha1_def)
qed

lemma demo_read:
  assumes "n \<in> {1, 2, 3, 4, 5}"
  shows "read_commit demo_alg demo_repo (demo_id n) = Inr (demo_commit n)"
    "peel_to_commit demo_alg demo_repo (demo_id n) = Some (Inr (demo_id n))"
    "commit_parents demo_alg demo_repo {} (demo_id n) = Inr (map demo_id (demo_parents n))"
    "committer_seconds demo_alg demo_repo (demo_id n) = Inr (uint n)"
proof -
  have object: "read_object demo_repo (demo_id n) = Inr (Commit, encode_commit demo_alg (demo_commit n))"
    using assms by (simp add: demo_repo_def demo_id_def)
  show commit: "read_commit demo_alg demo_repo (demo_id n) = Inr (demo_commit n)"
    using parse_encode_commit [OF sample_alg demo_commit_ok] by (simp add: read_commit_def object)
  show "peel_to_commit demo_alg demo_repo (demo_id n) = Some (Inr (demo_id n))"
    by (subst peel_to_commit.simps) (simp add: object)
  show "commit_parents demo_alg demo_repo {} (demo_id n) = Inr (map demo_id (demo_parents n))"
    by (simp add: commit_parents_def commit demo_commit_def)
  show "committer_seconds demo_alg demo_repo (demo_id n) = Inr (uint n)"
    using sig_parse_display [OF demo_sig_ok [of n]]
    by (simp add: committer_seconds_def commit demo_commit_def) (simp add: demo_sig_def)
qed

lemma demo_shallow: "shallow_set demo_alg demo_repo = Inr {}"
  by (simp add: shallow_set_def read_shallow_def demo_repo_def)

lemma demo_history:
  assumes "set ns \<subseteq> {1, 2, 3, 4, 5}"
  shows "commit_history demo_alg demo_repo {} (demo_id ` set ns) \<subseteq> demo_id ` {1, 2, 3, 4, 5}"
  unfolding commit_history_def
proof (rule reachable_least)
  show "demo_id ` set ns \<subseteq> demo_id ` {1, 2, 3, 4, 5}"
    using assms by blast
  show "p \<in> demo_id ` {1, 2, 3, 4, 5}"
    if "i \<in> demo_id ` {1, 2, 3, 4, 5}" "edge (commit_parents demo_alg demo_repo {}) i p" for i p
    using that demo_read(3) by (fastforce simp: edge_def demo_parents_def split: if_splits)
qed

text \<open>C14: the history walk of \<open>rev-list\<close> always ends, on any store. When every commit reachable from
  the tips up to the shallow boundary is readable, it lists each of them exactly once and nothing else,
  and when no parent is younger than its child the list runs from the newest date to the oldest; when
  one of them is not readable, it fails (with an error, or a panic if the parser panics on it).\<close>

theorem rev_list_complete:
  assumes "shallow_set H R = Inr shallow" "list_all2 (\<lambda>t c. peel_to_commit H R t = Some (Inr c)) tips cs"
  shows "if \<forall>i \<in> commit_history H R shallow (set cs). commit_readable H R i
    then \<exists>out. rev_list H R tips = Some (Inr out) \<and> distinct out \<and> set out = commit_history H R shallow (set cs)
      \<and> (falling (commit_parents H R shallow) (committer_seconds H R) (set out) \<longrightarrow>
           sorted_wrt (\<lambda>a b. commit_date H R b \<le> commit_date H R a) out)
    else \<exists>e. rev_list H R tips = Some (Inl e)"
proof -
  obtain r where "rev_list H R tips = Some r"
    "case r of
         Inr out \<Rightarrow> distinct out \<and> set out = commit_history H R shallow (set cs)
           \<and> (\<forall>i \<in> commit_history H R shallow (set cs). commit_readable H R i)
           \<and> (falling (commit_parents H R shallow) (committer_seconds H R) (commit_history H R shallow (set cs)) \<longrightarrow>
               sorted_wrt (\<lambda>a b. commit_date H R b \<le> commit_date H R a) out)
       | Inl e \<Rightarrow> \<exists>i \<in> commit_history H R shallow (set cs). \<not> commit_readable H R i"
    using rev_list_run [OF assms] by blast
  then show ?thesis
    by (cases r) auto
qed

theorem rev_list_complete_witness:
  "\<exists>out. rev_list demo_alg demo_repo [demo_id 5, demo_id 4] = Some (Inr out) \<and> distinct out
     \<and> {demo_id 5, demo_id 4} \<subseteq> set out \<and> set out \<subseteq> demo_id ` {1, 2, 3, 4, 5}"
proof -
  let ?V = "commit_history demo_alg demo_repo {} (set [demo_id 5, demo_id 4])"
  have V: "?V \<subseteq> demo_id ` {1, 2, 3, 4, 5}" "{demo_id 5, demo_id 4} \<subseteq> ?V"
    using demo_history [of "[5, 4]"] reachable_tips [of "{demo_id 5, demo_id 4}"]
    by (simp_all add: commit_history_def)
  then have "\<forall>i \<in> ?V. commit_readable demo_alg demo_repo i"
    using demo_read(4) by (fastforce simp: commit_readable_def)
  moreover have "list_all2 (\<lambda>t c. peel_to_commit demo_alg demo_repo t = Some (Inr c))
      [demo_id 5, demo_id 4] [demo_id 5, demo_id 4]"
    by (simp add: demo_read(2))
  ultimately obtain out where "rev_list demo_alg demo_repo [demo_id 5, demo_id 4] = Some (Inr out)"
    "distinct out" "set out = ?V"
    using rev_list_complete [OF demo_shallow, of "[demo_id 5, demo_id 4]" "[demo_id 5, demo_id 4]"] by auto
  then show ?thesis
    using V by blast
qed

text \<open>C40: the suffixes of a revision parse to the operations they write, in their order: \<open>^n\<close>,
  \<open>~n\<close> and \<open>^{kind}\<close> after a base without either sign. A count that does not fit 32 bits is
  taken for no count at all, so that \<open>HEAD~4294967296\<close> means \<open>HEAD~1\<close>.\<close>

theorem revision_grammar:
  assumes "\<forall>b \<in> set base. b \<noteq> TILDE \<and> b \<noteq> CARET" "\<forall>k. Peel k \<in> set ops \<longrightarrow> 0x7D \<notin> set k"
  shows "parse_spec (base @ concat (map print_op ops)) = Inr (base, map stored_op ops)"
  by (rule parse_spec_print [OF assms])

theorem revision_grammar_witness:
  "parse_spec (ascii ''HEAD'' @ [TILDE] @ dec_nat 4294967296 @ ascii ''^{commit}'')
     = Inr (ascii ''HEAD'', [Ancestor 1, Peel (ascii ''commit'')])"
  using revision_grammar [of "ascii ''HEAD''" "[Ancestor 4294967296, Peel (ascii ''commit'')]"] by simp

end
