(* ===== verification/Git_Reach.thy ===== *)
theory Git_Reach
  imports Git_Revision Git_Bitmap_Correct
begin

text \<open>
  Reachability over the bitmap of the object store, \<open>gitana-object-store/src/lib.rs\<close>: loading the
  multi-pack index and the bitmap that belongs to it, the question \<open>commit_reaches_any\<close>, which tests bits
  of a bitmapped parent and walks the rest, and the bytes that \<open>write_reachability_bitmap\<close> publishes. The
  caches of the store hold what the files give, so on a repository that does not change they are not state.
\<close>

section \<open>Names\<close>

definition MIDX_PATH :: bytes where "MIDX_PATH = ascii ''objects/pack/multi-pack-index''"
definition PACK_PREFIX :: bytes where "PACK_PREFIX = ascii ''objects/pack/''"
definition PACK_SUFFIX :: bytes where "PACK_SUFFIX = ascii ''.pack''"
definition IDX_SUFFIX :: bytes where "IDX_SUFFIX = ascii ''.idx''"

text \<open>\<open>str::strip_suffix\<close>, \<open>str::ends_with\<close>; \<open>Result::ok\<close>, which a panic passes through.\<close>

definition strip_suffix :: "'a list \<Rightarrow> 'a list \<Rightarrow> 'a list option" where
  "strip_suffix s xs = map_option rev (strip_prefix (rev s) (rev xs))"

definition ends_with :: "'a list \<Rightarrow> 'a list \<Rightarrow> bool" where
  "ends_with s xs \<longleftrightarrow> strip_suffix s xs \<noteq> None"

fun res_ok :: "('e1, 'a) res \<Rightarrow> ('e2, 'a option) res" where
  "res_ok (Inr x) = Inr (Some x)"
| "res_ok (Inl (Err e)) = Inr None"
| "res_ok (Inl Panic) = Inl Panic"

definition pack_basename :: "bytes \<Rightarrow> bytes" where
  "pack_basename path = unwrap_or (strip_prefix PACK_PREFIX path) path"

definition midx_pack_name :: "bytes \<Rightarrow> bytes" where
  "midx_pack_name path =
     (let base = pack_basename path; stem = unwrap_or (strip_suffix PACK_SUFFIX base) base in stem @ IDX_SUFFIX)"

definition midx_bitmap_path :: "bytes \<Rightarrow> bytes" where
  "midx_bitmap_path checksum =
     PACK_PREFIX @ ascii ''multi-pack-index-'' @ concat (map hex2 checksum) @ ascii ''.bitmap''"

section \<open>Loading\<close>

text \<open>\<open>multi_pack_index\<close>, \<open>usable_multi_pack_index\<close>, \<open>load_reachability_bitmap\<close>: a file that does not
  decode, names a pack that is gone or belongs to another index counts as absent.\<close>

definition load_midx :: "hash_alg \<Rightarrow> repo \<Rightarrow> multi_pack_index option rres" where
  "load_midx H R =
     ebind (read_file R MIDX_PATH) (\<lambda>file.
       case file of
         None \<Rightarrow> Inr None
       | Some bs \<Rightarrow> res_ok (decode_multi_pack_index H bs))"

definition usable_midx :: "hash_alg \<Rightarrow> repo \<Rightarrow> multi_pack_index option rres" where
  "usable_midx H R =
     ebind (load_midx H R) (\<lambda>midx.
       case midx of
         None \<Rightarrow> Inr None
       | Some m \<Rightarrow>
           ebind (list_prefix R PACK_PREFIX) (\<lambda>paths.
             let on_disk = map midx_pack_name (filter (ends_with PACK_SUFFIX) paths) in
             Inr (if list_all (\<lambda>n. n \<in> set on_disk) (pack_names m) then Some m else None)))"

definition load_bitmap :: "hash_alg \<Rightarrow> repo \<Rightarrow> bitmap_index option rres" where
  "load_bitmap H R =
     ebind (load_midx H R) (\<lambda>midx.
       case midx of
         None \<Rightarrow> Inr None
       | Some m \<Rightarrow>
           ebind (read_file R (midx_bitmap_path (midx_checksum m))) (\<lambda>file.
             case file of
               None \<Rightarrow> Inr None
             | Some bs \<Rightarrow>
                 ebind (res_ok (decode_midx_bitmap H bs)) (\<lambda>bitmap.
                   Inr (case bitmap of
                          None \<Rightarrow> None
                        | Some b \<Rightarrow> if bi_midx_checksum b = midx_checksum m then Some b else None))))"

definition bitmap_and_midx :: "hash_alg \<Rightarrow> repo \<Rightarrow> (bitmap_index \<times> multi_pack_index) option rres" where
  "bitmap_and_midx H R =
     ebind (usable_midx H R) (\<lambda>midx.
       case midx of
         None \<Rightarrow> Inr None
       | Some m \<Rightarrow> ebind (load_bitmap H R) (\<lambda>bitmap. Inr (map_option (\<lambda>b. (b, m)) bitmap)))"

definition has_reachability_bitmap :: "hash_alg \<Rightarrow> repo \<Rightarrow> bool rres" where
  "has_reachability_bitmap H R = ebind (bitmap_and_midx H R) (\<lambda>b. Inr (b \<noteq> None))"

section \<open>Whether a commit reaches a target\<close>

fun target_positions :: "bitmap_index \<Rightarrow> multi_pack_index \<Rightarrow> object_id list \<Rightarrow> u32 list rres" where
  "target_positions b m [] = Inr []"
| "target_positions b m (t # ts) =
     ebind (map_err StoreError (bitmap_position m t)) (\<lambda>p.
     ebind (target_positions b m ts) (\<lambda>ps.
       Inr (case p of
              None \<Rightarrow> ps
            | Some q \<Rightarrow> if get_bit (type_bitmap b Commit) q then q # ps else ps)))"

text \<open>The parents of the popped commit; an absent object and one that is no commit have none.\<close>

definition edges_of :: "hash_alg \<Rightarrow> repo \<Rightarrow> object_id \<Rightarrow> object_id list rres" where
  "edges_of H R i =
     (case read_object R i of
        Inr (kind, data) \<Rightarrow>
          if kind = Commit then ebind (map_err StoreError (parse_commit H data)) (\<lambda>c. Inr (parents c)) else Inr []
      | Inl e \<Rightarrow> if e = Err ObjectNotFound then Inr [] else Inl e)"

text \<open>The reachability bitmap of a parent, tested for the targets; \<open>None\<close> when it has no bitmap.\<close>

definition bitmap_test ::
  "(bitmap_index \<times> multi_pack_index) option \<Rightarrow> u32 list \<Rightarrow> object_id \<Rightarrow> bool option rres" where
  "bitmap_test bitmap targeted p =
     ebind
       (case bitmap of
          None \<Rightarrow> Inr None
        | Some (b, m) \<Rightarrow>
            (case object_position m p of
               None \<Rightarrow> Inr None
             | Some lexical \<Rightarrow> map_err StoreError (commit_reachability b (word_of_nat lexical))))
       (\<lambda>reachability. Inr (map_option (\<lambda>bm. list_ex (get_bit bm) targeted) reachability))"

text \<open>The loop over the parents: \<open>None\<close> when it returns \<open>true\<close>.\<close>

fun scan_parents :: "('i \<Rightarrow> ('e, bool option) res) \<Rightarrow> 'i list \<Rightarrow> 'i list \<Rightarrow> 'i set \<Rightarrow> 'i list
    \<Rightarrow> ('e, ('i set \<times> 'i list) option) res" where
  "scan_parents test targets [] seen stack = Inr (Some (seen, stack))"
| "scan_parents test targets (p # ps) seen stack =
     (if p \<in> set targets then Inr None
      else if p \<in> seen then scan_parents test targets ps seen stack
      else
        ebind (test p) (\<lambda>r.
          case r of
            None \<Rightarrow> scan_parents test targets ps (insert p seen) (p # stack)
          | Some hit \<Rightarrow> if hit then Inr None else scan_parents test targets ps (insert p seen) stack))"

partial_function (option) reach_loop ::
  "('i \<Rightarrow> ('e, 'i list) res) \<Rightarrow> ('i \<Rightarrow> ('e, bool option) res) \<Rightarrow> 'i list \<Rightarrow> 'i set \<Rightarrow> 'i list
     \<Rightarrow> ('e, bool) res option" where
  "reach_loop next test targets seen stack =
     (case stack of
        [] \<Rightarrow> Some (Inr False)
      | i # stack \<Rightarrow>
          (case ebind (next i) (\<lambda>ps. scan_parents test targets ps seen stack) of
             Inl e \<Rightarrow> Some (Inl e)
           | Inr None \<Rightarrow> Some (Inr True)
           | Inr (Some (seen, stack)) \<Rightarrow> reach_loop next test targets seen stack))"

definition commit_reaches_any :: "hash_alg \<Rightarrow> repo \<Rightarrow> object_id \<Rightarrow> object_id list \<Rightarrow> bool rres option" where
  "commit_reaches_any H R source targets =
     (if source \<in> set targets then Some (Inr True)
      else
        tbind (Some (bitmap_and_midx H R)) (\<lambda>bitmap.
          let bitmap = (case bitmap of
                          None \<Rightarrow> None
                        | Some (b, m) \<Rightarrow> if reverse_index m \<noteq> None then Some (b, m) else None) in
          tbind (Some (case bitmap of None \<Rightarrow> Inr [] | Some (b, m) \<Rightarrow> target_positions b m targets)) (\<lambda>targeted.
            reach_loop (edges_of H R) (bitmap_test bitmap targeted) targets {source} [source])))"

section \<open>Publishing a bitmap\<close>

text \<open>\<open>write_reachability_bitmap\<close> reads every object of the new index into two maps, keeps the packed commits
  of the selection and builds the file from them.\<close>

fun gather_objects :: "repo \<Rightarrow> object_id list \<Rightarrow> kind_reader \<Rightarrow> byte_reader \<Rightarrow> (kind_reader \<times> byte_reader) rres" where
  "gather_objects R [] kinds dat = Inr (kinds, dat)"
| "gather_objects R (i # is) kinds dat =
     ebind (read_object R i) (\<lambda>(kind, bs).
       gather_objects R is (kinds(i \<mapsto> kind)) (if kind \<noteq> Blob then dat(i \<mapsto> bs) else dat))"

definition bitmap_bytes :: "hash_alg \<Rightarrow> repo \<Rightarrow> multi_pack_index \<Rightarrow> object_id list \<Rightarrow> bytes rres option" where
  "bitmap_bytes H R m selected_commits =
     tbind (Some (gather_objects R (midx_ids m) Map.empty Map.empty)) (\<lambda>(kinds, dat).
       let selected = filter (\<lambda>i. kinds i = Some Commit) selected_commits in
       tbind (map_option (map_err StoreError) (build_reachability_bitmaps H m selected kinds dat)) (\<lambda>built.
         Some (map_err StoreError (rb_encode H built (midx_checksum m)))))"

section \<open>The walk that tests parents\<close>

lemma reachable_trans: "j \<in> reachable next {i} \<Longrightarrow> i \<in> reachable next S \<Longrightarrow> j \<in> reachable next S"
  by (auto simp: reachable_def intro: rtranclp_trans)

definition misses :: "('i \<Rightarrow> ('e, 'i list) res) \<Rightarrow> 'i list \<Rightarrow> 'i \<Rightarrow> bool" where
  "misses next targets i \<longleftrightarrow> (\<forall>t \<in> set targets. t \<notin> reachable next {i})"

lemma misses_self: "misses next targets i \<Longrightarrow> i \<notin> set targets"
  using reachable_tips [of "{i}" "next"] by (auto simp: misses_def)

lemma misses_down: "misses next targets i \<Longrightarrow> p \<in> reachable next {i} \<Longrightarrow> misses next targets p"
  using reachable_trans [of _ "next" p "{i}"] by (auto simp: misses_def)

text \<open>A test is truthful when what it says of a bitmapped commit is what the graph says.\<close>

definition truthful :: "('i \<Rightarrow> ('e, 'i list) res) \<Rightarrow> ('i \<Rightarrow> ('e, bool option) res) \<Rightarrow> 'i list \<Rightarrow> 'i \<Rightarrow> bool" where
  "truthful next test targets p \<longleftrightarrow>
     test p = Inr None \<or> test p = Inr (Some (\<not> misses next targets p))"

inductive scan_result :: "('i \<Rightarrow> ('e, 'i list) res) \<Rightarrow> 'i list \<Rightarrow> 'i list \<Rightarrow> 'i set \<Rightarrow> 'i list
    \<Rightarrow> ('i set \<times> 'i list) option \<Rightarrow> bool"
  for "next" targets ps seen stack where
  hit: "p \<in> set ps \<Longrightarrow> \<not> misses next targets p \<Longrightarrow> scan_result next targets ps seen stack None"
| more: "set targets \<inter> set ps = {} \<Longrightarrow> distinct new \<Longrightarrow> \<forall>i \<in> set new. i \<in> set ps \<and> i \<notin> seen \<Longrightarrow>
    \<forall>i \<in> set ps. i \<in> seen \<or> i \<in> set new \<or> misses next targets i \<Longrightarrow> all = seen \<union> set ps \<Longrightarrow>
    scan_result next targets ps seen stack (Some (all, new @ stack))"

inductive_cases scan_resultE: "scan_result next targets ps seen stack r"

lemma scan_result_seen:
  "scan_result next targets ps seen stack r \<Longrightarrow> p \<in> seen \<Longrightarrow> p \<notin> set targets \<Longrightarrow>
   scan_result next targets (p # ps) seen stack r"
  by (erule scan_resultE) (auto intro: hit intro!: more)

lemma scan_result_miss:
  "scan_result next targets ps (insert p seen) stack r \<Longrightarrow> p \<notin> seen \<Longrightarrow> p \<notin> set targets \<Longrightarrow>
   misses next targets p \<Longrightarrow> scan_result next targets (p # ps) seen stack r"
  by (erule scan_resultE) (auto intro: hit intro!: more)

lemma scan_result_push:
  assumes "scan_result next targets ps (insert p seen) (p # stack) r" "p \<notin> seen" "p \<notin> set targets"
  shows "scan_result next targets (p # ps) seen stack r"
  using assms(1)
proof (rule scan_resultE)
  fix new assume "r = Some (insert p seen \<union> set ps, new @ p # stack)" "set targets \<inter> set ps = {}" "distinct new"
    "\<forall>i \<in> set new. i \<in> set ps \<and> i \<notin> insert p seen"
    "\<forall>i \<in> set ps. i \<in> insert p seen \<or> i \<in> set new \<or> misses next targets i"
  with assms(2,3) show "scan_result next targets (p # ps) seen stack r"
    using more [of targets "p # ps" "new @ [p]" seen "next" "insert p seen \<union> set ps" stack] by auto
next
  fix q assume "r = None" "q \<in> set ps" "\<not> misses next targets q"
  then show "scan_result next targets (p # ps) seen stack r"
    by (auto intro: hit [of q])
qed

lemma scan_parents_run:
  "\<forall>p \<in> set ps. truthful next test targets p \<Longrightarrow>
   \<exists>r. scan_parents test targets ps seen stack = Inr r \<and> scan_result next targets ps seen stack r"
proof (induction ps arbitrary: seen stack)
  case Nil
  then show ?case
    using more [of targets "[]" "[]" seen "next" seen stack] by simp
next
  case (Cons p ps)
  then have IH: "\<exists>r. scan_parents test targets ps s st = Inr r \<and> scan_result next targets ps s st r" for s st
    by simp
  have t: "test p = Inr None \<or> test p = Inr (Some (\<not> misses next targets p))"
    using Cons.prems by (simp add: truthful_def)
  show ?case
  proof (cases "p \<in> set targets \<or> p \<in> seen \<or> test p = Inr None")
    case True
    then consider "p \<in> set targets" | "p \<notin> set targets" "p \<in> seen" | "p \<notin> set targets" "p \<notin> seen" "test p = Inr None"
      by blast
    then show ?thesis
    proof cases
      case 1
      then show ?thesis
        using misses_self [of "next" targets p] by (auto intro!: hit [of p])
    next
      case 2
      then show ?thesis
        using IH [of seen stack] scan_result_seen by fastforce
    next
      case 3
      then show ?thesis
        using IH [of "insert p seen" "p # stack"] scan_result_push by fastforce
    qed
  next
    case False
    show ?thesis
    proof (cases "\<not> misses next targets p")
      case True
      then show ?thesis
        using False t by (auto intro!: hit [of p])
    next
      case miss: False
      then show ?thesis
        using False t IH [of "insert p seen" stack] scan_result_miss [of "next" targets ps p seen stack] by fastforce
    qed
  qed
qed

definition reach_inv :: "('i \<Rightarrow> ('e, 'i list) res) \<Rightarrow> 'i list \<Rightarrow> 'i set \<Rightarrow> 'i list \<Rightarrow> bool" where
  "reach_inv next targets seen stack \<longleftrightarrow>
     set stack \<subseteq> seen \<and> set targets \<inter> seen = {}
     \<and> (\<forall>i \<in> seen - set stack. (\<exists>ps. next i = Inr ps \<and> set ps \<subseteq> seen) \<or> misses next targets i)"

text \<open>When nothing is left on the stack, no target is reachable.\<close>

lemma reach_inv_final:
  assumes "reach_inv next targets seen []" "d \<in> seen"
  shows "misses next targets d"
proof -
  have "reachable next {d} \<subseteq> {i. i \<in> seen \<or> misses next targets i}"
  proof (rule reachable_least)
    fix i p assume i: "i \<in> {i. i \<in> seen \<or> misses next targets i}" and p: "edge next i p"
    then have "misses next targets i \<Longrightarrow> misses next targets p"
      by (auto simp: reachable_def intro: misses_down)
    then show "p \<in> {i. i \<in> seen \<or> misses next targets i}"
      using i p assms(1) by (fastforce simp: reach_inv_def edge_def)
  qed (use assms(2) in simp)
  then have "t \<notin> set targets" if "t \<in> reachable next {d}" for t
    using that assms(1) misses_self by (fastforce simp: reach_inv_def)
  then show ?thesis
    by (auto simp: misses_def)
qed

lemma reach_loop_run:
  assumes "finite V" "\<forall>i \<in> V. \<exists>ps. next i = Inr ps \<and> set ps \<subseteq> V" "\<forall>i \<in> V. truthful next test targets i"
    and "reach_inv next targets seen stack" "seen \<subseteq> V" "d \<in> seen"
  shows "\<exists>b. reach_loop next test targets seen stack = Some (Inr b)
    \<and> (if b then \<exists>i \<in> V. \<not> misses next targets i else misses next targets d)"
  using assms(4-6)
proof (induction "card (V - seen) + length stack" arbitrary: seen stack rule: less_induct)
  case less
  show ?case
  proof (cases stack)
    case Nil
    then have "reach_loop next test targets seen stack = Some (Inr False)"
      by (subst reach_loop.simps) simp
    then show ?thesis
      using reach_inv_final [OF less.prems(1) [unfolded Nil] less.prems(3)] by (intro exI [of _ False]) simp
  next
    case (Cons i st)
    then have i: "i \<in> V"
      using less.prems by (auto simp: reach_inv_def)
    then obtain ps where ps: "next i = Inr ps" "set ps \<subseteq> V"
      using assms(2) by blast
    then have "\<forall>p \<in> set ps. truthful next test targets p"
      using assms(3) by blast
    from scan_parents_run [OF this, of seen st] obtain r where
      r: "scan_parents test targets ps seen st = Inr r" "scan_result next targets ps seen st r"
      by blast
    show ?thesis
    proof (cases r)
      case None
      then have "reach_loop next test targets seen stack = Some (Inr True)"
        unfolding Cons using r(1) by (subst reach_loop.simps) (simp add: ps(1))
      moreover have "\<exists>i \<in> V. \<not> misses next targets i"
        using r(2) None ps(2) by (blast elim: scan_resultE)
      ultimately show ?thesis
        by (intro exI [of _ True]) simp
    next
      case (Some q)
      then obtain new where new: "scan_parents test targets ps seen st = Inr (Some (seen \<union> set ps, new @ st))"
        "set targets \<inter> set ps = {}" "distinct new" "\<forall>i \<in> set new. i \<in> set ps \<and> i \<notin> seen"
        "\<forall>i \<in> set ps. i \<in> seen \<or> i \<in> set new \<or> misses next targets i"
        using r by (auto elim: scan_resultE)
      let ?seen = "seen \<union> set ps"
      have sub: "?seen \<subseteq> V"
        using less.prems(2) ps(2) by simp
      have inv: "reach_inv next targets ?seen (new @ st)"
        unfolding reach_inv_def
      proof (intro conjI ballI)
        fix j assume "j \<in> ?seen - set (new @ st)"
        then consider "j \<in> set ps - seen - set new" | "j = i" | "j \<in> seen - set stack"
          using Cons by auto
        then show "(\<exists>ps. next j = Inr ps \<and> set ps \<subseteq> ?seen) \<or> misses next targets j"
        proof cases
          case 3
          then show ?thesis
            using less.prems(1) unfolding reach_inv_def by blast
        qed (use new(5) ps(1) in auto)
      qed (use less.prems(1) new(2,4) Cons in \<open>auto simp: reach_inv_def\<close>)
      have "V - seen = (V - ?seen) \<union> (set ps - seen)" "(V - ?seen) \<inter> (set ps - seen) = {}"
        using sub by auto
      then have "card (V - seen) = card (V - ?seen) + card (set ps - seen)"
        using assms(1) by (simp add: card_Un_disjoint)
      moreover have "length new \<le> card (set ps - seen)"
        using card_mono [of "set ps - seen" "set new"] new(4) distinct_card [OF new(3)] by auto
      ultimately have "card (V - ?seen) + length (new @ st) < card (V - seen) + length stack"
        by (simp add: Cons)
      moreover have "reach_loop next test targets seen stack = reach_loop next test targets ?seen (new @ st)"
        unfolding Cons by (subst reach_loop.simps) (simp add: ps new(1))
      ultimately show ?thesis
        using less.hyps [OF _ inv sub] less.prems(3) by simp
    qed
  qed
qed

lemma reach_loop_reaches:
  assumes "finite (reachable next {d})" "\<forall>i \<in> reachable next {d}. \<exists>ps. next i = Inr ps"
    and "\<forall>i \<in> reachable next {d}. truthful next test targets i" "d \<notin> set targets"
  shows "reach_loop next test targets {d} [d] = Some (Inr (\<not> misses next targets d))"
proof -
  have "\<forall>i \<in> reachable next {d}. \<exists>ps. next i = Inr ps \<and> set ps \<subseteq> reachable next {d}"
    using assms(2) reachable_down [of _ "next" "{d}"] by metis
  moreover have "reach_inv next targets {d} [d]"
    using assms(4) by (simp add: reach_inv_def)
  ultimately obtain b where "reach_loop next test targets {d} [d] = Some (Inr b)"
    "if b then \<exists>i \<in> reachable next {d}. \<not> misses next targets i else misses next targets d"
    using reach_loop_run [OF assms(1) _ assms(3), of "{d}" "[d]" d] reachable_tips [of "{d}"] by blast
  then show ?thesis
    using misses_down [of "next" targets d] by (cases b) auto
qed

section \<open>The bitmap of a repository\<close>

text \<open>
  What is assumed of a repository with a bitmap: the file was published by \<open>write_reachability_bitmap\<close> for the
  current index (within its size limits), and the indexed objects are well typed: the tree of a commit is
  a tree, the entries of a tree other than submodules are trees and blobs.
\<close>

definition typed_objects :: "hash_alg \<Rightarrow> repo \<Rightarrow> object_id list \<Rightarrow> bool" where
  "typed_objects H R is \<longleftrightarrow>
     (\<forall>i \<in> set is.
        (\<forall>d c. read_object R i = Inr (Commit, d) \<longrightarrow> parse_commit H d = Inr c \<longrightarrow>
           (\<exists>t. read_object R (tree c) = Inr (Tree, t)))
        \<and> (\<forall>d es e. read_object R i = Inr (Tree, d) \<longrightarrow> parse_tree H d = Inr es \<longrightarrow> e \<in> set es \<longrightarrow>
             mode e \<noteq> GITLINK_MODE \<longrightarrow> (\<exists>k t. read_object R (entry_id e) = Inr (k, t) \<and> k \<in> {Tree, Blob})))"

definition bitmap_current :: "hash_alg \<Rightarrow> repo \<Rightarrow> bool" where
  "bitmap_current H R \<longleftrightarrow>
     (\<exists>bitmap. bitmap_and_midx H R = Inr bitmap)
     \<and> (\<forall>b m. bitmap_and_midx H R = Inr (Some (b, m)) \<longrightarrow> reverse_index m \<noteq> None \<longrightarrow>
          length (midx_ids m) \<le> 2 ^ 32 - 64 \<and> typed_objects H R (midx_ids m)
          \<and> (\<exists>selected file. length selected < 2 ^ 32 \<and> bitmap_bytes H R m selected = Some (Inr file)
               \<and> read_file R (midx_bitmap_path (midx_checksum m)) = Inr (Some file)))"

lemma res_ok_Some [simp]: "res_ok r = Inr (Some x) \<longleftrightarrow> r = Inr x"
  by (cases r rule: res_ok.cases) auto

lemma bitmap_loaded:
  assumes "bitmap_and_midx H R = Inr (Some (b, m))"
  shows "\<exists>bs. decode_multi_pack_index H bs = Inr m"
    "read_file R (midx_bitmap_path (midx_checksum m)) = Inr (Some file) \<Longrightarrow> decode_midx_bitmap H file = Inr b"
proof -
  have m: "load_midx H R = Inr (Some m)" and b: "load_bitmap H R = Inr (Some b)"
    using assms by (auto simp: bitmap_and_midx_def usable_midx_def ebind_eq_Inr Let_def split: option.splits if_splits)
  show "\<exists>bs. decode_multi_pack_index H bs = Inr m"
    using m by (auto simp: load_midx_def ebind_eq_Inr split: option.splits)
  show "decode_midx_bitmap H file = Inr b" if "read_file R (midx_bitmap_path (midx_checksum m)) = Inr (Some file)"
    using b that by (auto simp: load_bitmap_def m ebind_eq_Inr split: option.splits if_splits)
qed

lemma gather_objects_maps:
  "gather_objects R is kinds dat = Inr (kinds', dat') \<Longrightarrow>
   (\<forall>i \<in> set is. \<exists>k d. read_object R i = Inr (k, d) \<and> kinds' i = Some k \<and> (k \<noteq> Blob \<longrightarrow> dat' i = Some d))
   \<and> (\<forall>i. i \<notin> set is \<longrightarrow> kinds' i = kinds i \<and> dat' i = dat i)"
proof (induction "is" arbitrary: kinds dat)
  case (Cons i "is")
  obtain k d where kd: "read_object R i = Inr (k, d)"
    "gather_objects R is (kinds(i \<mapsto> k)) (if k \<noteq> Blob then dat(i \<mapsto> d) else dat) = Inr (kinds', dat')"
    using Cons.prems by (cases "read_object R i") auto
  note IH = Cons.IH [OF kd(2)]
  have "\<exists>k d. read_object R j = Inr (k, d) \<and> kinds' j = Some k \<and> (k \<noteq> Blob \<longrightarrow> dat' j = Some d)" if "j \<in> set (i # is)" for j
  proof (cases "j \<in> set is")
    case False
    then have "j = i" "kinds' j = Some k" "k \<noteq> Blob \<longrightarrow> dat' j = Some d"
      using IH that by auto
    then show ?thesis
      using kd(1) by blast
  qed (use IH in blast)
  moreover have "kinds' j = kinds j \<and> dat' j = dat j" if "j \<notin> set (i # is)" for j
    using IH that by auto
  ultimately show ?case
    by blast
qed simp

lemma bitmap_built:
  assumes wf: "midx_wf H m" "reverse_index m = Some r" "invert_order r 0 (replicate (length r) 0) = Inr pbl"
    and n: "length (midx_ids m) \<le> 2 ^ 32 - 64" "length selected < 2 ^ 32"
    and pub: "bitmap_bytes H R m selected = Some (Inr file)" "decode_midx_bitmap H file = Inr b"
  obtains kinds dat cs rb where "gather_objects R (midx_ids m) Map.empty Map.empty = Inr (kinds, dat)"
    "kinds_ok m pbl kinds rb" "list_all2 (commit_bitmap_ok H m pbl (bitmap_reader m kinds dat)) cs (rb_commits rb)"
    "\<forall>c \<in> set cs. \<forall>i \<in> reachable_from H (bitmap_reader m kinds dat) [c]. complete H (bitmap_reader m kinds dat) i"
    "b = decoded_bitmap (midx_checksum m) (rb_types rb) (rb_commits rb)"
proof -
  obtain kinds dat where maps: "gather_objects R (midx_ids m) Map.empty Map.empty = Inr (kinds, dat)"
    using pub(1) unfolding bitmap_bytes_def
    by (cases "gather_objects R (midx_ids m) Map.empty Map.empty") auto
  let ?rd = "bitmap_reader m kinds dat" and ?cs = "filter (\<lambda>i. kinds i = Some Commit) selected"
  let ?ok = "(\<forall>i \<in> set (midx_ids m). kinds i \<noteq> None) \<and> (\<forall>c \<in> set ?cs. \<forall>i \<in> reachable_from H ?rd [c]. complete H ?rd i)"
  note unf = pub(1) [unfolded bitmap_bytes_def maps, simplified, unfolded Let_def]
  have ok: ?ok
  proof (rule ccontr)
    assume "\<not> ?ok"
    then obtain e where "build_reachability_bitmaps H m ?cs kinds dat = Some (Inl e)"
      using build_result [OF wf refl, of kinds ?cs dat] by (metis (no_types, lifting))
    then show False
      using unf by (cases e) simp_all
  qed
  then obtain rb where rb: "build_reachability_bitmaps H m ?cs kinds dat = Some (Inr rb)" "kinds_ok m pbl kinds rb"
    "list_all2 (commit_bitmap_ok H m pbl ?rd) ?cs (rb_commits rb)"
    using build_result [OF wf refl, of kinds ?cs dat, unfolded if_P [OF ok]] by blast
  then have enc: "rb_encode H rb (midx_checksum m) = Inr file"
    using unf by simp
  then have chk: "length (midx_checksum m) = raw_len H"
    by (auto simp: rb_encode_def encode_midx_bitmap_def split: if_splits)
  have len: "length (rb_commits rb) < 2 ^ 32"
    using list_all2_lengthD [OF rb(3)] n(2) length_filter_le [of _ selected] by (metis le_less_trans)
  have "list_all (\<lambda>e. ewah_fits (snd e)) (rb_commits rb)" "types_fit (rb_types rb)"
    using written_fits [OF wf refl n(1)] rb(2,3) ok by blast+
  with encode_decode_bitmap [OF chk _ _ len] have "b = decoded_bitmap (midx_checksum m) (rb_types rb) (rb_commits rb)"
    using enc pub(2) unfolding rb_encode_def by fastforce
  then show ?thesis
    using that maps rb(2,3) ok by blast
qed

text \<open>What a bitmap says of a commit with a readable history.\<close>

abbreviation history_readable :: "hash_alg \<Rightarrow> repo \<Rightarrow> object_id \<Rightarrow> bool" where
  "history_readable H R d \<equiv> \<forall>i \<in> commit_history H R {} {d}. commit_readable H R i"

lemma readable_commit:
  assumes "commit_readable H R i"
  obtains d c where "read_object R i = Inr (Commit, d)" "parse_commit H d = Inr c"
    "commit_parents H R {} i = Inr (parents c)" "edges_of H R i = Inr (parents c)"
proof -
  obtain d c where "read_object R i = Inr (Commit, d)" "parse_commit H d = Inr c"
    using assms by (auto simp: commit_readable_def committer_seconds_def read_commit_def ebind_eq_Inr split: if_splits)
  then show ?thesis
    by (intro that) (simp_all add: commit_parents_def read_commit_def edges_of_def)
qed

lemma reachable_same:
  assumes "\<And>i. i \<in> reachable f S \<Longrightarrow> g i = f i"
  shows "reachable g S = reachable f S"
proof (rule subset_antisym)
  show le: "reachable g S \<subseteq> reachable f S"
  proof (rule reachable_least [OF reachable_tips])
    fix i p assume "i \<in> reachable f S" "edge g i p"
    then obtain ps where "f i = Inr ps" "p \<in> set ps"
      using assms by (auto simp: edge_def)
    then show "p \<in> reachable f S"
      using reachable_down [of i f S ps] \<open>i \<in> reachable f S\<close> by blast
  qed
  have "reachable f S \<subseteq> reachable f S \<inter> reachable g S"
  proof (rule reachable_least)
    show "S \<subseteq> reachable f S \<inter> reachable g S"
      using reachable_tips [of S f] reachable_tips [of S g] by blast
    fix i p assume i: "i \<in> reachable f S \<inter> reachable g S" and "edge f i p"
    then obtain ps where "f i = Inr ps" "g i = Inr ps" "p \<in> set ps"
      using assms [of i] by (auto simp: edge_def)
    then show "p \<in> reachable f S \<inter> reachable g S"
      using reachable_down [of i f S ps] reachable_down [of i g S ps] i by blast
  qed
  then show "reachable f S \<subseteq> reachable g S"
    by blast
qed

lemma history_edges:
  assumes "history_readable H R d"
  shows "reachable (edges_of H R) {d} = commit_history H R {} {d}"
    "\<forall>i \<in> commit_history H R {} {d}. \<exists>ps. edges_of H R i = Inr ps"
proof -
  have same: "edges_of H R i = commit_parents H R {} i \<and> (\<exists>ps. edges_of H R i = Inr ps)"
    if "i \<in> commit_history H R {} {d}" for i
    using assms that readable_commit [of H R i] by metis
  then show "reachable (edges_of H R) {d} = commit_history H R {} {d}"
    unfolding commit_history_def by (intro reachable_same) blast
  show "\<forall>i \<in> commit_history H R {} {d}. \<exists>ps. edges_of H R i = Inr ps"
    using same by blast
qed

lemma reachable_commits:
  assumes maps: "gather_objects R (midx_ids m) Map.empty Map.empty = Inr (kinds, dat)"
    and typed: "typed_objects H R (midx_ids m)"
    and complete: "\<forall>i \<in> reachable_from H (bitmap_reader m kinds dat) [p]. complete H (bitmap_reader m kinds dat) i"
    and readable: "history_readable H R p"
  shows "{t \<in> reachable_from H (bitmap_reader m kinds dat) [p]. kinds t = Some Commit} = commit_history H R {} {p}"
proof -
  let ?rd = "bitmap_reader m kinds dat"
  let ?V = "reachable_from H ?rd [p]" and ?C = "commit_history H R {} {p}"
  have ids: "i \<in> set (midx_ids m)" if "i \<in> ?V" for i
    using complete_in_index complete that by blast
  have at: "\<exists>k d. read_object R i = Inr (k, d) \<and> kinds i = Some k \<and> ?rd i = Inr (Some (k, if k = Blob then [] else d))"
    if "i \<in> ?V" for i
    using gather_objects_maps [OF maps] ids [OF that] by (fastforce simp: bitmap_reader_def)
  have commit: "\<exists>c :: commit. kinds i = Some Commit \<and> commit_parents H R {} i = Inr (parents c)
      \<and> (\<forall>j. refers H ?rd i j \<longleftrightarrow> j = tree c \<or> j \<in> set (parents c)) \<and> (\<exists>t. read_object R (tree c) = Inr (Tree, t))"
    if i: "i \<in> ?V" "i \<in> ?C" for i
  proof -
    obtain d c where c: "read_object R i = Inr (Commit, d)" "parse_commit H d = Inr c"
      "commit_parents H R {} i = Inr (parents c)"
      using readable_commit readable i(2) by metis
    then have "kinds i = Some Commit" "?rd i = Inr (Some (Commit, d))"
      using at [OF i(1)] by auto
    moreover have "\<exists>t. read_object R (tree c) = Inr (Tree, t)"
      using typed ids [OF i(1)] c(1,2) unfolding typed_objects_def by blast
    moreover have "refers H ?rd i j \<longleftrightarrow> j = tree c \<or> j \<in> set (parents c)" for j
      using c(2) \<open>?rd i = _\<close> by (simp add: refers_def)
    ultimately show ?thesis
      using c(3) by blast
  qed
  have down: "j \<in> ?V" if "i \<in> ?V" "refers H ?rd i j" for i j
    using that by (auto simp: reachable_from_def intro: rtranclp.rtrancl_into_rtrancl)
  have "?C \<subseteq> ?V \<inter> ?C"
    unfolding commit_history_def
  proof (rule reachable_least)
    show "{p} \<subseteq> ?V \<inter> reachable (commit_parents H R {}) {p}"
      using self_reachable reachable_tips [of "{p}"] by blast
    fix i q assume i: "i \<in> ?V \<inter> reachable (commit_parents H R {}) {p}" and q: "edge (commit_parents H R {}) i q"
    then obtain c :: commit where "commit_parents H R {} i = Inr (parents c)" "\<forall>j. refers H ?rd i j \<longleftrightarrow> j = tree c \<or> j \<in> set (parents c)"
      using commit unfolding commit_history_def by blast
    then show "q \<in> ?V \<inter> reachable (commit_parents H R {}) {p}"
      using i q down [of i q] reachable_down [of i "commit_parents H R {}" "{p}" "parents c"] by (auto simp: edge_def)
  qed
  then have sub: "?C \<subseteq> ?V"
    by blast
  have "t \<in> ?C \<or> (\<exists>k d. read_object R t = Inr (k, d) \<and> k \<in> {Tree, Blob})" if "t \<in> ?V" for t
  proof -
    have "(refers H ?rd)\<^sup>*\<^sup>* p t"
      using that by (simp add: reachable_from_def)
    then show ?thesis
    proof (induction rule: rtranclp_induct)
      case base
      then show ?case
        using reachable_tips [of "{p}" "commit_parents H R {}"] by (simp add: commit_history_def)
    next
      case (step i j)
      then have i: "i \<in> ?V"
        by (simp add: reachable_from_def)
      from step.IH show ?case
      proof
        assume C: "i \<in> ?C"
        then obtain c :: commit where c: "commit_parents H R {} i = Inr (parents c)" "j = tree c \<or> j \<in> set (parents c)"
          "\<exists>t. read_object R (tree c) = Inr (Tree, t)"
          using commit [OF i C] step.hyps(2) by blast
        then show ?thesis
          using reachable_down [of i "commit_parents H R {}" "{p}" "parents c"] C by (auto simp: commit_history_def)
      next
        assume "\<exists>k d. read_object R i = Inr (k, d) \<and> k \<in> {Tree, Blob}"
        then obtain d where d: "read_object R i = Inr (Tree, d)" "?rd i = Inr (Some (Tree, d))"
          using at [OF i] step.hyps(2) by (auto simp: refers_def)
        then obtain es e where "parse_tree H d = Inr es" "e \<in> set es" "mode e \<noteq> GITLINK_MODE" "j = entry_id e"
          using step.hyps(2) by (auto simp: refers_def ebind_eq_Inr)
        then show ?thesis
          using typed ids [OF i] d(1) unfolding typed_objects_def by blast
      qed
    qed
  qed
  then have "t \<in> ?C" if "t \<in> ?V" "kinds t = Some Commit" for t
    using at [OF that(1)] that by fastforce
  then show ?thesis
    using sub commit by blast
qed

lemma bitmap_truthful:
  assumes current: "bitmap_current H R" and loaded: "bitmap_and_midx H R = Inr (Some (b, m))"
    and ridx: "reverse_index m \<noteq> None"
  shows "\<exists>qs. target_positions b m targets = Inr qs
    \<and> (\<forall>p. history_readable H R p \<longrightarrow> truthful (edges_of H R) (bitmap_test (Some (b, m)) qs) targets p)"
proof -
  obtain r where r: "reverse_index m = Some r"
    using ridx by blast
  obtain bs where "decode_multi_pack_index H bs = Inr m"
    using bitmap_loaded(1) [OF loaded] by blast
  then have wf: "midx_wf H m"
    by (rule decode_midx_wf)
  obtain pbl where pbl: "invert_order r 0 (replicate (length r) 0) = Inr pbl" "length pbl = length (midx_ids m)"
    by (rule reverse_index_inverse [OF wf r])
  note ctx = wf r pbl(1)
  obtain selected dest where n: "length (midx_ids m) \<le> 2 ^ 32 - 64" "length selected < 2 ^ 32"
    and typed: "typed_objects H R (midx_ids m)" and pub: "bitmap_bytes H R m selected = Some (Inr dest)"
      "read_file R (midx_bitmap_path (midx_checksum m)) = Inr (Some dest)"
    using current loaded ridx unfolding bitmap_current_def by blast
  obtain kinds dat cs rb where maps: "gather_objects R (midx_ids m) Map.empty Map.empty = Inr (kinds, dat)"
    and kinds: "kinds_ok m pbl kinds rb"
    and ok: "list_all2 (commit_bitmap_ok H m pbl (bitmap_reader m kinds dat)) cs (rb_commits rb)"
      "\<forall>c \<in> set cs. \<forall>i \<in> reachable_from H (bitmap_reader m kinds dat) [c]. complete H (bitmap_reader m kinds dat) i"
    and b: "b = decoded_bitmap (midx_checksum m) (rb_types rb) (rb_commits rb)"
    by (rule bitmap_built [OF ctx n pub(1) bitmap_loaded(2) [OF loaded pub(2)]])
  let ?V = "\<lambda>p. reachable_from H (bitmap_reader m kinds dat) [p]"
  let ?S = "{i \<in> set (midx_ids m). kinds i = Some Commit}"
  have inj: "pos_of m pbl i = pos_of m pbl j \<longleftrightarrow> i = j" if "i \<in> set (midx_ids m)" "j \<in> set (midx_ids m)" for i j
    using pos_of(3) [OF ctx that(1)] pos_of(3) [OF ctx that(2)] by (metis option.inject)
  have "inj (unat :: u32 \<Rightarrow> nat)"
    by (simp add: inj_def word_unat_eq_iff)
  then have bits: "get_bit (from_set_bits ps) q \<longleftrightarrow> q \<in> set ps" for ps q
    by (simp only: get_bit_positions positions_from_set_bits inj_image_mem_iff)
  obtain ps where ps: "type_bitmap b Commit = from_set_bits ps" "set ps = pos_of m pbl ` ?S"
  proof -
    obtain c t l g where c: "rb_types rb = (from_set_bits c, from_set_bits t, from_set_bits l, from_set_bits g)"
      "set c = pos_of m pbl ` ?S"
      using kinds unfolding kinds_ok_def by (elim exE conjE) (rule that)
    show ?thesis
      by (rule that [OF _ c(2)]) (simp add: b c(1))
  qed
  have pos: "bitmap_position m t = Inr (if t \<in> set (midx_ids m) then Some (pos_of m pbl t) else None)" for t
  proof (cases "t \<in> set (midx_ids m)")
    case True
    then obtain k where k: "object_position m t = Some k" "k < length (midx_ids m)"
      using object_position_None [OF midx_wf_table [OF wf], of t] object_position_Some [OF midx_wf_table [OF wf], of t]
      by (cases "object_position m t") auto
    then show ?thesis
      using True pbl r by (simp add: bitmap_position_def forward_index_def pos_of_def lexical_position_def)
  next
    case False
    then show ?thesis
      using object_position_None [OF midx_wf_table [OF wf], of t] pbl r
      by (simp add: bitmap_position_def forward_index_def)
  qed
  have "\<exists>qs. target_positions b m ts = Inr qs \<and> set qs = pos_of m pbl ` (set ts \<inter> ?S)" for ts
  proof (induction ts)
    case (Cons t ts)
    then obtain qs where qs: "target_positions b m ts = Inr qs" "set qs = pos_of m pbl ` (set ts \<inter> ?S)"
      by blast
    have "get_bit (type_bitmap b Commit) (pos_of m pbl t) \<longleftrightarrow> t \<in> ?S" if "t \<in> set (midx_ids m)"
      unfolding ps(1) bits ps(2) using inj [OF that] by auto
    then show ?case
      using qs by (cases "t \<in> ?S") (auto simp: pos)
  qed simp
  then obtain qs where qs: "target_positions b m targets = Inr qs" "set qs = pos_of m pbl ` (set targets \<inter> ?S)"
    by blast
  have "truthful (edges_of H R) (bitmap_test (Some (b, m)) qs) targets p" if p: "history_readable H R p" for p
  proof (cases "object_position m p")
    case None
    then show ?thesis
      by (simp add: truthful_def bitmap_test_def)
  next
    case (Some k)
    note q = reachability_written [OF wf ok(1) b Some]
    show ?thesis
    proof (cases "p \<in> set cs")
      case False
      then show ?thesis
        using q Some by (simp add: truthful_def bitmap_test_def)
    next
      case True
      then obtain us where us: "commit_reachability b (word_of_nat k) = Inr (Some (from_set_bits us))"
        "set us = pos_of m pbl ` ?V p"
        using q by auto
      have V: "?V p \<subseteq> set (midx_ids m)"
        using reachable_in_index ok(2) True by blast
      have "list_ex (get_bit (from_set_bits us)) qs \<longleftrightarrow> (\<exists>t \<in> set targets. t \<in> ?V p \<and> kinds t = Some Commit)"
        unfolding list_ex_iff bits us(2) qs(2) using V inj by blast
      also have "\<dots> \<longleftrightarrow> \<not> misses (edges_of H R) targets p"
        using reachable_commits [OF maps typed bspec [OF ok(2) True] p]
        unfolding misses_def history_edges(1) [OF p] by blast
      finally show ?thesis
        using us(1) Some by (simp add: truthful_def bitmap_test_def)
    qed
  qed
  with qs(1) show ?thesis
    by blast
qed

text \<open>The question is answered as by the history.\<close>

lemma commit_reaches_any_correct:
  assumes "bitmap_current H R" "history_readable H R d"
  shows "commit_reaches_any H R d targets = Some (Inr (\<exists>t \<in> set targets. t \<in> commit_history H R {} {d}))"
proof (cases "d \<in> set targets")
  case True
  then show ?thesis
    using reachable_tips [of "{d}"] by (auto simp: commit_reaches_any_def commit_history_def)
next
  case False
  have sub: "history_readable H R p" if "p \<in> commit_history H R {} {d}" for p
  proof -
    have "commit_history H R {} {p} \<subseteq> commit_history H R {} {d}"
      using that unfolding commit_history_def by (auto intro: reachable_trans)
    then show ?thesis
      using assms(2) by blast
  qed
  have fin: "finite (reachable (edges_of H R) {d})"
    unfolding history_edges(1) [OF assms(2)] commit_history_def by (simp add: commits.finite_reachable)
  have walk: "reach_loop (edges_of H R) test targets {d} [d]
      = Some (Inr (\<exists>t \<in> set targets. t \<in> commit_history H R {} {d}))"
    if "\<forall>p. history_readable H R p \<longrightarrow> truthful (edges_of H R) test targets p" for test
    using reach_loop_reaches [OF fin _ _ False, of test] that sub history_edges [OF assms(2)] by (simp add: misses_def)
  have none: "truthful (edges_of H R) (bitmap_test None qs) targets p" for qs p
    by (simp add: truthful_def bitmap_test_def)
  obtain bitmap where bitmap: "bitmap_and_midx H R = Inr bitmap"
    using assms(1) unfolding bitmap_current_def by blast
  show ?thesis
  proof (cases "\<exists>b m. bitmap = Some (b, m) \<and> reverse_index m \<noteq> None")
    case True
    then obtain b m where bm: "bitmap = Some (b, m)" "reverse_index m \<noteq> None"
      by blast
    then obtain qs where "target_positions b m targets = Inr qs"
      "\<forall>p. history_readable H R p \<longrightarrow> truthful (edges_of H R) (bitmap_test (Some (b, m)) qs) targets p"
      using bitmap_truthful [OF assms(1) bitmap [unfolded bm]] by blast
    then show ?thesis
      using False bm walk by (simp add: commit_reaches_any_def bitmap)
  next
    case no: False
    then have "(case bitmap of None \<Rightarrow> None | Some (b, m) \<Rightarrow> if reverse_index m \<noteq> None then Some (b, m) else None) = None"
      by (auto split: option.splits)
    then show ?thesis
      using False walk none by (simp add: commit_reaches_any_def bitmap)
  qed
qed

section \<open>A repository with a bitmap\<close>

text \<open>The small repository with one pack of the root commit and its tree, and a bitmap of that commit.\<close>

lemma demo_id_eq [simp]: "demo_id m = demo_id n \<longleftrightarrow> m = n"
  by (auto simp: demo_id_def)

definition demo_entries :: "midx_entry list" where
  "demo_entries =
     [\<lparr>me_id = demo_id 1, me_pack = 0, me_offset = 12\<rparr>, \<lparr>me_id = demo_id 9, me_pack = 0, me_offset = 100\<rparr>]"

definition demo_packed :: "bytes \<Rightarrow> bytes \<Rightarrow> bytes \<Rightarrow> repo" where
  "demo_packed midx path dat =
     demo_repo\<lparr>read_file := (\<lambda>p. Inr (if p = MIDX_PATH then Some midx else if p = path then Some dat else None)),
       list_prefix := (\<lambda>_. Inr [PACK_PREFIX @ ascii ''a.pack''])\<rparr>"

lemma demo_packed_reads: "read_object (demo_packed midx path dat) = read_object demo_repo"
  by (simp add: demo_packed_def)

lemma gather_objects_cong: "read_object R = read_object R' \<Longrightarrow> gather_objects R is kinds dat = gather_objects R' is kinds dat"
  by (induction "is" arbitrary: kinds dat) simp_all

lemma gather_objects_ok:
  "\<forall>i \<in> set is. \<exists>x. read_object R i = Inr x \<Longrightarrow> \<exists>kinds' dat'. gather_objects R is kinds dat = Inr (kinds', dat')"
  by (induction "is" arbitrary: kinds dat) auto

lemma demo_midx:
  obtains bs m where "decode_multi_pack_index demo_alg bs = Inr m" "pack_names m = [ascii ''a.idx'']"
    "set (midx_ids m) = {demo_id 1, demo_id 9}" "length (midx_ids m) = 2" "reverse_index m \<noteq> None"
    "length (midx_checksum m) = 20"
proof -
  let ?names = "[ascii ''a.idx'']" and ?s = "sorted_midx_entries (Some 0) demo_entries"
  have facts: "midx_fits demo_alg ?names demo_entries" "names_ok ?names" "\<forall>e \<in> set demo_entries. id_ok demo_alg (me_id e)"
    by (simp_all add: demo_entries_def midx_fits_def names_ok_def pnam_chunk_def pad4_def sha1_def id_ok_def demo_id_def Let_def)
  have pack: "me_pack e = 0" if "e \<in> set ?s" for e
    using that sorted_midx_entries_subset [of "Some 0" demo_entries] by (auto simp: demo_entries_def)
  then have "\<forall>e \<in> set ?s. unat (me_pack e) < length ?names"
    by simp
  then obtain out where dec: "decode_multi_pack_index demo_alg (out @ digest demo_alg out)
      = Inr (decoded_midx demo_alg ?names ?s (Some 0) (digest demo_alg out))"
    using encode_decode_midx [OF hash_ok_sha1 facts, of "Some 0"] by auto
  let ?m = "decoded_midx demo_alg ?names ?s (Some 0) (digest demo_alg out)"
  have set: "set (midx_ids ?m) = {demo_id 1, demo_id 9}"
  proof -
    have "me_id ` set ?s \<subseteq> me_id ` set demo_entries"
      by (intro image_mono sorted_midx_entries_subset)
    moreover have "me_id e \<in> me_id ` set ?s" if "e \<in> set demo_entries" for e
      using sorted_midx_entries_least [OF that, of "Some 0"] by (metis imageI)
    ultimately have "me_id ` set ?s = me_id ` set demo_entries"
      by blast
    then show ?thesis
      by (simp add: decoded_midx_def Let_def demo_entries_def)
  qed
  have "distinct (midx_ids ?m)"
    using sorted_midx_entries_strict strict_sorted_iff by (simp add: decoded_midx_def Let_def) blast
  then have "length (midx_ids ?m) = 2"
    using distinct_card [of "midx_ids ?m"] set by simp
  moreover have "length (digest demo_alg out) = 20"
    using hash_ok_sha1 by (simp add: hash_ok_def sha1_def)
  then have "pack_names ?m = ?names" "reverse_index ?m \<noteq> None" "length (midx_checksum ?m) = 20"
    by (simp_all add: decoded_midx_def Let_def)
  ultimately show ?thesis
    using that dec set by blast
qed

lemma demo_pack_name: "midx_pack_name (PACK_PREFIX @ ascii ''a.pack'') = ascii ''a.idx''" "ends_with PACK_SUFFIX (PACK_PREFIX @ ascii ''a.pack'')"
proof -
  have "ends_with PACK_SUFFIX (xs @ PACK_SUFFIX)" "strip_suffix PACK_SUFFIX (xs @ PACK_SUFFIX) = Some xs" for xs
    by (simp_all add: ends_with_def strip_suffix_def)
  from this [of "ascii ''a''"] this [of "PACK_PREFIX @ ascii ''a''"]
  show "midx_pack_name (PACK_PREFIX @ ascii ''a.pack'') = ascii ''a.idx''" "ends_with PACK_SUFFIX (PACK_PREFIX @ ascii ''a.pack'')"
    by (simp_all add: midx_pack_name_def pack_basename_def unwrap_or_def PACK_SUFFIX_def IDX_SUFFIX_def Let_def)
qed

lemma demo_objects:
  "read_object demo_repo (demo_id 1) = Inr (Commit, encode_commit demo_alg (demo_commit 1))"
  "read_object demo_repo (demo_id 9) = Inr (Tree, [])"
  "parse_commit demo_alg (encode_commit demo_alg (demo_commit 1)) = Inr (demo_commit 1)"
  "tree (demo_commit 1) = demo_id 9" "parents (demo_commit 1) = []" "parse_tree demo_alg [] = Inr []"
proof -
  show "parse_commit demo_alg (encode_commit demo_alg (demo_commit 1)) = Inr (demo_commit 1)"
    by (rule parse_encode_commit [OF sample_alg demo_commit_ok])
qed (simp_all add: demo_repo_def demo_id_def demo_commit_def demo_parents_def parse_tree.simps)

lemma demo_typed: "typed_objects demo_alg demo_repo [demo_id 1, demo_id 9]"
  by (simp add: typed_objects_def demo_objects)

lemma demo_bitmap_file:
  assumes wf: "midx_wf demo_alg m" and m: "set (midx_ids m) = {demo_id 1, demo_id 9}" "length (midx_ids m) = 2"
    "reverse_index m \<noteq> None" "length (midx_checksum m) = 20"
  obtains dat b where "bitmap_bytes demo_alg demo_repo m [demo_id 1] = Some (Inr dat)"
    "decode_midx_bitmap demo_alg dat = Inr b" "bi_midx_checksum b = midx_checksum m"
    "\<exists>bm. commit_reachability_ewah b (demo_id 1) m = Inr (Some bm)"
proof -
  obtain r where r: "reverse_index m = Some r"
    using m(3) by blast
  obtain pbl where pbl: "invert_order r 0 (replicate (length r) 0) = Inr pbl"
    by (rule reverse_index_inverse [OF wf r])
  note ctx = wf r pbl
  obtain kinds rdat where maps: "gather_objects demo_repo (midx_ids m) Map.empty Map.empty = Inr (kinds, rdat)"
  proof -
    have "\<forall>i \<in> set (midx_ids m). \<exists>x. read_object demo_repo i = Inr x"
      using demo_objects(1,2) m(1) by auto
    from gather_objects_ok [OF this] show ?thesis
      using that by blast
  qed
  note at = gather_objects_maps [OF maps, THEN conjunct1, unfolded m(1)]
  let ?rd = "bitmap_reader m kinds rdat"
  have kinds: "kinds (demo_id 1) = Some Commit" "kinds (demo_id 9) = Some Tree"
    and rd: "?rd (demo_id 1) = Inr (Some (Commit, encode_commit demo_alg (demo_commit 1)))" "?rd (demo_id 9) = Inr (Some (Tree, []))"
    using at m(1) by (auto simp: bitmap_reader_def demo_objects)
  have refs: "referenced_ids demo_alg Commit (encode_commit demo_alg (demo_commit 1)) = Inr [demo_id 9]"
    "referenced_ids demo_alg Tree [] = Inr []"
    by (simp_all add: demo_objects)
  have "j \<in> {demo_id 1, demo_id 9}" if "(refers demo_alg ?rd)\<^sup>*\<^sup>* (demo_id 1) j" for j
    using that by (induction rule: rtranclp_induct) (auto simp: refers_def rd refs simp del: referenced_ids.simps)
  then have "reachable_from demo_alg ?rd [demo_id 1] \<subseteq> {demo_id 1, demo_id 9}"
    by (auto simp: reachable_from_def)
  moreover have "complete demo_alg ?rd i" if "i \<in> {demo_id 1, demo_id 9}" for i
    using that rd refs by (auto simp: complete_def simp del: referenced_ids.simps)
  ultimately have ok: "(\<forall>i \<in> set (midx_ids m). kinds i \<noteq> None)
      \<and> (\<forall>c \<in> set [demo_id 1]. \<forall>i \<in> reachable_from demo_alg ?rd [c]. complete demo_alg ?rd i)"
    using kinds m(1) by auto
  then obtain rb where rb: "build_reachability_bitmaps demo_alg m [demo_id 1] kinds rdat = Some (Inr rb)"
    "kinds_ok m pbl kinds rb" "list_all2 (commit_bitmap_ok demo_alg m pbl ?rd) [demo_id 1] (rb_commits rb)"
    using build_result [OF ctx refl, of kinds "[demo_id 1]" rdat, unfolded if_P [OF ok]] by blast
  have n: "length (midx_ids m) \<le> 2 ^ 32 - 64" "length (midx_checksum m) = raw_len demo_alg"
    using m(2,4) by (simp_all add: sha1_def)
  have "list_all (\<lambda>e. ewah_fits (snd e)) (rb_commits rb)" "types_fit (rb_types rb)"
    using written_fits [OF ctx refl n(1)] rb(2,3) ok by blast+
  moreover have "length (rb_commits rb) < 2 ^ 32"
    using list_all2_lengthD [OF rb(3)] by simp
  moreover define b where "b = decoded_bitmap (midx_checksum m) (rb_types rb) (rb_commits rb)"
  ultimately obtain dat where dat: "rb_encode demo_alg rb (midx_checksum m) = Inr dat" "decode_midx_bitmap demo_alg dat = Inr b"
    using encode_decode_bitmap [OF n(2)] unfolding rb_encode_def by blast
  obtain k where k: "object_position m (demo_id 1) = Some k"
    using object_position_None [OF midx_wf_table [OF wf], of "demo_id 1"] m(1) by auto
  have chk: "bi_midx_checksum b = midx_checksum m"
    unfolding b_def by (cases "rb_types rb") simp
  show ?thesis
  proof (rule that [OF _ dat(2) chk])
    show "bitmap_bytes demo_alg demo_repo m [demo_id 1] = Some (Inr dat)"
      using rb(1) dat(1) kinds by (simp add: bitmap_bytes_def maps)
    show "\<exists>bm. commit_reachability_ewah b (demo_id 1) m = Inr (Some bm)"
      using reachability_written [OF wf rb(3) b_def k] chk k by (auto simp: commit_reachability_ewah_def)
  qed
qed

text \<open>Such a repository exists.\<close>

lemma demo_bitmap:
  obtains R b m bm where "read_object R = read_object demo_repo" "shallow_set demo_alg R = Inr {}" "bitmap_current demo_alg R"
    "bitmap_and_midx demo_alg R = Inr (Some (b, m))" "reverse_index m \<noteq> None"
    "commit_reachability_ewah b (demo_id 1) m = Inr (Some bm)"
proof -
  obtain bs m where dec: "decode_multi_pack_index demo_alg bs = Inr m" "pack_names m = [ascii ''a.idx'']"
    and m: "set (midx_ids m) = {demo_id 1, demo_id 9}" "length (midx_ids m) = 2" "reverse_index m \<noteq> None"
      "length (midx_checksum m) = 20"
    by (rule demo_midx)
  obtain dat b bm where dat: "bitmap_bytes demo_alg demo_repo m [demo_id 1] = Some (Inr dat)"
    "decode_midx_bitmap demo_alg dat = Inr b" "bi_midx_checksum b = midx_checksum m"
    "commit_reachability_ewah b (demo_id 1) m = Inr (Some bm)"
    using demo_bitmap_file [OF decode_midx_wf [OF dec(1)] m] by blast
  let ?path = "midx_bitmap_path (midx_checksum m)"
  let ?R = "demo_packed bs ?path dat"
  have "length ?path > 30" "length MIDX_PATH = 29" "length (ascii ''shallow'') = 7"
    by (simp_all add: midx_bitmap_path_def MIDX_PATH_def PACK_PREFIX_def)
  then have "?path \<noteq> MIDX_PATH" "ascii ''shallow'' \<noteq> MIDX_PATH" "ascii ''shallow'' \<noteq> ?path"
    by (auto dest: arg_cong [where f = length])
  then have files: "read_file ?R MIDX_PATH = Inr (Some bs)" "read_file ?R ?path = Inr (Some dat)"
    "read_file ?R (ascii ''shallow'') = Inr None" "list_prefix ?R PACK_PREFIX = Inr [PACK_PREFIX @ ascii ''a.pack'']"
    by (simp_all add: demo_packed_def)
  have midx: "load_midx demo_alg ?R = Inr (Some m)"
    by (simp add: load_midx_def files dec)
  have bitmap: "bitmap_and_midx demo_alg ?R = Inr (Some (b, m))"
  proof -
    have "map midx_pack_name (filter (ends_with PACK_SUFFIX) [PACK_PREFIX @ ascii ''a.pack'']) = [ascii ''a.idx'']"
      by (simp only: filter.simps demo_pack_name if_True list.map)
    then have "usable_midx demo_alg ?R = Inr (Some m)"
      unfolding usable_midx_def midx files(4) ebind_simps option.case Let_def dec(2) by simp
    then show ?thesis
      by (simp add: bitmap_and_midx_def load_bitmap_def midx files(2) dat)
  qed
  have bytes: "bitmap_bytes demo_alg ?R m [demo_id 1] = Some (Inr dat)"
    using dat(1) by (simp add: bitmap_bytes_def gather_objects_cong [OF demo_packed_reads])
  have "typed_objects demo_alg ?R (midx_ids m)"
    using demo_typed m(1) by (simp add: typed_objects_def demo_packed_reads)
  then have "bitmap_current demo_alg ?R"
    unfolding bitmap_current_def using bitmap bytes files(2) m(2) by (auto intro!: exI [of _ "[demo_id 1]"])
  moreover have "shallow_set demo_alg ?R = Inr {}"
    unfolding shallow_set_def read_shallow_def files(3) by simp
  ultimately show ?thesis
    using that demo_packed_reads bitmap m(3) dat(4) by blast
qed

end
