(* ===== verification/Git_Merge_Base.thy ===== *)
theory Git_Merge_Base
  imports Git_Reach
begin

text \<open>
  Merge bases, \<open>gitana-repository/src/merge_base.rs\<close>: the two-tip painting walk over a heap of commit
  dates, the ancestry test (by the reachability bitmap of \<open>Git_Reach\<close> where there is one) and the removal of
  redundant candidates, on the repository record of \<open>Git_Revision\<close>. The walks are functions of a parent
  reader and a date reader; the result is shown to be the set of best common ancestors.
\<close>

section \<open>Painting\<close>

abbreviation PARENT1 :: byte where "PARENT1 \<equiv> 1"
abbreviation PARENT2 :: byte where "PARENT2 \<equiv> 2"
abbreviation STALE :: byte where "STALE \<equiv> 4"
abbreviation RESULT :: byte where "RESULT \<equiv> 8"

type_synonym 'i paint = "'i \<Rightarrow> byte option"

text \<open>\<open>flags.entry(i).or_insert(0)\<close>; the loop that passes a commit's flags on to its parents.\<close>

definition flags_of :: "'i paint \<Rightarrow> 'i \<Rightarrow> byte" where
  "flags_of flags i = (case flags i of None \<Rightarrow> 0 | Some f \<Rightarrow> f)"

fun paint_parents :: "('i \<Rightarrow> ('e, int) res) \<Rightarrow> byte \<Rightarrow> 'i list \<Rightarrow> 'i paint \<Rightarrow> (int \<times> 'i) list
    \<Rightarrow> ('e, 'i paint \<times> (int \<times> 'i) list) res" where
  "paint_parents secs to_parents [] flags heap = Inr (flags, heap)"
| "paint_parents secs to_parents (p # ps) flags heap =
     (let entry = flags_of flags p
      in if entry AND to_parents = to_parents
         then paint_parents secs to_parents ps (flags(p \<mapsto> entry)) heap
         else ebind (secs p) (\<lambda>s.
           paint_parents secs to_parents ps (flags(p \<mapsto> entry OR to_parents)) ((s, p) # heap)))"

text \<open>The body of the loop for the popped commit \<open>i\<close>.\<close>

definition paint_visit :: "('i \<Rightarrow> ('e, 'i list) res) \<Rightarrow> ('i \<Rightarrow> ('e, int) res) \<Rightarrow> 'i paint \<Rightarrow> (int \<times> 'i) list
    \<Rightarrow> 'i list \<Rightarrow> 'i \<Rightarrow> ('e, 'i paint \<times> (int \<times> 'i) list \<times> 'i list) res" where
  "paint_visit next secs flags heap found i =
     (case flags i of
        None \<Rightarrow> Inl Panic
      | Some flag \<Rightarrow>
          let carry = flag AND (PARENT1 OR PARENT2 OR STALE);
              common = (carry = PARENT1 OR PARENT2);
              fresh = (common \<and> flag AND RESULT = 0);
              flags = (if fresh then flags(i \<mapsto> flag OR RESULT) else flags);
              found = (if fresh then found @ [i] else found);
              to_parents = (if common then carry OR STALE else carry)
          in ebind (next i) (\<lambda>ps.
               ebind (paint_parents secs to_parents ps flags heap) (\<lambda>(flags, heap). Inr (flags, heap, found))))"

partial_function (option) paint_loop ::
  "('i::linorder \<Rightarrow> ('e, 'i list) res) \<Rightarrow> ('i \<Rightarrow> ('e, int) res) \<Rightarrow> 'i paint \<Rightarrow> (int \<times> 'i) list \<Rightarrow> 'i list
     \<Rightarrow> ('e, 'i list) res option" where
  "paint_loop next secs flags heap found =
     (case heap_pop heap of
        None \<Rightarrow> Some (Inr found)
      | Some ((_, i), heap) \<Rightarrow>
          (case paint_visit next secs flags heap found i of
             Inl e \<Rightarrow> Some (Inl e)
           | Inr (flags, heap, found) \<Rightarrow> paint_loop next secs flags heap found))"

fun paint_others :: "('i \<Rightarrow> ('e, int) res) \<Rightarrow> 'i list \<Rightarrow> 'i paint \<Rightarrow> (int \<times> 'i) list
    \<Rightarrow> ('e, 'i paint \<times> (int \<times> 'i) list) res" where
  "paint_others secs [] flags heap = Inr (flags, heap)"
| "paint_others secs (i # is) flags heap =
     (let entry = flags_of flags i
      in if entry AND PARENT2 = 0
         then ebind (secs i) (\<lambda>s. paint_others secs is (flags(i \<mapsto> entry OR PARENT2)) ((s, i) # heap))
         else paint_others secs is (flags(i \<mapsto> entry)) heap)"

definition paint_down :: "hash_alg \<Rightarrow> repo \<Rightarrow> object_id \<Rightarrow> object_id list \<Rightarrow> object_id list rres option" where
  "paint_down H R one others =
     tbind (Some (shallow_set H R)) (\<lambda>shallow.
       tbind (Some (committer_seconds H R one)) (\<lambda>s.
         tbind (Some (paint_others (committer_seconds H R) others [one \<mapsto> PARENT1] [(s, one)])) (\<lambda>(flags, heap).
           paint_loop (commit_parents H R shallow) (committer_seconds H R) flags heap [])))"

section \<open>Ancestry and redundancy\<close>

fun push_stack :: "'i list \<Rightarrow> 'i set \<Rightarrow> 'i list \<Rightarrow> 'i set \<times> 'i list" where
  "push_stack [] seen stack = (seen, stack)"
| "push_stack (p # ps) seen stack =
     (if p \<in> seen then push_stack ps seen stack else push_stack ps (insert p seen) (p # stack))"

partial_function (option) anc_walk ::
  "('i \<Rightarrow> ('e, 'i list) res) \<Rightarrow> 'i \<Rightarrow> 'i set \<Rightarrow> 'i list \<Rightarrow> ('e, bool) res option" where
  "anc_walk next ancestor seen stack =
     (case stack of
        [] \<Rightarrow> Some (Inr False)
      | i # stack \<Rightarrow>
          if i = ancestor then Some (Inr True)
          else
            (case next i of
               Inl e \<Rightarrow> Some (Inl e)
             | Inr ps \<Rightarrow>
                 (case push_stack ps seen stack of (seen, stack) \<Rightarrow> anc_walk next ancestor seen stack)))"

definition is_ancestor :: "hash_alg \<Rightarrow> repo \<Rightarrow> object_id \<Rightarrow> object_id \<Rightarrow> bool rres option" where
  "is_ancestor H R ancestor descendant =
     tbind (peel_to_commit H R ancestor) (\<lambda>ancestor.
     tbind (peel_to_commit H R descendant) (\<lambda>descendant.
     tbind (Some (shallow_set H R)) (\<lambda>shallow.
     tbind (Some (if shallow = {} then has_reachability_bitmap H R else Inr False)) (\<lambda>bitmap.
       if bitmap then commit_reaches_any H R descendant [ancestor]
       else anc_walk (commit_parents H R shallow) ancestor {descendant} [descendant]))))"

text \<open>The two loops of \<open>remove_redundant\<close>, with the indices that keep a candidate from its own test.\<close>

fun redundant_in :: "('i \<Rightarrow> 'i \<Rightarrow> ('e, bool) res option) \<Rightarrow> 'i \<Rightarrow> nat \<Rightarrow> nat \<Rightarrow> 'i list \<Rightarrow> ('e, bool) res option" where
  "redundant_in anc c i j [] = Some (Inr False)"
| "redundant_in anc c i j (d # ds) =
     (if i \<noteq> j
      then tbind (anc c d) (\<lambda>b. if b then Some (Inr True) else redundant_in anc c i (j + 1) ds)
      else redundant_in anc c i (j + 1) ds)"

fun keep_loop :: "('i \<Rightarrow> 'i \<Rightarrow> ('e, bool) res option) \<Rightarrow> 'i list \<Rightarrow> nat \<Rightarrow> 'i list \<Rightarrow> 'i list
    \<Rightarrow> ('e, 'i list) res option" where
  "keep_loop anc candidates i [] kept = Some (Inr kept)"
| "keep_loop anc candidates i (c # cs) kept =
     tbind (redundant_in anc c i 0 candidates) (\<lambda>redundant.
       keep_loop anc candidates (i + 1) cs (if redundant then kept else kept @ [c]))"

definition remove_redundant :: "hash_alg \<Rightarrow> repo \<Rightarrow> object_id list \<Rightarrow> object_id list rres option" where
  "remove_redundant H R candidates = keep_loop (is_ancestor H R) candidates 0 candidates []"

fun peel_all :: "hash_alg \<Rightarrow> repo \<Rightarrow> object_id list \<Rightarrow> object_id list rres option" where
  "peel_all H R [] = Some (Inr [])"
| "peel_all H R (i # is) =
     tbind (peel_to_commit H R i) (\<lambda>c. tbind (peel_all H R is) (\<lambda>cs. Some (Inr (c # cs))))"

definition merge_base :: "hash_alg \<Rightarrow> repo \<Rightarrow> object_id list \<Rightarrow> object_id list rres option" where
  "merge_base H R is =
     (case is of
        [] \<Rightarrow> Some (Inr [])
      | first # rest \<Rightarrow>
          tbind (peel_to_commit H R first) (\<lambda>one.
          tbind (peel_all H R rest) (\<lambda>others.
          tbind (paint_down H R one others) (\<lambda>candidates. remove_redundant H R candidates))))"

section \<open>The ancestry walk\<close>

lemma push_stack_sound:
  "push_stack ps seen stack = (seen', stack') \<Longrightarrow>
   seen' = seen \<union> set ps \<and> (\<exists>new. stack' = new @ stack \<and> distinct new \<and> set new = set ps - seen)"
proof (induction ps arbitrary: seen stack)
  case (Cons p ps)
  show ?case
  proof (cases "p \<in> seen")
    case True
    then show ?thesis
      using Cons by auto
  next
    case False
    then obtain new where "stack' = new @ p # stack" "distinct new" "set new = set ps - insert p seen"
      "seen' = insert p seen \<union> set ps"
      using Cons by fastforce
    then show ?thesis
      using False by (intro conjI exI [of _ "new @ [p]"]) auto
  qed
qed simp

definition anc_inv :: "('i \<Rightarrow> ('e, 'i list) res) \<Rightarrow> 'i \<Rightarrow> 'i set \<Rightarrow> 'i list \<Rightarrow> bool" where
  "anc_inv next t seen stack \<longleftrightarrow>
     set stack \<subseteq> seen
     \<and> (\<forall>i \<in> seen - set stack. i \<noteq> t \<and> (\<exists>ps. next i = Inr ps \<and> set ps \<subseteq> seen))"

context history_graph
begin

lemma anc_walk_run:
  assumes "finite V" "\<And>i ps. i \<in> V \<Longrightarrow> next i = Inr ps \<Longrightarrow> set ps \<subseteq> V"
    and "anc_inv next t seen stack" "seen \<subseteq> V" "d \<in> seen"
  shows "\<exists>r. anc_walk next t seen stack = Some r
    \<and> (case r of
         Inr b \<Rightarrow> (if b then t \<in> V else \<exists>all. d \<in> all \<and> anc_inv next t all [])
       | Inl e \<Rightarrow> \<exists>i \<in> V. next i = Inl e)"
  using assms(3-5)
proof (induction "card (V - seen) + length stack" arbitrary: seen stack rule: less_induct)
  case less
  show ?case
  proof (cases stack)
    case Nil
    then show ?thesis
      using less.prems by (subst anc_walk.simps) auto
  next
    case (Cons i st)
    then have i: "i \<in> V"
      using less.prems by (auto simp: anc_inv_def)
    show ?thesis
    proof (cases "i = t \<or> (\<exists>e. next i = Inl e)")
      case True
      then show ?thesis
        using i Cons by (subst anc_walk.simps) auto
    next
      case False
      then obtain ps where ps: "next i = Inr ps" "i \<noteq> t"
        by (cases "next i") auto
      obtain seen' st' where push: "push_stack ps seen st = (seen', st')"
        by fastforce
      obtain new where new: "st' = new @ st" "distinct new" "set new = set ps - seen" "seen' = seen \<union> set ps"
        using push_stack_sound [OF push] by blast
      have sub: "seen' \<subseteq> V"
        using new(4) less.prems(2) assms(2) [OF i ps(1)] by simp
      have inv: "anc_inv next t seen' st'"
        unfolding anc_inv_def
      proof (intro conjI ballI)
        show "set st' \<subseteq> seen'"
          using less.prems(1) new(1,3,4) Cons by (auto simp: anc_inv_def)
        fix j assume "j \<in> seen' - set st'"
        then have j: "j \<in> seen" "j \<notin> set st"
          using new(1,3,4) by auto
        have "j \<noteq> t \<and> (\<exists>ps. next j = Inr ps \<and> set ps \<subseteq> seen')"
        proof (cases "j = i")
          case True
          then show ?thesis
            using ps new(4) by auto
        next
          case False
          then have "j \<in> seen - set stack"
            using j Cons by simp
          then have "j \<noteq> t \<and> (\<exists>ps. next j = Inr ps \<and> set ps \<subseteq> seen)"
            using less.prems(1) unfolding anc_inv_def by blast
          then show ?thesis
            using new(4) by blast
        qed
        then show "j \<noteq> t" "\<exists>ps. next j = Inr ps \<and> set ps \<subseteq> seen'"
          by blast+
      qed
      have "V - seen = (V - seen') \<union> set new" "(V - seen') \<inter> set new = {}"
        using new(3,4) sub by auto
      then have "card (V - seen) = card (V - seen') + length new"
        using assms(1) distinct_card [OF new(2)] by (simp add: card_Un_disjoint)
      then have "card (V - seen') + length st' < card (V - seen) + length stack"
        by (simp add: new(1) Cons)
      moreover have "anc_walk next t seen stack = anc_walk next t seen' st'"
        unfolding Cons by (subst anc_walk.simps) (simp add: ps push)
      ultimately show ?thesis
        using less.hyps [OF _ inv sub] less.prems(3) new(4) by simp
    qed
  qed
qed

lemma anc_walk_reaches:
  "\<exists>r. anc_walk next t {d} [d] = Some r
    \<and> (case r of
         Inr b \<Rightarrow> b \<longleftrightarrow> t \<in> reachable next {d}
       | Inl e \<Rightarrow> \<exists>i \<in> reachable next {d}. next i = Inl e)"
proof -
  have step: "set ps \<subseteq> reachable next {d}" if "i \<in> reachable next {d}" "next i = Inr ps" for i ps
    using reachable_down that by metis
  have "anc_inv next t {d} [d]"
    by (simp add: anc_inv_def)
  then obtain r where r: "anc_walk next t {d} [d] = Some r"
    "case r of
         Inr b \<Rightarrow> (if b then t \<in> reachable next {d} else \<exists>all. d \<in> all \<and> anc_inv next t all [])
       | Inl e \<Rightarrow> \<exists>i \<in> reachable next {d}. next i = Inl e"
    using anc_walk_run [OF finite_reachable [of "{d}"] _ _ reachable_tips, of t "[d]" d] step by blast
  have "t \<notin> reachable next {d}" if "d \<in> all" "anc_inv next t all []" for all
  proof -
    have "reachable next {d} \<subseteq> all"
      using that by (intro reachable_least) (fastforce simp: anc_inv_def edge_def)+
    then show ?thesis
      using that(2) by (auto simp: anc_inv_def)
  qed
  then show ?thesis
    using r by (cases r) (auto split: if_splits)
qed

end

section \<open>The bits of the paint\<close>

definition painted :: "'i paint \<Rightarrow> nat \<Rightarrow> 'i \<Rightarrow> bool" where
  "painted flags b i \<longleftrightarrow> bit (flags_of flags i) b"

lemma bit_masks:
  "bit (PARENT1 OR PARENT2 OR STALE) n \<longleftrightarrow> n < 3"
  "bit (PARENT1 OR PARENT2) n \<longleftrightarrow> n < 2"
  "bit PARENT1 n \<longleftrightarrow> n = 0"
  "bit PARENT2 n \<longleftrightarrow> n = 1"
  "bit STALE n \<longleftrightarrow> n = 2"
  "bit RESULT n \<longleftrightarrow> n = 3"
proof -
  have 1: "bit PARENT1 n \<longleftrightarrow> n = 0" for n
    by (simp add: bit_1_iff)
  have 2: "bit PARENT2 n \<longleftrightarrow> n = 1" for n
    using bit_exp_iff [of 1 n, where ?'a = "8 word"] by auto
  have 4: "bit STALE n \<longleftrightarrow> n = 2" for n
    using bit_exp_iff [of 2 n, where ?'a = "8 word"] by auto
  have 8: "bit RESULT n \<longleftrightarrow> n = 3" for n
    using bit_exp_iff [of 3 n, where ?'a = "8 word"] by auto
  show "bit (PARENT1 OR PARENT2 OR STALE) n \<longleftrightarrow> n < 3" "bit (PARENT1 OR PARENT2) n \<longleftrightarrow> n < 2"
    by (simp_all only: bit_or_iff 1 2 4) auto
  show "bit PARENT1 n \<longleftrightarrow> n = 0" "bit PARENT2 n \<longleftrightarrow> n = 1" "bit STALE n \<longleftrightarrow> n = 2" "bit RESULT n \<longleftrightarrow> n = 3"
    by (fact 1 2 4 8)+
qed

lemma byte_bits: "a = b \<longleftrightarrow> (\<forall>n. bit a n \<longleftrightarrow> bit b n)" for a b :: byte
  by (auto intro: bit_word_eqI)

lemma covers_bits: "e AND tp = tp \<longleftrightarrow> (\<forall>n. bit tp n \<longrightarrow> bit e n)" for e tp :: byte
  unfolding byte_bits bit_and_iff by blast

lemma common_bits:
  "f AND (PARENT1 OR PARENT2 OR STALE) = PARENT1 OR PARENT2 \<longleftrightarrow> bit f 0 \<and> bit f 1 \<and> \<not> bit f 2" for f :: byte
proof -
  have "f AND (PARENT1 OR PARENT2 OR STALE) = PARENT1 OR PARENT2 \<longleftrightarrow> (\<forall>n. (bit f n \<and> n < 3) \<longleftrightarrow> n < 2)"
    unfolding byte_bits bit_and_iff bit_masks(1,2) ..
  also have "\<dots> \<longleftrightarrow> bit f 0 \<and> bit f 1 \<and> \<not> bit f 2"
  proof
    assume all: "\<forall>n. (bit f n \<and> n < 3) \<longleftrightarrow> n < 2"
    show "bit f 0 \<and> bit f 1 \<and> \<not> bit f 2"
      using all [rule_format, of 0] all [rule_format, of 1] all [rule_format, of 2] by simp
  next
    assume "bit f 0 \<and> bit f 1 \<and> \<not> bit f 2"
    moreover have "n < 2 \<longleftrightarrow> n = 0 \<or> n = 1" "n < 3 \<longleftrightarrow> n = 0 \<or> n = 1 \<or> n = 2" for n :: nat
      by linarith+
    ultimately show "\<forall>n. (bit f n \<and> n < 3) \<longleftrightarrow> n < 2"
      by metis
  qed
  finally show ?thesis .
qed

lemma zero_bits: "f AND RESULT = 0 \<longleftrightarrow> \<not> bit f 3" "f AND PARENT2 = 0 \<longleftrightarrow> \<not> bit f 1" for f :: byte
  unfolding byte_bits bit_and_iff bit_masks bit_0_eq by auto

text \<open>The flags a commit passes on, as a set of bits.\<close>

definition passes :: "byte \<Rightarrow> nat \<Rightarrow> bool" where
  "passes f n \<longleftrightarrow> n < 3 \<and> (bit f n \<or> n = 2 \<and> bit f 0 \<and> bit f 1)"

lemma passes_bits:
  "bit (if f AND (PARENT1 OR PARENT2 OR STALE) = PARENT1 OR PARENT2
        then f AND (PARENT1 OR PARENT2 OR STALE) OR STALE else f AND (PARENT1 OR PARENT2 OR STALE)) n
    \<longleftrightarrow> passes f n"
proof (cases "bit f 0 \<and> bit f 1 \<and> \<not> bit f 2")
  case True
  then show ?thesis
    unfolding if_P [OF common_bits [THEN iffD2, OF True]] bit_or_iff [of "f AND _"] bit_and_iff bit_masks passes_def
    by auto
next
  case False
  then show ?thesis
    unfolding if_not_P [OF common_bits [THEN arg_cong [where f = Not], THEN iffD2, OF False]] bit_and_iff bit_masks(1)
      passes_def by auto
qed

section \<open>Passing the paint on\<close>

abbreviation waiting :: "(int \<times> 'i) list \<Rightarrow> 'i set" where
  "waiting heap \<equiv> snd ` set heap"

definition unpainted :: "'i set \<Rightarrow> 'i paint \<Rightarrow> nat" where
  "unpainted V flags = card {(i, b). i \<in> V \<and> b < 4 \<and> \<not> painted flags b i}"

lemma finite_unpainted: "finite V \<Longrightarrow> finite {(i, b). i \<in> V \<and> b < (4::nat) \<and> \<not> painted flags b i}"
  by (rule finite_subset [of _ "V \<times> {..< 4}"]) auto

lemma unpainted_mono:
  assumes "finite V" "\<And>b i. painted flags b i \<Longrightarrow> painted flags' b i"
  shows "unpainted V flags' \<le> unpainted V flags"
  unfolding unpainted_def using assms(2) by (intro card_mono finite_unpainted assms(1)) auto

lemma unpainted_less:
  assumes "finite V" "\<And>b i. painted flags b i \<Longrightarrow> painted flags' b i"
    and "i \<in> V" "b < 4" "\<not> painted flags b i" "painted flags' b i"
  shows "unpainted V flags' < unpainted V flags"
  unfolding unpainted_def
proof (intro psubset_card_mono finite_unpainted assms(1) psubsetI)
  have "(i, b) \<in> {(i, b). i \<in> V \<and> b < 4 \<and> \<not> painted flags b i}"
    "(i, b) \<notin> {(i, b). i \<in> V \<and> b < 4 \<and> \<not> painted flags' b i}"
    using assms(3-6) by simp_all
  then show "{(i, b). i \<in> V \<and> b < 4 \<and> \<not> painted flags' b i} \<noteq> {(i, b). i \<in> V \<and> b < 4 \<and> \<not> painted flags b i}"
    by blast
qed (use assms(2) in auto)

lemma painted_upd:
  "painted (flags(p \<mapsto> flags_of flags p)) b i \<longleftrightarrow> painted flags b i"
  "painted (flags(p \<mapsto> flags_of flags p OR w)) b i \<longleftrightarrow> painted flags b i \<or> i = p \<and> bit w b"
  by (auto simp: painted_def flags_of_def bit_or_iff)

lemma paint_parents_Inr:
  assumes "paint_parents secs tp ps flags heap = Inr (flags', heap')"
  shows "painted flags' b i \<longleftrightarrow> painted flags b i \<or> i \<in> set ps \<and> bit tp b"
    "dom flags' = dom flags \<union> set ps"
    "\<exists>new. heap' = new @ heap \<and> waiting new \<subseteq> set ps
       \<and> {i. \<exists>b. painted flags' b i \<and> \<not> painted flags b i} \<subseteq> waiting new"
proof -
  have "(\<forall>b i. painted flags' b i \<longleftrightarrow> painted flags b i \<or> i \<in> set ps \<and> bit tp b)
    \<and> dom flags' = dom flags \<union> set ps
    \<and> (\<exists>new. heap' = new @ heap \<and> waiting new \<subseteq> set ps
       \<and> {i. \<exists>b. painted flags' b i \<and> \<not> painted flags b i} \<subseteq> waiting new)"
    using assms
  proof (induction ps arbitrary: flags heap)
    case (Cons p ps)
    show ?case
    proof (cases "flags_of flags p AND tp = tp")
      case True
      have sub: "bit tp b \<Longrightarrow> painted flags b p" for b
        using True by (auto simp: covers_bits painted_def)
      have "paint_parents secs tp ps (flags(p \<mapsto> flags_of flags p)) heap = Inr (flags', heap')"
        using Cons.prems True by (simp add: Let_def)
      note IH = Cons.IH [OF this, unfolded painted_upd]
      have "dom flags' = dom flags \<union> set (p # ps)"
        using IH by auto
      moreover have "\<forall>b i. painted flags' b i \<longleftrightarrow> painted flags b i \<or> i \<in> set (p # ps) \<and> bit tp b"
        using IH sub by auto
      moreover obtain new where "heap' = new @ heap" "waiting new \<subseteq> set ps"
        "{i. \<exists>b. painted flags' b i \<and> \<not> painted flags b i} \<subseteq> waiting new"
        using IH by blast
      then have "heap' = new @ heap \<and> waiting new \<subseteq> set (p # ps)
        \<and> {i. \<exists>b. painted flags' b i \<and> \<not> painted flags b i} \<subseteq> waiting new"
        by auto
      ultimately show ?thesis
        by blast
    next
      case False
      then obtain s where
        "paint_parents secs tp ps (flags(p \<mapsto> flags_of flags p OR tp)) ((s, p) # heap) = Inr (flags', heap')"
        using Cons.prems by (auto simp: Let_def ebind_eq_Inr)
      note IH = Cons.IH [OF this, unfolded painted_upd]
      then obtain new where "heap' = new @ (s, p) # heap" "waiting new \<subseteq> set ps"
        "{i. \<exists>b. painted flags' b i \<and> \<not> (painted flags b i \<or> i = p \<and> bit tp b)} \<subseteq> waiting new"
        by blast
      then have "heap' = (new @ [(s, p)]) @ heap \<and> waiting (new @ [(s, p)]) \<subseteq> set (p # ps)
        \<and> {i. \<exists>b. painted flags' b i \<and> \<not> painted flags b i} \<subseteq> waiting (new @ [(s, p)])"
        by auto
      then have "\<exists>new. heap' = new @ heap \<and> waiting new \<subseteq> set (p # ps)
        \<and> {i. \<exists>b. painted flags' b i \<and> \<not> painted flags b i} \<subseteq> waiting new" ..
      moreover have "dom flags' = dom flags \<union> set (p # ps)"
        using IH by auto
      moreover have "\<forall>b i. painted flags' b i \<longleftrightarrow> painted flags b i \<or> i \<in> set (p # ps) \<and> bit tp b"
        using IH by auto
      ultimately show ?thesis
        by blast
    qed
  qed simp
  note all = this
  show "painted flags' b i \<longleftrightarrow> painted flags b i \<or> i \<in> set ps \<and> bit tp b"
    using all [THEN conjunct1] by blast
  show "dom flags' = dom flags \<union> set ps"
    "\<exists>new. heap' = new @ heap \<and> waiting new \<subseteq> set ps
       \<and> {i. \<exists>b. painted flags' b i \<and> \<not> painted flags b i} \<subseteq> waiting new"
    by (fact all [THEN conjunct2, THEN conjunct1] all [THEN conjunct2, THEN conjunct2])+
qed

text \<open>Every push has painted a new bit.\<close>

lemma paint_parents_measure:
  assumes "finite V" "set ps \<subseteq> V" "\<And>n. bit tp n \<Longrightarrow> n < 4"
    and "paint_parents secs tp ps flags heap = Inr (flags', heap')"
  shows "unpainted V flags' + length heap' \<le> unpainted V flags + length heap"
  using assms(2,4)
proof (induction ps arbitrary: flags heap)
  case (Cons p ps)
  show ?case
  proof (cases "flags_of flags p AND tp = tp")
    case True
    then have "paint_parents secs tp ps (flags(p \<mapsto> flags_of flags p)) heap = Inr (flags', heap')"
      using Cons.prems by (simp add: Let_def)
    moreover have "unpainted V (flags(p \<mapsto> flags_of flags p)) \<le> unpainted V flags"
      by (rule unpainted_mono [OF assms(1)]) (simp add: painted_upd)
    ultimately show ?thesis
      using Cons.IH [of "flags(p \<mapsto> flags_of flags p)" heap] Cons.prems(1) by (meson add_le_mono1 order_trans set_subset_Cons)
  next
    case False
    then obtain s where push:
      "paint_parents secs tp ps (flags(p \<mapsto> flags_of flags p OR tp)) ((s, p) # heap) = Inr (flags', heap')"
      using Cons.prems by (auto simp: Let_def ebind_eq_Inr)
    obtain n where n: "bit tp n" "\<not> painted flags n p"
      using False by (auto simp: covers_bits painted_def)
    have "unpainted V (flags(p \<mapsto> flags_of flags p OR tp)) < unpainted V flags"
      using Cons.prems(1) n assms(3) by (intro unpainted_less [OF assms(1), of _ _ p n]) (auto simp: painted_upd)
    then show ?thesis
      using Cons.IH [OF _ push] Cons.prems(1) by (simp del: fun_upd_apply)
  qed
qed simp

lemma paint_parents_Inl: "paint_parents secs tp ps flags heap = Inl e \<Longrightarrow> \<exists>i \<in> set ps. secs i = Inl e"
  by (induction ps arbitrary: flags heap) (auto simp: ebind_eq_Inl Let_def split: if_splits)

section \<open>One visit\<close>

definition both_fresh :: "'i paint \<Rightarrow> 'i \<Rightarrow> bool" where
  "both_fresh flags i \<longleftrightarrow> painted flags 0 i \<and> painted flags 1 i \<and> \<not> painted flags 2 i"

lemma paint_visit_Inr:
  assumes "paint_visit next secs flags h found i = Inr (flags', heap', found')"
  obtains ps new where "next i = Inr ps" "dom flags' = dom flags \<union> set ps"
    "\<And>b j. painted flags' b j \<longleftrightarrow> painted flags b j \<or> j = i \<and> b = 3 \<and> both_fresh flags i
       \<or> j \<in> set ps \<and> passes (flags_of flags i) b"
    "found' = (if both_fresh flags i \<and> \<not> painted flags 3 i then found @ [i] else found)"
    "heap' = new @ h" "waiting new \<subseteq> set ps"
    "\<And>b j. painted flags' b j \<Longrightarrow> \<not> painted flags b j \<Longrightarrow> \<not> (j = i \<and> b = 3) \<Longrightarrow> j \<in> waiting new"
    "\<And>V. finite V \<Longrightarrow> set ps \<subseteq> V \<Longrightarrow> unpainted V flags' + length heap' \<le> unpainted V flags + length h"
proof -
  obtain f where f: "flags i = Some f" "flags_of flags i = f"
    using assms by (cases "flags i") (auto simp: paint_visit_def flags_of_def)
  define common where "common \<longleftrightarrow> f AND (PARENT1 OR PARENT2 OR STALE) = PARENT1 OR PARENT2"
  define fresh where "fresh \<longleftrightarrow> common \<and> f AND RESULT = 0"
  define flags1 where "flags1 = (if fresh then flags(i \<mapsto> f OR RESULT) else flags)"
  define tp where "tp = (if common then f AND (PARENT1 OR PARENT2 OR STALE) OR STALE
    else f AND (PARENT1 OR PARENT2 OR STALE))"
  have common: "common \<longleftrightarrow> both_fresh flags i"
    unfolding common_def common_bits both_fresh_def painted_def f(2) ..
  have fresh: "fresh \<longleftrightarrow> both_fresh flags i \<and> \<not> painted flags 3 i"
    unfolding fresh_def common zero_bits painted_def f(2) ..
  have tp: "bit tp b \<longleftrightarrow> passes f b" for b
    unfolding tp_def common_def by (rule passes_bits)
  obtain ps where ps: "next i = Inr ps" "paint_parents secs tp ps flags1 h = Inr (flags', heap')"
    and found: "found' = (if fresh then found @ [i] else found)"
    using assms unfolding paint_visit_def f(1) option.case Let_def
      common_def [symmetric] fresh_def [symmetric] tp_def [symmetric] flags1_def [symmetric]
    by (auto simp: ebind_eq_Inr)
  have one: "painted flags1 b j \<longleftrightarrow> painted flags b j \<or> j = i \<and> b = 3 \<and> both_fresh flags i" for b j
  proof (cases fresh)
    case True
    then have upd: "flags1 = flags(i \<mapsto> flags_of flags i OR RESULT)"
      by (simp add: flags1_def f(2))
    show ?thesis
      using True fresh unfolding upd painted_upd bit_masks(6) by blast
  next
    case False
    then show ?thesis
      using fresh by (auto simp: flags1_def)
  qed
  have dom1: "dom flags1 = dom flags"
    using f(1) by (auto simp: flags1_def)
  note pass = paint_parents_Inr [OF ps(2)]
  obtain new where new: "heap' = new @ h" "waiting new \<subseteq> set ps"
    "{j. \<exists>b. painted flags' b j \<and> \<not> painted flags1 b j} \<subseteq> waiting new"
    using pass(3) by blast
  have "unpainted V flags' + length heap' \<le> unpainted V flags + length h" if "finite V" "set ps \<subseteq> V" for V
  proof -
    have "unpainted V flags1 \<le> unpainted V flags"
      by (rule unpainted_mono [OF that(1)]) (simp add: one)
    then show ?thesis
      using paint_parents_measure [OF that _ ps(2)] tp by (fastforce simp: passes_def)
  qed
  moreover have "j \<in> waiting new" if "painted flags' b j" "\<not> painted flags b j" "\<not> (j = i \<and> b = 3)" for b j
  proof -
    have "\<not> painted flags1 b j"
      using that(2,3) unfolding one by blast
    then show ?thesis
      using that(1) new(3) by blast
  qed
  ultimately show ?thesis
    using that [of ps new] ps(1) pass(2) pass(1) found new(1,2) unfolding dom1 one tp fresh f(2) by simp
qed

lemma paint_visit_Inl:
  assumes "paint_visit next secs flags h found i = Inl e" "i \<in> dom flags"
  shows "next i = Inl e \<or> (\<exists>ps. next i = Inr ps \<and> (\<exists>p \<in> set ps. secs p = Inl e))"
  using assms by (auto simp: paint_visit_def Let_def ebind_eq_Inl split: if_splits dest!: paint_parents_Inl)

section \<open>The painting walk finds the best common ancestors\<close>

definition settled :: "('i \<Rightarrow> ('e, 'i list) res) \<Rightarrow> 'i paint \<Rightarrow> 'i \<Rightarrow> bool" where
  "settled next flags i \<longleftrightarrow>
     (\<exists>ps. next i = Inr ps \<and> (\<forall>b. passes (flags_of flags i) b \<longrightarrow> (\<forall>p \<in> set ps. painted flags b p)))
     \<and> (both_fresh flags i \<longrightarrow> painted flags 3 i)"

definition common_ancestors :: "('i \<Rightarrow> ('e, 'i list) res) \<Rightarrow> 'i \<Rightarrow> 'i list \<Rightarrow> 'i set" where
  "common_ancestors next one others = reachable next {one} \<inter> reachable next (set others)"

definition paint_inv :: "('i \<Rightarrow> ('e, 'i list) res) \<Rightarrow> 'i \<Rightarrow> 'i list \<Rightarrow> 'i paint \<Rightarrow> (int \<times> 'i) list \<Rightarrow> 'i list \<Rightarrow> bool" where
  "paint_inv next one others flags heap found \<longleftrightarrow>
     waiting heap \<subseteq> dom flags
     \<and> (\<forall>i \<in> dom flags. painted flags 0 i \<or> painted flags 1 i)
     \<and> (\<forall>i. painted flags 0 i \<longrightarrow> i \<in> reachable next {one})
     \<and> (\<forall>i. painted flags 1 i \<longrightarrow> i \<in> reachable next (set others))
     \<and> (\<forall>i. painted flags 2 i \<longrightarrow> (\<exists>c \<in> common_ancestors next one others. (edge next)\<^sup>+\<^sup>+ c i))
     \<and> (\<forall>i. painted flags 3 i \<longleftrightarrow> i \<in> set found)
     \<and> distinct found \<and> set found \<subseteq> common_ancestors next one others
     \<and> (\<forall>i \<in> dom flags. i \<in> waiting heap \<or> settled next flags i)
     \<and> painted flags 0 one \<and> (\<forall>i \<in> set others. painted flags 1 i)"

lemma passes_simps: "passes f 0 \<longleftrightarrow> bit f 0" "passes f 1 \<longleftrightarrow> bit f 1" "passes f 2 \<longleftrightarrow> bit f 2 \<or> bit f 0 \<and> bit f 1"
  "\<not> passes f 3"
  by (auto simp: passes_def)

lemma flags_of_eq: "(\<And>b. painted flags' b j \<longleftrightarrow> painted flags b j) \<Longrightarrow> flags_of flags' j = flags_of flags j"
  by (simp add: painted_def byte_bits)

text \<open>A visited commit that is not pushed again is settled, and so stays every other one.\<close>

lemma settled_step:
  assumes old: "\<forall>i \<in> dom flags. i \<in> waiting heap \<or> settled next flags i" and pop: "heap_pop heap = Some ((s, i), h)"
    and nxt: "next i = Inr ps" and dom: "dom flags' = dom flags \<union> set ps"
    and paint: "\<And>b j. painted flags' b j \<longleftrightarrow> painted flags b j \<or> j = i \<and> b = 3 \<and> both_fresh flags i
       \<or> j \<in> set ps \<and> passes (flags_of flags i) b"
    and new: "\<And>b j. painted flags' b j \<Longrightarrow> \<not> painted flags b j \<Longrightarrow> \<not> (j = i \<and> b = 3) \<Longrightarrow> j \<in> waiting new"
    and two: "painted flags 0 i \<or> painted flags 1 i" and j: "j \<in> dom flags'" "j \<notin> waiting (new @ h)"
  shows "settled next flags' j"
proof (cases "j = i")
  case True
  have same: "painted flags' b i \<longleftrightarrow> painted flags b i" if "b \<noteq> 3" for b
    using new [of b i] paint [of b i] j(2) True that by auto
  have "passes (flags_of flags' i) b \<longleftrightarrow> passes (flags_of flags i) b" for b
    using same [of b] same [of 0] same [of 1] by (auto simp: passes_def painted_def)
  moreover have "both_fresh flags' i \<longleftrightarrow> both_fresh flags i"
    by (simp add: both_fresh_def same)
  ultimately show ?thesis
    using nxt True by (auto simp: settled_def paint)
next
  case False
  have same: "painted flags' b j \<longleftrightarrow> painted flags b j" for b
    using new [of b j] paint [of b j] j(2) False by auto
  have "j \<in> dom flags"
  proof (rule ccontr)
    assume out: "j \<notin> dom flags"
    then have "j \<in> set ps"
      using j(1) dom by simp
    moreover obtain b where "passes (flags_of flags i) b"
      using two passes_simps(1,2) by (auto simp: painted_def)
    ultimately have "painted flags b j"
      using same paint by blast
    then show False
      using out by (simp add: painted_def flags_of_def domIff)
  qed
  moreover have "j \<notin> waiting heap"
  proof
    assume "j \<in> waiting heap"
    then obtain t where "(t, j) \<in> set heap"
      by auto
    then have "(t, j) \<in> set (remove1 (s, i) heap)"
      using False in_set_remove1 [of "(t, j)" "(s, i)" heap] by simp
    then show False
      using j(2) heap_pop_Some(2) [OF pop] by force
  qed
  ultimately have "settled next flags j"
    using old by blast
  then show ?thesis
    using flags_of_eq [of flags' j flags] same by (auto simp: settled_def both_fresh_def paint)
qed

lemma paint_inv_step:
  assumes inv: "paint_inv next one others flags heap found" and pop: "heap_pop heap = Some ((s, i), h)"
    and visit: "paint_visit next secs flags h found i = Inr (flags', heap', found')"
  shows "paint_inv next one others flags' heap' found'"
proof -
  let ?C = "common_ancestors next one others"
  have waiting: "waiting heap \<subseteq> dom flags" and one: "painted flags 0 one"
    and two: "\<forall>i \<in> dom flags. painted flags 0 i \<or> painted flags 1 i"
    and bits: "\<And>i. painted flags 0 i \<Longrightarrow> i \<in> reachable next {one}"
      "\<And>i. painted flags 1 i \<Longrightarrow> i \<in> reachable next (set others)"
      "\<And>i. painted flags 2 i \<Longrightarrow> \<exists>c \<in> ?C. (edge next)\<^sup>+\<^sup>+ c i"
      "\<And>i. painted flags 3 i \<longleftrightarrow> i \<in> set found"
    and found: "distinct found" "set found \<subseteq> ?C"
    and settled: "\<forall>i \<in> dom flags. i \<in> waiting heap \<or> settled next flags i"
    and others: "\<forall>i \<in> set others. painted flags 1 i"
    using inv unfolding paint_inv_def by blast+
  note pop' = heap_pop_Some [OF pop]
  have i: "i \<in> dom flags"
    using waiting pop'(1) by force
  obtain ps new where ps: "next i = Inr ps" and dom: "dom flags' = dom flags \<union> set ps"
    and paint: "\<And>b j. painted flags' b j \<longleftrightarrow> painted flags b j \<or> j = i \<and> b = 3 \<and> both_fresh flags i
       \<or> j \<in> set ps \<and> passes (flags_of flags i) b"
    and found': "found' = (if both_fresh flags i \<and> \<not> painted flags 3 i then found @ [i] else found)"
    and heap': "heap' = new @ h" "waiting new \<subseteq> set ps"
    and new: "\<And>b j. painted flags' b j \<Longrightarrow> \<not> painted flags b j \<Longrightarrow> \<not> (j = i \<and> b = 3) \<Longrightarrow> j \<in> waiting new"
    and "\<And>V. finite V \<Longrightarrow> set ps \<subseteq> V \<Longrightarrow> unpainted V flags' + length heap' \<le> unpainted V flags + length h"
    by (fact paint_visit_Inr [OF visit])
  have common: "i \<in> ?C" if "painted flags 0 i" "painted flags 1 i"
    using that bits(1,2) by (simp add: common_ancestors_def)
  have pass: "passes (flags_of flags i) 0 \<longleftrightarrow> painted flags 0 i" "passes (flags_of flags i) 1 \<longleftrightarrow> painted flags 1 i"
    "passes (flags_of flags i) 2 \<longleftrightarrow> painted flags 2 i \<or> painted flags 0 i \<and> painted flags 1 i"
    "\<not> passes (flags_of flags i) 3"
    by (simp_all only: passes_simps painted_def not_False_eq_True)
  have step: "edge next i p" if "p \<in> set ps" for p
    using that ps by (auto simp: edge_def)
  have down: "p \<in> reachable next S" if "i \<in> reachable next S" "p \<in> set ps" for S p
    using reachable_down [of i "next" S ps] that ps by blast
  have "waiting h \<subseteq> waiting heap"
    unfolding pop'(2) by (intro image_mono set_remove1_subset)
  then have w: "waiting heap' \<subseteq> dom flags'"
    using heap'(2) waiting unfolding heap'(1) dom set_append image_Un by blast
  have tw: "\<forall>j \<in> dom flags'. painted flags' 0 j \<or> painted flags' 1 j"
    using two i pass(1,2) unfolding dom paint by blast
  have b0: "j \<in> reachable next {one}" if "painted flags' 0 j" for j
    using that bits(1) pass(1) down unfolding paint by auto
  have b1: "j \<in> reachable next (set others)" if "painted flags' 1 j" for j
    using that bits(2) pass(2) down unfolding paint by auto
  have b2: "\<exists>c \<in> ?C. (edge next)\<^sup>+\<^sup>+ c j" if "painted flags' 2 j" for j
  proof -
    have "painted flags 2 j \<or> j \<in> set ps \<and> (painted flags 2 i \<or> painted flags 0 i \<and> painted flags 1 i)"
      using that unfolding paint pass(3) by auto
    then consider "painted flags 2 j" | "j \<in> set ps" "painted flags 2 i" | "j \<in> set ps" "i \<in> ?C"
      using common by blast
    then show ?thesis
    proof cases
      case 2
      then show ?thesis
        using bits(3) step by (meson tranclp.trancl_into_trancl)
    qed (use bits(3) step in blast)+
  qed
  have b3: "painted flags' 3 j \<longleftrightarrow> j \<in> set found'" for j
    using bits(4) pass(4) unfolding paint found' by auto
  have fd: "distinct found'" "set found' \<subseteq> ?C"
    using found common bits(4) unfolding found' both_fresh_def by auto
  have st: "settled next flags' j" if "j \<in> dom flags'" "j \<notin> waiting heap'" for j
    using that settled_step [OF settled pop ps dom paint, of new j] new bspec [OF two i] unfolding heap'(1) by blast
  have tips: "painted flags' 0 one" "\<forall>j \<in> set others. painted flags' 1 j"
    using one others unfolding paint by blast+
  show ?thesis
    unfolding paint_inv_def by (intro conjI allI impI w tw b0 b1 b2 b3 fd tips) (use st in blast)+
qed

text \<open>When nothing waits any more, every best common ancestor has been found.\<close>

lemma paint_inv_final:
  assumes "paint_inv next one others flags [] found" "c \<in> common_ancestors next one others"
    and best: "\<And>d. d \<in> common_ancestors next one others \<Longrightarrow> \<not> (edge next)\<^sup>+\<^sup>+ d c"
  shows "c \<in> set found"
proof -
  have settled: "\<forall>i \<in> dom flags. settled next flags i" and one: "painted flags 0 one"
    and others: "\<forall>i \<in> set others. painted flags 1 i"
    and stale: "\<forall>i. painted flags 2 i \<longrightarrow> (\<exists>c \<in> common_ancestors next one others. (edge next)\<^sup>+\<^sup>+ c i)"
    and found: "\<forall>i. painted flags 3 i \<longleftrightarrow> i \<in> set found"
    using assms(1) unfolding paint_inv_def by auto
  have dom: "i \<in> dom flags" if "painted flags b i" for b i
    using that by (auto simp: painted_def flags_of_def split: option.splits)
  have spread: "painted flags b p" if "painted flags b i" "edge next i p" "b < 2" for b i p
  proof -
    obtain ps where ps: "next i = Inr ps" "\<And>b p. passes (flags_of flags i) b \<Longrightarrow> p \<in> set ps \<Longrightarrow> painted flags b p"
      using bspec [OF settled dom [OF \<open>painted flags b i\<close>]] unfolding settled_def by blast
    moreover have "passes (flags_of flags i) b"
      using that(1,3) by (simp add: passes_def painted_def)
    ultimately show ?thesis
      using that(2) by (auto simp: edge_def)
  qed
  have "i \<in> {i. painted flags 0 i}" if "i \<in> reachable next {one}" for i
    using that reachable_least [of "{one}" "{i. painted flags 0 i}" "next"] one spread by auto
  moreover have "i \<in> {i. painted flags 1 i}" if "i \<in> reachable next (set others)" for i
    using that reachable_least [of "set others" "{i. painted flags 1 i}" "next"] others spread by auto
  ultimately have "painted flags 0 c" "painted flags 1 c"
    using assms(2) by (auto simp: common_ancestors_def)
  moreover have "\<not> painted flags 2 c"
    using stale best by blast
  ultimately have "painted flags 3 c"
    using settled dom by (auto simp: settled_def both_fresh_def)
  then show ?thesis
    using found by blast
qed

context history_graph
begin

lemma paint_loop_run:
  assumes "finite V" "\<And>i ps. i \<in> V \<Longrightarrow> next i = Inr ps \<Longrightarrow> set ps \<subseteq> V" "dom flags \<subseteq> V"
    and "paint_inv next one others flags heap found"
  shows "\<exists>r. paint_loop next secs flags heap found = Some r
    \<and> (case r of
         Inr res \<Rightarrow> \<exists>flags. paint_inv next one others flags [] res
       | Inl e \<Rightarrow> \<exists>i \<in> V. next i = Inl e \<or> secs i = Inl e)"
  using assms(3,4)
proof (induction "unpainted V flags + length heap" arbitrary: flags heap found rule: less_induct)
  case less
  show ?case
  proof (cases "heap_pop heap")
    case None
    then show ?thesis
      using less.prems by (subst paint_loop.simps) auto
  next
    case (Some p)
    then obtain s i h where pop: "heap_pop heap = Some ((s, i), h)"
      by (metis prod.collapse)
    have "waiting heap \<subseteq> dom flags" "(s, i) \<in> set heap"
      using heap_pop_Some(1) [OF pop] less.prems(2) unfolding paint_inv_def by simp_all
    then have i: "i \<in> dom flags" "i \<in> V"
      using less.prems(1) by force+
    show ?thesis
    proof (cases "paint_visit next secs flags h found i")
      case (Inl e)
      then have "paint_loop next secs flags heap found = Some (Inl e)"
        by (subst paint_loop.simps) (simp add: pop)
      moreover have "\<exists>i \<in> V. next i = Inl e \<or> secs i = Inl e"
        using paint_visit_Inl [OF Inl i(1)]
      proof (elim disjE exE conjE bexE)
        fix ps p assume "next i = Inr ps" "p \<in> set ps" "secs p = Inl e"
        then show ?thesis
          using assms(2) [OF i(2)] by blast
      qed (use i(2) in blast)
      ultimately show ?thesis
        by simp
    next
      case (Inr q)
      then obtain flags' heap' found' where visit: "paint_visit next secs flags h found i = Inr (flags', heap', found')"
        by (cases q) auto
      obtain ps where ps: "next i = Inr ps" "dom flags' = dom flags \<union> set ps"
        "finite V \<Longrightarrow> set ps \<subseteq> V \<Longrightarrow> unpainted V flags' + length heap' \<le> unpainted V flags + length h"
        using paint_visit_Inr [OF visit, of thesis] by blast
      have "length h < length heap"
        using heap_pop_Some(1,2) [OF pop] length_pos_if_in_set [of "(s, i)" heap] by (simp add: length_remove1)
      then have "unpainted V flags' + length heap' < unpainted V flags + length heap"
        using ps(3) [OF assms(1) assms(2) [OF i(2) ps(1)]] by linarith
      moreover have "dom flags' \<subseteq> V"
        using ps(2) assms(2) [OF i(2) ps(1)] less.prems(1) by simp
      moreover have "paint_loop next secs flags heap found = paint_loop next secs flags' heap' found'"
        by (subst paint_loop.simps) (simp add: pop visit)
      ultimately show ?thesis
        using less.hyps [OF _ _ paint_inv_step [OF less.prems(2) pop visit]] by simp
    qed
  qed
qed

end

lemma dom_upd: "dom (flags(i \<mapsto> x)) = insert i (dom flags)"
  by simp

lemma paint_others_Inr:
  "paint_others secs is flags heap = Inr (flags', heap') \<Longrightarrow>
   (\<forall>b i. painted flags' b i \<longleftrightarrow> painted flags b i \<or> b = 1 \<and> i \<in> set is)
   \<and> dom flags' = dom flags \<union> set is \<and> (waiting heap = dom flags \<longrightarrow> waiting heap' = dom flags')"
proof (induction "is" arbitrary: flags heap)
  case (Cons i "is")
  show ?case
  proof (cases "flags_of flags i AND PARENT2 = 0")
    case True
    then obtain s where "paint_others secs is (flags(i \<mapsto> flags_of flags i OR PARENT2)) ((s, i) # heap) = Inr (flags', heap')"
      using Cons.prems by (auto simp: Let_def ebind_eq_Inr)
    note IH = Cons.IH [OF this, unfolded painted_upd bit_masks(4) dom_upd]
    have "\<forall>b j. painted flags' b j \<longleftrightarrow> painted flags b j \<or> b = 1 \<and> j \<in> set (i # is)"
      using IH [THEN conjunct1] by auto
    moreover have "dom flags' = dom flags \<union> set (i # is)" "waiting heap = dom flags \<longrightarrow> waiting heap' = dom flags'"
      using IH [THEN conjunct2] by auto
    ultimately show ?thesis
      by blast
  next
    case False
    then have one: "painted flags 1 i" "i \<in> dom flags"
      using zero_bits(2) by (auto simp: painted_def flags_of_def split: option.splits)
    have "paint_others secs is (flags(i \<mapsto> flags_of flags i)) heap = Inr (flags', heap')"
      using Cons.prems False by (simp add: Let_def)
    note IH = Cons.IH [OF this, unfolded painted_upd dom_upd]
    have "\<forall>b j. painted flags' b j \<longleftrightarrow> painted flags b j \<or> b = 1 \<and> j \<in> set (i # is)"
      using IH [THEN conjunct1] one(1) by auto
    moreover have "dom flags' = dom flags \<union> set (i # is)" "waiting heap = dom flags \<longrightarrow> waiting heap' = dom flags'"
      using IH [THEN conjunct2] one(2) by (simp_all add: insert_absorb Un_insert_left [symmetric] del: Un_insert_left)
    ultimately show ?thesis
      by blast
  qed
qed simp

lemma paint_others_Inl: "paint_others secs is flags heap = Inl e \<Longrightarrow> \<exists>i \<in> set is. secs i = Inl e"
  by (induction "is" arbitrary: flags heap) (auto simp: ebind_eq_Inl Let_def split: if_splits)

lemma paint_inv_start:
  assumes "paint_others secs others [one \<mapsto> PARENT1] [(s, one)] = Inr (flags, heap)"
  shows "paint_inv next one others flags heap []" "dom flags \<subseteq> insert one (set others)"
proof -
  have start: "painted [one \<mapsto> PARENT1] b i \<longleftrightarrow> b = 0 \<and> i = one" for b i
    by (simp add: painted_def flags_of_def bit_1_iff)
  have bits: "\<And>b i. painted flags b i \<longleftrightarrow> b = 0 \<and> i = one \<or> b = 1 \<and> i \<in> set others"
    and dom: "dom flags = insert one (set others)" and "waiting heap = dom flags"
    using paint_others_Inr [OF assms] unfolding start by auto
  then show "paint_inv next one others flags heap []"
    using reachable_tips [of "{one}" "next"] reachable_tips [of "set others" "next"]
    by (auto simp: paint_inv_def)
  show "dom flags \<subseteq> insert one (set others)"
    by (simp add: dom)
qed

section \<open>On a repository\<close>

lemma readable_next:
  assumes "commit_readable H R i"
  shows "commit_parents H R shallow i \<noteq> Inl e" "committer_seconds H R i \<noteq> Inl e"
    "peel_to_commit H R i = Some (Inr i)"
proof -
  show "commit_parents H R shallow i \<noteq> Inl e" "committer_seconds H R i \<noteq> Inl e"
    using assms readable_parents [OF assms, of shallow] by (auto simp: commit_readable_def)
  obtain payload where "read_object R i = Inr (Commit, payload)"
    using assms by (auto simp: commit_readable_def committer_seconds_def read_commit_def ebind_eq_Inr split: if_splits)
  then show "peel_to_commit H R i = Some (Inr i)"
    by (subst peel_to_commit.simps) simp
qed

lemma paint_down_run:
  fixes one :: object_id and others :: "object_id list"
  assumes "shallow_set H R = Inr shallow"
  defines "V \<equiv> commit_history H R shallow (insert one (set others))"
  shows "\<exists>r. paint_down H R one others = Some r
    \<and> (case r of
         Inr found \<Rightarrow> \<exists>flags. paint_inv (commit_parents H R shallow) one others flags [] found
       | Inl e \<Rightarrow> \<exists>i \<in> V. \<not> commit_readable H R i)"
proof -
  have start: "insert one (set others) \<subseteq> V"
    unfolding V_def commit_history_def by (rule reachable_tips)
  show ?thesis
  proof (cases "committer_seconds H R one")
    case (Inl e)
    then show ?thesis
      using start readable_next(2) [of H R one e] by (auto simp: paint_down_def assms(1))
  next
    case (Inr s)
    show ?thesis
    proof (cases "paint_others (committer_seconds H R) others [one \<mapsto> PARENT1] [(s, one)]")
      case (Inl e)
      then obtain i where "i \<in> set others" "committer_seconds H R i = Inl e"
        using paint_others_Inl by blast
      then have "i \<in> V" "\<not> commit_readable H R i"
        using start readable_next(2) [of H R i e] by auto
      then show ?thesis
        using Inl Inr by (auto simp: paint_down_def assms(1))
    next
      case (Inr p)
      then obtain flags heap where
        first: "paint_others (committer_seconds H R) others [one \<mapsto> PARENT1] [(s, one)] = Inr (flags, heap)"
        by (cases p) auto
      have "finite V"
        unfolding V_def commit_history_def by (rule commits.finite_reachable) simp
      moreover have "set ps \<subseteq> V" if "i \<in> V" "commit_parents H R shallow i = Inr ps" for i ps
        using reachable_down that unfolding V_def commit_history_def by metis
      moreover have "dom flags \<subseteq> V"
        using paint_inv_start(2) [OF first] start by blast
      ultimately obtain r where
        "paint_loop (commit_parents H R shallow) (committer_seconds H R) flags heap [] = Some r"
        "case r of
           Inr found \<Rightarrow> \<exists>flags. paint_inv (commit_parents H R shallow) one others flags [] found
         | Inl e \<Rightarrow> \<exists>i \<in> V. commit_parents H R shallow i = Inl e \<or> committer_seconds H R i = Inl e"
        using commits.paint_loop_run [OF _ _ _ paint_inv_start(1) [OF first]] by blast
      then show ?thesis
        using readable_next(1,2) \<open>committer_seconds H R one = Inr s\<close>
        by (cases r) (auto simp: paint_down_def assms(1) first, blast+)
    qed
  qed
qed

lemma is_ancestor_history:
  assumes "shallow_set H R = Inr shallow" "bitmap_current H R" "commit_readable H R a"
    and readable: "\<forall>i \<in> commit_history H R shallow {d}. commit_readable H R i"
  shows "is_ancestor H R a d = Some (Inr (a \<in> commit_history H R shallow {d}))"
proof -
  have d: "peel_to_commit H R d = Some (Inr d)"
    using readable reachable_tips [of "{d}"] readable_next(3) unfolding commit_history_def by blast
  have walk: "anc_walk (commit_parents H R shallow) a {d} [d] = Some (Inr (a \<in> commit_history H R shallow {d}))"
  proof -
    obtain r where r: "anc_walk (commit_parents H R shallow) a {d} [d] = Some r"
      "case r of
         Inr b \<Rightarrow> b \<longleftrightarrow> a \<in> commit_history H R shallow {d}
       | Inl e \<Rightarrow> \<exists>i \<in> commit_history H R shallow {d}. commit_parents H R shallow i = Inl e"
      using commits.anc_walk_reaches [of H R shallow a d] unfolding commit_history_def by blast
    show ?thesis
    proof (cases r)
      case (Inl e)
      then show ?thesis
        using r(2) readable readable_next(1) [of H R _ shallow e] by auto
    qed (use r in simp)
  qed
  obtain bitmap where b: "bitmap_and_midx H R = Inr bitmap"
    using assms(2) unfolding bitmap_current_def by blast
  have "commit_reaches_any H R d [a] = Some (Inr (a \<in> commit_history H R {} {d}))" if "shallow = {}"
    using commit_reaches_any_correct [OF assms(2), of d "[a]"] readable that by simp
  then show ?thesis
    using walk by (cases "shallow = {}") (simp_all add: is_ancestor_def has_reachability_bitmap_def b readable_next(3) [OF assms(3)] d assms(1))
qed

lemma redundant_in_run:
  assumes "\<And>d. d \<in> set ds \<Longrightarrow> anc c d = Some (Inr (A c d))"
  shows "redundant_in anc c i j ds = Some (Inr (\<exists>k < length ds. i \<noteq> j + k \<and> A c (ds ! k)))"
  using assms
proof (induction ds arbitrary: j)
  case (Cons d ds)
  have "redundant_in anc c i (j + 1) ds = Some (Inr (\<exists>k < length ds. i \<noteq> j + 1 + k \<and> A c (ds ! k)))"
    using Cons by simp
  moreover have "(\<exists>k < length (d # ds). i \<noteq> j + k \<and> A c ((d # ds) ! k))
      \<longleftrightarrow> i \<noteq> j \<and> A c d \<or> (\<exists>k < length ds. i \<noteq> j + 1 + k \<and> A c (ds ! k))"
    by (simp add: Ex_less_Suc2)
  ultimately show ?case
    using Cons.prems [of d] by (cases "i = j") simp_all
qed simp

lemma keep_loop_run:
  assumes "\<And>c d. c \<in> set all \<Longrightarrow> d \<in> set all \<Longrightarrow> anc c d = Some (Inr (A c d))" "distinct all"
  shows "i \<le> length all \<Longrightarrow> keep_loop anc all i (drop i all) kept
    = Some (Inr (kept @ filter (\<lambda>c. \<not> (\<exists>d \<in> set all. d \<noteq> c \<and> A c d)) (drop i all)))"
proof (induction "length all - i" arbitrary: i kept)
  case (Suc n)
  then have i: "i < length all"
    by simp
  have "(\<exists>k < length all. i \<noteq> 0 + k \<and> A (all ! i) (all ! k)) \<longleftrightarrow> (\<exists>d \<in> set all. d \<noteq> all ! i \<and> A (all ! i) d)"
    using nth_eq_iff_index_eq [OF assms(2) _ i] by (metis add_0 in_set_conv_nth)
  then have "redundant_in anc (all ! i) i 0 all = Some (Inr (\<exists>d \<in> set all. d \<noteq> all ! i \<and> A (all ! i) d))"
    using redundant_in_run [of all anc "all ! i" A i 0] assms(1) i by simp
  moreover have "drop i all = all ! i # drop (i + 1) all"
    using i by (simp add: Cons_nth_drop_Suc)
  moreover have "keep_loop anc all (i + 1) (drop (i + 1) all) kept
    = Some (Inr (kept @ filter (\<lambda>c. \<not> (\<exists>d \<in> set all. d \<noteq> c \<and> A c d)) (drop (i + 1) all)))" for kept
    using Suc i by simp
  ultimately show ?case
    by simp
qed simp

section \<open>Properties\<close>

text \<open>
  The specification: a common ancestor is reachable from the first commit and from one of the others;
  the best ones are those that are not ancestors of another.
\<close>

definition shared_history :: "hash_alg \<Rightarrow> repo \<Rightarrow> object_id set \<Rightarrow> object_id \<Rightarrow> object_id list \<Rightarrow> object_id set" where
  "shared_history H R shallow one others =
     commit_history H R shallow {one} \<inter> commit_history H R shallow (set others)"

definition best_common :: "hash_alg \<Rightarrow> repo \<Rightarrow> object_id set \<Rightarrow> object_id \<Rightarrow> object_id list \<Rightarrow> object_id set" where
  "best_common H R shallow one others =
     {c \<in> shared_history H R shallow one others.
        \<not> (\<exists>d \<in> shared_history H R shallow one others. d \<noteq> c \<and> c \<in> commit_history H R shallow {d})}"

lemma proper_ancestor:
  assumes "\<forall>i. \<not> (edge next)\<^sup>+\<^sup>+ i i"
  shows "d \<noteq> c \<and> c \<in> reachable next {d} \<longleftrightarrow> (edge next)\<^sup>+\<^sup>+ d c"
  using assms by (auto simp: reachable_def dest: tranclp_into_rtranclp rtranclpD)

text \<open>In a finite acyclic graph, above an element with something above it there is a topmost one.\<close>

lemma topmost_above:
  assumes "finite C" "\<forall>i. \<not> r\<^sup>+\<^sup>+ i i" "d \<in> C" "r\<^sup>+\<^sup>+ d c"
  obtains t where "t \<in> C" "r\<^sup>+\<^sup>+ t c" "\<And>e. e \<in> C \<Longrightarrow> \<not> r\<^sup>+\<^sup>+ e t"
proof -
  let ?R = "{(e, t). e \<in> C \<and> t \<in> C \<and> r\<^sup>+\<^sup>+ e t}"
  have "finite ?R"
    by (rule finite_subset [of _ "C \<times> C"]) (use assms(1) in auto)
  moreover have "trans ?R"
    by (rule transI) (auto intro: tranclp_trans)
  then have "acyclic ?R"
    using assms(2) by (simp add: acyclic_def trancl_id)
  ultimately have "wf ?R"
    by (rule finite_acyclic_wf)
  then obtain t where t: "t \<in> {t \<in> C. r\<^sup>+\<^sup>+ t c}" "\<And>e. (e, t) \<in> ?R \<Longrightarrow> e \<notin> {t \<in> C. r\<^sup>+\<^sup>+ t c}"
    using assms(3,4) by (metis (no_types, lifting) mem_Collect_eq wfE_min)
  have "\<not> r\<^sup>+\<^sup>+ e t" if "e \<in> C" for e
    using t that tranclp_trans [of r e t c] by blast
  then show ?thesis
    using that t(1) by blast
qed

lemma peel_all_peeled: "list_all2 (peels H R) is cs \<Longrightarrow> peel_all H R is = Some (Inr cs)"
  by (induction "is" cs rule: list_all2_induct) simp_all

text \<open>C3: when every commit reachable from the named commits, up to the shallow boundary, is readable and
  their history has no cycle, the merge bases of a commit and a set of others are exactly the best common
  ancestors: the commits reachable from the first and from at least one of the others that are not
  ancestors of another such commit; each is listed once. The walk ends whatever the dates of the commits
  are. The answer is the same with a reachability bitmap, whose bits then replace a part of the walk,
  provided that its file is the one \<open>write_reachability_bitmap\<close> builds from the objects of the current
  multi-pack index and that these are well typed (\<open>bitmap_current\<close>).\<close>

theorem merge_base_correct:
  assumes "shallow_set H R = Inr shallow"
    and "list_all2 (\<lambda>t c. peel_to_commit H R t = Some (Inr c)) (first # rest) (one # others)"
    and "\<forall>i \<in> commit_history H R shallow (set (one # others)). commit_readable H R i"
    and "\<forall>i. \<not> (edge (commit_parents H R shallow))\<^sup>+\<^sup>+ i i" and "bitmap_current H R"
  shows "\<exists>bases. merge_base H R (first # rest) = Some (Inr bases) \<and> distinct bases
    \<and> set bases = best_common H R shallow one others"
proof -
  let ?E = "edge (commit_parents H R shallow)" and ?C = "shared_history H R shallow one others"
  have C: "?C = common_ancestors (commit_parents H R shallow) one others"
    by (simp add: shared_history_def common_ancestors_def commit_history_def)
  have sub: "?C \<subseteq> commit_history H R shallow (set (one # others))"
    by (auto simp: shared_history_def commit_history_def reachable_def)
  have "finite ?C"
    unfolding shared_history_def commit_history_def by (simp add: commits.finite_reachable)
  obtain found flags where found: "paint_down H R one others = Some (Inr found)"
    and inv: "paint_inv (commit_parents H R shallow) one others flags [] found"
  proof -
    obtain r where r: "paint_down H R one others = Some r"
      "case r of
         Inr found \<Rightarrow> \<exists>flags. paint_inv (commit_parents H R shallow) one others flags [] found
       | Inl e \<Rightarrow> \<exists>i \<in> commit_history H R shallow (set (one # others)). \<not> commit_readable H R i"
      using paint_down_run [OF assms(1), of one others] unfolding list.simps(15) [symmetric] by blast
    then show ?thesis
      using that assms(3) by (cases r) auto
  qed
  have cs: "distinct found" "set found \<subseteq> ?C"
    using inv unfolding paint_inv_def C by blast+
  have top: "c \<in> set found" if "c \<in> ?C" "\<And>d. d \<in> ?C \<Longrightarrow> \<not> ?E\<^sup>+\<^sup>+ d c" for c
    using paint_inv_final [OF inv] that unfolding C by blast
  let ?A = "\<lambda>c d. c \<in> commit_history H R shallow {d}"
  have anc: "is_ancestor H R c d = Some (Inr (?A c d))" if "c \<in> set found" "d \<in> set found" for c d
  proof (rule is_ancestor_history [OF assms(1,5)])
    show "commit_readable H R c"
      using that(1) cs(2) sub assms(3) by blast
    have "commit_history H R shallow {d} \<subseteq> commit_history H R shallow (set (one # others))"
      unfolding commit_history_def
    proof (rule reachable_least)
      show "{d} \<subseteq> reachable (commit_parents H R shallow) (set (one # others))"
        using that(2) cs(2) sub unfolding commit_history_def by blast
    qed (use reachable_down in \<open>fastforce simp: edge_def\<close>)
    then show "\<forall>i \<in> commit_history H R shallow {d}. commit_readable H R i"
      using assms(3) by blast
  qed
  let ?B = "filter (\<lambda>c. \<not> (\<exists>d \<in> set found. d \<noteq> c \<and> ?A c d)) found"
  have "remove_redundant H R found = Some (Inr ?B)"
    using keep_loop_run [of found "is_ancestor H R" ?A 0 "[]"] anc cs(1) by (simp add: remove_redundant_def)
  then have "merge_base H R (first # rest) = Some (Inr ?B)"
    using assms(2) peel_all_peeled [of H R rest others] by (simp add: merge_base_def found)
  moreover have "set ?B = best_common H R shallow one others"
  proof -
    have proper: "d \<noteq> c \<and> ?A c d \<longleftrightarrow> ?E\<^sup>+\<^sup>+ d c" for c d
      using proper_ancestor [OF assms(4)] unfolding commit_history_def .
    have "\<exists>d \<in> set found. ?E\<^sup>+\<^sup>+ d c" if "d \<in> ?C" "?E\<^sup>+\<^sup>+ d c" for c d
      using topmost_above [OF \<open>finite ?C\<close> assms(4) that] top by metis
    then have same: "(\<exists>d \<in> set found. ?E\<^sup>+\<^sup>+ d c) \<longleftrightarrow> (\<exists>d \<in> ?C. ?E\<^sup>+\<^sup>+ d c)" for c
      using cs(2) by blast
    show ?thesis
      unfolding best_common_def proper set_filter same using cs(2) top by blast
  qed
  ultimately show ?thesis
    using cs(1) by auto
qed

lemma demo_edge:
  assumes "edge (commit_parents demo_alg demo_repo {}) i p"
  shows "\<exists>n m. i = demo_id n \<and> n \<in> {1, 2, 3, 4, 5} \<and> p = demo_id m \<and> m \<in> set (demo_parents n)"
proof -
  obtain ps where ps: "commit_parents demo_alg demo_repo {} i = Inr ps" "p \<in> set ps"
    using assms by (auto simp: edge_def)
  then obtain x where "read_object demo_repo i = Inr (Commit, x)"
    by (auto simp: commit_parents_def read_commit_def ebind_eq_Inr split: if_splits)
  then have "i = demo_id (hd (id_bytes i))" "hd (id_bytes i) \<in> {1, 2, 3, 4, 5}"
    by (auto simp: demo_repo_def Let_def split: if_splits)
  then show ?thesis
    using demo_read(3) [of "hd (id_bytes i)"] ps by (metis (no_types, lifting) Inr_inject image_iff list.set_map)
qed

lemma demo_acyclic: "\<not> (edge (commit_parents demo_alg demo_repo {}))\<^sup>+\<^sup>+ i i"
proof -
  have step: "hd (id_bytes p) < hd (id_bytes i)" if "edge (commit_parents demo_alg demo_repo {}) i p" for i p
    using demo_edge [OF that] by (auto simp: demo_id_def demo_parents_def split: if_splits)
  have "(edge (commit_parents demo_alg demo_repo {}))\<^sup>+\<^sup>+ i j \<Longrightarrow> hd (id_bytes j) < hd (id_bytes i)" for i j
    by (induction rule: tranclp_induct) (auto dest: step order.strict_trans)
  then show ?thesis
    by blast
qed

lemma demo_reach:
  "commit_history demo_alg demo_repo {} {demo_id 1} = {demo_id 1}"
  "commit_history demo_alg demo_repo {} {demo_id 2} = {demo_id 1, demo_id 2}"
  "commit_history demo_alg demo_repo {} {demo_id 3} = {demo_id 1, demo_id 3}"
  "commit_history demo_alg demo_repo {} {demo_id 4} = {demo_id 1, demo_id 2, demo_id 3, demo_id 4}"
  "commit_history demo_alg demo_repo {} {demo_id 5} = {demo_id 1, demo_id 2, demo_id 3, demo_id 5}"
proof -
  let ?next = "commit_parents demo_alg demo_repo {}"
  have closed: "reachable ?next {demo_id n} \<subseteq> demo_id ` S" if "n \<in> S" "(\<Union>k \<in> S. set (demo_parents k)) \<subseteq> S" for n S
    using that demo_edge by (intro reachable_least) fastforce+
  have down: "demo_id m \<in> reachable ?next {demo_id n}"
    if "demo_id k \<in> reachable ?next {demo_id n}" "k \<in> {1, 2, 3, 4, 5}" "m \<in> set (demo_parents k)" for n k m
    using reachable_down [OF that(1) demo_read(3) [OF that(2)]] that(3) by auto
  have start: "demo_id n \<in> reachable ?next {demo_id n}" for n
    using reachable_tips [of "{demo_id n}"] by blast
  have two: "demo_id 1 \<in> reachable ?next {demo_id n}"
    if "demo_id k \<in> reachable ?next {demo_id n}" "k = 2 \<or> k = 3" for n k
    using down [OF that(1), of 1] that(2) by (auto simp: demo_parents_def)
  have four: "demo_id 2 \<in> reachable ?next {demo_id n}" "demo_id 3 \<in> reachable ?next {demo_id n}" if "n = 4 \<or> n = 5" for n
    using down [OF start [of n], of 2] down [OF start [of n], of 3] that by (auto simp: demo_parents_def)
  show "commit_history demo_alg demo_repo {} {demo_id 1} = {demo_id 1}"
    using closed [of 1 "{1}"] start [of 1] by (auto simp: commit_history_def demo_parents_def)
  show "commit_history demo_alg demo_repo {} {demo_id 2} = {demo_id 1, demo_id 2}"
    using closed [of 2 "{1, 2}"] start [of 2] two [of 2 2] by (auto simp: commit_history_def demo_parents_def)
  show "commit_history demo_alg demo_repo {} {demo_id 3} = {demo_id 1, demo_id 3}"
    using closed [of 3 "{1, 3}"] start [of 3] two [of 3 3] by (auto simp: commit_history_def demo_parents_def)
  show "commit_history demo_alg demo_repo {} {demo_id 4} = {demo_id 1, demo_id 2, demo_id 3, demo_id 4}"
    using closed [of 4 "{1, 2, 3, 4}"] start [of 4] four [of 4] two [of 2 4]
    by (auto simp: commit_history_def demo_parents_def)
  show "commit_history demo_alg demo_repo {} {demo_id 5} = {demo_id 1, demo_id 2, demo_id 3, demo_id 5}"
    using closed [of 5 "{1, 2, 3, 5}"] start [of 5] four [of 5] two [of 2 5]
    by (auto simp: commit_history_def demo_parents_def)
qed

lemma same_objects:
  assumes "read_object R = read_object R'"
  shows "read_commit H R = read_commit H R'" "commit_parents H R = commit_parents H R'"
    "committer_seconds H R = committer_seconds H R'" "commit_history H R = commit_history H R'"
    "commit_readable H R = commit_readable H R'"
proof -
  show c: "read_commit H R = read_commit H R'"
    by (rule ext) (simp add: read_commit_def assms)
  show p: "commit_parents H R = commit_parents H R'"
    by (intro ext) (simp add: commit_parents_def c)
  show s: "committer_seconds H R = committer_seconds H R'"
    by (rule ext) (simp add: committer_seconds_def c)
  show "commit_history H R = commit_history H R'" "commit_readable H R = commit_readable H R'"
    by (intro ext, simp add: commit_history_def p) (rule ext, simp add: commit_readable_def s)
qed

theorem merge_base_correct_witness:
  "\<exists>R b m bm bases. bitmap_and_midx demo_alg R = Inr (Some (b, m)) \<and> reverse_index m \<noteq> None
     \<and> commit_reachability_ewah b (demo_id 1) m = Inr (Some bm)
     \<and> merge_base demo_alg R [demo_id 4, demo_id 5] = Some (Inr bases) \<and> distinct bases
     \<and> set bases = {demo_id 2, demo_id 3}"
proof -
  obtain R b m bm where R: "read_object R = read_object demo_repo" "shallow_set demo_alg R = Inr {}" "bitmap_current demo_alg R"
    and bitmap: "bitmap_and_midx demo_alg R = Inr (Some (b, m))" "reverse_index m \<noteq> None"
      "commit_reachability_ewah b (demo_id 1) m = Inr (Some bm)"
    by (rule demo_bitmap)
  note same = same_objects [OF R(1), of demo_alg]
  have shared: "shared_history demo_alg R {} (demo_id 4) [demo_id 5] = {demo_id 1, demo_id 2, demo_id 3}"
    by (auto simp: shared_history_def demo_reach same)
  then have best: "best_common demo_alg R {} (demo_id 4) [demo_id 5] = {demo_id 2, demo_id 3}"
    by (auto simp: best_common_def demo_reach same)
  have "commit_history demo_alg R {} (set [demo_id 4, demo_id 5]) \<subseteq> demo_id ` {1, 2, 3, 4, 5}"
    using demo_history [of "[4, 5]"] by (simp add: same)
  then have readable: "\<forall>i \<in> commit_history demo_alg R {} (set [demo_id 4, demo_id 5]). commit_readable demo_alg R i"
    using demo_read(4) by (fastforce simp: commit_readable_def same)
  then have "peel_to_commit demo_alg R (demo_id 4) = Some (Inr (demo_id 4))"
    "peel_to_commit demo_alg R (demo_id 5) = Some (Inr (demo_id 5))"
    using readable_next(3) reachable_tips [of "set [demo_id 4, demo_id 5]" "commit_parents demo_alg R {}"] by (auto simp: commit_history_def)
  then have "\<exists>bases. merge_base demo_alg R [demo_id 4, demo_id 5] = Some (Inr bases) \<and> distinct bases
      \<and> set bases = best_common demo_alg R {} (demo_id 4) [demo_id 5]"
    using demo_acyclic readable
    by (intro merge_base_correct [OF R(2)] R(3)) (simp_all add: same)
  then show ?thesis
    unfolding best using bitmap by blast
qed

end
