(* ===== verification/Git_Store.thy ===== *)
theory Git_Store
  imports Git_Loose Git_Revision
begin

text \<open>
  The object store's own reads and writes, \<open>gitana-object-store/src/lib.rs\<close>
  (\<open>write_object\<close>, \<open>read_object\<close>): an object is written as a loose file unless a file is at its path, and
  read from that path, or else from the packs, with its content checked against the id asked for. The
  file store is the map of its paths; what the packs hold is a field that these operations do not change.
\<close>

section \<open>The store\<close>

record store =
  loose_files :: "bytes \<Rightarrow> bytes option"
  packed_object :: "object_id \<Rightarrow> (object_kind \<times> bytes) rres"

definition ensure_within :: "nat \<Rightarrow> nat \<Rightarrow> unit rres" where
  "ensure_within len limit = (if limit < len then Inl (Err StoreError) else Inr ())"

definition verify_requested_object :: "hash_alg \<Rightarrow> object_id \<Rightarrow> object_kind \<Rightarrow> bytes \<Rightarrow> unit rres" where
  "verify_requested_object H requested kind payload =
     (if compute H kind payload \<noteq> requested then Inl (Err StoreError) else Inr ())"

definition store_read :: "zlib_lib \<Rightarrow> hash_alg \<Rightarrow> store \<Rightarrow> object_id \<Rightarrow> (object_kind \<times> bytes) rres" where
  "store_read Z H S i =
     ebind (map_err StoreError (loose_object_path i)) (\<lambda>path.
       case loose_files S path of
         Some bs \<Rightarrow>
           ebind (map_err StoreError (decode_loose Z bs)) (\<lambda>(kind, payload).
           ebind (verify_requested_object H i kind payload) (\<lambda>_. Inr (kind, payload)))
       | None \<Rightarrow> packed_object S i)"

definition write_path_if_absent :: "store \<Rightarrow> bytes \<Rightarrow> bytes \<Rightarrow> store" where
  "write_path_if_absent S path bs =
     (if loose_files S path = None then S\<lparr>loose_files := (loose_files S)(path \<mapsto> bs)\<rparr> else S)"

definition write_object :: "zlib_lib \<Rightarrow> hash_alg \<Rightarrow> store \<Rightarrow> object_kind \<Rightarrow> bytes \<Rightarrow> (object_id \<times> store) rres" where
  "write_object Z H S kind payload =
     ebind (ensure_within (length payload) MAX_OBJECT_SIZE) (\<lambda>_.
       let i = compute H kind payload; bs = encode_loose Z kind payload in
       ebind (map_err StoreError (loose_object_path i)) (\<lambda>path. Inr (i, write_path_if_absent S path bs)))"

section \<open>A written object is read back\<close>

text \<open>What is at the object's path, if anything, is this object: the code relies on it.\<close>

definition place_free :: "zlib_lib \<Rightarrow> hash_alg \<Rightarrow> store \<Rightarrow> object_kind \<Rightarrow> bytes \<Rightarrow> bool" where
  "place_free Z H S kind payload \<longleftrightarrow>
     (\<forall>path bs. loose_object_path (compute H kind payload) = Inr path \<longrightarrow> loose_files S path = Some bs
        \<longrightarrow> decode_loose Z bs = Inr (kind, payload))"

lemma compute_nonempty: "hash_ok H \<Longrightarrow> id_bytes (compute H k p) \<noteq> []"
proof -
  assume "hash_ok H"
  then have "0 < length (id_bytes (compute H k p))"
    by (simp add: compute_def hash_ok_pos)
  then show ?thesis
    by auto
qed

lemma loose_path_of_empty: "id_bytes i = [] \<Longrightarrow> loose_object_path i \<noteq> Inr path"
  by (cases i) (simp add: loose_object_path_def Let_def str_slice_def)

lemma loose_path_eq:
  assumes "loose_object_path i = Inr path" "loose_object_path j = Inr path"
  shows "i = j"
  using loose_path_injective [of i j] assms loose_path_of_empty by fastforce

lemma MAX_OBJECT_SIZE_u64: "n \<le> MAX_OBJECT_SIZE \<Longrightarrow> n < 2 ^ 64"
  by (simp add: MAX_OBJECT_SIZE_def)

lemma write_object_reads:
  assumes "zlib_ok Z" "hash_ok H" "length p \<le> MAX_OBJECT_SIZE" "place_free Z H S k p"
  shows "\<exists>S'. write_object Z H S k p = Inr (compute H k p, S') \<and> store_read Z H S' (compute H k p) = Inr (k, p)
    \<and> (\<forall>j. j \<noteq> compute H k p \<longrightarrow> store_read Z H S' j = store_read Z H S j)"
proof -
  let ?i = "compute H k p"
  obtain path where path: "loose_object_path ?i = Inr path"
    using loose_path_injective [of ?i ?i] compute_nonempty [OF assms(2)] by blast
  let ?S = "write_path_if_absent S path (encode_loose Z k p)"
  have "decode_loose Z (encode_loose Z k p) = Inr (k, p)"
    using decode_encoded_loose [OF assms(1) MAX_OBJECT_SIZE_u64 [OF assms(3)], of k MAX_OBJECT_SIZE] assms(3)
    by (simp add: decode_loose_def)
  then have "\<exists>bs. loose_files ?S path = Some bs \<and> decode_loose Z bs = Inr (k, p)"
    using assms(4) path by (cases "loose_files S path") (auto simp: write_path_if_absent_def place_free_def)
  then have "store_read Z H ?S ?i = Inr (k, p)"
    by (auto simp: store_read_def path verify_requested_object_def)
  moreover have "store_read Z H ?S j = store_read Z H S j" if "j \<noteq> ?i" for j
  proof (cases "loose_object_path j")
    case (Inr q)
    then have "q \<noteq> path"
      using loose_path_eq [OF _ path] that by blast
    then have "loose_files ?S q = loose_files S q" "packed_object ?S = packed_object S"
      by (simp_all add: write_path_if_absent_def)
    then show ?thesis
      unfolding store_read_def Inr by (simp only: map_err.simps ebind_simps)
  next
    case (Inl e)
    then show ?thesis
      by (cases e) (simp_all add: store_read_def)
  qed
  moreover have "write_object Z H S k p = Inr (?i, ?S)"
    using assms(3) by (simp add: write_object_def ensure_within_def path Let_def)
  ultimately show ?thesis
    by blast
qed

lemma write_object_keeps_free:
  assumes "zlib_ok Z" "length p \<le> MAX_OBJECT_SIZE" "write_object Z H S k p = Inr (i, S')"
    and "place_free Z H S k' p'" "compute H k p = compute H k' p' \<Longrightarrow> k = k' \<and> p = p'"
  shows "place_free Z H S' k' p'"
  unfolding place_free_def
proof (intro allI impI)
  fix q bs assume q: "loose_object_path (compute H k' p') = Inr q" "loose_files S' q = Some bs"
  obtain path where path: "loose_object_path (compute H k p) = Inr path" "S' = write_path_if_absent S path (encode_loose Z k p)"
    using assms(3) by (auto simp: write_object_def ensure_within_def Let_def ebind_eq_Inr split: if_splits)
  show "decode_loose Z bs = Inr (k', p')"
  proof (cases "loose_files S q")
    case (Some b)
    then have "bs = b"
      using q(2) by (auto simp: path write_path_if_absent_def split: if_splits)
    then show ?thesis
      using assms(4) q(1) Some by (simp add: place_free_def)
  next
    case None
    then have "q = path" "bs = encode_loose Z k p"
      using q(2) by (auto simp: path write_path_if_absent_def split: if_splits)
    moreover have "k = k' \<and> p = p'"
      using assms(5) loose_path_eq [OF path(1)] q(1) \<open>q = path\<close> by simp
    ultimately show ?thesis
      using decode_encoded_loose [OF assms(1) MAX_OBJECT_SIZE_u64 [OF assms(2)], of k MAX_OBJECT_SIZE] assms(2)
      by (simp add: decode_loose_def)
  qed
qed

end
