(* ===== verification/Git_Tree_Build.thy ===== *)
theory Git_Tree_Build
  imports Git_Store Git_Tree Git_Index Git_Delta "HOL-Library.Multiset"
begin

text \<open>
  Building and flattening trees, \<open>gitana-repository/src/tree.rs\<close>, with the exact tree paths of
  \<open>gitana-path/src/git_tree_path.rs\<close> and the modes of \<open>mode.rs\<close>. A list of paths becomes nested tree
  objects through an in-memory trie; reading the root recursively gives the list back. The recursion of
  the reader follows ids of the store, and is bounded by a fuel that is shown to suffice.
\<close>

section \<open>Modes and tree paths\<close>

fun mode_str :: "file_mode \<Rightarrow> bytes" where
  "mode_str FmRegular = ascii ''100644''"
| "mode_str FmExecutable = ascii ''100755''"
| "mode_str FmSymlink = ascii ''120000''"
| "mode_str FmDirectory = ascii ''40000''"
| "mode_str FmGitlink = ascii ''160000''"

record tree_path =
  tp_bytes :: bytes
  tp_ends :: "nat list"

definition tp_from_name :: "bytes \<Rightarrow> tree_path" where
  "tp_from_name n = \<lparr>tp_bytes = n, tp_ends = [length n]\<rparr>"

definition tp_join :: "tree_path \<Rightarrow> bytes \<Rightarrow> tree_path" where
  "tp_join p n =
     (let bytes = (if tp_ends p \<noteq> [] then tp_bytes p @ [SLASH] else tp_bytes p) @ n
      in \<lparr>tp_bytes = bytes, tp_ends = tp_ends p @ [length bytes]\<rparr>)"

text \<open>The slices between the recorded ends, each starting after the slash that follows the last one.\<close>

fun cut_components :: "bytes \<Rightarrow> nat \<Rightarrow> nat list \<Rightarrow> ('e, bytes list) res" where
  "cut_components bs start [] = Inr []"
| "cut_components bs start (e # es) =
     ebind (slice bs start e) (\<lambda>c. ebind (cut_components bs (e + 1) es) (\<lambda>cs. Inr (c # cs)))"

definition tp_components :: "tree_path \<Rightarrow> ('e, bytes list) res" where
  "tp_components p = cut_components (tp_bytes p) 0 (tp_ends p)"

fun canonical_join :: "git_path \<Rightarrow> bytes list \<Rightarrow> (path_error, git_path) res" where
  "canonical_join p [] = Inr p"
| "canonical_join p (c # cs) = ebind (component_from_bytes c) (\<lambda>c. canonical_join (path_join p c) cs)"

definition path_of_tree_path :: "tree_path \<Rightarrow> (path_error, git_path) res" where
  "path_of_tree_path p = ebind (tp_components p) (canonical_join root_path)"

section \<open>Reading\<close>

type_synonym flat_entry = "git_path \<times> bytes \<times> object_id"
type_synonym raw_flat_entry = "tree_path \<times> bytes \<times> object_id"

fun walk_entries :: "(object_id \<Rightarrow> tree_path option \<Rightarrow> raw_flat_entry list \<Rightarrow> raw_flat_entry list rres option)
    \<Rightarrow> tree_path option \<Rightarrow> tree_entry list \<Rightarrow> raw_flat_entry list \<Rightarrow> raw_flat_entry list rres option" where
  "walk_entries rec pre [] out = Some (Inr out)"
| "walk_entries rec pre (e # es) out =
     (let path = (case pre of None \<Rightarrow> tp_from_name (name e) | Some p \<Rightarrow> tp_join p (name e))
      in if mode e = mode_str FmDirectory
         then tbind (rec (entry_id e) (Some path) out) (walk_entries rec pre es)
         else walk_entries rec pre es (out @ [(path, mode e, entry_id e)]))"

fun walk_tree :: "nat \<Rightarrow> zlib_lib \<Rightarrow> hash_alg \<Rightarrow> store \<Rightarrow> object_id \<Rightarrow> tree_path option \<Rightarrow> raw_flat_entry list
    \<Rightarrow> raw_flat_entry list rres option" where
  "walk_tree 0 Z H S t pre out = None"
| "walk_tree (Suc n) Z H S t pre out =
     tbind (Some (ebind (store_read Z H S t) (\<lambda>(kind, payload).
       if kind \<noteq> Tree then Inl (Err InvalidRef) else lift_err (parse_tree H payload))))
       (\<lambda>es. walk_entries (walk_tree n Z H S) pre es out)"

definition read_tree_recursive_raw :: "nat \<Rightarrow> zlib_lib \<Rightarrow> hash_alg \<Rightarrow> store \<Rightarrow> object_id \<Rightarrow> raw_flat_entry list rres option" where
  "read_tree_recursive_raw n Z H S t = walk_tree n Z H S t None []"

fun canonical_entries :: "raw_flat_entry list \<Rightarrow> flat_entry list rres" where
  "canonical_entries [] = Inr []"
| "canonical_entries ((path, m, i) # es) =
     ebind (lift_err (map_err InvalidTreeName (path_of_tree_path path))) (\<lambda>p.
       ebind (canonical_entries es) (\<lambda>es. Inr ((p, m, i) # es)))"

definition read_tree_recursive :: "nat \<Rightarrow> zlib_lib \<Rightarrow> hash_alg \<Rightarrow> store \<Rightarrow> object_id \<Rightarrow> flat_entry list rres option" where
  "read_tree_recursive n Z H S t =
     tbind (read_tree_recursive_raw n Z H S t) (\<lambda>es. Some (canonical_entries es))"

section \<open>Building\<close>

record build_entry =
  be_path :: git_path
  be_mode :: file_mode
  be_id :: object_id

type_synonym leaf = "file_mode \<times> object_id"

text \<open>The trie; a \<open>BTreeMap\<close> is a list of pairs in the order of the keys.\<close>

datatype node = Node (leaves: "(bytes \<times> leaf) list") (dirs: "(bytes \<times> node) list")

definition empty_node :: node where "empty_node = Node [] []"

fun bt_insert :: "bytes \<Rightarrow> 'v \<Rightarrow> (bytes \<times> 'v) list \<Rightarrow> (bytes \<times> 'v) list" where
  "bt_insert k v [] = [(k, v)]"
| "bt_insert k v ((k', v') # kvs) =
     (if k < k' then (k, v) # (k', v') # kvs
      else if k = k' then (k, v) # kvs
      else (k', v') # bt_insert k v kvs)"

fun insert_at :: "node \<Rightarrow> bytes list \<Rightarrow> leaf \<Rightarrow> node rres" where
  "insert_at nd [] l = Inl (Err InvalidTree)"
| "insert_at nd [c] l =
     (if c \<in> fst ` set (dirs nd) then Inl (Err InvalidTree)
      else if c \<in> fst ` set (leaves nd) then Inl (Err InvalidTree)
      else Inr (Node (bt_insert c l (leaves nd)) (dirs nd)))"
| "insert_at nd (c # cs) l =
     (if c \<in> fst ` set (leaves nd) then Inl (Err InvalidTree)
      else ebind (insert_at (case map_of (dirs nd) c of None \<Rightarrow> empty_node | Some child \<Rightarrow> child) cs l) (\<lambda>child.
        Inr (Node (leaves nd) (bt_insert c child (dirs nd)))))"

fun all_components :: "bytes list \<Rightarrow> bytes list rres" where
  "all_components [] = Inr []"
| "all_components (c # cs) =
     ebind (map_err InvalidTree (component_from_bytes c)) (\<lambda>c.
       ebind (all_components cs) (\<lambda>cs. Inr (component_bytes c # cs)))"

definition insert_entry :: "node \<Rightarrow> build_entry \<Rightarrow> node rres" where
  "insert_entry nd e =
     ebind (all_components (components (be_path e))) (\<lambda>cs. insert_at nd cs (be_mode e, be_id e))"

fun insert_entries :: "node \<Rightarrow> build_entry list \<Rightarrow> node rres" where
  "insert_entries nd [] = Inr nd"
| "insert_entries nd (e # es) = ebind (insert_entry nd e) (\<lambda>nd. insert_entries nd es)"

definition leaf_entry :: "bytes \<times> leaf \<Rightarrow> tree_entry" where
  "leaf_entry = (\<lambda>(n, m, i). \<lparr>mode = mode_str m, name = n, entry_id = i\<rparr>)"

definition dir_entry :: "bytes \<Rightarrow> object_id \<Rightarrow> tree_entry" where
  "dir_entry n i = \<lparr>mode = mode_str FmDirectory, name = n, entry_id = i\<rparr>"

text \<open>\<open>encode_node\<close>, with the loop over the subdirectories: the children's objects come first.\<close>

fun encode_node :: "hash_alg \<Rightarrow> node \<Rightarrow> (object_id \<times> bytes) list \<Rightarrow> object_id \<times> (object_id \<times> bytes) list"
  and encode_dirs :: "hash_alg \<Rightarrow> (bytes \<times> node) list \<Rightarrow> (object_id \<times> bytes) list
    \<Rightarrow> tree_entry list \<times> (object_id \<times> bytes) list" where
  "encode_node H (Node ls ds) objs =
     (let (es, objs) = encode_dirs H ds objs;
          payload = encode_tree (map leaf_entry ls @ es);
          i = compute H Tree payload
      in (i, objs @ [(i, payload)]))"
| "encode_dirs H [] objs = ([], objs)"
| "encode_dirs H ((n, child) # ds) objs =
     (let (i, objs) = encode_node H child objs; (es, objs) = encode_dirs H ds objs
      in (dir_entry n i # es, objs))"

record prepared_tree =
  pt_root :: object_id
  pt_objects :: "(object_id \<times> bytes) list"

definition prepare_tree :: "hash_alg \<Rightarrow> build_entry list \<Rightarrow> prepared_tree rres" where
  "prepare_tree H es =
     ebind (insert_entries empty_node es) (\<lambda>nd.
       let (root, objs) = encode_node H nd [] in Inr \<lparr>pt_root = root, pt_objects = objs\<rparr>)"

definition compute_tree_id :: "hash_alg \<Rightarrow> build_entry list \<Rightarrow> object_id rres" where
  "compute_tree_id H es = ebind (prepare_tree H es) (\<lambda>p. Inr (pt_root p))"

fun write_prepared :: "zlib_lib \<Rightarrow> hash_alg \<Rightarrow> store \<Rightarrow> (object_id \<times> bytes) list \<Rightarrow> store rres" where
  "write_prepared Z H S [] = Inr S"
| "write_prepared Z H S ((i, payload) # objs) =
     ebind (write_object Z H S Tree payload) (\<lambda>(_, S). write_prepared Z H S objs)"

definition build_tree :: "zlib_lib \<Rightarrow> hash_alg \<Rightarrow> store \<Rightarrow> build_entry list \<Rightarrow> (object_id \<times> store) rres" where
  "build_tree Z H S es =
     ebind (prepare_tree H es) (\<lambda>p. ebind (write_prepared Z H S (pt_objects p)) (\<lambda>S. Inr (pt_root p, S)))"

section \<open>Tree paths are lists of names\<close>

fun ends_from :: "nat \<Rightarrow> bytes list \<Rightarrow> nat list" where
  "ends_from s [] = []"
| "ends_from s (c # cs) = (s + length c) # ends_from (s + length c + 1) cs"

definition tp_of :: "bytes list \<Rightarrow> tree_path" where
  "tp_of cs = \<lparr>tp_bytes = path_of cs, tp_ends = ends_from 0 cs\<rparr>"

lemma ends_from_empty [simp]: "ends_from s cs = [] \<longleftrightarrow> cs = []"
  by (cases cs) simp_all

lemma ends_from_snoc: "ends_from s (cs @ [c]) = ends_from s cs @ [s + length (path_of (cs @ [c]))]"
proof (induction cs arbitrary: s)
  case (Cons a cs)
  then show ?case
    by (simp add: path_of_Cons)
qed simp

lemma tp_of_name: "tp_from_name n = tp_of [n]"
  by (simp add: tp_from_name_def tp_of_def)

lemma tp_join_of: "cs \<noteq> [] \<Longrightarrow> tp_join (tp_of cs) n = tp_of (cs @ [n])"
  by (simp add: tp_join_def tp_of_def ends_from_snoc path_of_append)

lemma cut_components_of:
  "drop s bs = path_of cs \<Longrightarrow> s \<le> length bs \<Longrightarrow> (cut_components bs s (ends_from s cs) :: ('e, bytes list) res) = Inr cs"
proof (induction cs arbitrary: s)
  case (Cons c cs)
  obtain r where r: "drop s bs = c @ r" "cs \<noteq> [] \<Longrightarrow> r = SLASH # path_of cs"
    using Cons.prems(1) by (cases cs) auto
  have "length c + s \<le> length bs"
    using arg_cong [OF r(1), of length] Cons.prems(2) by simp
  then have "(slice bs s (s + length c) :: ('e, bytes) res) = Inr c"
    using r(1) by (simp add: slice_def get_range_def)
  moreover have "(cut_components bs (s + length c + 1) (ends_from (s + length c + 1) cs) :: ('e, bytes list) res) = Inr cs"
  proof (cases "cs = []")
    case False
    have "drop (s + length c + 1) bs = drop (length c + 1) (drop s bs)"
      by (simp add: add.commute add.left_commute)
    then have "drop (s + length c + 1) bs = path_of cs"
      using r False by simp
    moreover have "s + length c + 1 \<le> length bs"
      using arg_cong [OF r(1), of length] r(2) [OF False] Cons.prems(2) by simp
    ultimately show ?thesis
      by (rule Cons.IH)
  qed simp
  ultimately show ?case
    by simp
qed simp

lemma canonical_join_of:
  "\<forall>c \<in> set as. component_ok c \<Longrightarrow> \<forall>c \<in> set cs. component_ok c \<Longrightarrow>
   canonical_join (GitPath (path_of as)) cs = Inr (GitPath (path_of (as @ cs)))"
proof (induction cs arbitrary: as)
  case (Cons c cs)
  then have "component_from_bytes c = Inr (GitPathComponent c)"
    by (simp add: component_from_bytes_ok)
  then show ?case
    using Cons.IH [of "as @ [c]"] Cons.prems by (simp add: path_join_of)
qed simp

lemma path_of_tree_path_of:
  "\<forall>c \<in> set cs. component_ok c \<Longrightarrow> path_of_tree_path (tp_of cs) = Inr (GitPath (path_of cs))"
  using canonical_join_of [of "[]" cs]
  by (simp add: path_of_tree_path_def tp_components_def tp_of_def root_path_def cut_components_of)

section \<open>The trie holds the entries\<close>

fun flat :: "node \<Rightarrow> (bytes list \<times> leaf) list" where
  "flat (Node ls ds) =
     map (\<lambda>(c, l). ([c], l)) ls
     @ concat (map (\<lambda>(c, child). map (\<lambda>(p, l). (c # p, l)) (flat child)) ds)"

fun wf_node :: "node \<Rightarrow> bool" where
  "wf_node (Node ls ds) \<longleftrightarrow>
     sorted_wrt (<) (map fst ls) \<and> sorted_wrt (<) (map fst ds) \<and> fst ` set ls \<inter> fst ` set ds = {}
     \<and> (\<forall>(c, child) \<in> set ds. wf_node child \<and> flat child \<noteq> [])"

lemma flat_nonempty_path: "(p, l) \<in> set (flat nd) \<Longrightarrow> p \<noteq> []"
  by (cases nd) auto

lemma bt_insert_keys: "fst ` set (bt_insert k v kvs) = insert k (fst ` set kvs)"
  by (induction k v kvs rule: bt_insert.induct) auto

lemma bt_insert_sorted: "sorted_wrt (<) (map fst kvs) \<Longrightarrow> sorted_wrt (<) (map fst (bt_insert k v kvs))"
proof (induction k v kvs rule: bt_insert.induct)
  case (2 k v k' v' kvs)
  have "fst ` set (bt_insert k v kvs) = insert k (fst ` set kvs)"
    by (rule bt_insert_keys)
  then show ?case
    using 2 by (auto simp: linorder_not_less order.strict_trans)
qed simp

lemma bt_insert_new: "k \<notin> fst ` set kvs \<Longrightarrow> mset (bt_insert k v kvs) = add_mset (k, v) (mset kvs)"
  by (induction k v kvs rule: bt_insert.induct) auto

lemma bt_insert_old:
  "sorted_wrt (<) (map fst kvs) \<Longrightarrow> map_of kvs k = Some w \<Longrightarrow>
   \<exists>A. mset kvs = add_mset (k, w) A \<and> mset (bt_insert k v kvs) = add_mset (k, v) A"
proof (induction k v kvs rule: bt_insert.induct)
  case (2 k v k' v' kvs)
  consider "k < k'" | "k = k'" | "k' < k"
    using linorder_less_linear by blast
  then show ?case
  proof cases
    case 1
    then have "k \<notin> fst ` set kvs" "k \<noteq> k'"
      using 2(2) by auto
    then show ?thesis
      using 2(3) map_of_eq_None_iff [of kvs k] by simp
  next
    case 3
    then have "\<not> k < k'" "k \<noteq> k'"
      by auto
    then obtain A where "mset kvs = add_mset (k, w) A" "mset (bt_insert k v kvs) = add_mset (k, v) A"
      using 2 by (auto split: if_splits)
    then show ?thesis
      using 3 by (intro exI [of _ "add_mset (k', v') A"]) (auto simp: add_mset_commute)
  qed (use 2(3) in auto)
qed simp

definition clash :: "bytes list \<Rightarrow> bytes list \<Rightarrow> bool" where
  "clash p q \<longleftrightarrow> prefix p q \<or> prefix q p"

definition flat_dir :: "bytes \<times> node \<Rightarrow> (bytes list \<times> leaf) list" where
  "flat_dir = (\<lambda>(c, child). map (\<lambda>(p, l). (c # p, l)) (flat child))"

lemma flat_mset:
  "mset (flat (Node ls ds)) = image_mset (\<lambda>(c, l). ([c], l)) (mset ls) + (\<Sum>d \<in># mset ds. mset (flat_dir d))"
proof -
  have "mset (concat (map flat_dir ds)) = (\<Sum>d \<in># mset ds. mset (flat_dir d))"
    by (induction ds) simp_all
  then show ?thesis
    by (simp add: flat_dir_def)
qed

lemma flat_paths:
  "fst ` set (flat (Node ls ds)) = (\<lambda>c. [c]) ` fst ` set ls \<union> (\<Union>(c, child) \<in> set ds. (#) c ` fst ` set (flat child))"
proof -
  have "fst ` set (flat_dir d) = (case d of (c, child) \<Rightarrow> (#) c ` fst ` set (flat child))" for d
    by (force simp: flat_dir_def split: prod.splits)
  then have "fst ` (\<Union>d \<in> set ds. set (flat_dir d)) = (\<Union>(c, child) \<in> set ds. (#) c ` fst ` set (flat child))"
    unfolding image_UN by simp
  moreover have "set (flat (Node ls ds)) = (\<lambda>(c, l). ([c], l)) ` set ls \<union> (\<Union>d \<in> set ds. set (flat_dir d))"
    by (simp add: flat_dir_def)
  moreover have "fst ` (\<lambda>(c, l). ([c], l)) ` set ls = (\<lambda>c. [c]) ` fst ` set ls"
    by force
  ultimately show ?thesis
    by (simp add: image_Un)
qed

lemma clash_Cons: "clash [] p" "clash p []" "clash (a # q) (c # p) \<longleftrightarrow> a = c \<and> clash q p"
  by (auto simp: clash_def)

lemma clash_flat:
  "(\<exists>q \<in> fst ` set (flat (Node ls ds)). clash q (c # p)) \<longleftrightarrow>
     c \<in> fst ` set ls \<or> (\<exists>child. (c, child) \<in> set ds \<and> (\<exists>q \<in> fst ` set (flat child). clash q p))"
proof -
  have "(\<exists>q \<in> (\<lambda>c. [c]) ` fst ` set ls. clash q (c # p)) \<longleftrightarrow> c \<in> fst ` set ls"
    by (auto simp: clash_Cons)
  moreover have "(\<exists>q \<in> (\<Union>(c, child) \<in> set ds. (#) c ` fst ` set (flat child)). clash q (c # p))
      \<longleftrightarrow> (\<exists>a child. (a, child) \<in> set ds \<and> (\<exists>q \<in> fst ` set (flat child). clash (a # q) (c # p)))"
    by blast
  ultimately show ?thesis
    unfolding flat_paths bex_Un by (auto simp: clash_Cons)
qed

lemma insert_at_ok:
  assumes "wf_node nd" "cs \<noteq> []"
  shows "if \<exists>q \<in> fst ` set (flat nd). clash q cs then insert_at nd cs l = Inl (Err InvalidTree)
    else \<exists>nd'. insert_at nd cs l = Inr nd' \<and> wf_node nd' \<and> mset (flat nd') = add_mset (cs, l) (mset (flat nd))"
  using assms
proof (induction nd cs l rule: insert_at.induct)
  case (2 nd c l)
  obtain ls ds where nd: "nd = Node ls ds"
    by (cases nd)
  have "(\<exists>q \<in> fst ` set (flat nd). clash q [c]) \<longleftrightarrow> c \<in> fst ` set ls \<or> c \<in> fst ` set ds"
  proof -
    have "(\<exists>child. (c, child) \<in> set ds \<and> (\<exists>q \<in> fst ` set (flat child). clash q [])) \<longleftrightarrow> c \<in> fst ` set ds"
    proof
      assume "c \<in> fst ` set ds"
      then obtain child where child: "(c, child) \<in> set ds"
        by auto
      then have "flat child \<noteq> []"
        using 2(1) by (auto simp: nd)
      then show "\<exists>child. (c, child) \<in> set ds \<and> (\<exists>q \<in> fst ` set (flat child). clash q [])"
        using child by (intro exI [of _ child]) (cases "flat child"; auto simp: clash_def)
    qed force
    then show ?thesis
      unfolding nd clash_flat by simp
  qed
  moreover have "wf_node (Node (bt_insert c l ls) ds)" "mset (flat (Node (bt_insert c l ls) ds)) = add_mset ([c], l) (mset (flat nd))"
    if "c \<notin> fst ` set ls" "c \<notin> fst ` set ds"
    using 2(1) that by (auto simp: nd bt_insert_sorted bt_insert_keys bt_insert_new flat_mset simp del: flat.simps)
  ultimately show ?case
    by (auto simp: nd)
next
  case (3 nd c d cs l)
  obtain ls ds where nd: "nd = Node ls ds"
    by (cases nd)
  define child where "child = (case map_of ds c of None \<Rightarrow> empty_node | Some child \<Rightarrow> child)"
  have sorted: "sorted_wrt (<) (map fst ls)" "sorted_wrt (<) (map fst ds)" "fst ` set ls \<inter> fst ` set ds = {}"
    and children: "\<forall>(c, child) \<in> set ds. wf_node child \<and> flat child \<noteq> []"
    using 3(2) by (simp_all add: nd)
  have "distinct (map fst ds)"
    using sorted(2) by (simp add: strict_sorted_iff)
  then have dir: "(c, x) \<in> set ds \<longleftrightarrow> map_of ds c = Some x" for x
    by simp
  have wf: "wf_node child"
    using children dir by (auto simp: child_def empty_node_def split: option.splits)
  have below: "(\<exists>x. (c, x) \<in> set ds \<and> (\<exists>q \<in> fst ` set (flat x). clash q p)) \<longleftrightarrow> (\<exists>q \<in> fst ` set (flat child). clash q p)" for p
    unfolding dir by (auto simp: child_def empty_node_def split: option.splits)
  show ?case
  proof (cases "c \<in> fst ` set ls")
    case True
    then show ?thesis
      unfolding nd clash_flat by simp
  next
    case False
    have lf: "c \<notin> fst ` set (leaves nd)" and ch: "(case map_of (dirs nd) c of None \<Rightarrow> empty_node | Some child \<Rightarrow> child) = child"
      using False by (simp_all add: nd child_def)
    have IH: "if \<exists>q \<in> fst ` set (flat child). clash q (d # cs) then insert_at child (d # cs) l = Inl (Err InvalidTree)
      else \<exists>nd'. insert_at child (d # cs) l = Inr nd' \<and> wf_node nd' \<and> mset (flat nd') = add_mset (d # cs, l) (mset (flat child))"
      by (rule 3(1) [OF lf, unfolded ch, OF wf]) simp
    show ?thesis
    proof (cases "\<exists>q \<in> fst ` set (flat child). clash q (d # cs)")
      case True
      then show ?thesis
        using IH False unfolding nd clash_flat below by (simp add: child_def)
    next
      case ok: False
      then obtain nd' where nd': "insert_at child (d # cs) l = Inr nd'" "wf_node nd'"
        "mset (flat nd') = add_mset (d # cs, l) (mset (flat child))"
        using IH by auto
      let ?new = "Node ls (bt_insert c nd' ds)"
      have ins: "insert_at nd (c # d # cs) l = Inr ?new"
        using nd'(1) False by (simp add: nd child_def)
      have "flat nd' \<noteq> []"
        using nd'(3) by auto
      have dirs': "set (bt_insert c nd' ds) \<subseteq> insert (c, nd') (set ds)"
        by (induction c nd' ds rule: bt_insert.induct) auto
      have "wf_node ?new"
        using sorted children False nd'(2) \<open>flat nd' \<noteq> []\<close> dirs'
        by (auto simp: bt_insert_sorted bt_insert_keys)
      moreover have "(\<Sum>e \<in># mset (bt_insert c nd' ds). mset (flat_dir e))
          = add_mset (c # d # cs, l) (\<Sum>e \<in># mset ds. mset (flat_dir e))"
      proof (cases "map_of ds c")
        case None
        then have "child = empty_node"
          by (simp add: child_def)
        moreover have "c \<notin> fst ` set ds"
          using None map_of_eq_None_iff [of ds c] by simp
        ultimately show ?thesis
          using nd'(3) by (simp add: bt_insert_new flat_dir_def empty_node_def)
      next
        case (Some x)
        then have "child = x"
          by (simp add: child_def)
        then show ?thesis
          using bt_insert_old [OF sorted(2) Some, of nd'] nd'(3) by (auto simp: flat_dir_def)
      qed
      then have "mset (flat ?new) = add_mset (c # d # cs, l) (mset (flat nd))"
        unfolding nd flat_mset by simp
      ultimately show ?thesis
        using ins ok False unfolding nd clash_flat below by auto
    qed
  qed
qed simp

lemma clash_sym: "clash p q \<longleftrightarrow> clash q p"
  by (auto simp: clash_def)

text \<open>What the API of a build entry promises of its path: a \<open>GitPath\<close> is validated.\<close>

definition build_ok :: "hash_alg \<Rightarrow> build_entry \<Rightarrow> bool" where
  "build_ok H e \<longleftrightarrow> path_ok (be_path e) \<and> \<not> is_root (be_path e) \<and> id_ok H (be_id e)"

definition entry_names :: "build_entry \<Rightarrow> bytes list" where
  "entry_names e = components (be_path e)"

definition entry_leaf :: "build_entry \<Rightarrow> bytes list \<times> leaf" where
  "entry_leaf e = (entry_names e, be_mode e, be_id e)"

lemma all_components_ok: "\<forall>c \<in> set cs. component_ok c \<Longrightarrow> all_components cs = Inr cs"
proof (induction cs)
  case (Cons c cs)
  then have "component_from_bytes c = Inr (GitPathComponent c)"
    by (simp add: component_from_bytes_ok)
  then show ?case
    using Cons by simp
qed simp

lemma entry_names_ok:
  assumes "path_ok (be_path e)" "\<not> is_root (be_path e)"
  shows "\<forall>c \<in> set (entry_names e). component_ok c" "be_path e = GitPath (path_of (entry_names e))" "entry_names e \<noteq> []"
  using path_okD [OF assms(1)] assms(2) by (auto simp: entry_names_def is_root_def)

lemma insert_entry_ok:
  assumes "wf_node nd" "path_ok (be_path e)" "\<not> is_root (be_path e)"
  shows "if \<exists>q \<in> fst ` set (flat nd). clash q (entry_names e) then insert_entry nd e = Inl (Err InvalidTree)
    else \<exists>nd'. insert_entry nd e = Inr nd' \<and> wf_node nd' \<and> mset (flat nd') = add_mset (entry_leaf e) (mset (flat nd))"
  using insert_at_ok [OF assms(1) entry_names_ok(3) [OF assms(2,3)], of "(be_mode e, be_id e)"]
    all_components_ok [OF entry_names_ok(1) [OF assms(2,3)]]
  by (simp add: insert_entry_def entry_leaf_def flip: entry_names_def)

text \<open>The list can be built unless one path is equal to or below another.\<close>

definition compatible :: "bytes list list \<Rightarrow> bool" where
  "compatible ps \<longleftrightarrow> sorted_wrt (\<lambda>p q. \<not> clash p q) ps"

lemma insert_entries_ok:
  assumes "wf_node nd" "\<forall>e \<in> set es. path_ok (be_path e) \<and> \<not> is_root (be_path e)"
  shows "if compatible (map entry_names es) \<and> (\<forall>e \<in> set es. \<forall>q \<in> fst ` set (flat nd). \<not> clash q (entry_names e))
    then \<exists>nd'. insert_entries nd es = Inr nd' \<and> wf_node nd'
      \<and> mset (flat nd') = mset (flat nd) + mset (map entry_leaf es)
    else insert_entries nd es = Inl (Err InvalidTree)"
  using assms
proof (induction es arbitrary: nd)
  case (Cons e es)
  have e: "path_ok (be_path e)" "\<not> is_root (be_path e)"
    using Cons.prems(2) by simp_all
  note ins = insert_entry_ok [OF Cons.prems(1) e]
  show ?case
  proof (cases "\<exists>q \<in> fst ` set (flat nd). clash q (entry_names e)")
    case True
    then show ?thesis
      using ins by auto
  next
    case False
    then obtain nd' where nd': "insert_entry nd e = Inr nd'" "wf_node nd'"
      "mset (flat nd') = add_mset (entry_leaf e) (mset (flat nd))"
      using ins by auto
    have "fst ` set (flat nd') = insert (entry_names e) (fst ` set (flat nd))"
      using arg_cong [OF nd'(3), of set_mset] by (simp add: entry_leaf_def)
    then have "(compatible (map entry_names es) \<and> (\<forall>f \<in> set es. \<forall>q \<in> fst ` set (flat nd'). \<not> clash q (entry_names f)))
      \<longleftrightarrow> (compatible (map entry_names (e # es)) \<and> (\<forall>f \<in> set (e # es). \<forall>q \<in> fst ` set (flat nd). \<not> clash q (entry_names f)))"
      using False unfolding compatible_def by auto
    then show ?thesis
      using Cons.IH [OF nd'(2)] Cons.prems(2) nd'(1,3) by (auto simp: ac_simps)
  qed
qed (simp add: compatible_def)

section \<open>The objects read back as the entries\<close>

lemma dir_entry_simps [simp]:
  "mode (dir_entry n i) = mode_str FmDirectory" "name (dir_entry n i) = n" "entry_id (dir_entry n i) = i"
  by (simp_all add: dir_entry_def)

lemma leaf_entry_simps [simp]:
  "mode (leaf_entry (n, m, i)) = mode_str m" "name (leaf_entry (n, m, i)) = n" "entry_id (leaf_entry (n, m, i)) = i"
  by (simp_all add: leaf_entry_def)

lemma mode_str_ok: "utf8_valid (mode_str m) \<and> 0x20 \<notin> set (mode_str m)"
  by (cases m) (simp_all add: utf8_valid.simps)

lemma mode_str_dir [simp]: "mode_str m = mode_str FmDirectory \<longleftrightarrow> m = FmDirectory"
  by (cases m) simp_all

declare mode_str.simps [simp del]

lemma encode_grows:
  "set objs \<subseteq> set (snd (encode_node H nd objs))"
  "set objs \<subseteq> set (snd (encode_dirs H ds objs))"
proof (induction H nd objs and H ds objs rule: encode_node_encode_dirs.induct)
  case (1 H ls ds objs)
  then show ?case
    by (auto simp: Let_def split: prod.splits)
next
  case (3 H n child ds objs)
  then show ?case
    by (fastforce simp: Let_def split: prod.splits)
qed simp

text \<open>An entry for every subdirectory, in order, whose id is that of the subtree, with all its objects
  among those collected.\<close>

definition dirs_encoded :: "hash_alg \<Rightarrow> (object_id \<times> bytes) list \<Rightarrow> (bytes \<times> node) list \<Rightarrow> tree_entry list \<Rightarrow> bool" where
  "dirs_encoded H objs ds es \<longleftrightarrow>
     list_all2 (\<lambda>d e. \<exists>ob. e = dir_entry (fst d) (fst (encode_node H (snd d) ob))
        \<and> set (snd (encode_node H (snd d) ob)) \<subseteq> set objs) ds es"

lemma encode_dirs_entries: "dirs_encoded H (snd (encode_dirs H ds objs)) ds (fst (encode_dirs H ds objs))"
  unfolding dirs_encoded_def
proof (induction ds arbitrary: objs)
  case (Cons d ds)
  obtain i o1 where node: "encode_node H (snd d) objs = (i, o1)"
    by fastforce
  have enc: "encode_dirs H (d # ds) objs = (dir_entry (fst d) i # fst (encode_dirs H ds o1), snd (encode_dirs H ds o1))"
    using node by (cases d) (simp split: prod.splits)
  show ?case
    using Cons.IH [of o1] encode_grows(2) [of o1 H ds] node unfolding enc by (auto intro!: exI [of _ objs])
qed simp

lemma list_all2_mem: "list_all2 P xs ys \<Longrightarrow> y \<in> set ys \<Longrightarrow> \<exists>x \<in> set xs. P x y"
  by (induction rule: list_all2_induct) auto

lemma dirs_encoded_mem:
  assumes "dirs_encoded H objs ds es" "e \<in> set es"
  obtains c child ob where "(c, child) \<in> set ds" "e = dir_entry c (fst (encode_node H child ob))"
    "set (snd (encode_node H child ob)) \<subseteq> set objs"
proof -
  have "\<exists>d \<in> set ds. \<exists>ob. e = dir_entry (fst d) (fst (encode_node H (snd d) ob))
      \<and> set (snd (encode_node H (snd d) ob)) \<subseteq> set objs"
    using list_all2_mem [OF assms(1) [unfolded dirs_encoded_def] assms(2)] .
  then show thesis
    using that by (metis prod.collapse)
qed

lemma dirs_encoded_names: "dirs_encoded H objs ds es \<Longrightarrow> map name es = map fst ds"
  unfolding dirs_encoded_def by (induction rule: list_all2_induct) auto

text \<open>The walk over the entries of one tree, given what the recursion returns for its subtrees.\<close>

abbreviation prefix_path :: "bytes list \<Rightarrow> tree_path option" where
  "prefix_path pre \<equiv> (if pre = [] then None else Some (tp_of pre))"

lemma walk_entries_run:
  assumes "\<And>e out. e \<in> set es \<Longrightarrow> mode e = mode_str FmDirectory \<Longrightarrow>
      \<exists>g. rec (entry_id e) (Some (tp_of (pre @ [name e]))) out = Some (Inr (out @ g)) \<and> mset g = M e"
  shows "\<exists>g. walk_entries rec (prefix_path pre) es out = Some (Inr (out @ g))
    \<and> mset g = (\<Sum>e \<in># mset es. if mode e = mode_str FmDirectory then M e
                 else {#(tp_of (pre @ [name e]), mode e, entry_id e)#})"
  using assms
proof (induction es arbitrary: out)
  case (Cons e es)
  have path: "(case prefix_path pre of None \<Rightarrow> tp_from_name (name e) | Some p \<Rightarrow> tp_join p (name e)) = tp_of (pre @ [name e])"
    by (simp add: tp_of_name tp_join_of)
  have IH: "\<exists>g. walk_entries rec (prefix_path pre) es out = Some (Inr (out @ g))
    \<and> mset g = (\<Sum>e \<in># mset es. if mode e = mode_str FmDirectory then M e
                 else {#(tp_of (pre @ [name e]), mode e, entry_id e)#})" for out
    using Cons by simp
  show ?case
  proof (cases "mode e = mode_str FmDirectory")
    case True
    then obtain g where g: "rec (entry_id e) (Some (tp_of (pre @ [name e]))) out = Some (Inr (out @ g))" "mset g = M e"
      using Cons.prems [of e out] by auto
    obtain h where "walk_entries rec (prefix_path pre) es (out @ g) = Some (Inr ((out @ g) @ h))"
      "mset h = (\<Sum>e \<in># mset es. if mode e = mode_str FmDirectory then M e
                 else {#(tp_of (pre @ [name e]), mode e, entry_id e)#})"
      using IH [of "out @ g"] by blast
    then show ?thesis
      using True g by (intro exI [of _ "g @ h"]) (simp only: walk_entries.simps path Let_def if_True, simp)
  next
    case False
    obtain h where "walk_entries rec (prefix_path pre) es (out @ [(tp_of (pre @ [name e]), mode e, entry_id e)])
        = Some (Inr ((out @ [(tp_of (pre @ [name e]), mode e, entry_id e)]) @ h))"
      "mset h = (\<Sum>e \<in># mset es. if mode e = mode_str FmDirectory then M e
                 else {#(tp_of (pre @ [name e]), mode e, entry_id e)#})"
      using IH by blast
    then show ?thesis
      using False by (intro exI [of _ "(tp_of (pre @ [name e]), mode e, entry_id e) # h"])
        (simp only: walk_entries.simps path Let_def if_False, simp)
  qed
qed simp

definition leaves_ok :: "hash_alg \<Rightarrow> node \<Rightarrow> bool" where
  "leaves_ok H nd \<longleftrightarrow>
     (\<forall>(p, m, i) \<in> set (flat nd). (\<forall>c \<in> set p. component_ok c) \<and> m \<noteq> FmDirectory \<and> id_ok H i)"

definition read_back :: "bytes list \<Rightarrow> bytes list \<times> leaf \<Rightarrow> raw_flat_entry" where
  "read_back pre = (\<lambda>(p, m, i). (tp_of (pre @ p), mode_str m, i))"

lemma image_mset_sum: "image_mset f (\<Sum>d \<in># D. g d) = (\<Sum>d \<in># D. image_mset f (g d))"
  by (induction D) simp_all

lemma leaves_ok_child:
  assumes "leaves_ok H (Node ls ds)" "(c, child) \<in> set ds"
  shows "leaves_ok H child" "flat child \<noteq> [] \<Longrightarrow> component_ok c"
proof -
  have sub: "(c # p, l) \<in> set (flat (Node ls ds))" if "(p, l) \<in> set (flat child)" for p l
    using that assms(2) by force
  show "leaves_ok H child"
    unfolding leaves_ok_def
  proof clarify
    fix p m i assume "(p, m, i) \<in> set (flat child)"
    then show "(\<forall>c \<in> set p. component_ok c) \<and> m \<noteq> FmDirectory \<and> id_ok H i"
      using bspec [OF assms(1) [unfolded leaves_ok_def] sub [of p "(m, i)"]] by simp
  qed
  assume "flat child \<noteq> []"
  then obtain p m i where "(p, m, i) \<in> set (flat child)"
    by (cases "flat child") auto
  then show "component_ok c"
    using bspec [OF assms(1) [unfolded leaves_ok_def] sub [of p "(m, i)"]] by simp
qed

lemma encode_node_id_ok: "hash_ok H \<Longrightarrow> id_ok H (fst (encode_node H nd objs))"
  by (cases nd) (simp add: Let_def split: prod.splits)

lemma encoded_entries_ok:
  assumes "hash_ok H" "wf_node (Node ls ds)" "leaves_ok H (Node ls ds)" "dirs_encoded H objs ds es"
    and "e \<in> set (map leaf_entry ls @ es)"
  shows "entry_ok H e"
proof -
  have "\<exists>x. x \<in> set ls \<and> e = leaf_entry x" if "e \<notin> set es"
    using that assms(5) by auto
  then consider c m i where "(c, m, i) \<in> set ls" "e = leaf_entry (c, m, i)" | "e \<in> set es"
    by (metis prod.exhaust)
  then show ?thesis
  proof cases
    case (1 c m i)
    then have "([c], m, i) \<in> set (flat (Node ls ds))"
      by force
    from bspec [OF assms(3) [unfolded leaves_ok_def] this] show ?thesis
      using 1(2) mode_str_ok [of m] by (simp add: entry_ok_def component_ok_def)
  next
    case 2
    then obtain c child ob where child: "(c, child) \<in> set ds" "e = dir_entry c (fst (encode_node H child ob))"
      using dirs_encoded_mem [OF assms(4)] by metis
    then have "component_ok c"
      using leaves_ok_child(2) [OF assms(3)] assms(2) by auto
    then show ?thesis
      using child(2) encode_node_id_ok [OF assms(1)] mode_str_ok [of FmDirectory]
      by (simp add: entry_ok_def component_ok_def)
  qed
qed

text \<open>What reading one entry adds: itself, or what reading its subtree adds.\<close>

definition entry_reads :: "bytes list \<Rightarrow> (bytes \<times> node) list \<Rightarrow> tree_entry \<Rightarrow> raw_flat_entry multiset" where
  "entry_reads pre ds e =
     (if mode e = mode_str FmDirectory
      then image_mset (read_back (pre @ [name e])) (mset (flat (the (map_of ds (name e)))))
      else {#(tp_of (pre @ [name e]), mode e, entry_id e)#})"

lemma entry_reads_leaves:
  assumes "\<forall>l \<in> set ls. fst (snd l) \<noteq> FmDirectory"
  shows "(\<Sum>e \<in># mset (map leaf_entry ls). entry_reads pre ds e)
    = image_mset (read_back pre) (image_mset (\<lambda>(c, l). ([c], l)) (mset ls))"
  using assms by (induction ls) (auto simp: read_back_def entry_reads_def)

lemma entry_reads_dirs:
  assumes "dirs_encoded H objs ds es" "distinct (map fst ds)"
  shows "(\<Sum>e \<in># mset es. entry_reads pre ds e) = (\<Sum>d \<in># mset ds. image_mset (read_back pre) (mset (flat_dir d)))"
proof -
  let ?f = "\<lambda>c. image_mset (read_back (pre @ [c])) (mset (flat (the (map_of ds c))))"
  have "entry_reads pre ds e = ?f (name e)" if "e \<in> set es" for e
    using dirs_encoded_mem [OF assms(1) that] by (metis dir_entry_simps(1) entry_reads_def)
  then have "(\<Sum>e \<in># mset es. entry_reads pre ds e) = (\<Sum>e \<in># mset es. ?f (name e))"
    by (intro arg_cong [where f = sum_mset] image_mset_cong) simp
  also have "\<dots> = (\<Sum>c \<in># mset (map name es). ?f c)"
    by (simp add: image_mset.compositionality comp_def)
  also have "\<dots> = (\<Sum>d \<in># mset ds. ?f (fst d))"
    unfolding dirs_encoded_names [OF assms(1)] by (simp add: image_mset.compositionality comp_def)
  also have "\<dots> = (\<Sum>d \<in># mset ds. image_mset (read_back pre) (mset (flat_dir d)))"
  proof (intro arg_cong [where f = sum_mset] image_mset_cong)
    fix d assume "d \<in># mset ds"
    then have "map_of ds (fst d) = Some (snd d)"
      using assms(2) by (cases d) simp
    then show "?f (fst d) = image_mset (read_back pre) (mset (flat_dir d))"
      by (cases d) (auto simp: flat_dir_def read_back_def image_mset.compositionality intro!: image_mset_cong)
  qed
  finally show ?thesis .
qed

lemma child_depth:
  assumes "\<forall>(p, l) \<in> set (flat (Node ls ds)). length p \<le> Suc n" "(c, child) \<in> set ds" "flat child \<noteq> []"
  shows "\<forall>(p, l) \<in> set (flat child). length p \<le> n" "1 \<le> n"
proof -
  have depth: "length p \<le> n" if "(p, l) \<in> set (flat child)" for p l
  proof -
    have "(c # p, l) \<in> set (flat (Node ls ds))"
      using that assms(2) by force
    from bspec [OF assms(1) this] show ?thesis
      by simp
  qed
  then show "\<forall>(p, l) \<in> set (flat child). length p \<le> n"
    by blast
  obtain p l where "(p, l) \<in> set (flat child)"
    using assms(3) by (cases "flat child") auto
  then show "1 \<le> n"
    using depth flat_nonempty_path by (cases p) fastforce+
qed

lemma encoded_reads:
  assumes "hash_ok H" "wf_node nd" "leaves_ok H nd" "\<forall>(p, l) \<in> set (flat nd). length p \<le> n" "1 \<le> n"
    and "\<forall>(j, payload) \<in> set (snd (encode_node H nd objs)). store_read Z H S j = Inr (Tree, payload)"
  shows "\<exists>g. walk_tree n Z H S (fst (encode_node H nd objs)) (prefix_path pre) out = Some (Inr (out @ g))
    \<and> mset g = image_mset (read_back pre) (mset (flat nd))"
  using assms(2-)
proof (induction n arbitrary: nd objs pre out)
  case (Suc n)
  obtain ls ds where nd: "nd = Node ls ds"
    by (cases nd)
  obtain es objs' where dirs: "encode_dirs H ds objs = (es, objs')"
    by fastforce
  let ?E = "map leaf_entry ls @ es"
  let ?S = "sort_key tree_sort_key ?E"
  have enc: "encode_node H nd objs = (compute H Tree (encode_tree ?E), objs' @ [(compute H Tree (encode_tree ?E), encode_tree ?E)])"
    by (simp add: nd dirs Let_def)
  have dirs_enc: "dirs_encoded H objs' ds es"
    using encode_dirs_entries [of H ds objs] by (simp add: dirs)
  have children: "\<forall>(c, child) \<in> set ds. wf_node child \<and> flat child \<noteq> []" and distinct: "distinct (map fst ds)"
    using Suc.prems(1) by (simp_all add: nd strict_sorted_iff)
  note prems = Suc.prems [unfolded nd]
  have parse: "parse_tree H (encode_tree ?E) = Inr ?S"
    using encoded_entries_ok [OF assms(1) prems(1,2) dirs_enc] by (simp add: parse_tree_Inr encode_tree_def)
  have read: "store_read Z H S (compute H Tree (encode_tree ?E)) = Inr (Tree, encode_tree ?E)"
    using Suc.prems(5) by (auto simp: enc)
  have leaf: "\<forall>l \<in> set ls. fst (snd l) \<noteq> FmDirectory"
    using prems(2) by (fastforce simp: leaves_ok_def)
  have "\<exists>g. walk_tree n Z H S (entry_id e) (Some (tp_of (pre @ [name e]))) out = Some (Inr (out @ g))
      \<and> mset g = image_mset (read_back (pre @ [name e])) (mset (flat (the (map_of ds (name e)))))"
    if e: "e \<in> set ?S" "mode e = mode_str FmDirectory" for e out
  proof -
    have "e \<notin> leaf_entry ` set ls"
      using e(2) leaf by auto
    then have "e \<in> set es"
      using e(1) by simp
    then obtain c child ob where child: "(c, child) \<in> set ds" "e = dir_entry c (fst (encode_node H child ob))"
      "set (snd (encode_node H child ob)) \<subseteq> set objs'"
      using dirs_encoded_mem [OF dirs_enc] by metis
    then have wf: "wf_node child" "flat child \<noteq> []" and "map_of ds c = Some child"
      using children distinct by auto
    moreover have "\<forall>(j, payload) \<in> set (snd (encode_node H child ob)). store_read Z H S j = Inr (Tree, payload)"
      using child(3) Suc.prems(5) by (auto simp: enc)
    ultimately show ?thesis
      using Suc.IH [OF wf(1) leaves_ok_child(1) [OF prems(2) child(1)] child_depth [OF prems(3) child(1) wf(2)],
          where pre = "pre @ [c]"] child(2) by simp
  qed
  from walk_entries_run [where es = ?S and pre = pre and rec = "walk_tree n Z H S" and out = out, OF this]
  obtain g where g: "walk_entries (walk_tree n Z H S) (prefix_path pre) ?S out = Some (Inr (out @ g))"
    "mset g = (\<Sum>e \<in># mset ?S. entry_reads pre ds e)"
    unfolding entry_reads_def by blast
  then have "mset g = image_mset (read_back pre) (mset (flat nd))"
    using entry_reads_leaves [OF leaf, of pre ds] entry_reads_dirs [OF dirs_enc distinct, of pre]
    unfolding nd flat_mset by (simp add: image_mset_sum)
  moreover have "walk_tree (Suc n) Z H S (fst (encode_node H nd objs)) (prefix_path pre) out = Some (Inr (out @ g))"
    using g(1) by (simp add: enc read parse)
  ultimately show ?case
    by blast
qed simp

section \<open>Writing the objects\<close>

lemma encode_ids:
  "\<forall>(i, p) \<in> set objs. i = compute H Tree p \<Longrightarrow> \<forall>(i, p) \<in> set (snd (encode_node H nd objs)). i = compute H Tree p"
  "\<forall>(i, p) \<in> set objs. i = compute H Tree p \<Longrightarrow> \<forall>(i, p) \<in> set (snd (encode_dirs H ds objs)). i = compute H Tree p"
proof (induction H nd objs and H ds objs rule: encode_node_encode_dirs.induct)
  case (1 H ls ds objs)
  then show ?case
    by (auto simp: Let_def split: prod.splits)
next
  case (3 H n child ds objs)
  then show ?case
    by (simp add: Let_def split: prod.splits)
qed simp

text \<open>No two different trees written have one id, and what is at their places in the store already is
  them: what the code relies on of the digest.\<close>

definition no_collision :: "zlib_lib \<Rightarrow> hash_alg \<Rightarrow> store \<Rightarrow> (object_id \<times> bytes) list \<Rightarrow> bool" where
  "no_collision Z H S objs \<longleftrightarrow>
     (\<forall>(i, p) \<in> set objs. (\<forall>(j, q) \<in> set objs. i = j \<longrightarrow> p = q) \<and> place_free Z H S Tree p)"

lemma no_collision_ConsD:
  assumes "no_collision Z H S ((i, p) # objs)"
  shows "place_free Z H S Tree p" "(j, q) \<in> set objs \<Longrightarrow> i = j \<Longrightarrow> p = q" "no_collision Z H S objs"
  using assms unfolding no_collision_def by fastforce+

lemma write_prepared_ok:
  assumes "zlib_ok Z" "hash_ok H" "no_collision Z H S objs"
    and "\<forall>(i, p) \<in> set objs. i = compute H Tree p \<and> length p \<le> MAX_OBJECT_SIZE"
  shows "\<exists>S'. write_prepared Z H S objs = Inr S' \<and> (\<forall>(i, p) \<in> set objs. store_read Z H S' i = Inr (Tree, p))
    \<and> (\<forall>j. j \<notin> fst ` set objs \<longrightarrow> store_read Z H S' j = store_read Z H S j)"
  using assms(3,4)
proof (induction objs arbitrary: S)
  case (Cons a objs)
  obtain i p where a: "a = (i, p)"
    by fastforce
  then have i: "compute H Tree p = i" "length p \<le> MAX_OBJECT_SIZE"
    using Cons.prems(2) by simp_all
  note nc = no_collision_ConsD [OF Cons.prems(1) [unfolded a]]
  obtain S1 where S1: "write_object Z H S Tree p = Inr (i, S1)" "store_read Z H S1 i = Inr (Tree, p)"
    "\<forall>j. j \<noteq> i \<longrightarrow> store_read Z H S1 j = store_read Z H S j"
    using write_object_reads [OF assms(1,2) i(2) nc(1)] i(1) by blast
  have objs: "\<forall>(j, q) \<in> set objs. j = compute H Tree q \<and> length q \<le> MAX_OBJECT_SIZE"
    using Cons.prems(2) by simp
  have "place_free Z H S1 Tree q" if "(j, q) \<in> set objs" for j q
  proof (rule write_object_keeps_free [OF assms(1) i(2) S1(1)])
    show "place_free Z H S Tree q"
      using nc(3) that unfolding no_collision_def by fastforce
    assume "compute H Tree p = compute H Tree q"
    then show "Tree = Tree \<and> p = q"
      using nc(2) [OF that] objs that i(1) by fastforce
  qed
  then have "no_collision Z H S1 objs"
    using nc(3) unfolding no_collision_def by fast
  then obtain S' where S': "write_prepared Z H S1 objs = Inr S'"
    "\<forall>(j, q) \<in> set objs. store_read Z H S' j = Inr (Tree, q)"
    "\<forall>j. j \<notin> fst ` set objs \<longrightarrow> store_read Z H S' j = store_read Z H S1 j"
    using Cons.IH objs by blast
  have "store_read Z H S' i = Inr (Tree, p)"
  proof (cases "i \<in> fst ` set objs")
    case True
    then obtain q where "(i, q) \<in> set objs"
      by auto
    then show ?thesis
      using S'(2) nc(2) by fastforce
  qed (use S'(3) S1(2) in simp)
  moreover have "write_prepared Z H S (a # objs) = Inr S'"
    by (simp add: a S1(1) S'(1))
  ultimately show ?case
    using S'(2,3) S1(3) by (intro exI [of _ S']) (auto simp: a)
qed simp

lemma canonical_entries_ok:
  "\<forall>(t, m, i) \<in> set g. \<exists>p. t = tp_of p \<and> (\<forall>c \<in> set p. component_ok c) \<Longrightarrow>
   canonical_entries g = Inr (map (\<lambda>(t, m, i). (projr (path_of_tree_path t), m, i)) g)"
proof (induction g)
  case (Cons a g)
  obtain t m i where a: "a = (t, m, i)"
    by (cases a) auto
  obtain p where p: "t = tp_of p" "\<forall>c \<in> set p. component_ok c"
    using Cons.prems a by auto
  show ?case
    using Cons p by (simp add: a path_of_tree_path_of)
qed simp

lemma canonical_back:
  assumes "\<forall>e \<in> set es. path_ok (be_path e) \<and> \<not> is_root (be_path e)"
    and "mset g = image_mset (read_back []) (mset (map entry_leaf es))"
  shows "\<exists>out. canonical_entries g = Inr out \<and> mset out = mset (map (\<lambda>e. (be_path e, mode_str (be_mode e), be_id e)) es)"
proof -
  let ?canon = "\<lambda>(t, m, i). (projr (path_of_tree_path t), m, i)"
  have g: "mset g = mset (map (\<lambda>e. read_back [] (entry_leaf e)) es)"
    using assms(2) by (simp add: image_mset.compositionality comp_def)
  then have "set g = (\<lambda>e. read_back [] (entry_leaf e)) ` set es"
    using mset_eq_setD by fastforce
  then have "canonical_entries g = Inr (map ?canon g)"
    using entry_names_ok(1) assms(1) by (intro canonical_entries_ok) (fastforce simp: read_back_def entry_leaf_def)
  moreover have "mset (map ?canon g) = mset (map (\<lambda>e. ?canon (read_back [] (entry_leaf e))) es)"
    using g by (simp add: image_mset.compositionality comp_def)
  moreover have "?canon (read_back [] (entry_leaf e)) = (be_path e, mode_str (be_mode e), be_id e)" if "e \<in> set es" for e
  proof -
    have "path_of_tree_path (tp_of (entry_names e)) = Inr (be_path e)"
      using path_of_tree_path_of [of "entry_names e"] entry_names_ok(1,2) [of e] assms(1) that by auto
    then show ?thesis
      by (simp add: read_back_def entry_leaf_def)
  qed
  then have "map (\<lambda>e. ?canon (read_back [] (entry_leaf e))) es = map (\<lambda>e. (be_path e, mode_str (be_mode e), be_id e)) es"
    by (intro map_cong) auto
  ultimately show ?thesis
    by (intro exI [of _ "map ?canon g"]) (simp only: simp_thms)
qed

lemma prepared_trie:
  assumes "\<forall>e \<in> set es. path_ok (be_path e) \<and> \<not> is_root (be_path e)"
  shows "if compatible (map entry_names es)
    then \<exists>nd. wf_node nd \<and> mset (flat nd) = mset (map entry_leaf es)
      \<and> prepare_tree H es = Inr \<lparr>pt_root = fst (encode_node H nd []), pt_objects = snd (encode_node H nd [])\<rparr>
    else prepare_tree H es = Inl (Err InvalidTree)"
proof -
  have "wf_node empty_node" "flat empty_node = []"
    by (simp_all add: empty_node_def)
  note ins = insert_entries_ok [OF this(1) assms, unfolded this(2)]
  show ?thesis
  proof (cases "compatible (map entry_names es)")
    case True
    then obtain nd where "insert_entries empty_node es = Inr nd" "wf_node nd" "mset (flat nd) = mset (map entry_leaf es)"
      using ins by auto
    then show ?thesis
      using True by (auto simp: prepare_tree_def case_prod_beta Let_def)
  next
    case False
    then show ?thesis
      using ins by (simp add: prepare_tree_def)
  qed
qed

section \<open>The tree does not depend on the order of the entries\<close>

lemma sorted_keys_unique:
  assumes "sorted_wrt (<) (map fst xs)" "sorted_wrt (<) (map fst ys)" "set xs = set ys"
  shows "xs = (ys :: ('a :: linorder \<times> 'b) list)"
proof (rule map_sorted_distinct_set_unique)
  show "inj_on fst (set xs \<union> set ys)"
    using assms by (simp add: strict_sorted_iff distinct_map)
qed (use assms in \<open>auto simp: strict_sorted_iff distinct_map\<close>)

lemma flat_leaf: "(c, l) \<in> set ls \<longleftrightarrow> ([c], l) \<in> set (flat (Node ls ds))"
  using flat_nonempty_path by fastforce

definition below_dir :: "bytes \<Rightarrow> node \<Rightarrow> (bytes list \<times> leaf) set" where
  "below_dir c nd = {(p, l). p \<noteq> [] \<and> (c # p, l) \<in> set (flat nd)}"

lemma flat_below:
  "p \<noteq> [] \<Longrightarrow> (c # p, l) \<in> set (flat (Node ls ds)) \<longleftrightarrow> (\<exists>child. (c, child) \<in> set ds \<and> (p, l) \<in> set (flat child))"
  by force

lemma below_dir_child:
  assumes "wf_node (Node ls ds)"
  shows "(c, child) \<in> set ds \<Longrightarrow> below_dir c (Node ls ds) = set (flat child)"
    and "below_dir c (Node ls ds) \<noteq> {} \<Longrightarrow> \<exists>child. (c, child) \<in> set ds"
proof -
  have "(c, x) \<in> set ds \<longleftrightarrow> map_of ds c = Some x" for x
    using assms by (simp add: strict_sorted_iff)
  then have "x = child" if "(c, child) \<in> set ds" "(c, x) \<in> set ds" for x
    using that by simp
  moreover have "(p, l) \<in> below_dir c (Node ls ds) \<longleftrightarrow> p \<noteq> [] \<and> (\<exists>x. (c, x) \<in> set ds \<and> (p, l) \<in> set (flat x))" for p l
    using flat_below [of p c l ls ds] by (simp add: below_dir_def del: flat.simps) blast
  ultimately show "below_dir c (Node ls ds) = set (flat child)" if "(c, child) \<in> set ds"
    using that flat_nonempty_path by (intro set_eqI) (metis prod.collapse)
  show "\<exists>child. (c, child) \<in> set ds" if "below_dir c (Node ls ds) \<noteq> {}"
    using that by (auto simp: below_dir_def flat_below simp del: flat.simps)
qed

lemma wf_node_unique: "wf_node nd \<Longrightarrow> wf_node nd' \<Longrightarrow> set (flat nd) = set (flat nd') \<Longrightarrow> nd = nd'"
proof (induction nd arbitrary: nd' rule: flat.induct)
  case (1 ls ds)
  obtain ls' ds' where nd': "nd' = Node ls' ds'"
    by (cases nd')
  note wf = 1(2) 1(3) [unfolded nd']
  have "x \<in> set ls \<longleftrightarrow> x \<in> set ls'" for x
    using flat_leaf [of "fst x" "snd x" ls ds] flat_leaf [of "fst x" "snd x" ls' ds'] 1(4)
    unfolding nd' by (simp del: flat.simps)
  then have "set ls = set ls'"
    by blast
  moreover have same: "below_dir c (Node ls ds) = below_dir c (Node ls' ds')" for c
    using 1(4) by (simp add: below_dir_def nd')
  have eq: "child = child'" if "(c, child) \<in> set ds" "(c, child') \<in> set ds'" for c child child'
    using that wf below_dir_child(1) [OF wf(1) that(1)] below_dir_child(1) [OF wf(2) that(2)] same
    by (intro 1(1) [OF that(1) refl]) auto
  have "set ds = set ds'"
  proof (intro set_eqI iffI; clarify)
    fix c child assume d: "(c, child) \<in> set ds"
    then have "below_dir c (Node ls' ds') \<noteq> {}"
      using below_dir_child(1) [OF wf(1)] wf(1) same by auto
    then show "(c, child) \<in> set ds'"
      using below_dir_child(2) [OF wf(2)] eq d by blast
  next
    fix c child assume d: "(c, child) \<in> set ds'"
    then have "below_dir c (Node ls ds) \<noteq> {}"
      using below_dir_child(1) [OF wf(2)] wf(2) same by auto
    then show "(c, child) \<in> set ds"
      using below_dir_child(2) [OF wf(1)] eq d by blast
  qed
  ultimately show ?case
    using sorted_keys_unique [of ls ls'] sorted_keys_unique [of ds ds'] wf by (simp add: nd')
qed

lemma compatible_iff:
  "compatible ps \<longleftrightarrow> distinct ps \<and> (\<forall>p \<in> set ps. \<forall>q \<in> set ps. p \<noteq> q \<longrightarrow> \<not> clash p q)"
  unfolding compatible_def
proof (induction ps)
  case (Cons p ps)
  have "clash p p"
    by (simp add: clash_def)
  then show ?case
    using Cons clash_sym by auto
qed simp

lemma compatible_mset: "mset ps = mset qs \<Longrightarrow> compatible ps \<longleftrightarrow> compatible qs"
  using mset_eq_setD [of ps qs] mset_eq_imp_distinct_iff [of ps qs] by (simp add: compatible_iff)

lemma prepared_order:
  assumes "mset es = mset es'" "\<forall>e \<in> set es. path_ok (be_path e) \<and> \<not> is_root (be_path e)"
  shows "prepare_tree H es = prepare_tree H es'"
proof -
  have ok: "\<forall>e \<in> set es'. path_ok (be_path e) \<and> \<not> is_root (be_path e)"
    using assms mset_eq_setD [OF assms(1)] by simp
  have maps: "mset (map f es) = mset (map f es')" for f :: "build_entry \<Rightarrow> 'b"
    using assms(1) by simp
  have comp: "compatible (map entry_names es) \<longleftrightarrow> compatible (map entry_names es')"
    using maps by (rule compatible_mset)
  show ?thesis
  proof (cases "compatible (map entry_names es)")
    case True
    obtain nd where nd: "wf_node nd" "mset (flat nd) = mset (map entry_leaf es)"
      "prepare_tree H es = Inr \<lparr>pt_root = fst (encode_node H nd []), pt_objects = snd (encode_node H nd [])\<rparr>"
      using prepared_trie [OF assms(2), of H] True by auto
    obtain nd' where nd': "wf_node nd'" "mset (flat nd') = mset (map entry_leaf es')"
      "prepare_tree H es' = Inr \<lparr>pt_root = fst (encode_node H nd' []), pt_objects = snd (encode_node H nd' [])\<rparr>"
      using prepared_trie [OF ok, of H] True comp by auto
    have "mset (flat nd) = mset (flat nd')"
      using nd(2) nd'(2) maps by simp
    then have "nd = nd'"
      using wf_node_unique [OF nd(1) nd'(1)] mset_eq_setD by blast
    then show ?thesis
      using nd(3) nd'(3) by simp
  next
    case False
    then show ?thesis
      using prepared_trie [OF assms(2), of H] prepared_trie [OF ok, of H] comp by simp
  qed
qed

section \<open>Properties\<close>

definition sample_entries :: "build_entry list" where
  "sample_entries =
     [\<lparr>be_path = GitPath (ascii ''d/b''), be_mode = FmExecutable, be_id = ObjectId (replicate 20 1)\<rparr>,
      \<lparr>be_path = GitPath (ascii ''z''), be_mode = FmRegular, be_id = ObjectId (replicate 20 2)\<rparr>]"

text \<open>A digest that can be followed by hand: the last bytes, backwards.\<close>

definition tail_hash :: hash_alg where
  "tail_hash = sha1 (\<lambda>x. take 20 (rev x @ replicate 20 0))"

definition empty_store :: store where
  "empty_store = \<lparr>loose_files = Map.empty, packed_object = \<lambda>_. Inl (Err StoreError)\<rparr>"

lemma sample_entries_ok:
  "\<forall>e \<in> set sample_entries. build_ok tail_hash e \<and> be_mode e \<noteq> FmDirectory \<and> length (entry_names e) \<le> 2"
  by code_simp

lemma sample_prepared:
  obtains p where "prepare_tree tail_hash sample_entries = Inr p" "no_collision toy_zlib tail_hash empty_store (pt_objects p)"
    "\<forall>(i, payload) \<in> set (pt_objects p). length payload \<le> MAX_OBJECT_SIZE"
proof -
  have "case prepare_tree tail_hash sample_entries of
      Inr p \<Rightarrow> distinct (map fst (pt_objects p)) \<and> list_all (\<lambda>(i, payload). length payload \<le> 100) (pt_objects p)
    | Inl _ \<Rightarrow> False"
    by code_simp
  then obtain p where p: "prepare_tree tail_hash sample_entries = Inr p" "distinct (map fst (pt_objects p))"
    "list_all (\<lambda>(i, payload). length payload \<le> 100) (pt_objects p)"
    by (auto split: sum.splits)
  have "no_collision toy_zlib tail_hash empty_store (pt_objects p)"
    using p(2) by (auto simp: no_collision_def place_free_def empty_store_def dest: eq_key_imp_eq_value)
  moreover have "\<forall>(i, payload) \<in> set (pt_objects p). length payload \<le> MAX_OBJECT_SIZE"
    using p(3) by (auto simp: list_all_iff MAX_OBJECT_SIZE_def)
  ultimately show thesis
    using p(1) that by blast
qed

text \<open>C8: When the entries (files, links and submodules; no entry of mode directory) prepare and their
  trees fit the store, building writes them all: the root
  it returns is the id computed without a store, reading the root recursively gives back every entry
  with its canonical path, its mode and its id, and no other object of the store changes.\<close>

theorem tree_build_round_trip:
  assumes "zlib_ok Z" "hash_ok H" "\<forall>e \<in> set es. build_ok H e \<and> be_mode e \<noteq> FmDirectory \<and> length (entry_names e) \<le> n"
    and "prepare_tree H es = Inr p" "no_collision Z H S (pt_objects p)"
    and "\<forall>(i, payload) \<in> set (pt_objects p). length payload \<le> MAX_OBJECT_SIZE"
  shows "\<exists>S' out. build_tree Z H S es = Inr (pt_root p, S') \<and> compute_tree_id H es = Inr (pt_root p)
    \<and> read_tree_recursive (Suc n) Z H S' (pt_root p) = Some (Inr out)
    \<and> mset out = mset (map (\<lambda>e. (be_path e, mode_str (be_mode e), be_id e)) es)
    \<and> (\<forall>j. j \<notin> fst ` set (pt_objects p) \<longrightarrow> store_read Z H S' j = store_read Z H S j)"
proof -
  have paths: "\<forall>e \<in> set es. path_ok (be_path e) \<and> \<not> is_root (be_path e)"
    using assms(3) by (simp add: build_ok_def)
  obtain nd where nd: "wf_node nd" "mset (flat nd) = mset (map entry_leaf es)"
    "p = \<lparr>pt_root = fst (encode_node H nd []), pt_objects = snd (encode_node H nd [])\<rparr>"
    using prepared_trie [OF paths, of H] assms(4) by (auto split: if_splits)
  have leaves: "set (flat nd) = entry_leaf ` set es"
    using arg_cong [OF nd(2), of set_mset] by simp
  have written: "\<forall>(i, payload) \<in> set (pt_objects p). i = compute H Tree payload \<and> length payload \<le> MAX_OBJECT_SIZE"
    using encode_ids(1) [of "[]" H nd] assms(6) nd(3) by fastforce
  obtain S' where S': "write_prepared Z H S (pt_objects p) = Inr S'"
    "\<forall>(i, payload) \<in> set (pt_objects p). store_read Z H S' i = Inr (Tree, payload)"
    "\<forall>j. j \<notin> fst ` set (pt_objects p) \<longrightarrow> store_read Z H S' j = store_read Z H S j"
    using write_prepared_ok [OF assms(1,2,5) written] by blast
  have "\<forall>(q, l) \<in> set (flat nd). length q \<le> Suc n"
    unfolding leaves using assms(3) by (auto simp: entry_leaf_def)
  moreover have "leaves_ok H nd"
    unfolding leaves_ok_def leaves using assms(3) entry_names_ok(1) by (auto simp: entry_leaf_def build_ok_def)
  ultimately obtain g where g: "walk_tree (Suc n) Z H S' (pt_root p) None [] = Some (Inr g)"
    "mset g = image_mset (read_back []) (mset (flat nd))"
    using encoded_reads [OF assms(2) nd(1), of "Suc n" "[]" Z S' "[]" "[]"] S'(2) nd(3) by auto
  then obtain out where "canonical_entries g = Inr out"
    "mset out = mset (map (\<lambda>e. (be_path e, mode_str (be_mode e), be_id e)) es)"
    using canonical_back [OF paths, of g] nd(2) by auto
  moreover have "read_tree_recursive (Suc n) Z H S' (pt_root p) = Some (canonical_entries g)"
    by (simp add: read_tree_recursive_def read_tree_recursive_raw_def g(1) del: walk_tree.simps)
  moreover have "build_tree Z H S es = Inr (pt_root p, S')"
    by (simp add: build_tree_def assms(4) S'(1))
  moreover have "compute_tree_id H es = Inr (pt_root p)"
    by (simp add: compute_tree_id_def assms(4))
  ultimately show ?thesis
    using S'(3) by auto
qed

theorem tree_build_round_trip_witness:
  "\<exists>root S' out. build_tree toy_zlib tail_hash empty_store sample_entries = Inr (root, S')
    \<and> read_tree_recursive 3 toy_zlib tail_hash S' root = Some (Inr out)
    \<and> set out = {(GitPath (ascii ''d/b''), ascii ''100755'', ObjectId (replicate 20 1)),
                 (GitPath (ascii ''z''), ascii ''100644'', ObjectId (replicate 20 2))}"
proof (rule sample_prepared)
  fix p assume p: "prepare_tree tail_hash sample_entries = Inr p"
    "no_collision toy_zlib tail_hash empty_store (pt_objects p)"
    "\<forall>(i, payload) \<in> set (pt_objects p). length payload \<le> MAX_OBJECT_SIZE"
  have "hash_ok tail_hash"
    by (simp add: tail_hash_def sha1_def hash_ok_def min_def)
  have three: "Suc 2 = 3"
    by simp
  from tree_build_round_trip [OF zlib_ok_toy \<open>hash_ok tail_hash\<close> sample_entries_ok p, unfolded three] obtain S' out where
    built: "build_tree toy_zlib tail_hash empty_store sample_entries = Inr (pt_root p, S')"
    "read_tree_recursive 3 toy_zlib tail_hash S' (pt_root p) = Some (Inr out)"
    "mset out = mset (map (\<lambda>e. (be_path e, mode_str (be_mode e), be_id e)) sample_entries)"
    by (elim exE conjE) (rule that)
  have out: "set out = {(GitPath (ascii ''d/b''), ascii ''100755'', ObjectId (replicate 20 1)),
      (GitPath (ascii ''z''), ascii ''100644'', ObjectId (replicate 20 2))}"
    using mset_eq_setD [OF built(3)] by (simp add: sample_entries_def mode_str.simps)
  show ?thesis
    by (intro exI conjI, rule built(1), rule built(2), rule out)
qed

text \<open>C15: Entries prepare exactly when no path is equal to another or below it, and otherwise the error
  is \<open>InvalidTree\<close>; the objects prepared, the root among them, do not depend on the order of the entries.\<close>

theorem prepare_tree_canonical:
  assumes "\<forall>e \<in> set es. path_ok (be_path e) \<and> \<not> is_root (be_path e)"
  shows "(if compatible (map entry_names es) then \<exists>p. prepare_tree H es = Inr p else prepare_tree H es = Inl (Err InvalidTree))
    \<and> (mset es' = mset es \<longrightarrow> prepare_tree H es' = prepare_tree H es)"
  using prepared_trie [OF assms, of H] prepared_order [of es es' H] assms by auto

theorem prepare_tree_canonical_witness:
  "\<exists>p. prepare_tree tail_hash (rev sample_entries) = Inr p \<and> prepare_tree tail_hash sample_entries = Inr p"
proof -
  have "\<forall>e \<in> set sample_entries. path_ok (be_path e) \<and> \<not> is_root (be_path e)" "compatible (map entry_names sample_entries)"
    by code_simp+
  with prepare_tree_canonical [of sample_entries "tail_hash" "rev sample_entries"] show ?thesis
    by auto
qed

end
