(* ===== verification/Spec2Isabelle.thy ===== *)
theory Spec2Isabelle
  imports Git_Prelude Git_Object Git_Pktline Git_Delta Git_Ewah Git_Tree Git_Calendar Git_Signature Git_Text Git_Commit Git_Tag Git_Idx Git_Midx Git_Enumerate Git_Loose Git_Pack Git_Pack_Encode Git_Pack_Round_Trip Git_Pack_Sound Git_Bitmap Git_Bitmap_Correct Git_Diff Git_Merge Git_Path Git_Index Git_Index_Correct Git_Index_File Git_Revision Git_Reach Git_Merge_Base Git_Store Git_Tree_Build
begin

text \<open>
  A model of the core of gitana, an implementation of git in Rust, and the theorems that make it correct.

  \<^bold>\<open>The program and the part modelled.\<close> The repository stores content-addressed objects (blobs, trees,
  commits, annotated tags) as loose files or in packs with delta compression, finds them through pack
  indexes and a multi-pack index, answers reachability questions with walks and with EWAH bitmaps,
  transfers sets of objects as packs framed in pkt-lines, keeps a staging area, compares and merges files
  line by line, and resolves revisions and merge bases over the commit graph. These computations live in
  \<open>crates/core/gitana-object\<close>, \<open>gitana-diff\<close>, \<open>gitana-path\<close>, the index of \<open>gitana-worktree\<close> and the history
  files of \<open>gitana-repository\<close>, and are what the theories translate, function by function and in the order
  of the sources. The other crates orchestrate them over files, processes and the network.

  \<^bold>\<open>Conventions.\<close> A Rust \<open>Result\<close> is the sum type \<open>('e, 'a) res\<close>: \<open>Inr\<close> a value, \<open>Inl (Err e)\<close> an error,
  \<open>Inl Panic\<close> a panic (an index or a slice out of range, a slice off a character boundary, \<open>expect\<close>), so that
  the absence of panics is a theorem. \<open>ebind\<close> is the \<open>?\<close> operator. Byte strings and \<open>str\<close> are lists of
  \<open>8 word\<close>; the UTF-8 checks and character boundaries the code depends on are written out. \<open>u16\<close>, \<open>u32\<close>
  and \<open>u64\<close> fields are words; \<open>usize\<close> values are naturals below \<open>usize_lim = 2 ^ 64\<close> with the checked,
  wrapping or truncating operation of the source spelled out. Unchecked arithmetic that an input can drive
  out of its range wraps, as in a release build (the varint of an index path, the local time of
  \<open>iso_date\<close>). Arithmetic on the frontier of the diff and on day numbers is on unbounded integers: the
  hypothesis \<open>diffable\<close> keeps the first in range, and the days of an \<open>i64\<close> of seconds are far inside it. A loop whose end
  is not evident from its arguments is a \<open>partial_function\<close> with an option as its value, \<open>None\<close> when it
  does not return; every such loop of a property is proved to return. Payloads of error messages are
  dropped unless the code inspects them. Allocation is not modelled.

  \<^bold>\<open>Parameters.\<close> What the sources take from third-party crates is an argument of the definitions: the
  digest functions (field \<open>digest\<close> of \<open>hash_alg\<close>; \<open>hash_ok\<close> states that the output has the declared width),
  deflate and inflate (record \<open>zlib_lib\<close>; \<open>zlib_ok\<close> states that inflating what was deflated gives it back,
  and how the end of a stream is reported), and the CRC-32. The readers that the code itself takes as
  closures (the object lookup of the enumeration, of the bitmap builder, of the delta bases) are functions.
  The repository is a record of its readers (\<open>repo\<close>) at one moment: objects, refs and files of the git
  directory, all of which sit behind asynchronous storage traits. The multi-pack index and the bitmap are
  loaded from these files by the model. Each hypothesis on a parameter is instantiated by a concrete
  function in a witness.

  \<^bold>\<open>Theories.\<close>
  \<^item> \<open>Git_Prelude\<close>: results and panics, slices, searches, big-endian integers, UTF-8, decimal numbers,
    binary search, and the locale \<open>prefix_codec\<close> of self-delimiting formats, interpreted by the formats.
  \<^item> \<open>Git_Object\<close>: \<open>lib.rs\<close>, \<open>kind.rs\<close>, \<open>hash_algorithm.rs\<close>, \<open>id.rs\<close>, \<open>text.rs\<close>: errors, kinds, ids with
    their order and hexadecimal form, the split of a header from a message.
  \<^item> \<open>Git_Pktline\<close>: \<open>pktline.rs\<close>: the frames of the wire protocol and streams of them.
  \<^item> \<open>Git_Delta\<close>: \<open>delta.rs\<close> and the delta encoder of \<open>pack_encode.rs\<close>: applying, computing, round trip.
  \<^item> \<open>Git_Ewah\<close>: \<open>ewah.rs\<close>: bitmaps as sets of positions, compression and its bounded decoding.
  \<^item> \<open>Git_Tree\<close>: \<open>tree.rs\<close>: parsing and the structural validation, characterised as canonical encoding.
  \<^item> \<open>Git_Calendar\<close>, \<open>Git_Signature\<close>, \<open>Git_Text\<close>, \<open>Git_Commit\<close>, \<open>Git_Tag\<close>: \<open>signature.rs\<close>, \<open>commit.rs\<close>,
    \<open>tag.rs\<close>: identity lines and the proleptic calendar, header blocks, parsing, validation, encoding and
    the separation of signatures from signed payloads.
  \<^item> \<open>Git_Idx\<close>, \<open>Git_Midx\<close>: \<open>idx.rs\<close>, \<open>midx.rs\<close>, \<open>revindex.rs\<close>: pack index, multi-pack index and
    reverse index files, lookups, the pack order.
  \<^item> \<open>Git_Loose\<close>: \<open>loose.rs\<close>, with the interface of the zlib library.
  \<^item> \<open>Git_Pack\<close>, \<open>Git_Pack_Encode\<close>: \<open>pack.rs\<close>, \<open>pack_encode.rs\<close>: entry headers, the scan and the delta
    resolution with its waiting tables, random access; the order of the candidates, the delta plan, the
    writer. \<open>Git_Pack_Sound\<close> shows what an accepted pack guarantees, \<open>Git_Pack_Round_Trip\<close> that a written
    pack decodes to its objects and that its index addresses it.
  \<^item> \<open>Git_Enumerate\<close>: \<open>enumerate.rs\<close>: the references of an object and the two walks that find what to send;
    the locale \<open>graph_walk\<close> holds the argument for both.
  \<^item> \<open>Git_Bitmap\<close>, \<open>Git_Bitmap_Correct\<close>: \<open>bitmap.rs\<close>: the file format, the XOR chains, the builder and the
    queries, refined to reachable sets.
  \<^item> \<open>Git_Diff\<close>, \<open>Git_Merge\<close>: \<open>myers.rs\<close>, \<open>merge.rs\<close> of \<open>gitana-diff\<close>: the greedy search with its
    backtracking, shown to find a shortest edit script, and the diff3 merge against its specification.
  \<^item> \<open>Git_Path\<close>: \<open>gitana-path\<close>: validated paths, their operations and the quoting.
  \<^item> \<open>Git_Index\<close>, \<open>Git_Index_Correct\<close>, \<open>Git_Index_File\<close>: \<open>index.rs\<close>, \<open>entry.rs\<close> of \<open>gitana-worktree\<close>: the
    entries and their operations as a finite map from path and stage, the DIRC file with prefix
    compression and extended flags, the split index.
  \<^item> \<open>Git_Reach\<close>: the bitmap in the store (\<open>gitana-object-store/src/lib.rs\<close>): loading the multi-pack index
    and its bitmap, \<open>commit_reaches_any\<close>, which tests bits instead of walking, and the bytes that
    \<open>write_reachability_bitmap\<close> publishes; when the file is one of these (\<open>bitmap_current\<close>), the answer is
    that of the commit history.
  \<^item> \<open>Git_Revision\<close>, \<open>Git_Merge_Base\<close>: \<open>revision.rs\<close>, \<open>shallow.rs\<close>, \<open>merge_base.rs\<close> of
    \<open>gitana-repository\<close>: the revision grammar and its resolution, peeling, the walk by commit dates, the
    ancestry test and the painting walk; the locale \<open>history_graph\<close> holds the arguments for all the walks.
  \<^item> \<open>Git_Store\<close>, \<open>Git_Tree_Build\<close>: \<open>write_object\<close> and \<open>read_object\<close> of \<open>gitana-object-store\<close>; \<open>tree.rs\<close>,
    \<open>mode.rs\<close> of \<open>gitana-repository\<close> and \<open>git_tree_path.rs\<close>: the trie of a list of entries, the tree
    objects it encodes to, and reading a tree back to its entries.

  \<^bold>\<open>What the lemmas show.\<close> For every format: what is written is read back, through every field and
  version the writer uses; what a reader accepts is well formed (widths, order, bounds, checksums, totals),
  and reading does not panic, or panics exactly where a theorem exhibits it. For every algorithm: a
  specification it refines (the reachable difference, a shortest edit script, diff3, the finite map, the
  best common ancestors) and its termination. The theorems that span components are in this theory.

  \<^bold>\<open>Bounds.\<close> A pack holds fewer than \<open>2 ^ 32\<close> objects of at most \<open>MAX_OBJECT_SIZE\<close> bytes, and is shorter than
  \<open>usize_lim\<close>; an index has fewer than \<open>2 ^ 32\<close> entries: the widths of the fields. The inputs of a diff are
  short enough for their frontier to be indexed by \<open>isize\<close> (\<open>diffable\<close>). The walks end because the ids of one
  width are finitely many, the scans because a cursor advances. Only the recursive reading of a tree has
  a fuel, the depth of the tree: one more than the components of the longest path is enough.

  \<^bold>\<open>Divergences found.\<close> The size decoder drops bits past 64 instead of rejecting the number
  (\<open>Git_Delta\<close>); \<open>from_hex\<close> panics on a multi-byte character (\<open>Git_Commit\<close>); a pack whose last header runs
  into the trailer panics (\<open>Git_Pack_Sound\<close>); a revision count beyond 32 bits is read as one
  (\<open>Git_Revision\<close>).

  \<^bold>\<open>Not modelled.\<close> The rest of the object store (\<open>gitana-object-store\<close>: pack lookup, the closure queries,
  repacking, pruning) and the file stores: asynchronous orchestration of files, caches, locks and budgets around the codecs above. The rest of \<open>gitana-repository\<close>, the layout
  and linked worktrees: ref files, transactions and durability protocols, whose meaning is that of the
  file system. Checkout, status and their ignore and pathspec matching in \<open>gitana-worktree\<close>. The smart
  HTTP protocol, configuration, remotes, clone, submodules and porcelain: network, environment and
  user-facing orchestration. Credentials, identity and trust: helper processes and key handling. The
  command line, the MCP server and the WebAssembly components: front ends. Of the modelled files, the
  conversions, \<open>Display\<close> and \<open>Debug\<close> implementations and the caches without observable effect.
\<close>

section \<open>Transfers\<close>

text \<open>C4: a transfer is complete: the objects the sender enumerates for the receiver's wants and haves, written
  as a pack (thin or not) and read by a receiver that holds the bases, come out as exactly the objects
  reachable from the wants and not from the haves, each once and with the sender's content.\<close>

theorem transfer_complete:
  assumes "hash_ok H" "zlib_ok Z" "holds_bases H bases held"
    and "\<forall>i k d. read i = Inr (Some (k, d)) \<longrightarrow> compute H k d = i \<and> length d \<le> MAX_OBJECT_SIZE"
    and "enumerate_objects H wants haves read = Some (Inr objs)" "length objs < 2 ^ 32"
  shows "\<exists>pack. encode_pack_with_bases H Z objs bases = Inr pack
    \<and> (length pack < usize_lim \<longrightarrow>
        (\<exists>out. decode_pack_with_bases H Z crc32 pack held = Inr out
          \<and> distinct (map po_id out)
          \<and> po_id ` set out = reachable_from H read wants - reachable_from H read haves
          \<and> (\<forall>b \<in> set out. read (po_id b) = Inr (Some (po_kind b, po_data b)))))"
proof -
  have objs: "distinct (map po_id objs)" "po_id ` set objs = reachable_from H read wants - reachable_from H read haves"
    "\<forall>b \<in> set objs. read (po_id b) = Inr (Some (po_kind b, po_data b))"
    using enumerate_objects_result [of H read haves wants] assms(5) by (auto split: if_splits)
  then have "packable H objs"
    using assms(4,6) by (fastforce simp: packable_def)
  from written_pack_decodes [OF assms(1,2) this assms(3), of crc32] obtain pack
    where pack: "encode_pack_with_bases H Z objs bases = Inr pack"
      "length pack < usize_lim \<Longrightarrow> \<exists>out. decode_pack_with_bases H Z crc32 pack held = Inr out \<and> mset out = mset objs"
    by blast
  moreover have "distinct (map po_id out) \<longleftrightarrow> distinct (map po_id objs)" "set out = set objs" if "mset out = mset objs" for out
    using that mset_eq_imp_distinct_iff [of "map po_id out" "map po_id objs"] mset_eq_setD [OF that] by simp_all
  ultimately show ?thesis
    using objs by metis
qed

definition blob_store :: reader where
  "blob_store i =
     Inr (if i = compute (sha1 (sum_digest 20)) Blob [1, 2, 3] then Some (Blob, [1, 2, 3]) else None)"

theorem transfer_complete_witness:
  "\<exists>objs pack. enumerate_objects (sha1 (sum_digest 20)) [compute (sha1 (sum_digest 20)) Blob [1, 2, 3]] [] blob_store
       = Some (Inr objs)
     \<and> encode_pack_with_bases (sha1 (sum_digest 20)) toy_zlib objs [] = Inr pack
     \<and> (length pack < usize_lim \<longrightarrow>
        (\<exists>out. decode_pack_with_bases (sha1 (sum_digest 20)) toy_zlib (\<lambda>_. 0) pack [] = Inr out
          \<and> po_id ` set out = {compute (sha1 (sum_digest 20)) Blob [1, 2, 3]}))"
proof -
  let ?H = "sha1 (sum_digest 20)" and ?i = "compute (sha1 (sum_digest 20)) Blob [1, 2, 3]"
  have refers: "\<not> refers ?H blob_store i j" for i j
    by (auto simp: refers_def blob_store_def split: if_splits)
  have "(refers ?H blob_store)\<^sup>*\<^sup>* i j \<longleftrightarrow> i = j" for i j
    using refers by (auto elim: converse_rtranclpE)
  then have reach: "reachable_from ?H blob_store S = set S" for S
    by (auto simp: reachable_from_def)
  have "readable ?H blob_store i" for i
    by (auto simp: readable_def blob_store_def)
  then obtain objs where objs: "enumerate_objects ?H [?i] [] blob_store = Some (Inr objs)"
    "distinct (map po_id objs)" "po_id ` set objs = {?i}"
    using enumerate_objects_result [of ?H blob_store "[]" "[?i]"] unfolding reach by (auto simp: blob_store_def)
  have "length objs = 1"
    using distinct_card [OF objs(2)] objs(3) by simp
  then have "length objs < 2 ^ 32"
    by simp
  moreover have "\<forall>i k d. blob_store i = Inr (Some (k, d)) \<longrightarrow> compute ?H k d = i \<and> length d \<le> MAX_OBJECT_SIZE"
    by (auto simp: blob_store_def MAX_OBJECT_SIZE_def split: if_splits)
  moreover have "holds_bases ?H [] []"
    by (simp add: holds_bases_def)
  ultimately obtain pack where "encode_pack_with_bases ?H toy_zlib objs [] = Inr pack"
    "length pack < usize_lim \<longrightarrow> (\<exists>out. decode_pack_with_bases ?H toy_zlib (\<lambda>_. 0) pack [] = Inr out
       \<and> po_id ` set out = reachable_from ?H blob_store [?i] - reachable_from ?H blob_store [])"
    using transfer_complete [of ?H toy_zlib "[]" "[]" blob_store "[?i]" "[]" objs "\<lambda>_. 0"] objs(1) by (simp, blast)
  then show ?thesis
    using objs(1) unfolding reach by auto
qed

end
